(* ===== verification/Prelude.thy ===== *)
theory Prelude
  imports Main "HOL-Library.Word" "HOL-Library.Monad_Syntax"
begin

text \<open>
  Shared vocabulary of the development.

  \<^item> Vector registers are words (\<open>128 word\<close> for \<open>__m128i\<close>, \<open>256 word\<close> for \<open>__m256i\<close>,
    \<open>64 word\<close> for \<open>__m64\<close>); \<open>lanes\<close> reads one as the list of its lanes, lane 0 (the least
    significant) first, at the width of the result type, and \<open>of_lanes\<close> builds one. The two
    are inverse, and on bytes they are the little-endian memory image of the register.
  \<^item> An array access of the C code is a partial operation: \<open>rd\<close>, \<open>wr\<close>, \<open>loadv\<close> and
    \<open>storev\<close> are \<open>None\<close> outside the array, so a theorem that a routine returns \<open>Some\<close> says
    that none of its accesses leaves its buffers.
  \<^item> A counted loop is \<open>for_range\<close>; \<open>for_int\<close> is the same loop with the C counter of type
    \<open>int\<close>, undefined (\<open>None\<close>) when the counter would overflow.
  \<^item> Two collections: \<open>lane_simps\<close> computes lanes, \<open>mem_simps\<close> computes array accesses.
\<close>

unbundle bit_operations_syntax

named_theorems lane_simps "lane-wise reading of vector operations"
named_theorems mem_simps "array accesses inside their bounds"

type_synonym u8 = "8 word"
type_synonym u16 = "16 word"
type_synonym u32 = "32 word"
type_synonym u64 = "64 word"
type_synonym m64 = "64 word"
type_synonym m128 = "128 word"
type_synonym m256 = "256 word"

lemma u32_bound: "unat (x :: u32) < 2 ^ 32"
  using unsigned_less [of x] by simp

lemma unat_ucast_u64 [simp]: "unat (ucast (x :: u32) :: u64) = unat x"
proof -
  have "unat x < 2 ^ 64" using u32_bound [of x] by simp
  then show ?thesis by (simp add: unsigned_ucast_eq take_bit_nat_eq_self)
qed

lemma unat_drop_bit [simp]: "unat (drop_bit k v) = unat v div 2 ^ k"
  unfolding unat_drop_bit_eq by (simp add: drop_bit_eq_div)

lemma unat_of_nat_small: "n < 2 ^ LENGTH('a) \<Longrightarrow> unat (of_nat n :: 'a::len word) = n"
  by (simp only: unat_of_nat mod_less)

lemma bit_unat_odd: "bit (w :: 'a::len word) n \<longleftrightarrow> odd (unat w div 2 ^ n)"
proof -
  have "bit (unat w) n \<longleftrightarrow> bit w n" by (auto simp: bit_unsigned_iff dest: bit_imp_le_length)
  then show ?thesis by (simp add: bit_iff_odd [of "unat w"])
qed

lemma sint_small:
  fixes x :: "'a::len word"
  assumes "unat x < 2 ^ (LENGTH('a) - 1)"
  shows "sint x = int (unat x)"
proof -
  have u: "uint x = int (unat x)" by simp
  have "int (unat x) < int (2 ^ (LENGTH('a) - 1))" using assms by (simp only: of_nat_less_iff)
  then have "uint x < 2 ^ (LENGTH('a) - 1)" unfolding u of_nat_power by simp
  moreover have "0 \<le> uint x" by simp
  then have "- (2 ^ (LENGTH('a) - 1)) \<le> uint x" by (rule order_trans [rotated]) simp
  ultimately show ?thesis unfolding sint_uint u [symmetric] by (simp add: signed_take_bit_int_eq_self)
qed

lemma unat_power_2: "k < LENGTH('a) \<Longrightarrow> unat (2 ^ k :: 'a::len word) = 2 ^ k"
  using unat_of_nat_small [of "2 ^ k", where 'a = 'a] by (simp add: power_strict_increasing)

lemma replicate_numeral: "replicate (numeral k) x = x # replicate (pred_numeral k) x"
  by (simp add: numeral_eq_Suc)

lemma replicate_split: "v \<le> n \<Longrightarrow> replicate v x @ replicate (n - v) x @ ys = replicate n x @ ys"
  by (simp flip: replicate_add append_assoc)

section \<open>Lanes of a register\<close>

definition lanes :: "'v::len word \<Rightarrow> 'a::len word list" where
  "lanes v = map (\<lambda>i. ucast (drop_bit (LENGTH('a) * i) v)) [0..<LENGTH('v) div LENGTH('a)]"

definition of_lanes :: "'a::len word list \<Rightarrow> 'v::len word" where
  "of_lanes xs = foldr (\<lambda>x acc. ucast x OR push_bit LENGTH('a) acc) xs 0"

lemma length_lanes [simp]:
  "length (lanes (v :: 'v::len word) :: 'a::len word list) = LENGTH('v) div LENGTH('a)"
  by (simp add: lanes_def)

lemma nth_lanes:
  "i < LENGTH('v) div LENGTH('a) \<Longrightarrow>
   (lanes (v :: 'v::len word) :: 'a::len word list) ! i = ucast (drop_bit (LENGTH('a) * i) v)"
  by (simp add: lanes_def)

lemma bit_nth_lanes:
  fixes v :: "'v::len word"
  assumes "i < LENGTH('v) div LENGTH('a)"
  shows "bit ((lanes v :: 'a::len word list) ! i) n \<longleftrightarrow> n < LENGTH('a) \<and> bit v (LENGTH('a) * i + n)"
  using assms by (simp add: nth_lanes bit_simps)

lemma of_lanes_Nil [simp]: "of_lanes [] = 0"
  by (simp add: of_lanes_def)

lemma of_lanes_Cons:
  "of_lanes ((x :: 'a::len word) # xs) = (ucast x OR push_bit LENGTH('a) (of_lanes xs) :: 'v::len word)"
  by (simp add: of_lanes_def)

lemma bit_of_lanes:
  fixes xs :: "'a::len word list"
  shows "bit (of_lanes xs :: 'v::len word) n \<longleftrightarrow>
    n < LENGTH('v) \<and> n div LENGTH('a) < length xs \<and> bit (xs ! (n div LENGTH('a))) (n mod LENGTH('a))"
proof (induction xs arbitrary: n)
  case Nil
  then show ?case by simp
next
  case (Cons x xs)
  show ?case
  proof (cases "n < LENGTH('a)")
    case True
    then show ?thesis
      by (auto simp: of_lanes_Cons bit_simps Cons.IH)
  next
    case False
    then have "n div LENGTH('a) = Suc ((n - LENGTH('a)) div LENGTH('a))"
      and "n mod LENGTH('a) = (n - LENGTH('a)) mod LENGTH('a)"
      by (simp_all add: le_div_geq le_mod_geq)
    with False show ?thesis
      by (auto simp: of_lanes_Cons bit_simps Cons.IH dest: bit_imp_le_length)
  qed
qed

lemma of_lanes_lanes [simp]:
  fixes v :: "'v::len word"
  assumes "LENGTH('a) dvd LENGTH('v)"
  shows "of_lanes (lanes v :: 'a::len word list) = v"
proof (rule bit_word_eqI)
  fix n assume n: "n < LENGTH('v)"
  from assms obtain k where k: "LENGTH('v) = LENGTH('a) * k" by (elim dvdE)
  have "n div LENGTH('a) < LENGTH('v) div LENGTH('a)"
    using n k by (simp add: less_mult_imp_div_less mult.commute)
  with n show "bit (of_lanes (lanes v :: 'a word list) :: 'v word) n = bit v n"
    by (simp add: bit_of_lanes bit_nth_lanes)
qed

lemma lanes_of_lanes [simp]:
  fixes xs :: "'a::len word list"
  assumes "length xs * LENGTH('a) = LENGTH('v)"
  shows "lanes (of_lanes xs :: 'v::len word) = xs"
proof (rule nth_equalityI)
  have len: "LENGTH('v) div LENGTH('a) = length xs"
    by (simp flip: assms)
  then show "length (lanes (of_lanes xs :: 'v word) :: 'a word list) = length xs" by simp
  fix i assume "i < length (lanes (of_lanes xs :: 'v word) :: 'a word list)"
  then have i: "i < length xs" by (simp add: len)
  show "lanes (of_lanes xs :: 'v word) ! i = xs ! i"
  proof (rule bit_word_eqI)
    fix n assume n: "n < LENGTH('a)"
    have d: "(LENGTH('a) * i + n) div LENGTH('a) = i"
      and m: "(LENGTH('a) * i + n) mod LENGTH('a) = n"
      using n by simp_all
    have l: "LENGTH('a) * i + n < LENGTH('v)"
    proof -
      have "LENGTH('a) * i + n < LENGTH('a) * Suc i" using n by simp
      also have "\<dots> \<le> LENGTH('a) * length xs" using i by (intro mult_le_mono2) simp
      finally show ?thesis by (simp add: mult.commute flip: assms)
    qed
    have "bit ((lanes (of_lanes xs :: 'v word) :: 'a word list) ! i) n =
      bit (of_lanes xs :: 'v word) (LENGTH('a) * i + n)"
      using n i len by (simp add: bit_nth_lanes)
    also have "\<dots> = bit (xs ! i) n"
      using i l by (simp only: bit_of_lanes d m simp_thms)
    finally show "bit ((lanes (of_lanes xs :: 'v word) :: 'a word list) ! i) n = bit (xs ! i) n" .
  qed
qed

lemma lanes_eqI:
  fixes v w :: "'v::len word"
  assumes "LENGTH('a) dvd LENGTH('v)" "(lanes v :: 'a::len word list) = lanes w"
  shows "v = w"
  by (metis assms of_lanes_lanes)

lemma lanes_inject:
  fixes v w :: "'v::len word"
  assumes "LENGTH('a) dvd LENGTH('v)"
  shows "(lanes v :: 'a::len word list) = lanes w \<longleftrightarrow> v = w"
  by (metis assms of_lanes_lanes)

lemma of_lanes_replicate_0 [simp]: "of_lanes (replicate k 0 :: 'a::len word list) = (0 :: 'v::len word)"
  by (induction k) (simp_all add: of_lanes_Cons)

text \<open>Narrow lanes are the lanes of the wide lanes.\<close>

lemma of_lanes_append:
  "(of_lanes (xs @ ys) :: 'v::len word) =
   of_lanes xs OR push_bit (length xs * LENGTH('a)) (of_lanes (ys :: 'a::len word list))"
  by (induction xs) (simp_all add: of_lanes_Cons push_bit_or push_bit_push_bit or.assoc)

lemma of_lanes_lanes_ucast:
  assumes "LENGTH('a::len) dvd LENGTH('g::len)"
  shows "(of_lanes (lanes (w :: 'g word) :: 'a word list) :: 'v::len word) = ucast w"
proof (rule bit_word_eqI)
  fix n assume "n < LENGTH('v)"
  from assms obtain k where k: "LENGTH('g) = LENGTH('a) * k" by (elim dvdE)
  have "n div LENGTH('a) < k \<longleftrightarrow> n < LENGTH('g)"
    using k by (simp add: div_less_iff_less_mult mult.commute)
  then show "bit (of_lanes (lanes w :: 'a word list) :: 'v word) n = bit (ucast w :: 'v word) n"
    using k by (auto simp: bit_of_lanes bit_nth_lanes bit_simps dest: bit_imp_le_length)
qed

lemma of_lanes_concat:
  assumes "LENGTH('a::len) dvd LENGTH('g::len)"
  shows "(of_lanes (concat (map (\<lambda>w. lanes w :: 'a word list) ws)) :: 'v::len word) = of_lanes (ws :: 'g word list)"
proof (induction ws)
  case (Cons w ws)
  have "LENGTH('g) div LENGTH('a) * LENGTH('a) = LENGTH('g)" using assms by simp
  then show ?case
    by (simp add: of_lanes_append of_lanes_lanes_ucast [OF assms] Cons.IH of_lanes_Cons)
qed simp

lemma lanes_concat:
  fixes v :: "'v::len word"
  assumes "LENGTH('a::len) dvd LENGTH('g::len)" "LENGTH('g) dvd LENGTH('v)"
  shows "(lanes v :: 'a word list) = concat (map lanes (lanes v :: 'g word list))"
proof -
  have "length (concat (map (\<lambda>w. lanes w :: 'a word list) (lanes v :: 'g word list))) * LENGTH('a) = LENGTH('v)"
    using assms by (simp add: length_concat o_def sum_list_triv mult.assoc)
  moreover have "v = of_lanes (concat (map (\<lambda>w. lanes w :: 'a word list) (lanes v :: 'g word list)))"
    using assms by (simp add: of_lanes_concat)
  ultimately show ?thesis by (metis lanes_of_lanes)
qed

lemma lanes_self [simp]: "lanes (v :: 'v::len word) = [v]"
  by (simp add: lanes_def)

text \<open>A register of \<open>n\<close> lanes by its lanes.\<close>

lemma list_2: "length xs = 2 \<Longrightarrow> xs = [xs ! 0, xs ! 1]"
  by (subst map_nth [symmetric]) (simp add: numeral_eq_Suc upt_rec)

lemma list_4: "length xs = 4 \<Longrightarrow> xs = [xs ! 0, xs ! 1, xs ! 2, xs ! 3]"
  by (subst map_nth [symmetric]) (simp add: numeral_eq_Suc upt_rec)

lemma list_16: "length xs = 16 \<Longrightarrow> xs = [xs ! 0, xs ! 1, xs ! 2, xs ! 3, xs ! 4, xs ! 5, xs ! 6, xs ! 7,
    xs ! 8, xs ! 9, xs ! 10, xs ! 11, xs ! 12, xs ! 13, xs ! 14, xs ! 15]"
  by (subst map_nth [symmetric]) (simp add: numeral_eq_Suc upt_rec)

text \<open>Lane-wise operations, and their lanes.\<close>

definition vmap :: "('a::len word \<Rightarrow> 'b::len word) \<Rightarrow> 'v::len word \<Rightarrow> 'w::len word" where
  "vmap f v = of_lanes (map f (lanes v))"

definition vmap2 :: "('a::len word \<Rightarrow> 'a word \<Rightarrow> 'b::len word) \<Rightarrow>
    'v::len word \<Rightarrow> 'v word \<Rightarrow> 'w::len word" where
  "vmap2 f v w = of_lanes (map2 f (lanes v) (lanes w))"

lemma lanes_vmap [lane_simps]:
  fixes f :: "'a::len word \<Rightarrow> 'b::len word" and v :: "'v::len word"
  assumes "LENGTH('v) div LENGTH('a) * LENGTH('b) = LENGTH('w)"
  shows "lanes (vmap f v :: 'w::len word) = map f (lanes v)"
  using assms by (simp add: vmap_def)

lemma lanes_vmap2 [lane_simps]:
  fixes f :: "'a::len word \<Rightarrow> 'a word \<Rightarrow> 'b::len word" and v w :: "'v::len word"
  assumes "LENGTH('v) div LENGTH('a) * LENGTH('b) = LENGTH('w)"
  shows "lanes (vmap2 f v w :: 'w::len word) = map2 f (lanes v) (lanes w)"
  using assms by (simp add: vmap2_def)

lemma lanes_bitwise:
  fixes v w :: "'v::len word" and f :: "'a::len word \<Rightarrow> 'a word \<Rightarrow> 'a word"
    and g :: "'v word \<Rightarrow> 'v word \<Rightarrow> 'v word"
  assumes dvd: "LENGTH('a) dvd LENGTH('v)"
    and f: "\<And>x y n. n < LENGTH('a) \<Longrightarrow> bit (f x y) n \<longleftrightarrow> F (bit x n) (bit y n)"
    and g: "\<And>x y n. n < LENGTH('v) \<Longrightarrow> bit (g x y) n \<longleftrightarrow> F (bit x n) (bit y n)"
  shows "(lanes (g v w) :: 'a word list) = map2 f (lanes v) (lanes w)"
proof (rule nth_equalityI)
  show "length (lanes (g v w) :: 'a word list) = length (map2 f (lanes v) (lanes w))" by simp
  fix i assume "i < length (lanes (g v w) :: 'a word list)"
  then have i: "i < LENGTH('v) div LENGTH('a)" by simp
  show "lanes (g v w) ! i = map2 f (lanes v) (lanes w) ! i"
  proof (rule bit_word_eqI)
    fix n assume n: "n < LENGTH('a)"
    from dvd obtain k where k: "LENGTH('v) = LENGTH('a) * k" by (elim dvdE)
    with i have "i < k" by simp
    have "LENGTH('a) * i + n < LENGTH('a) * Suc i" using n by simp
    also have "\<dots> \<le> LENGTH('v)" using \<open>i < k\<close> unfolding k by (intro mult_le_mono2) simp
    finally show "bit ((lanes (g v w) :: 'a word list) ! i) n = bit (map2 f (lanes v) (lanes w) ! i) n"
      using i n by (simp add: bit_nth_lanes f g)
  qed
qed

lemma lanes_xor [lane_simps]:
  "LENGTH('a::len) dvd LENGTH('v) \<Longrightarrow>
   (lanes (v XOR w :: 'v::len word) :: 'a word list) = map2 (XOR) (lanes v) (lanes w)"
  by (rule lanes_bitwise [where F = "(\<noteq>)"]) (simp_all add: bit_simps)

lemma lanes_and [lane_simps]:
  "LENGTH('a::len) dvd LENGTH('v) \<Longrightarrow>
   (lanes (v AND w :: 'v::len word) :: 'a word list) = map2 (AND) (lanes v) (lanes w)"
  by (rule lanes_bitwise [where F = "(\<and>)"]) (simp_all add: bit_simps)

lemma lanes_or [lane_simps]:
  "LENGTH('a::len) dvd LENGTH('v) \<Longrightarrow>
   (lanes (v OR w :: 'v::len word) :: 'a word list) = map2 (OR) (lanes v) (lanes w)"
  by (rule lanes_bitwise [where F = "(\<or>)"]) (simp_all add: bit_simps)

lemma lanes_0 [lane_simps]:
  "(lanes (0 :: 'v::len word) :: 'a::len word list) = replicate (LENGTH('v) div LENGTH('a)) 0"
  by (simp add: lanes_def map_replicate_const)

section \<open>Arrays\<close>

definition rd :: "'a list \<Rightarrow> nat \<Rightarrow> 'a option" where
  "rd xs i = (if i < length xs then Some (xs ! i) else None)"

definition wr :: "'a list \<Rightarrow> nat \<Rightarrow> 'a \<Rightarrow> 'a list option" where
  "wr xs i v = (if i < length xs then Some (xs[i := v]) else None)"

lemma rd_in [mem_simps]: "i < length xs \<Longrightarrow> rd xs i = Some (xs ! i)"
  by (simp add: rd_def)

lemma wr_in [mem_simps]: "i < length xs \<Longrightarrow> wr xs i v = Some (xs[i := v])"
  by (simp add: wr_def)

lemma rd_out: "length xs \<le> i \<Longrightarrow> rd xs i = None"
  by (simp add: rd_def)

lemma wr_out: "length xs \<le> i \<Longrightarrow> wr xs i v = None"
  by (simp add: wr_def)

text \<open>
  A vector load or store of \<open>LENGTH('v) div 8\<close> bytes at a byte offset, little-endian, as
  \<open>_mm_loadu_si128\<close>, \<open>_mm256_storeu_si256\<close> or a dereferenced \<open>uint64_t *\<close> do it.
\<close>

definition loadv :: "u8 list \<Rightarrow> nat \<Rightarrow> 'v::len word option" where
  "loadv m off =
     (if off + LENGTH('v) div 8 \<le> length m
      then Some (of_lanes (take (LENGTH('v) div 8) (drop off m))) else None)"

definition storev :: "u8 list \<Rightarrow> nat \<Rightarrow> 'v::len word \<Rightarrow> u8 list option" where
  "storev m off v =
     (if off + LENGTH('v) div 8 \<le> length m
      then Some (take off m @ lanes v @ drop (off + LENGTH('v) div 8) m) else None)"

lemma loadv_in [mem_simps]:
  "off + LENGTH('v) div 8 \<le> length m \<Longrightarrow>
   (loadv m off :: 'v::len word option) = Some (of_lanes (take (LENGTH('v) div 8) (drop off m)))"
  by (simp add: loadv_def)

lemma storev_in [mem_simps]:
  "off + LENGTH('v) div 8 \<le> length m \<Longrightarrow>
   storev m off (v :: 'v::len word) = Some (take off m @ lanes v @ drop (off + LENGTH('v) div 8) m)"
  by (simp add: storev_def)

section \<open>Counted loops\<close>

primrec foldM :: "('a \<Rightarrow> 's \<Rightarrow> 's option) \<Rightarrow> 'a list \<Rightarrow> 's \<Rightarrow> 's option" where
  "foldM f [] s = Some s"
| "foldM f (x # xs) s = Option.bind (f x s) (foldM f xs)"

definition for_range :: "nat \<Rightarrow> nat \<Rightarrow> (nat \<Rightarrow> 's \<Rightarrow> 's option) \<Rightarrow> 's \<Rightarrow> 's option" where
  "for_range lo hi f s = foldM f [lo..<hi] s"

text \<open>\<open>for (int i = 0; i < n; i++)\<close>: undefined when \<open>i\<close> would pass \<open>INT_MAX\<close>.\<close>

definition for_int :: "nat \<Rightarrow> (nat \<Rightarrow> 's \<Rightarrow> 's option) \<Rightarrow> 's \<Rightarrow> 's option" where
  "for_int n f s = (if n < 2 ^ 31 then for_range 0 n f s else None)"

lemma foldM_append: "foldM f (xs @ ys) s = Option.bind (foldM f xs s) (foldM f ys)"
  by (induction xs arbitrary: s) (auto simp: Option.bind_assoc split: Option.bind_split)

lemma foldM_None: "x \<in> set xs \<Longrightarrow> (\<And>s. f x s = None) \<Longrightarrow> foldM f xs s = None"
  by (induction xs arbitrary: s) (auto split: Option.bind_split)

lemma for_range_None: "lo \<le> i \<Longrightarrow> i < hi \<Longrightarrow> (\<And>s. f i s = None) \<Longrightarrow> for_range lo hi f s = None"
  unfolding for_range_def by (rule foldM_None [of i]) simp_all

lemma for_int_None: "i < n \<Longrightarrow> (\<And>s. f i s = None) \<Longrightarrow> for_int n f s = None"
  by (simp add: for_int_def for_range_None)

lemma for_range_empty [simp]: "hi \<le> lo \<Longrightarrow> for_range lo hi f s = Some s"
  by (simp add: for_range_def)

lemma for_range_Suc:
  "lo \<le> hi \<Longrightarrow> for_range lo (Suc hi) f s = Option.bind (for_range lo hi f s) (f hi)"
  by (auto simp: for_range_def foldM_append split: Option.bind_split)

text \<open>The state of a loop that runs to its end, given the state after each iteration.\<close>

lemma for_range_state:
  assumes "lo \<le> hi" and "\<And>i. lo \<le> i \<Longrightarrow> i < hi \<Longrightarrow> f i (g i) = Some (g (Suc i))"
  shows "for_range lo hi f (g lo) = Some (g hi)"
  using assms
proof (induction hi)
  case 0
  then show ?case by simp
next
  case (Suc hi)
  show ?case
  proof (cases "lo = Suc hi")
    case True
    then show ?thesis by simp
  next
    case False
    with Suc.prems(1) have "lo \<le> hi" by simp
    with Suc show ?thesis by (simp add: for_range_Suc)
  qed
qed

lemma for_range_inv:
  assumes "lo \<le> hi" and "P lo s"
    and "\<And>i s. lo \<le> i \<Longrightarrow> i < hi \<Longrightarrow> P i s \<Longrightarrow> \<exists>t. f i s = Some t \<and> P (Suc i) t"
  shows "\<exists>t. for_range lo hi f s = Some t \<and> P hi t"
  using assms
proof (induction hi)
  case 0
  then show ?case by simp
next
  case (Suc hi)
  show ?case
  proof (cases "lo = Suc hi")
    case True
    with Suc.prems(2) show ?thesis by simp
  next
    case False
    with Suc.prems(1) have le: "lo \<le> hi" by simp
    with Suc obtain t where "for_range lo hi f s = Some t" "P hi t" by force
    with le Suc.prems(3) [of hi t] show ?thesis by (auto simp: for_range_Suc)
  qed
qed

lemma for_int_state:
  assumes "n < 2 ^ 31" and "\<And>i. i < n \<Longrightarrow> f i (g i) = Some (g (Suc i))"
  shows "for_int n f (g 0) = Some (g n)"
  using assms for_range_state [of 0 n f g] by (simp add: for_int_def)

lemma for_int_inv:
  assumes "n < 2 ^ 31" and "P 0 s"
    and "\<And>i s. i < n \<Longrightarrow> P i s \<Longrightarrow> \<exists>t. f i s = Some t \<and> P (Suc i) t"
  shows "\<exists>t. for_int n f s = Some t \<and> P n t"
  using assms for_range_inv [of 0 n P s f] by (simp add: for_int_def)

end
