(* ===== verification/Neon.thy ===== *)
theory Neon
  imports Prelude
begin

text \<open>
  The vector language that \<open>sse2neon.h\<close> is written in: the Arm C Language Extensions
  (\<open>arm_neon.h\<close>) and the vector operators of GCC and clang. A register is a word, so the
  \<open>vreinterpret\<close> casts are the identity; one definition covers the signed, unsigned, 64-bit and
  128-bit forms of an instruction that agree lane by lane, the lane width being an argument
  (\<open>TYPE(16)\<close>) or the type of the lanes. A suffix \<open>_s\<close> or \<open>_u\<close> marks an instruction that reads
  its lanes as signed or unsigned integers.
\<close>

section \<open>Building and taking apart\<close>

definition vld1 :: "'a::len word list \<Rightarrow> 'v::len word" where
  "vld1 xs = of_lanes xs"

definition vdup :: "'a::len word \<Rightarrow> 'v::len word" where
  "vdup x = of_lanes (replicate (LENGTH('v) div LENGTH('a)) x)"

definition vget_lane :: "'v::len word \<Rightarrow> nat \<Rightarrow> 'a::len word" where
  "vget_lane v i = lanes v ! i"

definition vset_lane :: "'a::len word \<Rightarrow> 'v::len word \<Rightarrow> nat \<Rightarrow> 'v word" where
  "vset_lane x v i = of_lanes ((lanes v)[i := x])"

definition vget_low :: "'v::len word \<Rightarrow> 'h::len word" where
  "vget_low v = ucast v"

definition vget_high :: "'v::len word \<Rightarrow> 'h::len word" where
  "vget_high v = ucast (drop_bit LENGTH('h) v)"

definition vcombine :: "'h::len word \<Rightarrow> 'h word \<Rightarrow> 'v::len word" where
  "vcombine lo hi = ucast lo OR push_bit LENGTH('h) (ucast hi)"

definition vext :: "'a::len itself \<Rightarrow> 'v::len word \<Rightarrow> 'v word \<Rightarrow> nat \<Rightarrow> 'v word" where
  "vext t a b n = of_lanes (take (LENGTH('v) div LENGTH('a)) (drop n (lanes a @ (lanes b :: 'a word list))))"

definition shufflevector :: "'a::len itself \<Rightarrow> 'v::len word \<Rightarrow> 'v word \<Rightarrow> nat list \<Rightarrow> 'v word" where
  "shufflevector t a b is = of_lanes (map (\<lambda>i. (lanes a @ (lanes b :: 'a word list)) ! i) is)"

text \<open>Table lookups; \<open>vtbl\<close> gives 0 past the table, \<open>vtbx\<close> keeps the lane of its first argument.\<close>

definition vtbl :: "u8 list \<Rightarrow> 'v::len word \<Rightarrow> 'v word" where
  "vtbl table idx = vmap (\<lambda>i :: u8. if unat i < length table then table ! unat i else 0) idx"

definition vtbx :: "'v::len word \<Rightarrow> u8 list \<Rightarrow> 'v word \<Rightarrow> 'v word" where
  "vtbx v table idx = vmap2 (\<lambda>x (i :: u8). if unat i < length table then table ! unat i else x) v idx"

definition vqtbl1 :: "m128 \<Rightarrow> 'v::len word \<Rightarrow> 'v word" where
  "vqtbl1 t idx = vtbl (lanes t) idx"

text \<open>\<open>vrev64_8\<close> and the like: the lanes in reverse order within each group.\<close>

definition vrev :: "'a::len itself \<Rightarrow> 'g::len itself \<Rightarrow> 'v::len word \<Rightarrow> 'v word" where
  "vrev t g v = vmap (\<lambda>x :: 'g word. of_lanes (rev (lanes x :: 'a word list)) :: 'g word) v"

section \<open>Lane-wise arithmetic\<close>

definition vadd :: "'a::len itself \<Rightarrow> 'v::len word \<Rightarrow> 'v word \<Rightarrow> 'v word" where
  "vadd t a b = vmap2 ((+) :: 'a word \<Rightarrow> 'a word \<Rightarrow> 'a word) a b"

definition vsub :: "'a::len itself \<Rightarrow> 'v::len word \<Rightarrow> 'v word \<Rightarrow> 'v word" where
  "vsub t a b = vmap2 ((-) :: 'a word \<Rightarrow> 'a word \<Rightarrow> 'a word) a b"

definition vmul :: "'a::len itself \<Rightarrow> 'v::len word \<Rightarrow> 'v word \<Rightarrow> 'v word" where
  "vmul t a b = vmap2 ((*) :: 'a word \<Rightarrow> 'a word \<Rightarrow> 'a word) a b"

text \<open>Shifts by a constant; \<open>>>\<close> is arithmetic on signed lanes (\<open>vshr_s\<close>), logical on others.\<close>

definition vshl_n :: "'a::len itself \<Rightarrow> 'v::len word \<Rightarrow> nat \<Rightarrow> 'v word" where
  "vshl_n t a n = vmap (push_bit n :: 'a word \<Rightarrow> 'a word) a"

definition vshr_u :: "'a::len itself \<Rightarrow> 'v::len word \<Rightarrow> nat \<Rightarrow> 'v word" where
  "vshr_u t a n = vmap (drop_bit n :: 'a word \<Rightarrow> 'a word) a"

definition vshr_s :: "'a::len itself \<Rightarrow> 'v::len word \<Rightarrow> nat \<Rightarrow> 'v word" where
  "vshr_s t a n = vmap (signed_drop_bit n :: 'a word \<Rightarrow> 'a word) a"

text \<open>
  The register shift \<open>vshl\<close>: each lane is shifted by the signed low byte of the count lane, to the
  right when it is negative. On signed lanes the right shift is arithmetic.
\<close>

definition shl_lane_s :: "'a::len word \<Rightarrow> 'a word \<Rightarrow> 'a word" where
  "shl_lane_s x c = (let s = sint (ucast c :: u8) in
     if 0 \<le> s then push_bit (nat s) x else signed_drop_bit (nat (- s)) x)"

definition shl_lane_u :: "'a::len word \<Rightarrow> 'a word \<Rightarrow> 'a word" where
  "shl_lane_u x c = (let s = sint (ucast c :: u8) in
     if 0 \<le> s then push_bit (nat s) x else drop_bit (nat (- s)) x)"

definition vshl_s :: "'a::len itself \<Rightarrow> 'v::len word \<Rightarrow> 'v word \<Rightarrow> 'v word" where
  "vshl_s t a c = vmap2 (shl_lane_s :: 'a word \<Rightarrow> 'a word \<Rightarrow> 'a word) a c"

definition vshl_u :: "'a::len itself \<Rightarrow> 'v::len word \<Rightarrow> 'v word \<Rightarrow> 'v word" where
  "vshl_u t a c = vmap2 (shl_lane_u :: 'a word \<Rightarrow> 'a word \<Rightarrow> 'a word) a c"

text \<open>\<open>vsra_n\<close> shifts right and accumulates.\<close>

definition vsra_u :: "'a::len itself \<Rightarrow> 'v::len word \<Rightarrow> 'v word \<Rightarrow> nat \<Rightarrow> 'v word" where
  "vsra_u t a b n = vadd t a (vshr_u t b n)"

section \<open>Facts\<close>

lemma lanes_vdup [lane_simps]:
  "LENGTH('a) dvd LENGTH('v) \<Longrightarrow>
   lanes (vdup (x :: 'a::len word) :: 'v::len word) = replicate (LENGTH('v) div LENGTH('a)) x"
  by (simp add: vdup_def)

lemma lanes_vld1 [lane_simps]:
  "length xs * LENGTH('a) = LENGTH('v) \<Longrightarrow> lanes (vld1 (xs :: 'a::len word list) :: 'v::len word) = xs"
  by (simp add: vld1_def)

lemma lanes_vext [lane_simps]:
  fixes a b :: "'v::len word"
  assumes "LENGTH('a) dvd LENGTH('v)" "n \<le> LENGTH('v) div LENGTH('a)"
  shows "(lanes (vext TYPE('a::len) a b n) :: 'a word list) =
    take (LENGTH('v) div LENGTH('a)) (drop n (lanes a @ lanes b))"
  using assms by (simp add: vext_def)

lemma lanes_vtbl [lane_simps]:
  "8 dvd LENGTH('v) \<Longrightarrow> (lanes (vtbl table (idx :: 'v::len word)) :: u8 list) =
   map (\<lambda>i. if unat i < length table then table ! unat i else 0) (lanes idx :: u8 list)"
  by (simp add: vtbl_def lanes_vmap)

lemma lanes_vtbx [lane_simps]:
  "8 dvd LENGTH('v) \<Longrightarrow> (lanes (vtbx v table (idx :: 'v::len word)) :: u8 list) =
   map2 (\<lambda>x i. if unat i < length table then table ! unat i else x) (lanes v) (lanes idx :: u8 list)"
  by (simp add: vtbx_def lanes_vmap2)

lemma lanes_vadd [lane_simps]:
  "LENGTH('a) dvd LENGTH('v) \<Longrightarrow>
   lanes (vadd TYPE('a::len) a (b :: 'v::len word)) = map2 (+) (lanes a) (lanes b :: 'a word list)"
  by (simp add: vadd_def lanes_vmap2)

lemma lanes_vsub [lane_simps]:
  "LENGTH('a) dvd LENGTH('v) \<Longrightarrow>
   lanes (vsub TYPE('a::len) a (b :: 'v::len word)) = map2 (-) (lanes a) (lanes b :: 'a word list)"
  by (simp add: vsub_def lanes_vmap2)

lemma lanes_vshl_n [lane_simps]:
  "LENGTH('a) dvd LENGTH('v) \<Longrightarrow>
   (lanes (vshl_n TYPE('a::len) (a :: 'v::len word) n) :: 'a word list) = map (push_bit n) (lanes a)"
  by (simp add: vshl_n_def lanes_vmap)

lemma lanes_vshr_u [lane_simps]:
  "LENGTH('a) dvd LENGTH('v) \<Longrightarrow>
   (lanes (vshr_u TYPE('a::len) (a :: 'v::len word) n) :: 'a word list) = map (drop_bit n) (lanes a)"
  by (simp add: vshr_u_def lanes_vmap)

lemma lanes_vshr_s [lane_simps]:
  "LENGTH('a) dvd LENGTH('v) \<Longrightarrow>
   (lanes (vshr_s TYPE('a::len) (a :: 'v::len word) n) :: 'a word list) = map (signed_drop_bit n) (lanes a)"
  by (simp add: vshr_s_def lanes_vmap)

lemma bit_vcombine:
  "bit (vcombine (lo :: 'h::len word) hi :: 'v::len word) n \<longleftrightarrow>
   n < LENGTH('v) \<and> (if n < LENGTH('h) then bit lo n else bit hi (n - LENGTH('h)))"
  by (auto simp: vcombine_def bit_simps dest: bit_imp_le_length)

lemma lanes_vcombine [lane_simps]:
  fixes lo hi :: "'h::len word"
  assumes "LENGTH('a) dvd LENGTH('h)" "LENGTH('v) = 2 * LENGTH('h)"
  shows "(lanes (vcombine lo hi :: 'v::len word) :: 'a::len word list) = lanes lo @ lanes hi"
proof -
  obtain k where k: "LENGTH('h) = LENGTH('a) * k" using assms(1) by (elim dvdE)
  show ?thesis
  proof (rule nth_equalityI)
    show len: "length (lanes (vcombine lo hi :: 'v word) :: 'a word list) = length (lanes lo @ lanes hi :: 'a word list)"
      using assms(2) k by simp
    fix i assume i: "i < length (lanes (vcombine lo hi :: 'v word) :: 'a word list)"
    show "(lanes (vcombine lo hi :: 'v word) :: 'a word list) ! i = (lanes lo @ lanes hi :: 'a word list) ! i"
    proof (rule bit_word_eqI)
      fix n assume n: "n < LENGTH('a)"
      have lt: "LENGTH('a) * i + n < LENGTH('a) * k \<longleftrightarrow> i < k"
      proof
        assume "LENGTH('a) * i + n < LENGTH('a) * k"
        then have "LENGTH('a) * i < LENGTH('a) * k" by linarith
        then show "i < k" by simp
      next
        assume "i < k"
        then have "LENGTH('a) * Suc i \<le> LENGTH('a) * k" by (intro mult_le_mono2) simp
        with n show "LENGTH('a) * i + n < LENGTH('a) * k" by simp
      qed
      have "i < 2 * k" using i assms(2) k by simp
      then have "LENGTH('a) * Suc i \<le> LENGTH('a) * (2 * k)" by (intro mult_le_mono2) simp
      with n have "LENGTH('a) * i + n < LENGTH('v)" using assms(2) k by simp
      moreover have "LENGTH('a) * i + n - LENGTH('h) = LENGTH('a) * (i - k) + n" if "\<not> i < k"
        using that lt k by (simp add: diff_mult_distrib2)
      ultimately show "bit ((lanes (vcombine lo hi :: 'v word) :: 'a word list) ! i) n = bit ((lanes lo @ lanes hi :: 'a word list) ! i) n"
        using i n lt k assms(2) by (auto simp: bit_nth_lanes bit_vcombine nth_append)
    qed
  qed
qed

lemma lanes_vrev:
  fixes v :: "'v::len word"
  assumes "LENGTH('a::len) dvd LENGTH('g::len)" "LENGTH('g) dvd LENGTH('v)"
  shows "(lanes (vrev TYPE('a) TYPE('g) v) :: 'a word list) = concat (map (\<lambda>w. rev (lanes w)) (lanes v :: 'g word list))"
proof -
  have r: "lanes (of_lanes (rev (lanes w :: 'a word list)) :: 'g word) = rev (lanes w :: 'a word list)" for w :: "'g word"
    using assms(1) by (intro lanes_of_lanes) simp
  have "(lanes (vrev TYPE('a) TYPE('g) v) :: 'g word list) =
      map (\<lambda>x. of_lanes (rev (lanes x :: 'a word list)) :: 'g word) (lanes v :: 'g word list)"
    using assms(2) unfolding vrev_def by (subst lanes_vmap) simp_all
  with r show ?thesis
    by (subst lanes_concat [OF assms]) (simp add: o_def)
qed

lemma lanes_vqtbl1 [lane_simps]:
  "8 dvd LENGTH('v) \<Longrightarrow> (lanes (vqtbl1 t (idx :: 'v::len word)) :: u8 list) =
   map (\<lambda>i. if unat i < 16 then (lanes t :: u8 list) ! unat i else 0) (lanes idx :: u8 list)"
  by (simp add: vqtbl1_def lanes_vtbl)

lemma lanes_vset_lane [lane_simps]:
  "LENGTH('a) dvd LENGTH('v) \<Longrightarrow>
   lanes (vset_lane (x :: 'a::len word) (v :: 'v::len word) i) = (lanes v)[i := x]"
  by (simp add: vset_lane_def)

lemma lanes_set_all:
  fixes v :: "'v::len word" and f :: "nat \<Rightarrow> 'a::len word"
  assumes "LENGTH('a) dvd LENGTH('v)" "n \<le> LENGTH('v) div LENGTH('a)"
  shows "lanes (foldl (\<lambda>a i. vset_lane (f i) a i) v [0..<n]) = map f [0..<n] @ drop n (lanes v)"
  using assms(2)
  by (induction n) (simp_all add: lanes_vset_lane [OF assms(1)] list_update_append Cons_nth_drop_Suc [symmetric])

lemma lanes_map_all:
  fixes v :: "'v::len word" and g :: "'a::len word \<Rightarrow> 'a word"
  assumes "LENGTH('a) dvd LENGTH('v)" "n \<le> LENGTH('v) div LENGTH('a)"
  shows "lanes (foldl (\<lambda>a i. vset_lane (g (vget_lane a i)) a i) v [0..<n]) =
    map g (take n (lanes v)) @ drop n (lanes v)"
  using assms(2)
  by (induction n) (simp_all add: lanes_vset_lane [OF assms(1)] list_update_append vget_lane_def nth_append
      take_Suc_conv_app_nth Cons_nth_drop_Suc [symmetric])

end
