(* ===== verification/Sse_Move.thy ===== *)
theory Sse_Move
  imports Neon
begin

text \<open>
  \<open>psetggm/sse2neon.h\<close>: the intrinsics that build, load, store, move and select lanes. \<open>mm_f\<close>
  models \<open>_mm_f\<close>. \<open>__m128i\<close>, \<open>__m128\<close> and \<open>__m128d\<close> are all 128-bit words, a \<open>float\<close> or
  \<open>double\<close> that is only moved is its bit pattern, a pointer is a buffer and a byte offset. Where
  the header has a text for AArch64 and one for ARMv7 the AArch64 text is modelled, unless both
  are named.
\<close>

section \<open>Set\<close>

definition mm_setzero_si128 :: m128 where
  "mm_setzero_si128 = vdup (0 :: u32)"

definition mm_setzero_ps :: m128 where
  "mm_setzero_ps = vdup (0 :: u32)"

definition mm_setzero_pd :: m128 where
  "mm_setzero_pd = vdup (0 :: u64)"

definition mm_set1_ps :: "u32 \<Rightarrow> m128" where
  "mm_set1_ps w = vdup w"

definition mm_set_ps1 :: "u32 \<Rightarrow> m128" where
  "mm_set_ps1 w = vdup w"

definition mm_set_ps :: "u32 \<Rightarrow> u32 \<Rightarrow> u32 \<Rightarrow> u32 \<Rightarrow> m128" where
  "mm_set_ps w z y x = vld1 [x, y, z, w]"

definition mm_set_ss :: "u32 \<Rightarrow> m128" where
  "mm_set_ss a = vld1 [a, 0, 0, 0]"

definition mm_setr_ps :: "u32 \<Rightarrow> u32 \<Rightarrow> u32 \<Rightarrow> u32 \<Rightarrow> m128" where
  "mm_setr_ps w z y x = vld1 [w, z, y, x]"

definition mm_setr_epi16 :: "u16 \<Rightarrow> u16 \<Rightarrow> u16 \<Rightarrow> u16 \<Rightarrow> u16 \<Rightarrow> u16 \<Rightarrow> u16 \<Rightarrow> u16 \<Rightarrow> m128" where
  "mm_setr_epi16 w0 w1 w2 w3 w4 w5 w6 w7 = vld1 [w0, w1, w2, w3, w4, w5, w6, w7]"

definition mm_setr_epi32 :: "u32 \<Rightarrow> u32 \<Rightarrow> u32 \<Rightarrow> u32 \<Rightarrow> m128" where
  "mm_setr_epi32 i3 i2 i1 i0 = vld1 [i3, i2, i1, i0]"

definition mm_setr_epi64 :: "m64 \<Rightarrow> m64 \<Rightarrow> m128" where
  "mm_setr_epi64 e1 e0 = vcombine e1 e0"

definition mm_set1_epi8 :: "u8 \<Rightarrow> m128" where
  "mm_set1_epi8 w = vdup w"

definition mm_set1_pd :: "u64 \<Rightarrow> m128" where
  "mm_set1_pd d = vdup d"

definition mm_set1_epi16 :: "u16 \<Rightarrow> m128" where
  "mm_set1_epi16 w = vdup w"

definition mm_set_epi8 :: "u8 \<Rightarrow> u8 \<Rightarrow> u8 \<Rightarrow> u8 \<Rightarrow> u8 \<Rightarrow> u8 \<Rightarrow> u8 \<Rightarrow> u8 \<Rightarrow> u8 \<Rightarrow> u8 \<Rightarrow> u8 \<Rightarrow> u8 \<Rightarrow>
    u8 \<Rightarrow> u8 \<Rightarrow> u8 \<Rightarrow> u8 \<Rightarrow> m128" where
  "mm_set_epi8 b15 b14 b13 b12 b11 b10 b9 b8 b7 b6 b5 b4 b3 b2 b1 b0 =
     vld1 [b0, b1, b2, b3, b4, b5, b6, b7, b8, b9, b10, b11, b12, b13, b14, b15]"

definition mm_set_epi16 :: "u16 \<Rightarrow> u16 \<Rightarrow> u16 \<Rightarrow> u16 \<Rightarrow> u16 \<Rightarrow> u16 \<Rightarrow> u16 \<Rightarrow> u16 \<Rightarrow> m128" where
  "mm_set_epi16 i7 i6 i5 i4 i3 i2 i1 i0 = vld1 [i0, i1, i2, i3, i4, i5, i6, i7]"

definition mm_setr_epi8 :: "u8 \<Rightarrow> u8 \<Rightarrow> u8 \<Rightarrow> u8 \<Rightarrow> u8 \<Rightarrow> u8 \<Rightarrow> u8 \<Rightarrow> u8 \<Rightarrow> u8 \<Rightarrow> u8 \<Rightarrow> u8 \<Rightarrow> u8 \<Rightarrow>
    u8 \<Rightarrow> u8 \<Rightarrow> u8 \<Rightarrow> u8 \<Rightarrow> m128" where
  "mm_setr_epi8 b0 b1 b2 b3 b4 b5 b6 b7 b8 b9 b10 b11 b12 b13 b14 b15 =
     vld1 [b0, b1, b2, b3, b4, b5, b6, b7, b8, b9, b10, b11, b12, b13, b14, b15]"

definition mm_set1_epi32 :: "u32 \<Rightarrow> m128" where
  "mm_set1_epi32 i = vdup i"

definition mm_set1_epi64 :: "m64 \<Rightarrow> m128" where
  "mm_set1_epi64 i = vdup i"

definition mm_set1_epi64x :: "u64 \<Rightarrow> m128" where
  "mm_set1_epi64x i = vdup i"

definition mm_set_epi32 :: "u32 \<Rightarrow> u32 \<Rightarrow> u32 \<Rightarrow> u32 \<Rightarrow> m128" where
  "mm_set_epi32 i3 i2 i1 i0 = vld1 [i0, i1, i2, i3]"

definition mm_set_epi64x :: "u64 \<Rightarrow> u64 \<Rightarrow> m128" where
  "mm_set_epi64x i1 i2 = vcombine i2 i1"

definition mm_set_epi64 :: "m64 \<Rightarrow> m64 \<Rightarrow> m128" where
  "mm_set_epi64 i1 i2 = mm_set_epi64x i1 i2"

definition mm_set_pd :: "u64 \<Rightarrow> u64 \<Rightarrow> m128" where
  "mm_set_pd e1 e0 = vld1 [e0, e1]"

definition mm_setr_pd :: "u64 \<Rightarrow> u64 \<Rightarrow> m128" where
  "mm_setr_pd e1 e0 = mm_set_pd e0 e1"

definition mm_set_sd :: "u64 \<Rightarrow> m128" where
  "mm_set_sd a = mm_set_pd 0 a"

section \<open>Store\<close>

definition mm_store_ps :: "u8 list \<Rightarrow> nat \<Rightarrow> m128 \<Rightarrow> u8 list option" where
  "mm_store_ps m p a = storev m p a"

definition mm_store_ps1 :: "u8 list \<Rightarrow> nat \<Rightarrow> m128 \<Rightarrow> u8 list option" where
  "mm_store_ps1 m p a = (let a0 = (vget_lane a 0 :: u32) in storev m p (vdup a0 :: m128))"

definition mm_storer_ps :: "u8 list \<Rightarrow> nat \<Rightarrow> m128 \<Rightarrow> u8 list option" where
  "mm_storer_ps m p a =
     (let tmp = vrev TYPE(32) TYPE(64) a; rev = vext TYPE(32) tmp tmp 2 in storev m p rev)"

definition mm_storeu_ps :: "u8 list \<Rightarrow> nat \<Rightarrow> m128 \<Rightarrow> u8 list option" where
  "mm_storeu_ps m p a = storev m p a"

definition mm_store_si128 :: "u8 list \<Rightarrow> nat \<Rightarrow> m128 \<Rightarrow> u8 list option" where
  "mm_store_si128 m p a = storev m p a"

definition mm_storeu_si128 :: "u8 list \<Rightarrow> nat \<Rightarrow> m128 \<Rightarrow> u8 list option" where
  "mm_storeu_si128 m p a = storev m p a"

definition mm_storeu_si64 :: "u8 list \<Rightarrow> nat \<Rightarrow> m128 \<Rightarrow> u8 list option" where
  "mm_storeu_si64 m p a = storev m p (vget_lane a 0 :: u64)"

definition mm_storeu_si32 :: "u8 list \<Rightarrow> nat \<Rightarrow> m128 \<Rightarrow> u8 list option" where
  "mm_storeu_si32 m p a = storev m p (vget_lane a 0 :: u32)"

definition mm_storeu_si16 :: "u8 list \<Rightarrow> nat \<Rightarrow> m128 \<Rightarrow> u8 list option" where
  "mm_storeu_si16 m p a = storev m p (vget_lane a 0 :: u16)"

definition mm_store_ss :: "u8 list \<Rightarrow> nat \<Rightarrow> m128 \<Rightarrow> u8 list option" where
  "mm_store_ss m p a = storev m p (vget_lane a 0 :: u32)"

definition mm_store_pd :: "u8 list \<Rightarrow> nat \<Rightarrow> m128 \<Rightarrow> u8 list option" where
  "mm_store_pd m p a = storev m p a"

definition mm_storeh_pd :: "u8 list \<Rightarrow> nat \<Rightarrow> m128 \<Rightarrow> u8 list option" where
  "mm_storeh_pd m p a = storev m p (vget_high a :: u64)"

definition mm_storel_pd :: "u8 list \<Rightarrow> nat \<Rightarrow> m128 \<Rightarrow> u8 list option" where
  "mm_storel_pd m p a = storev m p (vget_low a :: u64)"

definition mm_storer_pd :: "u8 list \<Rightarrow> nat \<Rightarrow> m128 \<Rightarrow> u8 list option" where
  "mm_storer_pd m p a = mm_store_pd m p (vext TYPE(32) a a 2)"

definition mm_store_pd1 :: "u8 list \<Rightarrow> nat \<Rightarrow> m128 \<Rightarrow> u8 list option" where
  "mm_store_pd1 m p a = (let a_low = (vget_low a :: u64) in storev m p (vcombine a_low a_low :: m128))"

definition mm_store_sd :: "u8 list \<Rightarrow> nat \<Rightarrow> m128 \<Rightarrow> u8 list option" where
  "mm_store_sd m p a = storev m p (vget_low a :: u64)"

definition mm_storeu_pd :: "u8 list \<Rightarrow> nat \<Rightarrow> m128 \<Rightarrow> u8 list option" where
  "mm_storeu_pd m p a = mm_store_pd m p a"

text \<open>\<open>_mm_storel_epi64\<close> goes through the whole register at \<open>a\<close>: 16 bytes are read and written.\<close>

definition mm_storel_epi64 :: "u8 list \<Rightarrow> nat \<Rightarrow> m128 \<Rightarrow> u8 list option" where
  "mm_storel_epi64 m a b = do {
     old \<leftarrow> (loadv m a :: m128 option);
     let hi = (vget_high old :: u64);
     let lo = (vget_low b :: u64);
     storev m a (vcombine lo hi :: m128)
   }"

definition mm_storel_pi :: "u8 list \<Rightarrow> nat \<Rightarrow> m128 \<Rightarrow> u8 list option" where
  "mm_storel_pi m p a = storev m p (vget_low a :: m64)"

definition mm_storeh_pi :: "u8 list \<Rightarrow> nat \<Rightarrow> m128 \<Rightarrow> u8 list option" where
  "mm_storeh_pi m p a = storev m p (vget_high a :: m64)"

section \<open>Load\<close>

definition mm_load1_ps :: "u8 list \<Rightarrow> nat \<Rightarrow> m128 option" where
  "mm_load1_ps m p = map_option (\<lambda>x :: u32. vdup x) (loadv m p)"

definition mm_loadl_pi :: "m128 \<Rightarrow> u8 list \<Rightarrow> nat \<Rightarrow> m128 option" where
  "mm_loadl_pi a m p = map_option (\<lambda>lo :: m64. vcombine lo (vget_high a)) (loadv m p)"

definition mm_loadr_ps :: "u8 list \<Rightarrow> nat \<Rightarrow> m128 option" where
  "mm_loadr_ps m p =
     map_option (\<lambda>x :: m128. let v = vrev TYPE(32) TYPE(64) x in vext TYPE(32) v v 2) (loadv m p)"

definition mm_loadh_pi :: "m128 \<Rightarrow> u8 list \<Rightarrow> nat \<Rightarrow> m128 option" where
  "mm_loadh_pi a m p = map_option (\<lambda>hi :: m64. vcombine (vget_low a) hi) (loadv m p)"

definition mm_load_ps :: "u8 list \<Rightarrow> nat \<Rightarrow> m128 option" where
  "mm_load_ps m p = loadv m p"

definition mm_loadu_ps :: "u8 list \<Rightarrow> nat \<Rightarrow> m128 option" where
  "mm_loadu_ps m p = loadv m p"

definition mm_loadu_si16 :: "u8 list \<Rightarrow> nat \<Rightarrow> m128 option" where
  "mm_loadu_si16 m p = map_option (\<lambda>x :: u16. vset_lane x (vdup (0 :: u16)) 0) (loadv m p)"

definition mm_loadu_si64 :: "u8 list \<Rightarrow> nat \<Rightarrow> m128 option" where
  "mm_loadu_si64 m p = map_option (\<lambda>x :: m64. vcombine x (vdup (0 :: u64))) (loadv m p)"

definition mm_load_sd :: "u8 list \<Rightarrow> nat \<Rightarrow> m128 option" where
  "mm_load_sd m p = map_option (\<lambda>x :: u64. vset_lane x (vdup (0 :: u64)) 0) (loadv m p)"

definition mm_load_pd :: "u8 list \<Rightarrow> nat \<Rightarrow> m128 option" where
  "mm_load_pd m p = loadv m p"

definition mm_loadu_pd :: "u8 list \<Rightarrow> nat \<Rightarrow> m128 option" where
  "mm_loadu_pd m p = mm_load_pd m p"

definition mm_load_ss :: "u8 list \<Rightarrow> nat \<Rightarrow> m128 option" where
  "mm_load_ss m p = map_option (\<lambda>x :: u32. vset_lane x (vdup (0 :: u32)) 0) (loadv m p)"

definition mm_loadl_epi64 :: "u8 list \<Rightarrow> nat \<Rightarrow> m128 option" where
  "mm_loadl_epi64 m p = map_option (\<lambda>x :: m64. vcombine x 0) (loadv m p)"

definition mm_loadl_pd :: "m128 \<Rightarrow> u8 list \<Rightarrow> nat \<Rightarrow> m128 option" where
  "mm_loadl_pd a m p = map_option (\<lambda>lo :: m64. vcombine lo (vget_high a)) (loadv m p)"

definition mm_loadr_pd :: "u8 list \<Rightarrow> nat \<Rightarrow> m128 option" where
  "mm_loadr_pd m p = map_option (\<lambda>v :: m128. vext TYPE(64) v v 1) (loadv m p)"

definition mm_load_si128 :: "u8 list \<Rightarrow> nat \<Rightarrow> m128 option" where
  "mm_load_si128 m p = loadv m p"

section \<open>Move, convert, cast\<close>

definition mm_move_ss :: "m128 \<Rightarrow> m128 \<Rightarrow> m128" where
  "mm_move_ss a b = vset_lane (vget_lane b 0 :: u32) a 0"

definition mm_move_sd :: "m128 \<Rightarrow> m128 \<Rightarrow> m128" where
  "mm_move_sd a b = vcombine (vget_low b :: u64) (vget_high a)"

definition mm_move_epi64 :: "m128 \<Rightarrow> m128" where
  "mm_move_epi64 a = vset_lane (0 :: u64) a 1"

definition mm_movedup_pd :: "m128 \<Rightarrow> m128" where
  "mm_movedup_pd a = vdup (vget_lane a 0 :: u64)"

definition mm_movehdup_ps :: "m128 \<Rightarrow> m128" where
  "mm_movehdup_ps a = shufflevector TYPE(32) a a [1, 1, 3, 3]"

definition mm_moveldup_ps :: "m128 \<Rightarrow> m128" where
  "mm_moveldup_ps a = shufflevector TYPE(32) a a [0, 0, 2, 2]"

definition mm_movehl_ps :: "m128 \<Rightarrow> m128 \<Rightarrow> m128" where
  "mm_movehl_ps a b = (let a32 = (vget_high a :: m64); b32 = vget_high b in vcombine b32 a32)"

definition mm_movelh_ps :: "m128 \<Rightarrow> m128 \<Rightarrow> m128" where
  "mm_movelh_ps a b = (let a10 = (vget_low a :: m64); b10 = vget_low b in vcombine a10 b10)"

definition mm_movepi64_pi64 :: "m128 \<Rightarrow> m64" where
  "mm_movepi64_pi64 a = vget_low a"

definition mm_movpi64_epi64 :: "m64 \<Rightarrow> m128" where
  "mm_movpi64_epi64 a = vcombine a (vdup (0 :: u64))"

definition mm_cvtsi128_si32 :: "m128 \<Rightarrow> u32" where
  "mm_cvtsi128_si32 a = vget_lane a 0"

definition mm_cvtsi128_si64 :: "m128 \<Rightarrow> u64" where
  "mm_cvtsi128_si64 a = vget_lane a 0"

definition mm_cvtsi32_si128 :: "u32 \<Rightarrow> m128" where
  "mm_cvtsi32_si128 a = vset_lane a (vdup (0 :: u32)) 0"

definition mm_cvtsi64_si128 :: "u64 \<Rightarrow> m128" where
  "mm_cvtsi64_si128 a = vset_lane a (vdup (0 :: u64)) 0"

definition mm_castps_pd :: "m128 \<Rightarrow> m128" where "mm_castps_pd a = a"
definition mm_castps_si128 :: "m128 \<Rightarrow> m128" where "mm_castps_si128 a = a"
definition mm_castsi128_pd :: "m128 \<Rightarrow> m128" where "mm_castsi128_pd a = a"
definition mm_castsi128_ps :: "m128 \<Rightarrow> m128" where "mm_castsi128_ps a = a"

section \<open>Shuffle\<close>

definition MM_SHUFFLE :: "nat \<Rightarrow> nat \<Rightarrow> nat \<Rightarrow> nat \<Rightarrow> nat" where
  "MM_SHUFFLE fp3 fp2 fp1 fp0 = push_bit 6 fp3 OR push_bit 4 fp2 OR push_bit 2 fp1 OR fp0"

definition mm_shuffle_epi_1032 :: "m128 \<Rightarrow> m128" where
  "mm_shuffle_epi_1032 a = (let a32 = (vget_high a :: m64); a10 = vget_low a in vcombine a32 a10)"

definition mm_shuffle_epi_2301 :: "m128 \<Rightarrow> m128" where
  "mm_shuffle_epi_2301 a =
     (let a01 = vrev TYPE(32) TYPE(64) (vget_low a :: m64); a23 = vrev TYPE(32) TYPE(64) (vget_high a)
      in vcombine a01 a23)"

definition mm_shuffle_epi_0321 :: "m128 \<Rightarrow> m128" where
  "mm_shuffle_epi_0321 a = vext TYPE(32) a a 1"

definition mm_shuffle_epi_2103 :: "m128 \<Rightarrow> m128" where
  "mm_shuffle_epi_2103 a = vext TYPE(32) a a 3"

definition mm_shuffle_epi_1010 :: "m128 \<Rightarrow> m128" where
  "mm_shuffle_epi_1010 a = (let a10 = (vget_low a :: m64) in vcombine a10 a10)"

definition mm_shuffle_epi_1001 :: "m128 \<Rightarrow> m128" where
  "mm_shuffle_epi_1001 a =
     (let a01 = vrev TYPE(32) TYPE(64) (vget_low a :: m64); a10 = vget_low a in vcombine a01 a10)"

definition mm_shuffle_epi_0101 :: "m128 \<Rightarrow> m128" where
  "mm_shuffle_epi_0101 a = (let a01 = vrev TYPE(32) TYPE(64) (vget_low a :: m64) in vcombine a01 a01)"

definition mm_shuffle_epi_2211 :: "m128 \<Rightarrow> m128" where
  "mm_shuffle_epi_2211 a =
     (let a11 = (vdup (vget_lane (vget_low a :: m64) 1 :: u32) :: m64);
          a22 = vdup (vget_lane (vget_high a :: m64) 0 :: u32)
      in vcombine a11 a22)"

definition mm_shuffle_epi_0122 :: "m128 \<Rightarrow> m128" where
  "mm_shuffle_epi_0122 a =
     (let a22 = (vdup (vget_lane (vget_high a :: m64) 0 :: u32) :: m64);
          a01 = vrev TYPE(32) TYPE(64) (vget_low a)
      in vcombine a22 a01)"

definition mm_shuffle_epi_3332 :: "m128 \<Rightarrow> m128" where
  "mm_shuffle_epi_3332 a =
     (let a32 = (vget_high a :: m64); a33 = vdup (vget_lane (vget_high a :: m64) 1 :: u32)
      in vcombine a32 a33)"

definition mm_shuffle_epi8 :: "m128 \<Rightarrow> m128 \<Rightarrow> m128" where
  "mm_shuffle_epi8 a b = (let idx_masked = b AND vdup (0x8F :: u8) in vqtbl1 a idx_masked)"

definition mm_shuffle_epi32_default :: "m128 \<Rightarrow> nat \<Rightarrow> m128" where
  "mm_shuffle_epi32_default a imm =
     (let ret = vdup (vget_lane a (imm mod 4) :: u32);
          ret = vset_lane (vget_lane a (imm div 4 mod 4) :: u32) ret 1;
          ret = vset_lane (vget_lane a (imm div 16 mod 4) :: u32) ret 2
      in vset_lane (vget_lane a (imm div 64 mod 4) :: u32) ret 3)"

definition mm_shuffle_epi32_splat :: "m128 \<Rightarrow> nat \<Rightarrow> m128" where
  "mm_shuffle_epi32_splat a imm = vdup (vget_lane a imm :: u32)"

text \<open>\<open>_mm_shuffle_epi32\<close> for compilers with \<open>__builtin_shufflevector\<close>, and the generic one.\<close>

definition mm_shuffle_epi32 :: "m128 \<Rightarrow> nat \<Rightarrow> m128" where
  "mm_shuffle_epi32 a imm =
     shufflevector TYPE(32) a a [imm mod 4, imm div 4 mod 4, imm div 16 mod 4, imm div 64 mod 4]"

definition mm_shuffle_epi32_generic :: "m128 \<Rightarrow> nat \<Rightarrow> m128" where
  "mm_shuffle_epi32_generic a imm =
     (if imm = MM_SHUFFLE 1 0 3 2 then mm_shuffle_epi_1032 a
      else if imm = MM_SHUFFLE 2 3 0 1 then mm_shuffle_epi_2301 a
      else if imm = MM_SHUFFLE 0 3 2 1 then mm_shuffle_epi_0321 a
      else if imm = MM_SHUFFLE 2 1 0 3 then mm_shuffle_epi_2103 a
      else if imm = MM_SHUFFLE 1 0 1 0 then mm_shuffle_epi_1010 a
      else if imm = MM_SHUFFLE 1 0 0 1 then mm_shuffle_epi_1001 a
      else if imm = MM_SHUFFLE 0 1 0 1 then mm_shuffle_epi_0101 a
      else if imm = MM_SHUFFLE 2 2 1 1 then mm_shuffle_epi_2211 a
      else if imm = MM_SHUFFLE 0 1 2 2 then mm_shuffle_epi_0122 a
      else if imm = MM_SHUFFLE 3 3 3 2 then mm_shuffle_epi_3332 a
      else if imm = MM_SHUFFLE 0 0 0 0 then mm_shuffle_epi32_splat a 0
      else if imm = MM_SHUFFLE 1 1 1 1 then mm_shuffle_epi32_splat a 1
      else if imm = MM_SHUFFLE 2 2 2 2 then mm_shuffle_epi32_splat a 2
      else if imm = MM_SHUFFLE 3 3 3 3 then mm_shuffle_epi32_splat a 3
      else mm_shuffle_epi32_default a imm)"

definition mm_shufflelo_epi16_function :: "m128 \<Rightarrow> nat \<Rightarrow> m128" where
  "mm_shufflelo_epi16_function a imm =
     (let lowBits = (vget_low a :: m64);
          ret = vset_lane (vget_lane lowBits (imm mod 4) :: u16) a 0;
          ret = vset_lane (vget_lane lowBits (imm div 4 mod 4) :: u16) ret 1;
          ret = vset_lane (vget_lane lowBits (imm div 16 mod 4) :: u16) ret 2
      in vset_lane (vget_lane lowBits (imm div 64 mod 4) :: u16) ret 3)"

definition mm_shufflelo_epi16 :: "m128 \<Rightarrow> nat \<Rightarrow> m128" where
  "mm_shufflelo_epi16 a imm =
     shufflevector TYPE(16) a a
       [imm mod 4, imm div 4 mod 4, imm div 16 mod 4, imm div 64 mod 4, 4, 5, 6, 7]"

definition mm_shufflehi_epi16_function :: "m128 \<Rightarrow> nat \<Rightarrow> m128" where
  "mm_shufflehi_epi16_function a imm =
     (let highBits = (vget_high a :: m64);
          ret = vset_lane (vget_lane highBits (imm mod 4) :: u16) a 4;
          ret = vset_lane (vget_lane highBits (imm div 4 mod 4) :: u16) ret 5;
          ret = vset_lane (vget_lane highBits (imm div 16 mod 4) :: u16) ret 6
      in vset_lane (vget_lane highBits (imm div 64 mod 4) :: u16) ret 7)"

definition mm_shufflehi_epi16 :: "m128 \<Rightarrow> nat \<Rightarrow> m128" where
  "mm_shufflehi_epi16 a imm =
     shufflevector TYPE(16) a a
       [0, 1, 2, 3, imm mod 4 + 4, imm div 4 mod 4 + 4, imm div 16 mod 4 + 4, imm div 64 mod 4 + 4]"

definition mm_shuffle_pd :: "m128 \<Rightarrow> m128 \<Rightarrow> nat \<Rightarrow> m128" where
  "mm_shuffle_pd a b imm8 = shufflevector TYPE(64) a b [imm8 mod 2, imm8 div 2 mod 2 + 2]"

section \<open>Facts\<close>

lemma lanes_shuffle_epi32:
  "(lanes (mm_shuffle_epi32 a imm) :: u32 list) =
   map (\<lambda>j. (lanes a :: u32 list) ! (imm div 4 ^ j mod 4)) [0, 1, 2, 3]"
  by (simp add: mm_shuffle_epi32_def shufflevector_def nth_append)

lemma cvtsi128_shuffle:
  "mm_cvtsi128_si32 (mm_shuffle_epi32 a 0x55) = (lanes a :: u32 list) ! 1"
  "mm_cvtsi128_si32 (mm_shuffle_epi32 a 0xAA) = (lanes a :: u32 list) ! 2"
  "mm_cvtsi128_si32 (mm_shuffle_epi32 a 0xFF) = (lanes a :: u32 list) ! 3"
  by (simp_all add: mm_cvtsi128_si32_def vget_lane_def lanes_shuffle_epi32)

lemma lanes_set_epi32: "(lanes (mm_set_epi32 i3 i2 i1 i0) :: u32 list) = [i0, i1, i2, i3]"
  by (simp add: mm_set_epi32_def lane_simps)

lemma bytes_of_u32s: "(lanes v :: u8 list) = concat (map lanes (lanes (v :: m128) :: u32 list))"
  by (rule lanes_concat) simp_all

end
