(* ===== verification/Sse_Bits.thy ===== *)
theory Sse_Bits
  imports Sse_Move
begin

text \<open>
  \<open>psetggm/sse2neon.h\<close>: bitwise operations, tests, shifts and masks. An \<open>int\<close> argument is an
  \<open>int\<close>: the header tests its sign. An \<open>int\<close> result is a 32-bit word.
\<close>

section \<open>Bitwise operations\<close>

text \<open>\<open>vbic a b\<close> is \<open>a AND NOT b\<close>: the header swaps the arguments.\<close>

definition vbic :: "m128 \<Rightarrow> m128 \<Rightarrow> m128" where
  "vbic a b = a AND NOT b"

definition mm_andnot_ps :: "m128 \<Rightarrow> m128 \<Rightarrow> m128" where
  "mm_andnot_ps a b = vbic b a"

definition mm_andnot_pd :: "m128 \<Rightarrow> m128 \<Rightarrow> m128" where
  "mm_andnot_pd a b = vbic b a"

definition mm_andnot_si128 :: "m128 \<Rightarrow> m128 \<Rightarrow> m128" where
  "mm_andnot_si128 a b = vbic b a"

definition mm_and_si128 :: "m128 \<Rightarrow> m128 \<Rightarrow> m128" where
  "mm_and_si128 a b = a AND b"

definition mm_and_ps :: "m128 \<Rightarrow> m128 \<Rightarrow> m128" where
  "mm_and_ps a b = a AND b"

definition mm_and_pd :: "m128 \<Rightarrow> m128 \<Rightarrow> m128" where
  "mm_and_pd a b = a AND b"

definition mm_or_ps :: "m128 \<Rightarrow> m128 \<Rightarrow> m128" where
  "mm_or_ps a b = a OR b"

definition mm_xor_ps :: "m128 \<Rightarrow> m128 \<Rightarrow> m128" where
  "mm_xor_ps a b = a XOR b"

definition mm_xor_pd :: "m128 \<Rightarrow> m128 \<Rightarrow> m128" where
  "mm_xor_pd a b = a XOR b"

definition mm_or_pd :: "m128 \<Rightarrow> m128 \<Rightarrow> m128" where
  "mm_or_pd a b = a OR b"

definition mm_or_si128 :: "m128 \<Rightarrow> m128 \<Rightarrow> m128" where
  "mm_or_si128 a b = a OR b"

definition mm_xor_si128 :: "m128 \<Rightarrow> m128 \<Rightarrow> m128" where
  "mm_xor_si128 a b = a XOR b"

definition mm_test_all_ones :: "m128 \<Rightarrow> u32" where
  "mm_test_all_ones a = (if (vget_lane a 0 AND vget_lane a 1 :: u64) = NOT 0 then 1 else 0)"

definition mm_test_all_zeros :: "m128 \<Rightarrow> m128 \<Rightarrow> u32" where
  "mm_test_all_zeros a msk =
     (let a_and_mask = a AND msk
      in if (vget_lane a_and_mask 0 OR vget_lane a_and_mask 1 :: u64) \<noteq> 0 then 0 else 1)"

definition mm_testc_si128 :: "m128 \<Rightarrow> m128 \<Rightarrow> u32" where
  "mm_testc_si128 a b =
     (let s64 = NOT a AND b
      in if (vget_lane s64 0 OR vget_lane s64 1 :: u64) \<noteq> 0 then 0 else 1)"

definition mm_testz_si128 :: "m128 \<Rightarrow> m128 \<Rightarrow> u32" where
  "mm_testz_si128 a b =
     (let s64 = a AND b
      in if (vget_lane s64 0 OR vget_lane s64 1 :: u64) \<noteq> 0 then 0 else 1)"

section \<open>Shifts\<close>

definition mm_srai_epi16 :: "m128 \<Rightarrow> u32 \<Rightarrow> m128" where
  "mm_srai_epi16 a imm =
     (let count = (if imm AND NOT 15 \<noteq> 0 then 15 else imm)
      in vshl_s TYPE(16) a (vdup (- ucast count :: u16)))"

definition mm_slli_epi16 :: "m128 \<Rightarrow> int \<Rightarrow> m128" where
  "mm_slli_epi16 a imm = (if imm > 15 then mm_setzero_si128 else vshl_n TYPE(16) a (nat imm))"

definition mm_slli_epi32 :: "m128 \<Rightarrow> int \<Rightarrow> m128" where
  "mm_slli_epi32 a imm =
     (if imm \<le> 0 then a
      else if imm > 31 then mm_setzero_si128
      else vshl_s TYPE(32) a (vdup (word_of_int imm :: u32)))"

definition mm_slli_epi64 :: "m128 \<Rightarrow> int \<Rightarrow> m128" where
  "mm_slli_epi64 a imm =
     (if imm \<le> 0 then a
      else if imm > 63 then mm_setzero_si128
      else vshl_s TYPE(64) a (vdup (word_of_int imm :: u64)))"

definition mm_srli_epi16 :: "m128 \<Rightarrow> int \<Rightarrow> m128" where
  "mm_srli_epi16 a imm =
     (if imm = 0 then a
      else if 0 < imm \<and> imm < 16 then vshl_u TYPE(16) a (vdup (word_of_int (- imm) :: u16))
      else mm_setzero_si128)"

definition mm_srli_epi32 :: "m128 \<Rightarrow> int \<Rightarrow> m128" where
  "mm_srli_epi32 a imm =
     (if imm = 0 then a
      else if 0 < imm \<and> imm < 32 then vshl_u TYPE(32) a (vdup (word_of_int (- imm) :: u32))
      else mm_setzero_si128)"

definition mm_srli_epi64 :: "m128 \<Rightarrow> int \<Rightarrow> m128" where
  "mm_srli_epi64 a imm =
     (if imm = 0 then a
      else if 0 < imm \<and> imm < 64 then vshl_u TYPE(64) a (vdup (word_of_int (- imm) :: u64))
      else mm_setzero_si128)"

definition mm_srai_epi32 :: "m128 \<Rightarrow> int \<Rightarrow> m128" where
  "mm_srai_epi32 a imm =
     (if imm = 0 then a
      else if 0 < imm \<and> imm < 32 then vshl_s TYPE(32) a (vdup (word_of_int (- imm) :: u32))
      else vshr_s TYPE(32) a 31)"

text \<open>
  The byte shifts of the whole register. The first branch of the macros (\<open>imm <= 0\<close>) is overwritten
  by the second conditional; for 0 the two agree, a negative immediate is rejected by \<open>vextq_s8\<close>.
\<close>

definition mm_srli_si128 :: "m128 \<Rightarrow> nat \<Rightarrow> m128" where
  "mm_srli_si128 a imm =
     (if imm > 15 then mm_setzero_si128 else vext TYPE(8) a (vdup (0 :: u8)) imm)"

definition mm_slli_si128 :: "m128 \<Rightarrow> nat \<Rightarrow> m128" where
  "mm_slli_si128 a imm =
     (if imm > 15 then mm_setzero_si128 else vext TYPE(8) (vdup (0 :: u8)) a (16 - imm))"

definition mm_sll_epi16 :: "m128 \<Rightarrow> m128 \<Rightarrow> m128" where
  "mm_sll_epi16 a count =
     (let c = (vget_lane count 0 :: u64)
      in if c > 15 then mm_setzero_si128 else vshl_s TYPE(16) a (vdup (ucast c :: u16)))"

definition mm_sll_epi32 :: "m128 \<Rightarrow> m128 \<Rightarrow> m128" where
  "mm_sll_epi32 a count =
     (let c = (vget_lane count 0 :: u64)
      in if c > 31 then mm_setzero_si128 else vshl_s TYPE(32) a (vdup (ucast c :: u32)))"

definition mm_sll_epi64 :: "m128 \<Rightarrow> m128 \<Rightarrow> m128" where
  "mm_sll_epi64 a count =
     (let c = (vget_lane count 0 :: u64)
      in if c > 63 then mm_setzero_si128 else vshl_s TYPE(64) a (vdup c))"

definition mm_srl_epi16 :: "m128 \<Rightarrow> m128 \<Rightarrow> m128" where
  "mm_srl_epi16 a count =
     (let c = (vget_lane count 0 :: u64)
      in if c > 15 then mm_setzero_si128 else vshl_u TYPE(16) a (vdup (- ucast c :: u16)))"

definition mm_srl_epi32 :: "m128 \<Rightarrow> m128 \<Rightarrow> m128" where
  "mm_srl_epi32 a count =
     (let c = (vget_lane count 0 :: u64)
      in if c > 31 then mm_setzero_si128 else vshl_u TYPE(32) a (vdup (- ucast c :: u32)))"

definition mm_srl_epi64 :: "m128 \<Rightarrow> m128 \<Rightarrow> m128" where
  "mm_srl_epi64 a count =
     (let c = (vget_lane count 0 :: u64)
      in if c > 63 then mm_setzero_si128 else vshl_u TYPE(64) a (vdup (- c)))"

section \<open>Masks\<close>

definition mm_movemask_epi8 :: "m128 \<Rightarrow> u32" where
  "mm_movemask_epi8 a =
     (let high_bits = vshr_u TYPE(8) a 7;
          paired16 = vsra_u TYPE(16) high_bits high_bits 7;
          paired32 = vsra_u TYPE(32) paired16 paired16 14;
          paired64 = vsra_u TYPE(64) paired32 paired32 28
      in ucast (vget_lane paired64 0 :: u8) OR push_bit 8 (ucast (vget_lane paired64 8 :: u8)))"

definition mm_movemask_pd :: "m128 \<Rightarrow> u32" where
  "mm_movemask_pd a =
     (let high_bits = vshr_u TYPE(64) a 63
      in ucast (vget_lane high_bits 0 OR push_bit 1 (vget_lane high_bits 1) :: u64))"

text \<open>\<open>_mm_movemask_ps\<close> and \<open>_mm_movemask_pi8\<close>: AArch64 and ARMv7.\<close>

definition mm_movemask_ps :: "m128 \<Rightarrow> u32" where
  "mm_movemask_ps a =
     (let tmp = vshr_u TYPE(32) a 31
      in sum_list (lanes (vshl_u TYPE(32) tmp (vld1 [0, 1, 2, 3 :: u32]))))"

definition mm_movemask_ps_v7 :: "m128 \<Rightarrow> u32" where
  "mm_movemask_ps_v7 a =
     (let high_bits = vshr_u TYPE(32) a 31;
          paired = vsra_u TYPE(64) high_bits high_bits 31
      in ucast (vget_lane paired 0 :: u8) OR push_bit 2 (ucast (vget_lane paired 8 :: u8)))"

definition mm_movemask_pi8 :: "m64 \<Rightarrow> u32" where
  "mm_movemask_pi8 a =
     (let tmp = vshr_u TYPE(8) a 7
      in ucast (sum_list (lanes (vshl_u TYPE(8) tmp (vld1 [0, 1, 2, 3, 4, 5, 6, 7 :: u8]))) :: u8))"

definition mm_movemask_pi8_v7 :: "m64 \<Rightarrow> u32" where
  "mm_movemask_pi8_v7 a =
     (let high_bits = vshr_u TYPE(8) a 7;
          paired16 = vsra_u TYPE(16) high_bits high_bits 7;
          paired32 = vsra_u TYPE(32) paired16 paired16 14
      in ucast (vget_lane paired32 0 :: u8) OR push_bit 4 (ucast (vget_lane paired32 4 :: u8)))"

end
