(* ===== verification/Sse_Aes.thy ===== *)
theory Sse_Aes
  imports Sse_Bits
begin

text \<open>
  \<open>psetggm/sse2neon.h\<close>: the AES instructions, in the three builds of the header: AArch64 without
  the crypto extension (table look-ups on the register), ARMv7 (four word tables) and with the
  crypto extension. The reference is the cipher of FIPS-197 on the list of the 16 state bytes
  (column by column), and the three builds are shown equal to it.
\<close>

section \<open>The round functions of FIPS-197\<close>

text \<open>Multiplication by \<open>x\<close> in the field of 256 elements, modulo \<open>x^8 + x^4 + x^3 + x + 1\<close>.\<close>

definition xtime :: "u8 \<Rightarrow> u8" where
  "xtime b = push_bit 1 b XOR (if bit b 7 then 0x1b else 0)"

definition mix_column :: "u8 list \<Rightarrow> u8 list" where
  "mix_column c = (let a = c ! 0; b = c ! 1; d = c ! 2; e = c ! 3 in
     [xtime a XOR (xtime b XOR b) XOR d XOR e,
      a XOR xtime b XOR (xtime d XOR d) XOR e,
      a XOR b XOR xtime d XOR (xtime e XOR e),
      (xtime a XOR a) XOR b XOR d XOR xtime e])"

text \<open>The state byte in row \<open>r\<close> and column \<open>c\<close> is the byte \<open>4 * c + r\<close>.\<close>

definition shift_rows_idx :: "nat list" where
  "shift_rows_idx = [0, 5, 10, 15, 4, 9, 14, 3, 8, 13, 2, 7, 12, 1, 6, 11]"

definition shift_rows_bytes :: "u8 list \<Rightarrow> u8 list" where
  "shift_rows_bytes s = map ((!) s) shift_rows_idx"

definition mix_columns :: "u8 list \<Rightarrow> u8 list" where
  "mix_columns s =
     mix_column (take 4 s) @ mix_column (take 4 (drop 4 s)) @
     mix_column (take 4 (drop 8 s)) @ mix_column (take 4 (drop 12 s))"

section \<open>The table\<close>

definition SSE2NEON_sbox :: "u8 list" where
  "SSE2NEON_sbox = [
    0x63, 0x7c, 0x77, 0x7b, 0xf2, 0x6b, 0x6f, 0xc5, 0x30, 0x01, 0x67, 0x2b, 0xfe, 0xd7, 0xab, 0x76,
    0xca, 0x82, 0xc9, 0x7d, 0xfa, 0x59, 0x47, 0xf0, 0xad, 0xd4, 0xa2, 0xaf, 0x9c, 0xa4, 0x72, 0xc0,
    0xb7, 0xfd, 0x93, 0x26, 0x36, 0x3f, 0xf7, 0xcc, 0x34, 0xa5, 0xe5, 0xf1, 0x71, 0xd8, 0x31, 0x15,
    0x04, 0xc7, 0x23, 0xc3, 0x18, 0x96, 0x05, 0x9a, 0x07, 0x12, 0x80, 0xe2, 0xeb, 0x27, 0xb2, 0x75,
    0x09, 0x83, 0x2c, 0x1a, 0x1b, 0x6e, 0x5a, 0xa0, 0x52, 0x3b, 0xd6, 0xb3, 0x29, 0xe3, 0x2f, 0x84,
    0x53, 0xd1, 0x00, 0xed, 0x20, 0xfc, 0xb1, 0x5b, 0x6a, 0xcb, 0xbe, 0x39, 0x4a, 0x4c, 0x58, 0xcf,
    0xd0, 0xef, 0xaa, 0xfb, 0x43, 0x4d, 0x33, 0x85, 0x45, 0xf9, 0x02, 0x7f, 0x50, 0x3c, 0x9f, 0xa8,
    0x51, 0xa3, 0x40, 0x8f, 0x92, 0x9d, 0x38, 0xf5, 0xbc, 0xb6, 0xda, 0x21, 0x10, 0xff, 0xf3, 0xd2,
    0xcd, 0x0c, 0x13, 0xec, 0x5f, 0x97, 0x44, 0x17, 0xc4, 0xa7, 0x7e, 0x3d, 0x64, 0x5d, 0x19, 0x73,
    0x60, 0x81, 0x4f, 0xdc, 0x22, 0x2a, 0x90, 0x88, 0x46, 0xee, 0xb8, 0x14, 0xde, 0x5e, 0x0b, 0xdb,
    0xe0, 0x32, 0x3a, 0x0a, 0x49, 0x06, 0x24, 0x5c, 0xc2, 0xd3, 0xac, 0x62, 0x91, 0x95, 0xe4, 0x79,
    0xe7, 0xc8, 0x37, 0x6d, 0x8d, 0xd5, 0x4e, 0xa9, 0x6c, 0x56, 0xf4, 0xea, 0x65, 0x7a, 0xae, 0x08,
    0xba, 0x78, 0x25, 0x2e, 0x1c, 0xa6, 0xb4, 0xc6, 0xe8, 0xdd, 0x74, 0x1f, 0x4b, 0xbd, 0x8b, 0x8a,
    0x70, 0x3e, 0xb5, 0x66, 0x48, 0x03, 0xf6, 0x0e, 0x61, 0x35, 0x57, 0xb9, 0x86, 0xc1, 0x1d, 0x9e,
    0xe1, 0xf8, 0x98, 0x11, 0x69, 0xd9, 0x8e, 0x94, 0x9b, 0x1e, 0x87, 0xe9, 0xce, 0x55, 0x28, 0xdf,
    0x8c, 0xa1, 0x89, 0x0d, 0xbf, 0xe6, 0x42, 0x68, 0x41, 0x99, 0x2d, 0x0f, 0xb0, 0x54, 0xbb, 0x16]"

definition sub_byte :: "u8 \<Rightarrow> u8" where
  "sub_byte b = SSE2NEON_sbox ! unat b"

definition aes_round :: "u8 list \<Rightarrow> u8 list" where
  "aes_round s = mix_columns (shift_rows_bytes (map sub_byte s))"

definition aes_final_round :: "u8 list \<Rightarrow> u8 list" where
  "aes_final_round s = shift_rows_bytes (map sub_byte s)"

section \<open>The three builds\<close>

subsection \<open>AArch64 without the crypto extension\<close>

definition shift_rows :: "u8 list" where
  "shift_rows = [0x0, 0x5, 0xa, 0xf, 0x4, 0x9, 0xe, 0x3, 0x8, 0xd, 0x2, 0x7, 0xc, 0x1, 0x6, 0xb]"

definition ror32by8 :: "u8 list" where
  "ror32by8 = [0x1, 0x2, 0x3, 0x0, 0x5, 0x6, 0x7, 0x4, 0x9, 0xa, 0xb, 0x8, 0xd, 0xe, 0xf, 0xc]"

definition mm_aesenc_si128 :: "m128 \<Rightarrow> m128 \<Rightarrow> m128" where
  "mm_aesenc_si128 EncBlock RoundKey =
     (let w = EncBlock;
          w = vqtbl1 w (vld1 shift_rows);
          v = vtbl (take 64 SSE2NEON_sbox) w;
          v = vtbx v (take 64 (drop 0x40 SSE2NEON_sbox)) (vsub TYPE(8) w (vdup (0x40 :: u8)));
          v = vtbx v (take 64 (drop 0x80 SSE2NEON_sbox)) (vsub TYPE(8) w (vdup (0x80 :: u8)));
          v = vtbx v (take 64 (drop 0xc0 SSE2NEON_sbox)) (vsub TYPE(8) w (vdup (0xc0 :: u8)));
          w = vshl_n TYPE(8) v 1 XOR (vshr_s TYPE(8) v 7 AND vdup (0x1b :: u8));
          w = w XOR vrev TYPE(16) TYPE(32) v;
          w = w XOR vqtbl1 (v XOR w) (vld1 ror32by8)
      in w XOR RoundKey)"

definition mm_aesenclast_si128 :: "m128 \<Rightarrow> m128 \<Rightarrow> m128" where
  "mm_aesenclast_si128 a RoundKey =
     (let nth_u8 = (\<lambda>i. vget_lane a i :: u8);
          v = map (\<lambda>i. SSE2NEON_sbox ! unat (nth_u8 i))
                [0, 5, 10, 15, 4, 9, 14, 3, 8, 13, 2, 7, 12, 1, 6, 11]
      in foldl (\<lambda>a i. vset_lane (v ! i XOR (vget_lane RoundKey i :: u8)) a i) a [0..<16])"

text \<open>\<open>rcon\<close> is an \<open>int\<close>; only the low byte is ever non-zero in the code that calls it.\<close>

definition sub_word :: "u32 \<Rightarrow> u32" where
  "sub_word X = foldl (\<lambda>X i. vset_lane (SSE2NEON_sbox ! unat (vget_lane X i :: u8)) X i) X [0..<4]"

definition mm_aeskeygenassist_si128 :: "m128 \<Rightarrow> u32 \<Rightarrow> m128" where
  "mm_aeskeygenassist_si128 key rcon =
     (let X1 = sub_word (mm_cvtsi128_si32 (mm_shuffle_epi32 key 0x55));
          X3 = sub_word (mm_cvtsi128_si32 (mm_shuffle_epi32 key 0xFF))
      in mm_set_epi32 ((drop_bit 8 X3 OR push_bit 24 X3) XOR rcon) X3
           ((drop_bit 8 X1 OR push_bit 24 X1) XOR rcon) X1)"

subsection \<open>ARMv7\<close>

definition AES_B2W :: "u32 \<Rightarrow> u32 \<Rightarrow> u32 \<Rightarrow> u32 \<Rightarrow> u32" where
  "AES_B2W b0 b1 b2 b3 = push_bit 24 b3 OR push_bit 16 b2 OR push_bit 8 b1 OR b0"

definition AES_F2 :: "u32 \<Rightarrow> u32" where
  "AES_F2 x = push_bit 1 x XOR (drop_bit 7 x AND 1) * 0x011b"

definition AES_F3 :: "u32 \<Rightarrow> u32" where
  "AES_F3 x = AES_F2 x XOR x"

definition AES_U0 :: "u32 \<Rightarrow> u32" where "AES_U0 p = AES_B2W (AES_F2 p) p p (AES_F3 p)"
definition AES_U1 :: "u32 \<Rightarrow> u32" where "AES_U1 p = AES_B2W (AES_F3 p) (AES_F2 p) p p"
definition AES_U2 :: "u32 \<Rightarrow> u32" where "AES_U2 p = AES_B2W p (AES_F3 p) (AES_F2 p) p"
definition AES_U3 :: "u32 \<Rightarrow> u32" where "AES_U3 p = AES_B2W p p (AES_F3 p) (AES_F2 p)"

definition aes_table :: "u32 list list" where
  "aes_table = map (\<lambda>w. map (\<lambda>b. w (ucast b)) SSE2NEON_sbox) [AES_U0, AES_U1, AES_U2, AES_U3]"

definition mm_aesenc_si128_v7 :: "m128 \<Rightarrow> m128 \<Rightarrow> m128" where
  "mm_aesenc_si128_v7 EncBlock RoundKey =
     (let t = (\<lambda>k x. aes_table ! k ! unat (x :: u32));
          x0 = mm_cvtsi128_si32 EncBlock;
          x1 = mm_cvtsi128_si32 (mm_shuffle_epi32 EncBlock 0x55);
          x2 = mm_cvtsi128_si32 (mm_shuffle_epi32 EncBlock 0xAA);
          x3 = mm_cvtsi128_si32 (mm_shuffle_epi32 EncBlock 0xFF);
          out = mm_set_epi32
            (t 0 (x3 AND 0xff) XOR t 1 (drop_bit 8 x0 AND 0xff) XOR t 2 (drop_bit 16 x1 AND 0xff) XOR t 3 (drop_bit 24 x2))
            (t 0 (x2 AND 0xff) XOR t 1 (drop_bit 8 x3 AND 0xff) XOR t 2 (drop_bit 16 x0 AND 0xff) XOR t 3 (drop_bit 24 x1))
            (t 0 (x1 AND 0xff) XOR t 1 (drop_bit 8 x2 AND 0xff) XOR t 2 (drop_bit 16 x3 AND 0xff) XOR t 3 (drop_bit 24 x0))
            (t 0 (x0 AND 0xff) XOR t 1 (drop_bit 8 x1 AND 0xff) XOR t 2 (drop_bit 16 x2 AND 0xff) XOR t 3 (drop_bit 24 x3))
      in mm_xor_si128 out RoundKey)"

subsection \<open>With the crypto extension\<close>

text \<open>\<open>AESE\<close> adds the key, then substitutes and shifts; \<open>AESMC\<close> mixes the columns.\<close>

definition vaese :: "m128 \<Rightarrow> m128 \<Rightarrow> m128" where
  "vaese a k = of_lanes (shift_rows_bytes (map sub_byte (lanes (a XOR k))))"

definition vaesmc :: "m128 \<Rightarrow> m128" where
  "vaesmc a = of_lanes (mix_columns (lanes a))"

definition mm_aesenc_si128_crypto :: "m128 \<Rightarrow> m128 \<Rightarrow> m128" where
  "mm_aesenc_si128_crypto a b = vaesmc (vaese a (vdup (0 :: u8))) XOR b"

definition mm_aesenclast_si128_crypto :: "m128 \<Rightarrow> m128 \<Rightarrow> m128" where
  "mm_aesenclast_si128_crypto a RoundKey = mm_xor_si128 (vaese a (vdup (0 :: u8))) RoundKey"

definition mm_aeskeygenassist_si128_crypto :: "m128 \<Rightarrow> u32 \<Rightarrow> m128" where
  "mm_aeskeygenassist_si128_crypto a rcon =
     (let u8 = lanes (vaese a (vdup (0 :: u8))) :: u8 list;
          dest = (vld1 [u8 ! 0x4, u8 ! 0x1, u8 ! 0xE, u8 ! 0xB,
                        u8 ! 0x1, u8 ! 0xE, u8 ! 0xB, u8 ! 0x4,
                        u8 ! 0xC, u8 ! 0x9, u8 ! 0x6, u8 ! 0x3,
                        u8 ! 0x9, u8 ! 0x6, u8 ! 0x3, u8 ! 0xC] :: m128);
          r = vld1 [0, rcon, 0, rcon :: u32]
      in dest XOR r)"

section \<open>AArch64: the register computes a round\<close>

lemma sub_chain:
  assumes T: "length T = 256"
  shows "(let v = (if unat b < 64 then take 64 T ! unat b else 0 :: u8);
      v = (if unat (b - 0x40) < 64 then take 64 (drop 0x40 T) ! unat (b - 0x40) else v);
      v = (if unat (b - 0x80) < 64 then take 64 (drop 0x80 T) ! unat (b - 0x80) else v)
    in if unat (b - 0xc0) < 64 then take 64 (drop 0xc0 T) ! unat (b - 0xc0) else v) = T ! unat (b :: u8)"
proof -
  have b: "unat b < 256" using unsigned_less [of b] by simp
  have s: "unat (b - c) = (if unat c \<le> unat b then unat b - unat c else 256 + unat b - unat c)" for c :: u8
    by (cases "unat c \<le> unat b") (simp_all add: unat_sub_if')
  consider "unat b < 64" | "64 \<le> unat b" "unat b < 128" | "128 \<le> unat b" "unat b < 192" | "192 \<le> unat b"
    by linarith
  then show ?thesis
    by cases (use b T in \<open>simp_all add: s Let_def less_diff_conv2\<close>)
qed

lemma xtime_lanes: "push_bit 1 b XOR (signed_drop_bit 7 b AND 0x1b) = xtime b"
proof -
  have "signed_drop_bit 7 b = (if bit b 7 then - 1 else 0)"
    by (rule bit_word_eqI) (auto simp: bit_signed_drop_bit_iff not_less_eq_eq)
  then show ?thesis by (simp add: xtime_def)
qed
lemma length_sbox [simp]: "length SSE2NEON_sbox = 256"
  by (simp add: SSE2NEON_sbox_def)

lemma shift_rows_stage: "(lanes (vqtbl1 w (vld1 shift_rows :: m128)) :: u8 list) = shift_rows_bytes (lanes w)"
  by (simp add: lane_simps shift_rows_def shift_rows_bytes_def shift_rows_idx_def)

lemma sub_bytes_stage:
  fixes w :: m128
  defines "v0 \<equiv> vtbl (take 64 SSE2NEON_sbox) w"
  defines "v1 \<equiv> vtbx v0 (take 64 (drop 0x40 SSE2NEON_sbox)) (vsub TYPE(8) w (vdup (0x40 :: u8)))"
  defines "v2 \<equiv> vtbx v1 (take 64 (drop 0x80 SSE2NEON_sbox)) (vsub TYPE(8) w (vdup (0x80 :: u8)))"
  defines "v3 \<equiv> vtbx v2 (take 64 (drop 0xc0 SSE2NEON_sbox)) (vsub TYPE(8) w (vdup (0xc0 :: u8)))"
  shows "(lanes v3 :: u8 list) = map sub_byte (lanes w)"
proof (rule nth_equalityI)
  fix i assume "i < length (lanes v3 :: u8 list)"
  then have i: "i < 16" by simp
  have d: "8 dvd LENGTH(128)" by simp
  show "(lanes v3 :: u8 list) ! i = map sub_byte (lanes w) ! i"
    using i sub_chain [of SSE2NEON_sbox "(lanes w :: u8 list) ! i"]
    by (simp add: v3_def v2_def v1_def v0_def lanes_vtbx [OF d] lanes_vtbl [OF d] lanes_vsub lanes_vdup sub_byte_def Let_def
        del: nth_take nth_drop take_all take_all_iff split del: if_split)
qed simp

lemma rot16_stage:
  fixes v :: m128
  assumes "lanes v = [a, b, c, d, e, f, g, h, i, j, k, l, m, n, p, q :: u8]"
  shows "lanes (vrev TYPE(16) TYPE(32) v) = [c, d, a, b, g, h, e, f, k, l, i, j, p, q, m, n]"
proof -
  have rot: "(lanes (of_lanes (rev (lanes w :: u16 list)) :: u32) :: u8 list) =
      drop 2 (lanes w) @ take 2 (lanes w)" for w :: u32
  proof -
    have l2: "length (lanes w :: u16 list) = 2" "length (lanes z :: u8 list) = 2" for z :: u16 by simp_all
    obtain x y where xy: "(lanes w :: u16 list) = [x, y]"
      using list_2 [OF l2(1)] by blast
    have "(lanes (of_lanes [y, x] :: u32) :: u8 list) = lanes y @ lanes x"
      by (subst lanes_concat [where 'g = 16]) (simp_all)
    moreover have "(lanes w :: u8 list) = lanes x @ lanes y"
      by (subst lanes_concat [where 'g = 16]) (simp_all add: xy)
    ultimately show ?thesis by (simp add: xy)
  qed
  have c8: "(lanes u :: u8 list) = concat (map lanes (lanes u :: u32 list))" for u :: m128
    by (rule lanes_concat) simp_all
  have l4: "length (lanes v :: u32 list) = 4" by simp
  obtain x y z t where w: "(lanes v :: u32 list) = [x, y, z, t]"
    using list_4 [OF l4] by blast
  have len: "length (lanes z :: u8 list) = 4" for z :: u32 by simp
  have v: "lanes x @ lanes y @ lanes z @ lanes t = [a, b, c, d, e, f, g, h, i, j, k, l, m, n, p, q :: u8]"
    using assms c8 [of v] by (simp add: w)
  have "lanes x = [a, b, c, d]" "lanes y = [e, f, g, h]" "lanes z = [i, j, k, l]" "lanes t = [m, n, p, q]"
    using arg_cong [OF v, of "take 4"] arg_cong [OF v, of "take 4 o drop 4"]
      arg_cong [OF v, of "take 4 o drop 8"] arg_cong [OF v, of "drop 12"]
    by (simp_all add: len)
  moreover have "(lanes (vrev TYPE(16) TYPE(32) v) :: u32 list) =
      map (\<lambda>x. of_lanes (rev (lanes x :: u16 list))) [x, y, z, t]"
    unfolding vrev_def by (subst lanes_vmap) (simp_all add: w)
  ultimately show ?thesis
    by (subst c8) (simp add: rot)
qed
lemma mix_stage:
  fixes v :: m128
  defines "w1 \<equiv> vshl_n TYPE(8) v 1 XOR (vshr_s TYPE(8) v 7 AND vdup (0x1b :: u8))"
  defines "w2 \<equiv> w1 XOR vrev TYPE(16) TYPE(32) v"
  shows "(lanes (w2 XOR vqtbl1 (v XOR w2) (vld1 ror32by8 :: m128)) :: u8 list) = mix_columns (lanes v)"
proof -
  have l16: "length (lanes v :: u8 list) = 16" by simp
  obtain a b c d e f g h i j k l m n p q where v: "lanes v = [a, b, c, d, e, f, g, h, i, j, k, l, m, n, p, q :: u8]"
    using list_16 [OF l16] by blast
  have d: "8 dvd LENGTH(128)" by simp
  have w1: "(lanes w1 :: u8 list) = map xtime (lanes v)"
    by (simp add: w1_def lanes_xor lanes_and lanes_vshl_n lanes_vshr_s lanes_vdup v xtime_lanes [simplified] replicate_numeral)
  have w2: "(lanes w2 :: u8 list) = map2 (XOR) (map xtime (lanes v)) [c, d, a, b, g, h, e, f, k, l, i, j, p, q, m, n]"
    by (simp add: w2_def lanes_xor w1 rot16_stage [OF v])
  show ?thesis
    by (simp add: lanes_xor lanes_vqtbl1 lanes_vld1 ror32by8_def w2 v mix_columns_def mix_column_def Let_def xor.assoc xor.commute xor.left_commute)
qed

lemma lanes_aesenc: "(lanes (mm_aesenc_si128 a k) :: u8 list) = map2 (XOR) (aes_round (lanes a)) (lanes k)"
proof -
  let ?w = "vqtbl1 a (vld1 shift_rows :: m128)"
  let ?v = "vtbx (vtbx (vtbx (vtbl (take 64 SSE2NEON_sbox) ?w)
      (take 64 (drop 0x40 SSE2NEON_sbox)) (vsub TYPE(8) ?w (vdup (0x40 :: u8))))
      (take 64 (drop 0x80 SSE2NEON_sbox)) (vsub TYPE(8) ?w (vdup (0x80 :: u8))))
      (take 64 (drop 0xc0 SSE2NEON_sbox)) (vsub TYPE(8) ?w (vdup (0xc0 :: u8)))"
  have "(lanes ?v :: u8 list) = map sub_byte (shift_rows_bytes (lanes a))"
    by (simp only: sub_bytes_stage shift_rows_stage)
  also have "\<dots> = shift_rows_bytes (map sub_byte (lanes a))"
    by (simp add: shift_rows_bytes_def shift_rows_idx_def)
  finally have v: "(lanes ?v :: u8 list) = shift_rows_bytes (map sub_byte (lanes a))" .
  have d: "LENGTH(8) dvd LENGTH(128)" by simp
  show ?thesis
    by (simp only: mm_aesenc_si128_def Let_def lanes_xor [OF d] mix_stage [unfolded lanes_xor [OF d]] v aes_round_def)
qed

section \<open>ARMv7: the tables compute a round\<close>

lemma sub_byte_index: "SSE2NEON_sbox ! unat b = sub_byte b"
  by (simp add: sub_byte_def)

lemma byte_of_lane:
  "j < 4 \<Longrightarrow> unat (drop_bit (8 * j) x AND 0xff :: u32) = unat ((lanes x :: u8 list) ! j)"
proof -
  assume j: "j < 4"
  have "drop_bit (8 * j) x AND 0xff = (ucast ((lanes x :: u8 list) ! j) :: u32)"
  proof (rule bit_word_eqI)
    fix n assume "n < LENGTH(32)"
    have m: "(0xff :: u32) = mask 8" by (simp add: mask_eq_exp_minus_1)
    then show "bit (drop_bit (8 * j) x AND 0xff :: u32) n = bit (ucast ((lanes x :: u8 list) ! j) :: u32) n"
      using j unfolding m by (auto simp: bit_simps bit_nth_lanes bit_mask_iff dest: bit_imp_le_length)
  qed
  moreover have "unat (ucast b :: u32) = unat (b :: u8)" for b
    by (simp add: unsigned_ucast_eq take_bit_nat_eq_self order_less_le_trans [OF unsigned_less])
  ultimately show ?thesis by simp
qed

lemma lane_bytes:
  "unat (x AND 0xff :: u32) = unat ((lanes x :: u8 list) ! 0)"
  "unat (drop_bit 8 x AND 0xff :: u32) = unat ((lanes x :: u8 list) ! 1)"
  "unat (drop_bit 16 x AND 0xff :: u32) = unat ((lanes x :: u8 list) ! 2)"
  "unat (drop_bit 24 x :: u32) = unat ((lanes x :: u8 list) ! 3)"
proof -
  have m: "(0xff :: u32) = mask 8" by (simp add: mask_eq_exp_minus_1)
  have "drop_bit 24 x AND 0xff = drop_bit 24 x"
    unfolding m by (rule bit_word_eqI) (auto simp: bit_simps bit_mask_iff dest: bit_imp_le_length)
  with byte_of_lane [of 3 x] show "unat (drop_bit 24 x :: u32) = unat ((lanes x :: u8 list) ! 3)" by simp
qed (use byte_of_lane [of 0 x] byte_of_lane [of 1 x] byte_of_lane [of 2 x] in simp_all)

lemma ucast_xtime: "AES_F2 (ucast p) = ucast (xtime p)"
proof -
  have "push_bit 1 (ucast p :: u32) = ucast (push_bit 1 p) XOR (if bit p 7 then push_bit 8 1 else 0)"
  proof (cases "bit p 7")
    case True
    have "bit (push_bit 1 (ucast p :: u32)) n = bit (ucast (push_bit 1 p) XOR push_bit 8 1 :: u32) n" if "n < 32" for n
      using that True unfolding bit_xor_iff bit_push_bit_iff bit_unsigned_iff bit_1_iff
      by (cases "n = 8") (auto dest: bit_imp_le_length)
    with True show ?thesis by (auto intro!: bit_word_eqI)
  next
    case False
    have "bit (push_bit 1 (ucast p :: u32)) n = bit (ucast (push_bit 1 p) :: u32) n" for n
      using False unfolding bit_push_bit_iff bit_unsigned_iff
      by (cases "n = 8") (auto dest: bit_imp_le_length)
    then have "push_bit 1 (ucast p :: u32) = ucast (push_bit 1 p)" by (intro bit_word_eqI)
    with False show ?thesis by simp
  qed
  moreover have "(drop_bit 7 (ucast p :: u32) AND 1) = (if bit p 7 then 1 else 0)"
  proof (rule bit_word_eqI)
    fix n show "bit (drop_bit 7 (ucast p :: u32) AND 1) n = bit (if bit p 7 then 1 else 0 :: u32) n"
      by (cases "n = 0") (auto simp: bit_simps)
  qed
  ultimately show ?thesis
    by (simp add: AES_F2_def xtime_def xor.assoc unsigned_xor_eq)
qed
lemma AES_B2W_bytes:
  "AES_B2W (ucast b0) (ucast b1) (ucast b2) (ucast b3) = (of_lanes [b0, b1, b2, b3 :: u8] :: u32)"
  by (simp add: AES_B2W_def of_lanes_Cons push_bit_or push_bit_push_bit or.assoc or.commute or.left_commute del: push_bit_numeral_minus_1)

lemma aes_table_bytes:
  "lanes (aes_table ! 0 ! unat b) = [xtime (sub_byte b), sub_byte b, sub_byte b, xtime (sub_byte b) XOR sub_byte b]"
  "lanes (aes_table ! 1 ! unat b) = [xtime (sub_byte b) XOR sub_byte b, xtime (sub_byte b), sub_byte b, sub_byte b]"
  "lanes (aes_table ! 2 ! unat b) = [sub_byte b, xtime (sub_byte b) XOR sub_byte b, xtime (sub_byte b), sub_byte b]"
  "lanes (aes_table ! 3 ! unat (b :: u8)) = [sub_byte b, sub_byte b, xtime (sub_byte b) XOR sub_byte b, xtime (sub_byte b)]"
proof -
  have b: "unat b < 256" using unsigned_less [of b] by simp
  have f3: "AES_F3 (ucast p) = ucast (xtime p XOR p)" for p :: u8
    by (simp add: AES_F3_def ucast_xtime unsigned_xor_eq)
  note w = aes_table_def AES_U0_def AES_U1_def AES_U2_def AES_U3_def f3 ucast_xtime AES_B2W_bytes sub_byte_index
  show "lanes (aes_table ! 0 ! unat b) = [xtime (sub_byte b), sub_byte b, sub_byte b, xtime (sub_byte b) XOR sub_byte b]"
    "lanes (aes_table ! 1 ! unat b) = [xtime (sub_byte b) XOR sub_byte b, xtime (sub_byte b), sub_byte b, sub_byte b]"
    "lanes (aes_table ! 2 ! unat b) = [sub_byte b, xtime (sub_byte b) XOR sub_byte b, xtime (sub_byte b), sub_byte b]"
    "lanes (aes_table ! 3 ! unat b) = [sub_byte b, sub_byte b, xtime (sub_byte b) XOR sub_byte b, xtime (sub_byte b)]"
    using b by (simp_all add: w nth_map)
qed

lemma lanes_aesenc_v7: "(lanes (mm_aesenc_si128_v7 a k) :: u8 list) = map2 (XOR) (aes_round (lanes a)) (lanes k)"
proof -
  have l4: "length (lanes a :: u32 list) = 4" by simp
  obtain x0 x1 x2 x3 where x: "(lanes a :: u32 list) = [x0, x1, x2, x3]"
    using list_4 [OF l4] by blast
  have lb: "length (lanes x :: u8 list) = 4" for x :: u32 by simp
  obtain a0 a1 a2 a3 where a: "(lanes x0 :: u8 list) = [a0, a1, a2, a3]" using list_4 [OF lb] by blast
  obtain b0 b1 b2 b3 where b: "(lanes x1 :: u8 list) = [b0, b1, b2, b3]" using list_4 [OF lb] by blast
  obtain c0 c1 c2 c3 where c: "(lanes x2 :: u8 list) = [c0, c1, c2, c3]" using list_4 [OF lb] by blast
  obtain d0 d1 d2 d3 where d: "(lanes x3 :: u8 list) = [d0, d1, d2, d3]" using list_4 [OF lb] by blast
  have v: "(lanes a :: u8 list) = [a0, a1, a2, a3, b0, b1, b2, b3, c0, c1, c2, c3, d0, d1, d2, d3]"
    by (simp add: bytes_of_u32s x a b c d)
  have cvt: "mm_cvtsi128_si32 a = x0" by (simp add: mm_cvtsi128_si32_def vget_lane_def x)
  let ?t = "\<lambda>k b. aes_table ! k ! unat (b :: u8)"
  have out: "mm_aesenc_si128_v7 a k = mm_xor_si128 (mm_set_epi32
      (?t 0 d0 XOR ?t 1 a1 XOR ?t 2 b2 XOR ?t 3 c3) (?t 0 c0 XOR ?t 1 d1 XOR ?t 2 a2 XOR ?t 3 b3)
      (?t 0 b0 XOR ?t 1 c1 XOR ?t 2 d2 XOR ?t 3 a3) (?t 0 a0 XOR ?t 1 b1 XOR ?t 2 c2 XOR ?t 3 d3)) k"
    unfolding mm_aesenc_si128_v7_def Let_def cvt cvtsi128_shuffle lane_bytes(2-4)
    by (simp add: x a b c d lane_bytes(1))
  have d8: "LENGTH(8) dvd LENGTH(32)" "LENGTH(8) dvd LENGTH(128)" by simp_all
  have "(lanes (mm_set_epi32
      (?t 0 d0 XOR ?t 1 a1 XOR ?t 2 b2 XOR ?t 3 c3) (?t 0 c0 XOR ?t 1 d1 XOR ?t 2 a2 XOR ?t 3 b3)
      (?t 0 b0 XOR ?t 1 c1 XOR ?t 2 d2 XOR ?t 3 a3) (?t 0 a0 XOR ?t 1 b1 XOR ?t 2 c2 XOR ?t 3 d3)) :: u8 list) =
      aes_round (lanes a)"
    unfolding bytes_of_u32s [of "mm_set_epi32 _ _ _ _"] lanes_set_epi32 list.map lanes_xor [OF d8(1)] aes_table_bytes
      aes_round_def v
    by (simp add: shift_rows_bytes_def shift_rows_idx_def mix_columns_def mix_column_def Let_def xor.assoc xor.commute xor.left_commute)
  then show ?thesis
    unfolding out mm_xor_si128_def lanes_xor [OF d8(2)] by simp
qed

section \<open>The last round and the key schedule\<close>

lemma lanes_aesenclast:
  "(lanes (mm_aesenclast_si128 a k) :: u8 list) = map2 (XOR) (aes_final_round (lanes a)) (lanes k)"
proof -
  have d: "LENGTH(8) dvd LENGTH(128)" "16 \<le> LENGTH(128) div LENGTH(8)" by simp_all
  have l: "length (lanes v :: u8 list) = 16" for v :: m128 by simp
  obtain k0 k1 k2 k3 k4 k5 k6 k7 k8 k9 k10 k11 k12 k13 k14 k15 where
    k: "(lanes k :: u8 list) = [k0, k1, k2, k3, k4, k5, k6, k7, k8, k9, k10, k11, k12, k13, k14, k15]"
    using list_16 [OF l] by blast
  have up: "[0..<16] = [0, 1, 2, 3, 4, 5, 6, 7, 8, 9, 10, 11, 12, 13, 14, 15 :: nat]" by (simp add: upt_rec)
  show ?thesis
    unfolding mm_aesenclast_si128_def Let_def lanes_set_all [OF d] aes_final_round_def
    unfolding up
    by (simp add: vget_lane_def k sub_byte_index shift_rows_bytes_def shift_rows_idx_def)
qed

lemma lanes_vaese: "(lanes (vaese a (vdup (0 :: u8))) :: u8 list) = shift_rows_bytes (map sub_byte (lanes a))"
proof -
  have "(vdup (0 :: u8) :: m128) = 0"
    by (simp add: vdup_def)
  then show ?thesis
    by (simp add: vaese_def shift_rows_bytes_def shift_rows_idx_def)
qed

lemma aesenc_crypto: "mm_aesenc_si128_crypto a k = mm_aesenc_si128 a k"
proof (rule lanes_eqI [where 'a = 8])
  have "length (mix_columns s) = 16" for s by (simp add: mix_columns_def mix_column_def Let_def)
  then show "(lanes (mm_aesenc_si128_crypto a k) :: u8 list) = lanes (mm_aesenc_si128 a k)"
    by (simp add: mm_aesenc_si128_crypto_def lanes_xor vaesmc_def lanes_vaese lanes_aesenc aes_round_def)
qed simp

lemma aesenclast_crypto: "mm_aesenclast_si128_crypto a k = mm_aesenclast_si128 a k"
  by (rule lanes_eqI [where 'a = 8])
    (simp_all add: mm_aesenclast_si128_crypto_def mm_xor_si128_def lanes_xor lanes_vaese lanes_aesenclast aes_final_round_def)

lemma aesenc_v7: "mm_aesenc_si128_v7 a k = mm_aesenc_si128 a k"
  by (rule lanes_eqI [where 'a = 8]) (simp_all add: lanes_aesenc lanes_aesenc_v7)

text \<open>\<open>aeskeygenassist\<close> on the four words of the key.\<close>

definition rot_word :: "u8 list \<Rightarrow> u8 list" where
  "rot_word b = [b ! 1, b ! 2, b ! 3, b ! 0]"

lemma lanes_sub_word: "lanes (sub_word x) = map sub_byte (lanes x)"
proof -
  have d: "LENGTH(8) dvd LENGTH(32)" "4 \<le> LENGTH(32) div LENGTH(8)" by simp_all
  show ?thesis
    unfolding sub_word_def sub_byte_index lanes_map_all [OF d] by simp
qed

lemma lanes_rot: "lanes (drop_bit 8 x OR push_bit 24 x :: u32) = rot_word (lanes x)"
proof (rule nth_equalityI)
  have h: "\<not> bit x (32 + n)" for n using bit_imp_le_length [of x "32 + n"] by auto
  fix i assume "i < length (lanes (drop_bit 8 x OR push_bit 24 x :: u32) :: u8 list)"
  then have i: "i = 0 \<or> i = 1 \<or> i = 2 \<or> i = 3" by auto
  show "(lanes (drop_bit 8 x OR push_bit 24 x :: u32) :: u8 list) ! i = rot_word (lanes x) ! i"
    by (rule bit_word_eqI)
      (use i h in \<open>auto simp: bit_nth_lanes rot_word_def bit_or_iff bit_drop_bit_eq bit_push_bit_iff add.assoc dest: bit_imp_le_length\<close>)
qed (simp add: rot_word_def)

lemma lanes_aeskeygenassist:
  "(lanes (mm_aeskeygenassist_si128 key rcon) :: u8 list) =
   (let X1 = map sub_byte (take 4 (drop 4 (lanes key))); X3 = map sub_byte (drop 12 (lanes key))
    in X1 @ map2 (XOR) (rot_word X1) (lanes rcon) @ X3 @ map2 (XOR) (rot_word X3) (lanes rcon))"
proof -
  have d8: "LENGTH(8) dvd LENGTH(32)" by simp
  have l4: "length (lanes key :: u32 list) = 4" by simp
  obtain x0 x1 x2 x3 where x: "(lanes key :: u32 list) = [x0, x1, x2, x3]"
    using list_4 [OF l4] by blast
  show ?thesis
    unfolding mm_aeskeygenassist_si128_def Let_def bytes_of_u32s [of "mm_set_epi32 _ _ _ _"] lanes_set_epi32
      cvtsi128_shuffle bytes_of_u32s [of key]
    by (simp add: x lanes_sub_word lanes_rot lanes_xor [OF d8])
qed

lemma aeskeygenassist_crypto: "mm_aeskeygenassist_si128_crypto a rcon = mm_aeskeygenassist_si128 a rcon"
proof (rule lanes_eqI [where 'a = 8])
  have l16: "length (lanes a :: u8 list) = 16" by simp
  obtain a0 b0 c0 d0 e0 f0 g h i j k l m n p q where v: "lanes a = [a0, b0, c0, d0, e0, f0, g, h, i, j, k, l, m, n, p, q :: u8]"
    using list_16 [OF l16] by blast
  have l4: "length (lanes rcon :: u8 list) = 4" by simp
  obtain r0 r1 r2 r3 where r: "(lanes rcon :: u8 list) = [r0, r1, r2, r3]"
    using list_4 [OF l4] by blast
  have z: "(lanes (0 :: u32) :: u8 list) = [0, 0, 0, 0]" by (simp add: lanes_0 replicate_numeral)
  have "(lanes (vld1 [0, rcon, 0, rcon] :: m128) :: u8 list) = [0, 0, 0, 0, r0, r1, r2, r3, 0, 0, 0, 0, r0, r1, r2, r3]"
    by (simp add: bytes_of_u32s lanes_vld1 r z)
  then show "(lanes (mm_aeskeygenassist_si128_crypto a rcon) :: u8 list) = lanes (mm_aeskeygenassist_si128 a rcon)"
    by (simp add: mm_aeskeygenassist_si128_crypto_def Let_def lanes_xor lanes_vaese lanes_vld1 lanes_aeskeygenassist
        v r shift_rows_bytes_def shift_rows_idx_def rot_word_def)
qed simp

section \<open>The substitution table\<close>

primrec pow3s :: "nat \<Rightarrow> u8 \<Rightarrow> u8 list" where
  "pow3s 0 b = []"
| "pow3s (Suc n) b = b # pow3s n (xtime b XOR b)"

definition affine :: "u8 \<Rightarrow> u8" where
  "affine b = b XOR (push_bit 1 b OR drop_bit 7 b) XOR (push_bit 2 b OR drop_bit 6 b) XOR
     (push_bit 3 b OR drop_bit 5 b) XOR (push_bit 4 b OR drop_bit 4 b) XOR 0x63"

lemma pow3s_numeral: "pow3s (numeral k) b = b # pow3s (pred_numeral k) (xtime b XOR b)"
  by (simp add: numeral_eq_Suc)

lemma pow3s_255: "pow3s 255 1 = [
    0x1, 0x3, 0x5, 0xf, 0x11, 0x33, 0x55, 0xff, 0x1a, 0x2e, 0x72, 0x96, 0xa1, 0xf8, 0x13, 0x35,
    0x5f, 0xe1, 0x38, 0x48, 0xd8, 0x73, 0x95, 0xa4, 0xf7, 0x2, 0x6, 0xa, 0x1e, 0x22, 0x66, 0xaa,
    0xe5, 0x34, 0x5c, 0xe4, 0x37, 0x59, 0xeb, 0x26, 0x6a, 0xbe, 0xd9, 0x70, 0x90, 0xab, 0xe6, 0x31,
    0x53, 0xf5, 0x4, 0xc, 0x14, 0x3c, 0x44, 0xcc, 0x4f, 0xd1, 0x68, 0xb8, 0xd3, 0x6e, 0xb2, 0xcd,
    0x4c, 0xd4, 0x67, 0xa9, 0xe0, 0x3b, 0x4d, 0xd7, 0x62, 0xa6, 0xf1, 0x8, 0x18, 0x28, 0x78, 0x88,
    0x83, 0x9e, 0xb9, 0xd0, 0x6b, 0xbd, 0xdc, 0x7f, 0x81, 0x98, 0xb3, 0xce, 0x49, 0xdb, 0x76, 0x9a,
    0xb5, 0xc4, 0x57, 0xf9, 0x10, 0x30, 0x50, 0xf0, 0xb, 0x1d, 0x27, 0x69, 0xbb, 0xd6, 0x61, 0xa3,
    0xfe, 0x19, 0x2b, 0x7d, 0x87, 0x92, 0xad, 0xec, 0x2f, 0x71, 0x93, 0xae, 0xe9, 0x20, 0x60, 0xa0,
    0xfb, 0x16, 0x3a, 0x4e, 0xd2, 0x6d, 0xb7, 0xc2, 0x5d, 0xe7, 0x32, 0x56, 0xfa, 0x15, 0x3f, 0x41,
    0xc3, 0x5e, 0xe2, 0x3d, 0x47, 0xc9, 0x40, 0xc0, 0x5b, 0xed, 0x2c, 0x74, 0x9c, 0xbf, 0xda, 0x75,
    0x9f, 0xba, 0xd5, 0x64, 0xac, 0xef, 0x2a, 0x7e, 0x82, 0x9d, 0xbc, 0xdf, 0x7a, 0x8e, 0x89, 0x80,
    0x9b, 0xb6, 0xc1, 0x58, 0xe8, 0x23, 0x65, 0xaf, 0xea, 0x25, 0x6f, 0xb1, 0xc8, 0x43, 0xc5, 0x54,
    0xfc, 0x1f, 0x21, 0x63, 0xa5, 0xf4, 0x7, 0x9, 0x1b, 0x2d, 0x77, 0x99, 0xb0, 0xcb, 0x46, 0xca,
    0x45, 0xcf, 0x4a, 0xde, 0x79, 0x8b, 0x86, 0x91, 0xa8, 0xe3, 0x3e, 0x42, 0xc6, 0x51, 0xf3, 0xe,
    0x12, 0x36, 0x5a, 0xee, 0x29, 0x7b, 0x8d, 0x8c, 0x8f, 0x8a, 0x85, 0x94, 0xa7, 0xf2, 0xd, 0x17,
    0x39, 0x4b, 0xdd, 0x7c, 0x84, 0x97, 0xa2, 0xfd, 0x1c, 0x24, 0x6c, 0xb4, 0xc7, 0x52, 0xf6]"
  by (simp add: pow3s_numeral xtime_def bit_numeral_rec bit_1_iff)

lemma sbox_inverse:
  "map sub_byte (pow3s 255 1) = map affine (1 # rev (tl (pow3s 255 1)))"
  unfolding pow3s_255 affine_def sub_byte_def
  by (simp add: SSE2NEON_sbox_def)
section \<open>Properties\<close>

text \<open>the substitution table is the S-box of FIPS-197: the affine map of the multiplicative
  inverse, for 0 and for each of the 255 powers of the generator 3 of the field.\<close>

theorem sbox_is_fips197:
  "sub_byte 0 = affine 0 \<and>
   map sub_byte (pow3s 255 1) = map affine (1 # rev (tl (pow3s 255 1)))"
  using sbox_inverse by (simp add: sub_byte_def SSE2NEON_sbox_def affine_def)

text \<open>C26: the AES round instructions are the rounds of FIPS-197: \<open>aesenc\<close> substitutes the bytes,
  shifts the rows, mixes the columns and adds the round key; \<open>aesenclast\<close> leaves the mixing out.
  \<open>aeskeygenassist\<close> gives the words of the key schedule: for the second and the fourth word of the
  key, its substituted bytes (SubWord), and these rotated with the round constant added (RotWord).\<close>

theorem aes_rounds_are_fips197:
  "(lanes (mm_aesenc_si128 a k) :: u8 list) =
     map2 (XOR) (mix_columns (shift_rows_bytes (map sub_byte (lanes a)))) (lanes k) \<and>
   (lanes (mm_aesenclast_si128 a k) :: u8 list) =
     map2 (XOR) (shift_rows_bytes (map sub_byte (lanes a))) (lanes k) \<and>
   (lanes (mm_aeskeygenassist_si128 key rcon) :: u8 list) =
     (let X1 = map sub_byte (take 4 (drop 4 (lanes key))); X3 = map sub_byte (drop 12 (lanes key))
      in X1 @ map2 (XOR) (rot_word X1) (lanes rcon) @ X3 @ map2 (XOR) (rot_word X3) (lanes rcon))"
  by (intro conjI lanes_aeskeygenassist) (simp_all add: lanes_aesenc lanes_aesenclast aes_round_def aes_final_round_def)

text \<open>C37: the builds of the AES instructions agree: the table look-ups on AArch64, the word tables
  on ARMv7 and the crypto extension compute the same functions.\<close>

theorem aes_builds_agree:
  "mm_aesenc_si128_v7 a k = mm_aesenc_si128 a k \<and>
   mm_aesenc_si128_crypto a k = mm_aesenc_si128 a k \<and>
   mm_aesenclast_si128_crypto a k = mm_aesenclast_si128 a k \<and>
   mm_aeskeygenassist_si128_crypto a rcon = mm_aeskeygenassist_si128 a rcon"
  by (simp add: aesenc_v7 aesenc_crypto aesenclast_crypto aeskeygenassist_crypto)

end
