(* ===== verification/Aes.thy ===== *)
theory Aes
  imports Sse_Aes
begin

text \<open>
  \<open>psetggm/Defines.h\<close>, \<open>Defines.cpp\<close>, \<open>AES.h\<close> and \<open>AES.cpp\<close>: blocks and the AES-128 class. The
  state of an \<open>AES\<close> object is its encryption round keys: the members \<open>key\<close> and \<open>mRoundKeysDec\<close>
  are never written, \<open>decryptECB\<close> is declared and never defined. A block array is a list of
  registers. The three bulk routines work on eight blocks at a time; the source unrolls the
  eight lines of each round, here they are a \<open>map\<close> over the eight temporaries.
\<close>

section \<open>Blocks\<close>

definition toBlock :: "u8 list \<Rightarrow> nat \<Rightarrow> m128 option" where
  "toBlock inp p = do {
     hi \<leftarrow> (loadv inp (p + 8) :: u64 option);
     lo \<leftarrow> loadv inp p;
     Some (mm_set_epi64x hi lo)
   }"

definition dupUint64 :: "u64 \<Rightarrow> m128" where
  "dupUint64 v = mm_set_epi64x v v"

definition eq :: "m128 \<Rightarrow> m128 \<Rightarrow> bool" where
  "eq lhs rhs = (let neq = mm_xor_si128 lhs rhs in mm_test_all_zeros neq neq \<noteq> 0)"

definition neq :: "m128 \<Rightarrow> m128 \<Rightarrow> bool" where
  "neq lhs rhs = (let neq = mm_xor_si128 lhs rhs in mm_test_all_zeros neq neq = 0)"

definition is_zero :: "m128 \<Rightarrow> bool" where
  "is_zero b = (mm_test_all_zeros b b \<noteq> 0)"

definition ZeroBlock :: m128 where "ZeroBlock = mm_set_epi64x 0 0"
definition LSBBlock :: m128 where "LSBBlock = mm_set_epi64x 0 1"
definition MSBBlock :: m128 where "MSBBlock = mm_set_epi64x (push_bit 63 1) 0"
definition AllOneBlock :: m128 where "AllOneBlock = mm_set_epi64x (- 1) (- 1)"
definition TestBlock :: m128 where "TestBlock = of_lanes (replicate 16 (0xaa :: u8))"

text \<open>
  \<open>split\<close>: \<open>std::getline\<close> on a string stream gives the text up to the next delimiter and drops
  the delimiter; it fails when nothing is left, so a trailing delimiter adds no empty item.
\<close>

function split :: "char \<Rightarrow> string \<Rightarrow> string list" where
  "split delim s =
     (if s = [] then []
      else takeWhile (\<lambda>x. x \<noteq> delim) s # split delim (drop 1 (dropWhile (\<lambda>x. x \<noteq> delim) s)))"
  by auto

termination
proof (relation "measure (length o snd)")
  fix delim and s :: string assume "s \<noteq> []"
  then show "((delim, drop 1 (dropWhile (\<lambda>x. x \<noteq> delim) s)), delim, s) \<in> measure (length o snd)"
    using length_dropWhile_le [of "\<lambda>x. x \<noteq> delim" s] by (cases s) auto
qed simp

declare split.simps [simp del]

section \<open>The key schedule\<close>

record AES =
  mRoundKeysEnc :: "m128 list"

definition keyGenHelper :: "m128 \<Rightarrow> m128 \<Rightarrow> m128" where
  "keyGenHelper key keyRcon =
     (let keyRcon = mm_shuffle_epi32 keyRcon (MM_SHUFFLE 3 3 3 3);
          key = mm_xor_si128 key (mm_slli_si128 key 4);
          key = mm_xor_si128 key (mm_slli_si128 key 4);
          key = mm_xor_si128 key (mm_slli_si128 key 4)
      in mm_xor_si128 key keyRcon)"

definition setKey :: "m128 \<Rightarrow> AES" where
  "setKey key =
     (let k0 = key;
          k1 = keyGenHelper k0 (mm_aeskeygenassist_si128 k0 0x01);
          k2 = keyGenHelper k1 (mm_aeskeygenassist_si128 k1 0x02);
          k3 = keyGenHelper k2 (mm_aeskeygenassist_si128 k2 0x04);
          k4 = keyGenHelper k3 (mm_aeskeygenassist_si128 k3 0x08);
          k5 = keyGenHelper k4 (mm_aeskeygenassist_si128 k4 0x10);
          k6 = keyGenHelper k5 (mm_aeskeygenassist_si128 k5 0x20);
          k7 = keyGenHelper k6 (mm_aeskeygenassist_si128 k6 0x40);
          k8 = keyGenHelper k7 (mm_aeskeygenassist_si128 k7 0x80);
          k9 = keyGenHelper k8 (mm_aeskeygenassist_si128 k8 0x1B);
          k10 = keyGenHelper k9 (mm_aeskeygenassist_si128 k9 0x36)
      in \<lparr>mRoundKeysEnc = [k0, k1, k2, k3, k4, k5, k6, k7, k8, k9, k10]\<rparr>)"

definition setKey_bytes :: "u8 list \<Rightarrow> nat \<Rightarrow> AES option" where
  "setKey_bytes key p = map_option setKey (toBlock key p)"

definition fixed_key :: "u8 list" where
  "fixed_key = [36, 156, 50, 234, 92, 230, 49, 9, 174, 170, 205, 160, 98, 236, 29, 243]"

definition fixed_key2 :: "u8 list" where
  "fixed_key2 = [209, 12, 199, 173, 29, 74, 44, 128, 194, 224, 14, 44, 2, 201, 110, 28]"

definition mAesFixedKey :: AES where
  "mAesFixedKey = the (setKey_bytes fixed_key 0)"

definition mAesFixedKey2 :: AES where
  "mAesFixedKey2 = the (setKey_bytes fixed_key2 0)"

text \<open>The default constructor.\<close>

definition AES_default :: AES where
  "AES_default = the (setKey_bytes (replicate 16 0) 0)"

section \<open>Encryption\<close>

definition encryptECB :: "AES \<Rightarrow> m128 \<Rightarrow> m128" where
  "encryptECB aes plaintext =
     (let k = (\<lambda>i. mRoundKeysEnc aes ! i);
          c = mm_xor_si128 plaintext (k 0);
          c = mm_aesenc_si128 c (k 1);
          c = mm_aesenc_si128 c (k 2);
          c = mm_aesenc_si128 c (k 3);
          c = mm_aesenc_si128 c (k 4);
          c = mm_aesenc_si128 c (k 5);
          c = mm_aesenc_si128 c (k 6);
          c = mm_aesenc_si128 c (k 7);
          c = mm_aesenc_si128 c (k 8);
          c = mm_aesenc_si128 c (k 9)
      in mm_aesenclast_si128 c (k 10))"

definition encryptECB_MMO :: "AES \<Rightarrow> m128 \<Rightarrow> m128" where
  "encryptECB_MMO aes plaintext =
     (let k = (\<lambda>i. mRoundKeysEnc aes ! i);
          c = mm_xor_si128 plaintext (k 0);
          c = mm_aesenc_si128 c (k 1);
          c = mm_aesenc_si128 c (k 2);
          c = mm_aesenc_si128 c (k 3);
          c = mm_aesenc_si128 c (k 4);
          c = mm_aesenc_si128 c (k 5);
          c = mm_aesenc_si128 c (k 6);
          c = mm_aesenc_si128 c (k 7);
          c = mm_aesenc_si128 c (k 8);
          c = mm_aesenc_si128 c (k 9);
          c = mm_aesenclast_si128 c (k 10)
      in mm_xor_si128 c plaintext)"

text \<open>Eight consecutive blocks of an array.\<close>

definition rd8 :: "'a list \<Rightarrow> nat \<Rightarrow> 'a list option" where
  "rd8 xs idx = (if idx + 8 \<le> length xs then Some (take 8 (drop idx xs)) else None)"

definition wr8 :: "'a list \<Rightarrow> nat \<Rightarrow> 'a list \<Rightarrow> 'a list option" where
  "wr8 xs idx ys = (if idx + 8 \<le> length xs then Some (take idx xs @ ys @ drop (idx + 8) xs) else None)"

text \<open>Rounds 1 to 9 on all temporaries.\<close>

definition enc_rounds :: "AES \<Rightarrow> m128 list \<Rightarrow> m128 list" where
  "enc_rounds aes temp =
     foldl (\<lambda>temp r. map (\<lambda>t. mm_aesenc_si128 t (mRoundKeysEnc aes ! r)) temp) temp [1..<10]"

definition encryptECBBlocks :: "AES \<Rightarrow> m128 list \<Rightarrow> u64 \<Rightarrow> m128 list \<Rightarrow> m128 list option" where
  "encryptECBBlocks aes plaintexts blockLength ciphertexts =
     (let k = (\<lambda>i. mRoundKeysEnc aes ! i);
          len = unat (blockLength - blockLength mod 8)
      in do {
        ciphertexts \<leftarrow> for_range 0 (len div 8) (\<lambda>q ciphertexts. do {
          temp \<leftarrow> rd8 plaintexts (8 * q);
          let temp = map (\<lambda>p. mm_xor_si128 p (k 0)) temp;
          let temp = enc_rounds aes temp;
          wr8 ciphertexts (8 * q) (map (\<lambda>t. mm_aesenclast_si128 t (k 10)) temp)
        }) ciphertexts;
        for_range len (unat blockLength) (\<lambda>idx ciphertexts. do {
          p \<leftarrow> rd plaintexts idx;
          let c = mm_xor_si128 p (k 0);
          let c = foldl (\<lambda>c r. mm_aesenc_si128 c (k r)) c [1..<10];
          wr ciphertexts idx (mm_aesenclast_si128 c (k 10))
        }) ciphertexts
      })"

text \<open>
  \<open>encryptECB_MMO_Blocks\<close>: the batch loop XORs with \<open>plaintexts[0]\<close> to \<open>plaintexts[7]\<close>, not with
  the blocks of the batch.
\<close>

definition encryptECB_MMO_Blocks :: "AES \<Rightarrow> m128 list \<Rightarrow> u64 \<Rightarrow> m128 list \<Rightarrow> m128 list option" where
  "encryptECB_MMO_Blocks aes plaintexts blockLength ciphertexts =
     (let k = (\<lambda>i. mRoundKeysEnc aes ! i);
          len = unat (blockLength - blockLength mod 8)
      in do {
        ciphertexts \<leftarrow> for_range 0 (len div 8) (\<lambda>q ciphertexts. do {
          temp \<leftarrow> rd8 plaintexts (8 * q);
          let temp = map (\<lambda>p. mm_xor_si128 p (k 0)) temp;
          let temp = enc_rounds aes temp;
          let temp = map (\<lambda>t. mm_aesenclast_si128 t (k 10)) temp;
          p \<leftarrow> rd8 plaintexts 0;
          wr8 ciphertexts (8 * q) (map2 mm_xor_si128 temp p)
        }) ciphertexts;
        for_range len (unat blockLength) (\<lambda>idx ciphertexts. do {
          p \<leftarrow> rd plaintexts idx;
          let c = mm_xor_si128 p (k 0);
          let c = foldl (\<lambda>c r. mm_aesenc_si128 c (k r)) c [1..<10];
          let c = mm_aesenclast_si128 c (k 10);
          wr ciphertexts idx (mm_xor_si128 p c)
        }) ciphertexts
      })"

definition encryptCTR :: "AES \<Rightarrow> u64 \<Rightarrow> u64 \<Rightarrow> m128 list \<Rightarrow> m128 list option" where
  "encryptCTR aes baseIdx blockLength ciphertext =
     (let k = (\<lambda>i. mRoundKeysEnc aes ! i);
          len = unat (blockLength - blockLength mod 8)
      in do {
        (baseIdx, ciphertext) \<leftarrow> for_range 0 (len div 8) (\<lambda>q (baseIdx, ciphertext). do {
          let temp = map (\<lambda>j. mm_xor_si128 (mm_set1_epi64x (baseIdx + j)) (k 0)) [0, 1, 2, 3, 4, 5, 6, 7];
          let temp = enc_rounds aes temp;
          ciphertext \<leftarrow> wr8 ciphertext (8 * q) (map (\<lambda>t. mm_aesenclast_si128 t (k 10)) temp);
          Some (baseIdx + 8, ciphertext)
        }) (baseIdx, ciphertext);
        (baseIdx, ciphertext) \<leftarrow> for_range len (unat blockLength) (\<lambda>idx (baseIdx, ciphertext). do {
          let c = mm_xor_si128 (mm_set1_epi64x baseIdx) (k 0);
          let c = foldl (\<lambda>c r. mm_aesenc_si128 c (k r)) c [1..<10];
          ciphertext \<leftarrow> wr ciphertext idx (mm_aesenclast_si128 c (k 10));
          Some (baseIdx + 1, ciphertext)
        }) (baseIdx, ciphertext);
        Some ciphertext
      })"

section \<open>Blocks and keys\<close>

lemma toBlock_eq: "toBlock m p = (loadv m p :: m128 option)"
proof (cases "p + 16 \<le> length m")
  case True
  have "lanes (vcombine (of_lanes (take 8 (drop p m)) :: u64) (of_lanes (take 8 (drop (p + 8) m))) :: m128) =
      take 16 (drop p m)"
  proof -
    have "take 16 (drop p m) = take 8 (drop p m) @ take 8 (drop (p + 8) m)"
      using take_add [of 8 8 "drop p m"] by (simp add: add.commute [of 8 p])
    with True show ?thesis by (subst lanes_vcombine) simp_all
  qed
  moreover have "lanes (of_lanes (take 16 (drop p m)) :: m128) = take 16 (drop p m)"
    using True by simp
  ultimately have "(vcombine (of_lanes (take 8 (drop p m)) :: u64) (of_lanes (take 8 (drop (p + 8) m))) :: m128) =
      of_lanes (take 16 (drop p m))"
    by (intro lanes_eqI [where 'a = 8]) simp_all
  then show ?thesis using True by (simp add: toBlock_def mm_set_epi64x_def loadv_def)
next
  case False
  then show ?thesis by (simp add: toBlock_def loadv_def)
qed

lemma u64_lanes_zero: "(lanes v :: u64 list) ! 0 OR lanes v ! 1 = 0 \<longleftrightarrow> (v :: m128) = 0"
proof
  assume "(lanes v :: u64 list) ! 0 OR lanes v ! 1 = 0"
  then have z: "(lanes v :: u64 list) ! 0 = 0" "(lanes v :: u64 list) ! 1 = 0" by (simp_all add: or_eq_0_iff)
  have l: "length (lanes v :: u64 list) = 2" by simp
  have "(lanes v :: u64 list) = lanes (0 :: m128)"
    by (subst list_2 [OF l]) (simp add: z [simplified] lanes_0 replicate_numeral)
  then show "v = 0" by (rule lanes_eqI [rotated]) simp
qed (simp add: lanes_0 replicate_numeral)

lemma test_all_zeros: "mm_test_all_zeros a m = (if a AND m = 0 then 1 else 0)"
  using u64_lanes_zero [of "a AND m"] by (auto simp: mm_test_all_zeros_def vget_lane_def Let_def)

lemma xor_eq_0: "(a :: 'a::len word) XOR b = 0 \<longleftrightarrow> a = b"
  by (auto simp: bit_eq_iff bit_xor_iff)

lemma block_tests: "eq a b \<longleftrightarrow> a = b" "neq a b \<longleftrightarrow> a \<noteq> b" "is_zero a \<longleftrightarrow> a = 0"
  by (simp_all add: eq_def neq_def is_zero_def test_all_zeros mm_xor_si128_def xor_eq_0)

section \<open>Bulk encryption is blockwise encryption\<close>

lemma rounds_unfold: "foldl f x [1..<10] = f (f (f (f (f (f (f (f (f x 1) 2) 3) 4) 5) 6) 7) 8) (9 :: nat)"
  by (simp add: upt_rec numeral_eq_Suc)

lemma encryptECB_rounds:
  "encryptECB aes p = mm_aesenclast_si128
     (foldl (\<lambda>c r. mm_aesenc_si128 c (mRoundKeysEnc aes ! r)) (mm_xor_si128 p (mRoundKeysEnc aes ! 0)) [1..<10])
     (mRoundKeysEnc aes ! 10)"
  by (simp only: encryptECB_def Let_def rounds_unfold)

lemma encryptECB_MMO_eq: "encryptECB_MMO aes p = encryptECB aes p XOR p"
  by (simp add: encryptECB_MMO_def encryptECB_def Let_def mm_xor_si128_def)

lemma foldl_map_each: "foldl (\<lambda>ts r. map (\<lambda>t. f t r) ts) ts rs = map (\<lambda>t. foldl f t rs) ts"
  by (induction rs arbitrary: ts) simp_all

lemma enc_rounds_eq:
  "map (\<lambda>t. mm_aesenclast_si128 t (mRoundKeysEnc aes ! 10))
     (enc_rounds aes (map (\<lambda>p. mm_xor_si128 p (mRoundKeysEnc aes ! 0)) ps)) = map (encryptECB aes) ps"
  by (simp add: enc_rounds_def foldl_map_each o_def encryptECB_rounds del: upt_Suc)

text \<open>
  A bulk routine has written the first \<open>v\<close> results; a batch of eight and a single block of the
  tail extend them.
\<close>

definition filled :: "(nat \<Rightarrow> 'a) \<Rightarrow> 'a list \<Rightarrow> nat \<Rightarrow> 'a list" where
  "filled f cts v = map f [0..<v] @ drop v cts"

lemma length_filled [simp]: "v \<le> length cts \<Longrightarrow> length (filled f cts v) = length cts"
  by (simp add: filled_def)

lemma filled_0: "filled f cts 0 = cts"
  by (simp add: filled_def)

lemma wr8_filled:
  assumes "8 * q + 8 \<le> length cts" "length ys = 8" "\<And>j. j < 8 \<Longrightarrow> ys ! j = f (8 * q + j)"
  shows "wr8 (filled f cts (8 * q)) (8 * q) ys = Some (filled f cts (8 * Suc q))"
proof -
  have "ys = map (\<lambda>j. f (8 * q + j)) [0..<8]"
    using assms by (intro nth_equalityI) simp_all
  also have "\<dots> = map f [8 * q..<8 * q + 8]"
    by (intro nth_equalityI) simp_all
  finally show ?thesis
    using assms(1) upt_add_eq_append [of 0 "8 * q" 8]
    by (simp add: wr8_def filled_def add.commute)
qed

lemma wr_filled:
  "i < length cts \<Longrightarrow> wr (filled f cts i) i (f i) = Some (filled f cts (Suc i))"
  by (simp add: wr_def filled_def list_update_append Cons_nth_drop_Suc [symmetric])

lemma unat_batches: "unat (n - n mod 8 :: u64) = unat n div 8 * 8"
proof -
  have "n mod 8 \<le> n" by (simp add: word_le_nat_alt unat_mod)
  then have "unat (n - n mod 8) = unat n - unat (n mod 8)" by (rule unat_sub)
  also have "\<dots> = unat n div 8 * 8" by (simp add: unat_mod minus_mod_eq_div_mult)
  finally show ?thesis .
qed

lemma rd8_nth: "idx + 8 \<le> length xs \<Longrightarrow> \<exists>ys. rd8 xs idx = Some ys \<and> length ys = 8 \<and> (\<forall>j < 8. ys ! j = xs ! (idx + j))"
  by (simp add: rd8_def)

lemma encryptECBBlocks_eq:
  assumes "unat n \<le> length pts" "unat n \<le> length cts"
  shows "encryptECBBlocks aes pts n cts = Some (map (encryptECB aes) (take (unat n) pts) @ drop (unat n) cts)"
proof -
  let ?N = "unat n" and ?f = "\<lambda>i. encryptECB aes (pts ! i)"
  let ?B = "\<lambda>q ciphertexts. do {
          temp \<leftarrow> rd8 pts (8 * q);
          let temp = map (\<lambda>p. mm_xor_si128 p (mRoundKeysEnc aes ! 0)) temp;
          let temp = enc_rounds aes temp;
          wr8 ciphertexts (8 * q) (map (\<lambda>t. mm_aesenclast_si128 t (mRoundKeysEnc aes ! 10)) temp)
        }"
  let ?T = "\<lambda>idx ciphertexts. do {
          p \<leftarrow> rd pts idx;
          let c = mm_xor_si128 p (mRoundKeysEnc aes ! 0);
          let c = foldl (\<lambda>c r. mm_aesenc_si128 c (mRoundKeysEnc aes ! r)) c [1..<10];
          wr ciphertexts idx (mm_aesenclast_si128 c (mRoundKeysEnc aes ! 10))
        }"
  have len: "?N div 8 * 8 \<le> ?N" by simp
  have "for_range 0 (?N div 8) ?B (filled ?f cts (8 * 0)) = Some (filled ?f cts (8 * (?N div 8)))"
  proof (rule for_range_state)
    fix q assume "q < ?N div 8"
    then have q: "8 * q + 8 \<le> ?N" by linarith
    then obtain ps where ps: "rd8 pts (8 * q) = Some ps" "length ps = 8" "\<forall>j < 8. ps ! j = pts ! (8 * q + j)"
      using rd8_nth [of "8 * q" pts] assms by auto
    have "wr8 (filled ?f cts (8 * q)) (8 * q) (map (encryptECB aes) ps) = Some (filled ?f cts (8 * Suc q))"
      by (rule wr8_filled) (use q ps assms in simp_all)
    then show "?B q (filled ?f cts (8 * q)) = Some (filled ?f cts (8 * Suc q))"
      by (simp add: ps enc_rounds_eq Let_def)
  qed simp
  moreover have "for_range (?N div 8 * 8) ?N ?T (filled ?f cts (?N div 8 * 8)) = Some (filled ?f cts ?N)"
  proof (rule for_range_state)
    fix i assume i: "i < ?N"
    then show "?T i (filled ?f cts i) = Some (filled ?f cts (Suc i))"
      using assms wr_filled [of i cts ?f] by (simp add: rd_in encryptECB_rounds Let_def del: upt_Suc)
  qed simp
  moreover have "filled ?f cts ?N = map (encryptECB aes) (take ?N pts) @ drop ?N cts"
    unfolding filled_def using assms(1) by (auto intro!: nth_equalityI)
  ultimately show ?thesis
    by (simp add: encryptECBBlocks_def Let_def unat_batches filled_0 mult.commute del: upt_Suc)
qed
lemma encryptECB_MMO_Blocks_eq:
  assumes "unat n \<le> length pts" "unat n \<le> length cts"
  shows "encryptECB_MMO_Blocks aes pts n cts =
    Some (map (\<lambda>i. encryptECB aes (pts ! i) XOR pts ! (if i < unat n div 8 * 8 then i mod 8 else i)) [0..<unat n] @
      drop (unat n) cts)"
proof -
  let ?N = "unat n"
  let ?f = "\<lambda>i. encryptECB aes (pts ! i) XOR pts ! (if i < ?N div 8 * 8 then i mod 8 else i)"
  let ?B = "\<lambda>q ciphertexts. do {
          temp \<leftarrow> rd8 pts (8 * q);
          let temp = map (\<lambda>p. mm_xor_si128 p (mRoundKeysEnc aes ! 0)) temp;
          let temp = enc_rounds aes temp;
          let temp = map (\<lambda>t. mm_aesenclast_si128 t (mRoundKeysEnc aes ! 10)) temp;
          p \<leftarrow> rd8 pts 0;
          wr8 ciphertexts (8 * q) (map2 mm_xor_si128 temp p)
        }"
  let ?T = "\<lambda>idx ciphertexts. do {
          p \<leftarrow> rd pts idx;
          let c = mm_xor_si128 p (mRoundKeysEnc aes ! 0);
          let c = foldl (\<lambda>c r. mm_aesenc_si128 c (mRoundKeysEnc aes ! r)) c [1..<10];
          let c = mm_aesenclast_si128 c (mRoundKeysEnc aes ! 10);
          wr ciphertexts idx (mm_xor_si128 p c)
        }"
  have "for_range 0 (?N div 8) ?B (filled ?f cts (8 * 0)) = Some (filled ?f cts (8 * (?N div 8)))"
  proof (rule for_range_state)
    fix q assume "q < ?N div 8"
    then have q: "8 * q + 8 \<le> ?N" by linarith
    then obtain ps where ps: "rd8 pts (8 * q) = Some ps" "length ps = 8" "\<forall>j < 8. ps ! j = pts ! (8 * q + j)"
      using rd8_nth [of "8 * q" pts] assms by auto
    obtain zs where zs: "rd8 pts 0 = Some zs" "length zs = 8" "\<forall>j < 8. zs ! j = pts ! j"
      using rd8_nth [of 0 pts] q assms by auto
    have "wr8 (filled ?f cts (8 * q)) (8 * q) (map2 mm_xor_si128 (map (encryptECB aes) ps) zs) =
        Some (filled ?f cts (8 * Suc q))"
    proof (rule wr8_filled)
      fix j :: nat assume j: "j < 8"
      then have "8 * q + j < ?N div 8 * 8" using \<open>q < ?N div 8\<close> by linarith
      then show "map2 mm_xor_si128 (map (encryptECB aes) ps) zs ! j = ?f (8 * q + j)"
        using j ps zs by (simp add: mm_xor_si128_def)
    qed (use q ps zs assms in simp_all)
    then show "?B q (filled ?f cts (8 * q)) = Some (filled ?f cts (8 * Suc q))"
      by (simp add: ps zs enc_rounds_eq Let_def)
  qed simp
  moreover have "for_range (?N div 8 * 8) ?N ?T (filled ?f cts (?N div 8 * 8)) = Some (filled ?f cts ?N)"
  proof (rule for_range_state)
    fix i assume i: "?N div 8 * 8 \<le> i" "i < ?N"
    then have "?f i = mm_xor_si128 (pts ! i) (encryptECB aes (pts ! i))"
      by (simp add: mm_xor_si128_def xor.commute)
    then show "?T i (filled ?f cts i) = Some (filled ?f cts (Suc i))"
      using i assms wr_filled [of i cts ?f] by (simp add: rd_in encryptECB_rounds Let_def del: upt_Suc)
  qed simp
  ultimately show ?thesis
    by (simp add: encryptECB_MMO_Blocks_def Let_def unat_batches filled_0 mult.commute filled_def [of _ _ ?N] del: upt_Suc)
qed

lemma encryptCTR_eq:
  assumes "unat n \<le> length ct"
  shows "encryptCTR aes baseIdx n ct =
    Some (map (\<lambda>i. encryptECB aes (mm_set1_epi64x (baseIdx + of_nat i))) [0..<unat n] @ drop (unat n) ct)"
proof -
  let ?N = "unat n" and ?f = "\<lambda>i. encryptECB aes (mm_set1_epi64x (baseIdx + of_nat i))"
  let ?B = "\<lambda>q (baseIdx, ciphertext). do {
          let temp = map (\<lambda>j. mm_xor_si128 (mm_set1_epi64x (baseIdx + j)) (mRoundKeysEnc aes ! 0)) [0, 1, 2, 3, 4, 5, 6, 7];
          let temp = enc_rounds aes temp;
          ciphertext \<leftarrow> wr8 ciphertext (8 * q) (map (\<lambda>t. mm_aesenclast_si128 t (mRoundKeysEnc aes ! 10)) temp);
          Some (baseIdx + 8, ciphertext)
        }"
  let ?T = "\<lambda>idx (baseIdx, ciphertext). do {
          let c = mm_xor_si128 (mm_set1_epi64x baseIdx) (mRoundKeysEnc aes ! 0);
          let c = foldl (\<lambda>c r. mm_aesenc_si128 c (mRoundKeysEnc aes ! r)) c [1..<10];
          ciphertext \<leftarrow> wr ciphertext idx (mm_aesenclast_si128 c (mRoundKeysEnc aes ! 10));
          Some (baseIdx + 1, ciphertext)
        }"
  let ?st = "\<lambda>v. (baseIdx + of_nat v, filled ?f ct v)"
  have "for_range 0 (?N div 8) ?B (?st (8 * 0)) = Some (?st (8 * (?N div 8)))"
  proof (rule for_range_state)
    fix q assume "q < ?N div 8"
    then have q: "8 * q + 8 \<le> ?N" by linarith
    let ?js = "[0, 1, 2, 3, 4, 5, 6, 7] :: u64 list"
    have js: "?js ! j = of_nat j" if "j < 8" for j
    proof -
      from that have "j = 0 \<or> j = 1 \<or> j = 2 \<or> j = 3 \<or> j = 4 \<or> j = 5 \<or> j = 6 \<or> j = 7" by linarith
      then show ?thesis by (elim disjE) simp_all
    qed
    have "wr8 (filled ?f ct (8 * q)) (8 * q) (map (encryptECB aes) (map (\<lambda>j. mm_set1_epi64x (baseIdx + of_nat (8 * q) + j)) ?js)) =
        Some (filled ?f ct (8 * Suc q))"
    proof (rule wr8_filled)
      fix j :: nat assume "j < 8"
      then show "map (encryptECB aes) (map (\<lambda>j. mm_set1_epi64x (baseIdx + of_nat (8 * q) + j)) ?js) ! j = ?f (8 * q + j)"
        using js [of j] by (simp only: nth_map length_map list.size) (simp add: add.assoc)
    qed (use q assms in simp_all)
    then show "?B q (?st (8 * q)) = Some (?st (8 * Suc q))"
      using enc_rounds_eq [of aes "map (\<lambda>j. mm_set1_epi64x (baseIdx + of_nat (8 * q) + j)) ?js"]
      by (simp only: split_conv Let_def map_map o_def) (simp add: add.assoc)
  qed simp
  moreover have "for_range (?N div 8 * 8) ?N ?T (?st (?N div 8 * 8)) = Some (?st ?N)"
  proof (rule for_range_state)
    fix i assume i: "?N div 8 * 8 \<le> i" "i < ?N"
    then show "?T i (?st i) = Some (?st (Suc i))"
      using assms wr_filled [of i ct ?f] by (simp add: encryptECB_rounds Let_def add.assoc del: upt_Suc)
  qed simp
  ultimately show ?thesis
    by (simp add: encryptCTR_def Let_def unat_batches filled_0 mult.commute filled_def [of _ _ ?N] del: upt_Suc)
qed
section \<open>The cipher is the one of FIPS-197\<close>

text \<open>The standard on lists of bytes: round constants, key expansion and the rounds.\<close>

definition fips_rcon :: "nat \<Rightarrow> u8" where
  "fips_rcon i = (xtime ^^ i) 1"

definition next_round_key :: "u8 \<Rightarrow> u8 list \<Rightarrow> u8 list" where
  "next_round_key rcon b =
     (let t = map2 (XOR) (map sub_byte (rot_word (drop 12 b))) [rcon, 0, 0, 0];
          w0 = map2 (XOR) (take 4 b) t;
          w1 = map2 (XOR) (take 4 (drop 4 b)) w0;
          w2 = map2 (XOR) (take 4 (drop 8 b)) w1;
          w3 = map2 (XOR) (take 4 (drop 12 b)) w2
      in w0 @ w1 @ w2 @ w3)"

primrec fips_round_key :: "u8 list \<Rightarrow> nat \<Rightarrow> u8 list" where
  "fips_round_key key 0 = key"
| "fips_round_key key (Suc i) = next_round_key (fips_rcon i) (fips_round_key key i)"

definition fips197_encrypt :: "u8 list \<Rightarrow> u8 list \<Rightarrow> u8 list" where
  "fips197_encrypt key p =
     (let rk = fips_round_key key;
          s = map2 (XOR) p (rk 0);
          s = foldl (\<lambda>s r. map2 (XOR) (aes_round s) (rk r)) s [1..<10]
      in map2 (XOR) (aes_final_round s) (rk 10))"

lemma lanes_slli_si128:
  "n \<le> 15 \<Longrightarrow> (lanes (mm_slli_si128 a n) :: u8 list) = replicate n 0 @ take (16 - n) (lanes a)"
  by (simp add: mm_slli_si128_def lanes_vext lanes_vdup)

lemma lanes_splat3:
  "(lanes (mm_shuffle_epi32 a (MM_SHUFFLE 3 3 3 3)) :: u8 list) =
   (let w = drop 12 (lanes a) in w @ w @ w @ w)"
proof -
  have l4: "length (lanes a :: u32 list) = 4" by simp
  obtain x0 x1 x2 x3 where x: "(lanes a :: u32 list) = [x0, x1, x2, x3]"
    using list_4 [OF l4] by blast
  have "MM_SHUFFLE 3 3 3 3 = 255" by (simp add: MM_SHUFFLE_def)
  then show ?thesis
    by (simp add: bytes_of_u32s [of "mm_shuffle_epi32 _ _"] bytes_of_u32s [of a] lanes_shuffle_epi32 x Let_def)
qed

lemma lanes_next_key:
  assumes "(lanes rcon :: u8 list) = [rc, 0, 0, 0]"
  shows "(lanes (keyGenHelper k (mm_aeskeygenassist_si128 k rcon)) :: u8 list) = next_round_key rc (lanes k)"
proof -
  have l16: "length (lanes k :: u8 list) = 16" by simp
  obtain a b c d e f g h i j m l n p q r where k: "lanes k = [a, b, c, d, e, f, g, h, i, j, m, l, n, p, q, r :: u8]"
    using list_16 [OF l16] by blast
  have d8: "LENGTH(8) dvd LENGTH(128)" by simp
  show ?thesis
    by (simp add: keyGenHelper_def Let_def mm_xor_si128_def lanes_xor [OF d8] lanes_slli_si128 lanes_splat3
        lanes_aeskeygenassist assms k rot_word_def next_round_key_def replicate_numeral)
       (simp add: xor.assoc xor.commute xor.left_commute)
qed

lemma fips_rcon_values:
  "map fips_rcon [0..<10] = [0x01, 0x02, 0x04, 0x08, 0x10, 0x20, 0x40, 0x80, 0x1B, 0x36]"
  by (simp add: fips_rcon_def upt_rec numeral_eq_Suc)
     (simp add: xtime_def bit_numeral_rec bit_1_iff)
lemma lanes_small_u32:
  "(lanes (0x01 :: u32) :: u8 list) = [1, 0, 0, 0]" "(lanes (0x02 :: u32) :: u8 list) = [2, 0, 0, 0]"
  "(lanes (0x04 :: u32) :: u8 list) = [4, 0, 0, 0]" "(lanes (0x08 :: u32) :: u8 list) = [8, 0, 0, 0]"
  "(lanes (0x10 :: u32) :: u8 list) = [0x10, 0, 0, 0]" "(lanes (0x20 :: u32) :: u8 list) = [0x20, 0, 0, 0]"
  "(lanes (0x40 :: u32) :: u8 list) = [0x40, 0, 0, 0]" "(lanes (0x80 :: u32) :: u8 list) = [0x80, 0, 0, 0]"
  "(lanes (0x1B :: u32) :: u8 list) = [0x1B, 0, 0, 0]" "(lanes (0x36 :: u32) :: u8 list) = [0x36, 0, 0, 0]"
  by (simp_all add: lanes_def upt_rec)

lemma fips_rcons:
  "fips_rcon 0 = 0x01" "fips_rcon 1 = 0x02" "fips_rcon 2 = 0x04" "fips_rcon 3 = 0x08" "fips_rcon 4 = 0x10"
  "fips_rcon 5 = 0x20" "fips_rcon 6 = 0x40" "fips_rcon 7 = 0x80" "fips_rcon 8 = 0x1B" "fips_rcon 9 = 0x36"
  using fips_rcon_values by (simp_all add: upt_rec numeral_eq_Suc)

lemma fips_round_key_numeral:
  "fips_round_key key (numeral n) = next_round_key (fips_rcon (pred_numeral n)) (fips_round_key key (pred_numeral n))"
  by (simp add: numeral_eq_Suc)

lemma round_keys:
  "map lanes (mRoundKeysEnc (setKey key)) = map (fips_round_key (lanes key)) [0..<11]"
proof -
  have "[0..<11] = [0, 1, 2, 3, 4, 5, 6, 7, 8, 9, 10 :: nat]"
    by (simp add: upt_rec)
  then show ?thesis
    by (simp add: setKey_def Let_def lanes_small_u32 [THEN lanes_next_key] fips_round_key_numeral
        fips_rcons fips_rcons(2) [simplified])
qed

lemma length_round_keys [simp]: "length (mRoundKeysEnc (setKey key)) = 11"
  by (simp add: setKey_def Let_def)

lemma lanes_round_key: "i < 11 \<Longrightarrow> (lanes (mRoundKeysEnc (setKey key) ! i) :: u8 list) = fips_round_key (lanes key) i"
  using arg_cong [OF round_keys [of key], of "\<lambda>xs. xs ! i"]
  by (simp del: upt_Suc)

lemma lanes_rounds:
  assumes "set rs \<subseteq> {0..<11}" "(lanes c :: u8 list) = s"
  shows "(lanes (foldl (\<lambda>c r. mm_aesenc_si128 c (mRoundKeysEnc (setKey key) ! r)) c rs) :: u8 list) =
    foldl (\<lambda>s r. map2 (XOR) (aes_round s) (fips_round_key (lanes key) r)) s rs"
  using assms
  by (induction rs arbitrary: c s) (auto simp: lanes_aesenc lanes_round_key)

lemma lanes_encryptECB:
  "(lanes (encryptECB (setKey key) p) :: u8 list) = fips197_encrypt (lanes key) (lanes p)"
proof -
  have d8: "LENGTH(8) dvd LENGTH(128)" by simp
  have "(lanes (mm_xor_si128 p (mRoundKeysEnc (setKey key) ! 0)) :: u8 list) =
      map2 (XOR) (lanes p) (fips_round_key (lanes key) 0)"
    by (simp add: mm_xor_si128_def lanes_xor [OF d8] lanes_round_key del: fips_round_key.simps)
  then show ?thesis
    unfolding fips197_encrypt_def Let_def encryptECB_rounds lanes_aesenclast
    by (subst lanes_rounds) (auto simp: lanes_round_key simp del: fips_round_key.simps upt_Suc)
qed

text \<open>The example vector of FIPS-197, appendix C.1.\<close>

lemma fips197_vector:
  "fips197_encrypt [0, 1, 2, 3, 4, 5, 6, 7, 8, 9, 10, 11, 12, 13, 14, 15]
     [0x00, 0x11, 0x22, 0x33, 0x44, 0x55, 0x66, 0x77, 0x88, 0x99, 0xaa, 0xbb, 0xcc, 0xdd, 0xee, 0xff] =
   [0x69, 0xc4, 0xe0, 0xd8, 0x6a, 0x7b, 0x04, 0x30, 0xd8, 0xcd, 0xb7, 0x80, 0x70, 0xb4, 0xc5, 0x5a]"
  unfolding fips197_encrypt_def Let_def rounds_unfold
  by (simp add: fips_round_key_numeral fips_rcons fips_rcons(2) [simplified] next_round_key_def rot_word_def Let_def sub_byte_def SSE2NEON_sbox_def
     aes_round_def aes_final_round_def shift_rows_bytes_def shift_rows_idx_def mix_columns_def mix_column_def xtime_def
     bit_numeral_rec bit_1_iff)

section \<open>The interface of a block cipher\<close>

text \<open>
  What the tree of \<open>pset_ggm.cpp\<close> uses of the cipher: one block is encrypted by \<open>enc\<close>, and the
  bulk routine writes the encryptions of the first \<open>n\<close> blocks and leaves the rest of its output.
\<close>

locale block_cipher =
  fixes enc :: "m128 \<Rightarrow> m128"
    and encBlocks :: "m128 list \<Rightarrow> u64 \<Rightarrow> m128 list \<Rightarrow> m128 list option"
  assumes encBlocks: "unat n \<le> length pts \<Longrightarrow> unat n \<le> length cts \<Longrightarrow>
    encBlocks pts n cts = Some (map enc (take (unat n) pts) @ drop (unat n) cts)"

interpretation fixed_key_cipher: block_cipher "encryptECB aes" "encryptECBBlocks aes" for aes
  by unfold_locales (rule encryptECBBlocks_eq)

section \<open>Properties\<close>

text \<open>C17: \<open>setKey\<close> and \<open>encryptECB\<close> are AES-128: with the round keys of a key, a block is encrypted
  to its FIPS-197 cipher text, and the example of the standard comes out.\<close>

theorem encryptECB_is_aes128:
  "(lanes (encryptECB (setKey key) p) :: u8 list) = fips197_encrypt (lanes key) (lanes p) \<and>
   (lanes (encryptECB (setKey (of_lanes [0, 1, 2, 3, 4, 5, 6, 7, 8, 9, 10, 11, 12, 13, 14, 15 :: u8]))
      (of_lanes [0x00, 0x11, 0x22, 0x33, 0x44, 0x55, 0x66, 0x77, 0x88, 0x99, 0xaa, 0xbb, 0xcc, 0xdd, 0xee, 0xff :: u8])) :: u8 list) =
   [0x69, 0xc4, 0xe0, 0xd8, 0x6a, 0x7b, 0x04, 0x30, 0xd8, 0xcd, 0xb7, 0x80, 0x70, 0xb4, 0xc5, 0x5a]"
  by (simp add: lanes_encryptECB fips197_vector)

text \<open>The key schedule: the eleven round keys that \<open>setKey\<close> stores are those of FIPS-197.\<close>

theorem setKey_is_key_expansion:
  "map lanes (mRoundKeysEnc (setKey key)) = map (fips_round_key (lanes key)) [0..<11]"
  by (rule round_keys)

text \<open>C27: \<open>encryptECBBlocks\<close>, eight blocks at a time with a tail, encrypts every block as
  \<open>encryptECB\<close> does and touches nothing past \<open>blockLength\<close>.\<close>

theorem encryptECBBlocks_blockwise:
  assumes "unat n \<le> length plaintexts" "unat n \<le> length ciphertexts"
  shows "encryptECBBlocks aes plaintexts n ciphertexts =
    Some (map (encryptECB aes) (take (unat n) plaintexts) @ drop (unat n) ciphertexts)"
  using assms by (rule encryptECBBlocks_eq)

theorem encryptECBBlocks_blockwise_witness:
  "encryptECBBlocks mAesFixedKey [1, 2, 3] 2 [0, 0, 7] =
     Some [encryptECB mAesFixedKey 1, encryptECB mAesFixedKey 2, 7]"
  using encryptECBBlocks_blockwise [of 2 "[1, 2, 3]" "[0, 0, 7]" mAesFixedKey] by simp

text \<open>C38: \<open>encryptECB_MMO_Blocks\<close> is \<open>encryptECB_MMO\<close> on every block only when the blocks of every
  batch repeat those of the first one: the batch loop adds \<open>plaintexts[0..7]\<close> each time.\<close>

theorem encryptECB_MMO_Blocks_first_batch:
  assumes "unat n \<le> length plaintexts" "unat n \<le> length ciphertexts"
  shows "encryptECB_MMO_Blocks aes plaintexts n ciphertexts =
      Some (map (encryptECB_MMO aes) (take (unat n) plaintexts) @ drop (unat n) ciphertexts) \<longleftrightarrow>
    (\<forall>i < unat n div 8 * 8. plaintexts ! i = plaintexts ! (i mod 8))"
proof -
  let ?N = "unat n" and ?p = "\<lambda>i. plaintexts ! (if i < unat n div 8 * 8 then i mod 8 else i)"
  have le: "?N div 8 * 8 \<le> ?N" by simp
  have l: "map (encryptECB_MMO aes) (take ?N plaintexts) =
      map (\<lambda>i. encryptECB aes (plaintexts ! i) XOR plaintexts ! i) [0..<?N]"
    using assms(1) by (auto intro!: nth_equalityI simp: encryptECB_MMO_eq)
  have cancel: "a XOR b = a XOR c \<longleftrightarrow> b = c" for a b c :: m128
    by (auto simp: bit_eq_iff bit_xor_iff)
  have "encryptECB_MMO_Blocks aes plaintexts n ciphertexts =
      Some (map (encryptECB_MMO aes) (take (unat n) plaintexts) @ drop (unat n) ciphertexts) \<longleftrightarrow>
    map (\<lambda>i. encryptECB aes (plaintexts ! i) XOR ?p i) [0..<?N] =
    map (\<lambda>i. encryptECB aes (plaintexts ! i) XOR plaintexts ! i) [0..<?N]"
    unfolding encryptECB_MMO_Blocks_eq [OF assms] l option.inject append_same_eq ..
  also have "\<dots> \<longleftrightarrow> (\<forall>i < ?N. ?p i = plaintexts ! i)"
    unfolding map_eq_conv cancel by auto
  also have "\<dots> \<longleftrightarrow> (\<forall>i < ?N div 8 * 8. plaintexts ! i = plaintexts ! (i mod 8))"
  proof (intro iffI allI impI)
    fix i assume h: "\<forall>i < ?N. ?p i = plaintexts ! i" and i: "i < ?N div 8 * 8"
    then show "plaintexts ! i = plaintexts ! (i mod 8)"
      using h [rule_format, OF less_le_trans [OF i le]] by simp
  next
    fix i assume h: "\<forall>i < ?N div 8 * 8. plaintexts ! i = plaintexts ! (i mod 8)"
    show "?p i = plaintexts ! i"
    proof (cases "i < ?N div 8 * 8")
      case True
      then have "plaintexts ! (i mod 8) = plaintexts ! i" using h by (blast intro: sym)
      with True show ?thesis by (simp only: if_True)
    qed simp
  qed
  finally show ?thesis .
qed

theorem encryptECB_MMO_Blocks_first_batch_witness:
  "encryptECB_MMO_Blocks mAesFixedKey [0, 0, 0, 0, 0, 0, 0, 0, 1, 0, 0, 0, 0, 0, 0, 0] 16 (replicate 16 0) \<noteq>
     Some (map (encryptECB_MMO mAesFixedKey) [0, 0, 0, 0, 0, 0, 0, 0, 1, 0, 0, 0, 0, 0, 0, 0])"
proof -
  let ?p = "[0, 0, 0, 0, 0, 0, 0, 0, 1, 0, 0, 0, 0, 0, 0, 0] :: m128 list"
  have "\<not> (\<forall>i < 16. ?p ! i = ?p ! (i mod 8))"
    by (rule notI, drule spec [of _ 8]) simp
  then show ?thesis
    using encryptECB_MMO_Blocks_first_batch [of 16 ?p "replicate 16 0" mAesFixedKey] by simp
qed

text \<open>C39: \<open>encryptCTR\<close> writes the encryptions of the counters \<open>baseIdx + i\<close> (modulo 2^64), each
  counter in both halves of its block.\<close>

theorem encryptCTR_counters:
  assumes "unat n \<le> length ciphertext"
  shows "encryptCTR aes baseIdx n ciphertext =
    Some (map (\<lambda>i. encryptECB aes (mm_set1_epi64x (baseIdx + of_nat i))) [0..<unat n] @ drop (unat n) ciphertext)"
  using assms by (rule encryptCTR_eq)

theorem encryptCTR_counters_witness:
  "encryptCTR mAesFixedKey (- 1) 2 [0, 0] =
     Some [encryptECB mAesFixedKey (mm_set1_epi64x (- 1)), encryptECB mAesFixedKey (mm_set1_epi64x 0)]"
  using encryptCTR_counters [of 2 "[0, 0]" mAesFixedKey "- 1"] by (simp add: upt_rec)

end
