(* ===== verification/Ggm.thy ===== *)
theory Ggm
  imports Aes
begin

text \<open>
  \<open>psetggm/pset_ggm.cpp\<close>: puncturable pseudo-random sets from a GGM tree. The generator's state is
  its two sizes and its two scratch regions of blocks, \<open>keys\<close> and \<open>tmp\<close>; what the source keeps in
  one work space is two lists here, and an index past a region is undefined (\<open>None\<close>). The work
  space itself appears in the layout arithmetic of \<open>workspace_size\<close> and \<open>pset_ggm_init\<close>. An array
  of \<open>unsigned long long\<close> is a list of 64-bit words, a punctured set is a list of blocks.
\<close>

section \<open>Sizes and layout\<close>

function height_loop :: "u32 \<Rightarrow> nat \<Rightarrow> nat" where
  "height_loop v r = (let v = drop_bit 1 v in if v \<noteq> 0 then height_loop v (r + 1) else r)"
  by auto

termination
proof (relation "measure (unat o fst)")
  fix v w :: u32 and r :: nat
  assume w: "w = drop_bit 1 v" "w \<noteq> 0"
  then have "unat w = unat v div 2"
    by (simp add: unat_drop_bit_eq drop_bit_eq_div unat_div)
  moreover have "0 < unat w" using w(2) by (simp add: unat_gt_0)
  ultimately show "((w, r + 1), v, r) \<in> measure (unat o fst)" by simp
qed simp

declare height_loop.simps [simp del]

definition get_height :: "u32 \<Rightarrow> nat" where
  "get_height v = height_loop (v - 1) 0 + 1"

record generator =
  univ_size :: u32
  set_size :: u32
  keys :: "m128 list"
  tmp :: "m128 list"

text \<open>\<open>sizeof(generator)\<close> is 24: two \<open>unsigned int\<close> and two pointers.\<close>

definition sizeof_generator :: nat where "sizeof_generator = 24"

text \<open>\<open>1 << height\<close> on \<open>int\<close>: undefined when the result does not fit.\<close>

definition shl1 :: "nat \<Rightarrow> nat option" where
  "shl1 n = (if n < 31 then Some (2 ^ n) else None)"

definition workspace_size :: "u32 \<Rightarrow> u32 \<Rightarrow> u32 option" where
  "workspace_size us ss = do {
     n \<leftarrow> shl1 (get_height ss);
     (if 2 * n < 2 ^ 31 then Some (of_nat (sizeof_generator + 2 * n * 16 + 32)) else None)
   }"

text \<open>The addresses of \<open>keys\<close> and \<open>tmp\<close> in a work space at address \<open>ws\<close>.\<close>

definition keys_addr :: "nat \<Rightarrow> nat" where
  "keys_addr ws = ((ws + sizeof_generator - 1) div 16 + 1) * 16"

definition tmp_addr :: "nat \<Rightarrow> u32 \<Rightarrow> nat option" where
  "tmp_addr ws ss = map_option (\<lambda>n. keys_addr ws + n * 16) (shl1 (get_height ss))"

text \<open>The generator over a fresh work space, whose contents are arbitrary.\<close>

definition pset_ggm_init :: "u32 \<Rightarrow> u32 \<Rightarrow> m128 list \<Rightarrow> m128 list \<Rightarrow> generator option" where
  "pset_ggm_init us ss ws_keys ws_tmp = do {
     n \<leftarrow> shl1 (get_height ss);
     (if length ws_keys = n \<and> length ws_tmp = n
      then Some \<lparr>univ_size = us, set_size = ss, keys = ws_keys, tmp = ws_tmp\<rparr> else None)
   }"

section \<open>The tree\<close>

definition one :: m128 where
  "one = mm_setr_epi32 0 0 0 1"

text \<open>\<open>expand(in, out)\<close>: the two blocks written.\<close>

definition expand :: "m128 \<Rightarrow> m128 \<times> m128" where
  "expand inp =
     (let out1 = mm_xor_si128 inp one;
          out0 = encryptECB mAesFixedKey inp;
          out1 = encryptECB mAesFixedKey inp;
          out0 = mm_xor_si128 inp out0;
          out1 = mm_xor_si128 inp out1;
          out1 = mm_xor_si128 out1 one
      in (out0, out1))"

text \<open>
  One layer of \<open>tree_eval_all2\<close> and \<open>pset_ggm_eval_punc\<close>, over the bulk encryption it calls: copy
  every key and its sibling input to \<open>tmp\<close>, encrypt all of \<open>tmp\<close> into \<open>keys\<close>, add \<open>tmp\<close> back.
\<close>

definition layer_fill :: "nat \<Rightarrow> m128 list \<Rightarrow> m128 list \<Rightarrow> m128 list option" where
  "layer_fill n ks ts = for_int n (\<lambda>i ts. do {
     key \<leftarrow> rd ks i;
     ts \<leftarrow> wr ts (2 * i) key;
     let key = mm_xor_si128 key one;
     wr ts (2 * i + 1) key
   }) ts"

definition layer_mix :: "nat \<Rightarrow> m128 list \<Rightarrow> m128 list \<Rightarrow> m128 list option" where
  "layer_mix n ts ks = for_int n (\<lambda>i ks. do {
     key \<leftarrow> rd ts i;
     k \<leftarrow> rd ks i;
     wr ks i (mm_xor_si128 k key)
   }) ks"

definition tree_layer :: "(m128 list \<Rightarrow> u64 \<Rightarrow> m128 list \<Rightarrow> m128 list option) \<Rightarrow> nat \<Rightarrow>
    m128 list \<times> m128 list \<Rightarrow> (m128 list \<times> m128 list) option" where
  "tree_layer encBlocks depth s = do {
     n \<leftarrow> shl1 depth;
     n2 \<leftarrow> shl1 (depth + 1);
     ts \<leftarrow> layer_fill n (fst s) (snd s);
     ks \<leftarrow> encBlocks ts (of_nat n2) (fst s);
     ks \<leftarrow> layer_mix n2 ts ks;
     Some (ks, ts)
   }"

text \<open>The block array read as an array of \<open>uint32_t\<close>.\<close>

definition rd32 :: "m128 list \<Rightarrow> nat \<Rightarrow> u32 option" where
  "rd32 ks i = map_option (\<lambda>k. (lanes k :: u32 list) ! (i mod 4)) (rd ks (i div 4))"

text \<open>\<open>((uint64_t)x * (uint64_t)range) >> 32\<close>.\<close>

definition fast_range :: "u32 \<Rightarrow> u32 \<Rightarrow> u64" where
  "fast_range x n = drop_bit 32 (ucast x * ucast n)"

definition tree_eval_all2 :: "generator \<Rightarrow> m128 \<Rightarrow> u64 list \<Rightarrow> (generator \<times> u64 list) option" where
  "tree_eval_all2 gen seed elems = do {
     let max_depth = get_height (set_size gen);
     ks \<leftarrow> wr (keys gen) 0 seed;
     (ks, ts) \<leftarrow> for_range 0 (max_depth - 2) (tree_layer (encryptECBBlocks mAesFixedKey)) (ks, tmp gen);
     elems \<leftarrow> for_int (unat (set_size gen)) (\<lambda>i elems. do {
       x \<leftarrow> rd32 ks i;
       wr elems i (fast_range x (univ_size gen))
     }) elems;
     Some (gen\<lparr>keys := ks, tmp := ts\<rparr>, elems)
   }"

definition pset_ggm_eval :: "generator \<Rightarrow> u8 list \<Rightarrow> u64 list \<Rightarrow> (generator \<times> u64 list) option" where
  "pset_ggm_eval gen seed elems = do {
     s \<leftarrow> toBlock seed 0;
     tree_eval_all2 gen s elems
   }"

definition pset_buffer_size :: "generator \<Rightarrow> nat" where
  "pset_buffer_size gen =
     (let height = get_height (set_size gen) in if height < 2 then 16 else 16 * (height - 1))"

section \<open>Puncturing\<close>

text \<open>One turn of the loop of \<open>pset_ggm_punc\<close>: expand the key into two and keep one of them.\<close>

record punc_state =
  p_keys :: "m128 list"
  p_tmp :: "m128 list"
  p_key :: m128
  p_pset :: "m128 list"

definition punc_step :: "(m128 list \<Rightarrow> u64 \<Rightarrow> m128 list \<Rightarrow> m128 list option) \<Rightarrow> u32 \<Rightarrow> nat \<Rightarrow> nat \<Rightarrow>
    punc_state \<Rightarrow> punc_state option" where
  "punc_step encBlocks pos height depth s = do {
     let key = p_key s;
     ts \<leftarrow> wr (p_tmp s) 0 key;
     let key = mm_xor_si128 key one;
     ts \<leftarrow> wr ts 1 key;
     ks \<leftarrow> encBlocks ts 2 (p_keys s);
     k1 \<leftarrow> rd ks 1;
     ks \<leftarrow> wr ks 1 (mm_xor_si128 k1 key);
     let key = mm_xor_si128 key one;
     k0 \<leftarrow> rd ks 0;
     ks \<leftarrow> wr ks 0 (mm_xor_si128 k0 key);
     m \<leftarrow> shl1 (height - 1);
     k0 \<leftarrow> rd ks 0;
     k1 \<leftarrow> rd ks 1;
     (if pos AND of_nat m \<noteq> 0 then do {
        ps \<leftarrow> wr (p_pset s) depth k0;
        Some \<lparr>p_keys = ks, p_tmp = ts, p_key = k1, p_pset = ps\<rparr>
      } else do {
        ps \<leftarrow> wr (p_pset s) depth k1;
        Some \<lparr>p_keys = ks, p_tmp = ts, p_key = k0, p_pset = ps\<rparr>
      })
   }"

text \<open>The loop runs while \<open>height > 2\<close>; at depth \<open>d\<close> the height is \<open>h - d\<close>.\<close>

definition pset_ggm_punc :: "generator \<Rightarrow> u8 list \<Rightarrow> u32 \<Rightarrow> m128 list \<Rightarrow> (generator \<times> m128 list) option" where
  "pset_ggm_punc gen seed pos pset = do {
     key \<leftarrow> toBlock seed 0;
     let h = get_height (set_size gen);
     s \<leftarrow> for_range 0 (h - 2) (\<lambda>depth. punc_step (encryptECBBlocks mAesFixedKey) pos (h - depth) depth)
            \<lparr>p_keys = keys gen, p_tmp = tmp gen, p_key = key, p_pset = pset\<rparr>;
     let last_key = vset_lane (0 :: u32) (p_key s) (unat (pos AND 3));
     ps \<leftarrow> wr (p_pset s) (h - 2) last_key;
     Some (gen\<lparr>keys := p_keys s, tmp := p_tmp s\<rparr>, ps)
   }"

definition eval_punc_step :: "(m128 list \<Rightarrow> u64 \<Rightarrow> m128 list \<Rightarrow> m128 list option) \<Rightarrow> m128 list \<Rightarrow> u32 \<Rightarrow> nat \<Rightarrow> nat \<Rightarrow>
    m128 list \<times> m128 list \<Rightarrow> (m128 list \<times> m128 list) option" where
  "eval_punc_step encBlocks pset pos height depth s = do {
     (ks, ts) \<leftarrow> tree_layer encBlocks depth s;
     k \<leftarrow> rd pset depth;
     ks \<leftarrow> wr ks (unat (drop_bit (height - 1) pos XOR 1)) k;
     Some (ks, ts)
   }"

definition pset_ggm_eval_punc :: "generator \<Rightarrow> m128 list \<Rightarrow> u32 \<Rightarrow> u64 list \<Rightarrow> (generator \<times> u64 list) option" where
  "pset_ggm_eval_punc gen pset pos elems = do {
     let h = get_height (set_size gen);
     (ks, ts) \<leftarrow> for_range 0 (h - 2) (\<lambda>depth. eval_punc_step (encryptECBBlocks mAesFixedKey) pset pos (h - depth) depth)
                    (keys gen, tmp gen);
     k \<leftarrow> rd pset (h - 2);
     ks \<leftarrow> wr ks (unat (drop_bit (if h < 2 then h else 2) pos)) k;
     (out_pos, elems) \<leftarrow> for_int (unat (set_size gen)) (\<lambda>i (out_pos, elems).
       if of_nat i = pos then Some (out_pos, elems)
       else do {
         x \<leftarrow> rd32 ks i;
         elems \<leftarrow> wr elems out_pos (fast_range x (univ_size gen));
         Some (out_pos + 1, elems)
       }) (0, elems);
     Some (gen\<lparr>keys := ks, tmp := ts\<rparr>, elems)
   }"

section \<open>The depth-first evaluation\<close>

text \<open>
  \<open>tree_eval_all\<close> walks the tree depth first with a stack of keys; nothing in the library calls it.
  The stack starts at \<open>keys\<close> and may run into \<open>tmp\<close>, which follows it. The inner loop goes up while the node is a right child.
\<close>

record walk =
  w_keys :: "m128 list"
  w_key_pos :: u32
  w_height :: u32
  w_node :: u32

function walk_up :: "u32 \<Rightarrow> u32 \<Rightarrow> u32 \<Rightarrow> u32 \<times> u32 \<times> u32" where
  "walk_up node height key_pos =
     (if node AND 1 = 1 then walk_up (drop_bit 1 node) (height + 1) (key_pos - 1) else (node, height, key_pos))"
  by auto

termination
proof (relation "measure (\<lambda>(node, height, key_pos). unat node)")
  fix node height key_pos :: u32
  assume "node AND 1 = 1"
  then have "node \<noteq> 0" by auto
  then have "0 < unat node" by (simp add: unat_gt_0)
  then show "((drop_bit 1 node, height + 1, key_pos - 1), node, height, key_pos) \<in>
      measure (\<lambda>(node, height, key_pos). unat node)"
    unfolding in_measure split_conv unat_drop_bit by simp
qed simp

declare walk_up.simps [simp del]

definition wr2 :: "'a list \<Rightarrow> nat \<Rightarrow> 'a \<times> 'a \<Rightarrow> 'a list option" where
  "wr2 xs i p = do { xs \<leftarrow> wr xs i (fst p); wr xs (i + 1) (snd p) }"

partial_function (option) tree_walk :: "u32 \<Rightarrow> u32 \<Rightarrow> u32 \<Rightarrow> walk \<Rightarrow> u64 list \<Rightarrow> (walk \<times> u64 list) option" where
  "tree_walk max_height set_sz us w out =
     (if w_height w = 0 then do {
        x \<leftarrow> rd32 (w_keys w) (4 * unat (w_key_pos w));
        out \<leftarrow> (if us = 0 then None else wr out (unat (w_node w)) (ucast (x mod us)));
        (case walk_up (w_node w) 0 (w_key_pos w) of (node, height, key_pos) \<Rightarrow>
          if max_height \<le> height then Some (w\<lparr>w_key_pos := key_pos, w_height := height, w_node := node\<rparr>, out)
          else
            let node = node + 1; key_pos = key_pos - 1;
                w = w\<lparr>w_key_pos := key_pos, w_height := height, w_node := node\<rparr>
            in if set_sz \<le> push_bit (unat height) node then Some (w, out)
               else tree_walk max_height set_sz us w out)
      }
      else do {
        k \<leftarrow> rd (w_keys w) (unat (w_key_pos w));
        ks \<leftarrow> wr2 (w_keys w) (unat (w_key_pos w + 1)) (expand k);
        tree_walk max_height set_sz us
          \<lparr>w_keys = ks, w_key_pos = w_key_pos w + 2, w_height = w_height w - 1, w_node = push_bit 1 (w_node w)\<rparr> out
      })"

definition tree_eval_all :: "generator \<Rightarrow> m128 \<Rightarrow> u64 list \<Rightarrow> (generator \<times> u64 list) option" where
  "tree_eval_all gen seed out = do {
     let max_height = of_nat (get_height (set_size gen));
     ks \<leftarrow> wr (keys gen @ tmp gen) 0 seed;
     (w, out) \<leftarrow> tree_walk max_height (set_size gen) (univ_size gen)
        \<lparr>w_keys = ks, w_key_pos = 0, w_height = max_height, w_node = 0\<rparr> out;
     Some (gen\<lparr>keys := take (length (keys gen)) (w_keys w), tmp := drop (length (keys gen)) (w_keys w)\<rparr>, out)
   }"

section \<open>Checking for duplicates\<close>

definition wr32 :: "m128 list \<Rightarrow> nat \<Rightarrow> u32 \<Rightarrow> m128 list option" where
  "wr32 ks i v = do { k \<leftarrow> rd ks (i div 4); wr ks (i div 4) (vset_lane v k (i mod 4)) }"

definition fasthash :: "u32 \<Rightarrow> u32 \<Rightarrow> u32" where
  "fasthash elem n = elem AND (n - 1)"

definition round_to_power_of_2 :: "u32 \<Rightarrow> int" where
  "round_to_power_of_2 v =
     (let v = v - 1;
          v = v OR drop_bit 1 v;
          v = v OR drop_bit 2 v;
          v = v OR drop_bit 4 v;
          v = v OR drop_bit 8 v;
          v = v OR drop_bit 16 v;
          v = v + 1
      in sint v)"

text \<open>
  The probe loop from slot \<open>ptr\<close>: the table and whether the element was stored (\<open>True\<close>) or found
  (\<open>False\<close>). The loop has no bound of its own.
\<close>

partial_function (option) probe :: "u64 \<Rightarrow> nat \<Rightarrow> nat \<Rightarrow> m128 list \<Rightarrow> (m128 list \<times> bool) option" where
  "probe e sz ptr table = do {
     val \<leftarrow> rd32 table ptr;
     (if val = 0 then do { table \<leftarrow> wr32 table ptr (ucast e); Some (table, True) }
      else if ucast val = e then Some (table, False)
      else probe e sz (if sz \<le> ptr + 1 then 0 else ptr + 1) table)
   }"

fun distinct_from :: "int \<Rightarrow> u64 list \<Rightarrow> nat \<Rightarrow> nat \<Rightarrow> m128 list \<Rightarrow> (m128 list \<times> bool) option" where
  "distinct_from table_size elems 0 i table = Some (table, True)"
| "distinct_from table_size elems (Suc n) i table = do {
     e \<leftarrow> rd elems i;
     let h = fasthash (ucast e) (word_of_int table_size);
     (table, fresh) \<leftarrow> probe e (nat table_size) (unat h) table;
     (if fresh then distinct_from table_size elems n (i + 1) table else Some (table, False))
   }"

definition distinct_elems :: "generator \<Rightarrow> u64 list \<Rightarrow> u32 \<Rightarrow> (generator \<times> bool) option" where
  "distinct_elems gen elems num_elems = do {
     let table_size = round_to_power_of_2 (num_elems * 4);
     table \<leftarrow> for_range 0 (nat table_size) (\<lambda>i table. wr32 table i 0) (tmp gen);
     (table, b) \<leftarrow> (if unat num_elems < 2 ^ 31
        then distinct_from table_size elems (unat num_elems) 0 table else None);
     Some (gen\<lparr>tmp := table\<rparr>, b)
   }"

section \<open>The height of a set\<close>

lemma height_loop:
  "\<exists>k. height_loop v r = r + k \<and> unat v < 2 ^ Suc k \<and> (k = 0 \<or> 2 ^ k \<le> unat v)"
proof (induction v r rule: height_loop.induct)
  case (1 v r)
  show ?case
  proof (cases "drop_bit 1 v = 0")
    case True
    then have "unat v div 2 = 0" using unat_drop_bit [of 1 v] by simp
    then show ?thesis using True by (intro exI [of _ 0]) (auto simp: height_loop.simps [of v])
  next
    case False
    with 1 [of "drop_bit 1 v"] obtain k where k: "height_loop (drop_bit 1 v) (r + 1) = r + 1 + k"
      "unat (drop_bit 1 v) < 2 ^ Suc k" "k = 0 \<or> 2 ^ k \<le> unat (drop_bit 1 v)" by auto
    have "unat (drop_bit 1 v) \<noteq> 0" using False unat_eq_zero by blast
    then have "1 \<le> unat v div 2" unfolding unat_drop_bit by simp
    with k(2,3) have "unat v < 2 ^ Suc (Suc k)" "2 ^ Suc k \<le> unat v" by auto
    then show ?thesis
      using False k(1) by (intro exI [of _ "Suc k"]) (simp add: height_loop.simps [of v] Let_def)
  qed
qed

lemma get_height_ge1: "1 \<le> get_height v"
  using height_loop [of "v - 1" 0] by (auto simp: get_height_def)

lemma get_height_bounds:
  assumes "v \<noteq> 0"
  shows "unat v \<le> 2 ^ get_height v" "get_height v = 1 \<or> 2 ^ (get_height v - 1) < unat v"
proof -
  have v: "unat v = Suc (unat (v - 1))"
    using unat_minus_one [OF assms] assms unat_gt_0 [of v] by simp
  obtain k where "height_loop (v - 1) 0 = k" "unat (v - 1) < 2 ^ Suc k" "k = 0 \<or> 2 ^ k \<le> unat (v - 1)"
    using height_loop [of "v - 1" 0] by auto
  then have "unat v \<le> 2 ^ get_height v \<and> (get_height v = 1 \<or> 2 ^ (get_height v - 1) < unat v)"
    unfolding get_height_def v by auto
  then show "unat v \<le> 2 ^ get_height v" "get_height v = 1 \<or> 2 ^ (get_height v - 1) < unat v"
    by simp_all
qed

lemma get_height_le:
  assumes "v \<noteq> 0" "unat v \<le> 2 ^ k" "1 \<le> k"
  shows "get_height v \<le> k"
proof (cases "get_height v = 1")
  case False
  with get_height_bounds [OF assms(1)] assms(2) have "2 ^ (get_height v - 1) < (2 :: nat) ^ k" by linarith
  then have "get_height v - 1 < k" by (rule power_less_imp_less_exp [rotated]) simp
  then show ?thesis by simp
qed (use assms in simp)

lemma get_height_0: "get_height 0 = 32"
proof -
  obtain k where k: "height_loop (- 1) 0 = k" "unat (- 1 :: u32) < 2 ^ Suc k" "k = 0 \<or> 2 ^ k \<le> unat (- 1 :: u32)"
    using height_loop [of "- 1" 0] by auto
  have m: "unat (- 1 :: u32) = 2 ^ 32 - 1" unfolding unsigned_minus_1_eq_mask mask_eq_exp_minus_1 by simp
  from k(2) m have "(2 :: nat) ^ 31 < 2 ^ Suc k" by simp
  then have "31 \<le> k" by (metis power_less_imp_less_exp one_less_numeral_iff semiring_norm(76) less_Suc_eq_le)
  moreover from k(3) m have "k = 0 \<or> (2 :: nat) ^ k < 2 ^ 32" by auto
  then have "k < 32" by (metis power_less_imp_less_exp one_less_numeral_iff semiring_norm(76) zero_less_numeral)
  ultimately show ?thesis using k(1) by (simp add: get_height_def)
qed

section \<open>The ideal tree\<close>

text \<open>
  Level \<open>d\<close> of the tree over a seed: the children of a node are the Matyas-Meyer-Oseas images of
  the node and of the node with \<open>one\<close> added.
\<close>

definition mmo :: "(m128 \<Rightarrow> m128) \<Rightarrow> m128 \<Rightarrow> m128" where
  "mmo enc x = enc x XOR x"

definition child_input :: "m128 \<Rightarrow> nat \<Rightarrow> m128" where
  "child_input k j = (if even j then k else k XOR one)"

primrec ggm_node :: "(m128 \<Rightarrow> m128) \<Rightarrow> m128 \<Rightarrow> nat \<Rightarrow> nat \<Rightarrow> m128" where
  "ggm_node enc seed 0 j = seed"
| "ggm_node enc seed (Suc d) j = mmo enc (child_input (ggm_node enc seed d (j div 2)) j)"

definition ggm_elem :: "(m128 \<Rightarrow> m128) \<Rightarrow> m128 \<Rightarrow> nat \<Rightarrow> u32 \<Rightarrow> nat \<Rightarrow> u64" where
  "ggm_elem enc seed h us i =
     fast_range ((lanes (ggm_node enc seed (h - 2) (i div 4)) :: u32 list) ! (i mod 4)) us"

lemma shl1_in [mem_simps]: "n < 31 \<Longrightarrow> shl1 n = Some (2 ^ n)"
  by (simp add: shl1_def)

lemma two_power_int: "d < 31 \<Longrightarrow> (2 :: nat) ^ d < 2 ^ 31"
  by (rule power_strict_increasing) simp_all

text \<open>The inputs of a layer after \<open>i\<close> keys, and the outputs after \<open>i\<close> blocks.\<close>

lemma layer_fill_eq:
  assumes "n < 2 ^ 31" "n \<le> length ks" "2 * n \<le> length ts"
  shows "layer_fill n ks ts = Some (map (\<lambda>j. child_input (ks ! (j div 2)) j) [0..<2 * n] @ drop (2 * n) ts)"
proof -
  let ?f = "\<lambda>j. child_input (ks ! (j div 2)) j"
  have "layer_fill n ks (filled ?f ts (2 * 0)) = Some (filled ?f ts (2 * n))"
    unfolding layer_fill_def
  proof (rule for_int_state [OF assms(1), where g = "\<lambda>i. filled ?f ts (2 * i)"])
    fix i assume i: "i < n"
    have "wr (filled ?f ts (2 * i)) (2 * i) (ks ! i) = Some (filled ?f ts (Suc (2 * i)))"
      using wr_filled [of "2 * i" ts ?f] i assms by (simp add: child_input_def)
    moreover have "wr (filled ?f ts (Suc (2 * i))) (2 * i + 1) (mm_xor_si128 (ks ! i) one) = Some (filled ?f ts (2 * Suc i))"
      using wr_filled [of "Suc (2 * i)" ts ?f] i assms by (simp add: child_input_def mm_xor_si128_def)
    ultimately show "(do {
        key \<leftarrow> rd ks i;
        ts \<leftarrow> wr (filled ?f ts (2 * i)) (2 * i) key;
        let key = mm_xor_si128 key one;
        wr ts (2 * i + 1) key
      }) = Some (filled ?f ts (2 * Suc i))"
      using i assms by (simp add: rd_in Let_def)
  qed
  then show ?thesis by (simp add: filled_0) (simp add: filled_def)
qed

lemma layer_mix_eq:
  assumes "n < 2 ^ 31" "n \<le> length ks" "n \<le> length ts"
  shows "layer_mix n ts ks = Some (map (\<lambda>j. ks ! j XOR ts ! j) [0..<n] @ drop n ks)"
proof -
  let ?f = "\<lambda>j. ks ! j XOR ts ! j"
  have "layer_mix n ts (filled ?f ks 0) = Some (filled ?f ks n)"
    unfolding layer_mix_def
  proof (rule for_int_state [OF assms(1), where g = "filled ?f ks"])
    fix i assume i: "i < n"
    then have "filled ?f ks i ! i = ks ! i"
      using assms by (simp add: filled_def nth_append)
    then show "(do {
        key \<leftarrow> rd ts i;
        k \<leftarrow> rd (filled ?f ks i) i;
        wr (filled ?f ks i) i (mm_xor_si128 k key)
      }) = Some (filled ?f ks (Suc i))"
      using i assms wr_filled [of i ks ?f] by (simp add: rd_in mm_xor_si128_def)
  qed
  then show ?thesis by (simp add: filled_0) (simp add: filled_def)
qed

context block_cipher
begin

lemma tree_layer_eq:
  assumes "d < 30" "2 ^ Suc d \<le> length ks" "2 ^ Suc d \<le> length ts"
  shows "\<exists>ts'. tree_layer encBlocks d (ks, ts) =
      Some (map (\<lambda>j. mmo enc (child_input (ks ! (j div 2)) j)) [0..<2 ^ Suc d] @ drop (2 ^ Suc d) ks, ts') \<and>
    length ts' = length ts"
proof -
  let ?n = "2 ^ Suc d :: nat" and ?c = "\<lambda>j. child_input (ks ! (j div 2)) j"
  let ?ts = "map ?c [0..<?n] @ drop ?n ts"
  let ?ks = "map enc (take ?n ?ts) @ drop ?n ks"
  have n: "?n < 2 ^ 31" using two_power_int [of "Suc d"] assms(1) by simp
  have u: "unat (of_nat ?n :: u64) = ?n"
    using n by (intro unat_of_nat_small) simp
  have t: "take ?n ?ts = map ?c [0..<?n]" by simp
  have fill: "layer_fill (2 ^ d) ks ts = Some ?ts"
    using layer_fill_eq [of "2 ^ d" ks ts] assms two_power_int [of d] by simp
  have enc: "encBlocks ?ts (of_nat ?n) ks = Some ?ks"
    using encBlocks [of "of_nat ?n" ?ts ks] assms(2,3) unfolding u by simp
  have "layer_mix ?n ?ts ?ks = Some (map (\<lambda>j. ?ks ! j XOR ?ts ! j) [0..<?n] @ drop ?n ?ks)"
    by (rule layer_mix_eq [OF n]) (use assms(2,3) in simp_all)
  also have "map (\<lambda>j. ?ks ! j XOR ?ts ! j) [0..<?n] = map (\<lambda>j. mmo enc (?c j)) [0..<?n]"
    unfolding t by (intro map_cong refl) (simp add: nth_append mmo_def)
  also have "drop ?n ?ks = drop ?n ks" unfolding t by simp
  finally have mix: "layer_mix ?n ?ts ?ks = Some (map (\<lambda>j. mmo enc (?c j)) [0..<?n] @ drop ?n ks)" .
  have s: "shl1 d = Some (2 ^ d)" "shl1 (d + 1) = Some ?n"
    using assms(1) by (simp_all add: shl1_in)
  show ?thesis
    unfolding tree_layer_def s fst_conv snd_conv Option.bind.bind_lunit fill enc mix
    using assms(3) by simp
qed

text \<open>The level of the ideal tree, in a buffer of any size.\<close>

lemma tree_layers:
  assumes "L < 31" "2 ^ L \<le> length ks" "2 ^ L \<le> length ts" "ks ! 0 = seed"
  shows "\<exists>ks' ts'. for_range 0 L (tree_layer encBlocks) (ks, ts) = Some (ks', ts') \<and>
    length ks' = length ks \<and> length ts' = length ts \<and> (\<forall>j < 2 ^ L. ks' ! j = ggm_node enc seed L j)"
proof -
  define P where "P d s \<longleftrightarrow> length (fst s) = length ks \<and> length (snd s) = length ts \<and>
    (\<forall>j < 2 ^ d. fst s ! j = ggm_node enc seed d j)" for d and s :: "m128 list \<times> m128 list"
  have "\<exists>t. for_range 0 L (tree_layer encBlocks) (ks, ts) = Some t \<and> P L t"
  proof (rule for_range_inv)
    show "P 0 (ks, ts)" using assms(4) by (simp add: P_def)
    fix d s assume d: "d < L" and P: "P d s"
    obtain ks1 ts1 where s: "s = (ks1, ts1)" by (cases s)
    have "2 ^ Suc d \<le> (2 :: nat) ^ L" using d by (intro power_increasing) simp_all
    with P assms s obtain ts2 where "tree_layer encBlocks d s =
        Some (map (\<lambda>j. mmo enc (child_input (ks1 ! (j div 2)) j)) [0..<2 ^ Suc d] @ drop (2 ^ Suc d) ks1, ts2)"
        "length ts2 = length ts1" "2 ^ Suc d \<le> length ks1"
      using tree_layer_eq [of d ks1 ts1] d by (auto simp: P_def)
    with P s show "\<exists>t. tree_layer encBlocks d s = Some t \<and> P (Suc d) t"
      by (auto simp: P_def nth_append)
  qed simp
  then show ?thesis by (auto simp: P_def)
qed

end

section \<open>Evaluation is the ideal tree\<close>

lemma wr_eq_SomeI: "i < length xs \<Longrightarrow> xs[i := v] = ys \<Longrightarrow> wr xs i v = Some ys"
  by (simp add: wr_def)

lemma quarter:
  assumes "i < 2 ^ h" "1 \<le> h"
  shows "i div 4 < (2 :: nat) ^ (h - 2)"
proof (cases "h = 1")
  case True
  then show ?thesis using assms by simp
next
  case False
  then obtain k where "h = k + 2" using assms(2) by (metis le_add_diff_inverse2 Suc_leI Suc_1 le_neq_implies_less One_nat_def)
  then show ?thesis using assms(1) by (simp add: power_add less_mult_imp_div_less)
qed

text \<open>The work space of a set of at most \<open>2 ^ 30\<close> elements.\<close>

definition gen_ok :: "generator \<Rightarrow> bool" where
  "gen_ok gen \<longleftrightarrow> set_size gen \<noteq> 0 \<and> unat (set_size gen) \<le> 2 ^ 30 \<and>
     length (keys gen) = 2 ^ get_height (set_size gen) \<and> length (tmp gen) = 2 ^ get_height (set_size gen)"

lemma gen_ok_height:
  assumes "gen_ok gen"
  shows "get_height (set_size gen) \<le> 30" "1 \<le> get_height (set_size gen)"
    "unat (set_size gen) \<le> 2 ^ get_height (set_size gen)" "unat (set_size gen) < 2 ^ 31"
  using assms get_height_le [of "set_size gen" 30] get_height_bounds [of "set_size gen"] get_height_ge1 [of "set_size gen"]
  by (simp_all add: gen_ok_def)

lemma gen_ok_update: "gen_ok gen \<Longrightarrow> length ks = length (keys gen) \<Longrightarrow> length ts = length (tmp gen) \<Longrightarrow>
    gen_ok (gen\<lparr>keys := ks, tmp := ts\<rparr>)"
  by (simp add: gen_ok_def)

definition ggm_set :: "m128 \<Rightarrow> generator \<Rightarrow> u64 list" where
  "ggm_set seed gen = map (ggm_elem (encryptECB mAesFixedKey) seed (get_height (set_size gen)) (univ_size gen))
     [0..<unat (set_size gen)]"

lemma tree_eval_all2_eq:
  assumes ok: "gen_ok gen" and l: "unat (set_size gen) \<le> length elems"
  shows "\<exists>gen'. tree_eval_all2 gen seed elems = Some (gen', ggm_set seed gen @ drop (unat (set_size gen)) elems) \<and>
    gen_ok gen' \<and> set_size gen' = set_size gen \<and> univ_size gen' = univ_size gen"
proof -
  let ?h = "get_height (set_size gen)" and ?n = "unat (set_size gen)"
  let ?e = "ggm_elem (encryptECB mAesFixedKey) seed ?h (univ_size gen)"
  note h = gen_ok_height [OF ok]
  have len: "length (keys gen) = 2 ^ ?h" "length (tmp gen) = 2 ^ ?h" using ok by (simp_all add: gen_ok_def)
  have le: "2 ^ (?h - 2) \<le> (2 :: nat) ^ ?h" by (intro power_increasing) simp_all
  have w: "wr (keys gen) 0 seed = Some ((keys gen)[0 := seed])" using len by (simp add: wr_in)
  have "0 < length (keys gen)" using len by simp
  then have k0: "(keys gen)[0 := seed] ! 0 = seed" by simp
  obtain ks ts where L: "for_range 0 (?h - 2) (tree_layer (encryptECBBlocks mAesFixedKey)) ((keys gen)[0 := seed], tmp gen) = Some (ks, ts)"
    and lk: "length ks = 2 ^ ?h" "length ts = 2 ^ ?h"
    and node: "\<forall>j < 2 ^ (?h - 2). ks ! j = ggm_node (encryptECB mAesFixedKey) seed (?h - 2) j"
    using fixed_key_cipher.tree_layers [of "?h - 2" "(keys gen)[0 := seed]" "tmp gen" seed mAesFixedKey] h(1) len le k0 by fastforce
  have el: "for_int ?n (\<lambda>i elems. do {
       x \<leftarrow> rd32 ks i;
       wr elems i (fast_range x (univ_size gen))
     }) (filled ?e elems 0) = Some (filled ?e elems ?n)"
  proof (rule for_int_state [OF h(4)])
    fix i assume i: "i < ?n"
    then have q: "i div 4 < 2 ^ (?h - 2)" using h by (intro quarter) simp_all
    then have "rd32 ks i = Some ((lanes (ks ! (i div 4)) :: u32 list) ! (i mod 4))"
      using lk less_le_trans [OF q le] by (simp add: rd32_def rd_in)
    with q node have "fast_range (the (rd32 ks i)) (univ_size gen) = ?e i" "rd32 ks i \<noteq> None"
      by (simp_all add: ggm_elem_def)
    with i l show "(do { x \<leftarrow> rd32 ks i; wr (filled ?e elems i) i (fast_range x (univ_size gen)) }) =
        Some (filled ?e elems (Suc i))"
      using wr_filled [of i elems ?e] by auto
  qed
  show ?thesis
    unfolding tree_eval_all2_def Let_def w Option.bind.bind_lunit L split_conv el [unfolded filled_0]
    using ok lk len by (auto simp: gen_ok_update filled_def ggm_set_def)
qed

section \<open>The punctured seed\<close>

text \<open>
  The path to position \<open>pos\<close> passes node \<open>path h pos d\<close> of level \<open>d\<close>; the punctured seed holds the
  siblings of the path, and the last block of the path without the element itself.
\<close>

definition path :: "nat \<Rightarrow> u32 \<Rightarrow> nat \<Rightarrow> nat" where
  "path h pos d = unat pos div 2 ^ (h - d)"

definition ggm_sibling :: "(m128 \<Rightarrow> m128) \<Rightarrow> m128 \<Rightarrow> nat \<Rightarrow> u32 \<Rightarrow> nat \<Rightarrow> m128" where
  "ggm_sibling enc seed h pos d = ggm_node enc seed (Suc d) (path h pos (Suc d) XOR 1)"

definition ggm_last :: "(m128 \<Rightarrow> m128) \<Rightarrow> m128 \<Rightarrow> nat \<Rightarrow> u32 \<Rightarrow> m128" where
  "ggm_last enc seed h pos = vset_lane (0 :: u32) (ggm_node enc seed (h - 2) (path h pos (h - 2))) (unat pos mod 4)"

lemma path_step: "d < h \<Longrightarrow> path h pos d = path h pos (Suc d) div 2"
proof -
  assume "d < h"
  then have "h - d = Suc (h - Suc d)" by simp
  then show ?thesis by (simp only: path_def power_Suc2 div_mult2_eq)
qed

lemma path_0: "unat pos < 2 ^ h \<Longrightarrow> path h pos 0 = 0"
  by (simp add: path_def)

lemma path_less: "unat pos < 2 ^ h \<Longrightarrow> d \<le> h \<Longrightarrow> path h pos d < 2 ^ d"
  unfolding path_def by (rule less_mult_imp_div_less) (simp flip: power_add)

lemma path_leaf:
  assumes "1 \<le> h" "unat pos < 2 ^ h"
  shows "path h pos (h - 2) = unat (drop_bit (if h < 2 then h else 2) pos)"
proof (cases "h < 2")
  case True
  then show ?thesis using assms by (simp add: path_def)
next
  case False
  then have "h - (h - 2) = 2" by simp
  with False show ?thesis by (simp add: path_def)
qed

lemma xor_1: "(n :: nat) XOR 1 = (if even n then n + 1 else n - 1)"
  unfolding xor_one_eq by simp

lemma xor_1_less: "n < 2 * m \<Longrightarrow> (n :: nat) XOR 1 < 2 * m"
  unfolding xor_1 by (auto elim!: evenE)

lemma xor_1_other: "j div 2 = n div 2 \<Longrightarrow> j \<noteq> n \<Longrightarrow> j = (n :: nat) XOR 1"
  unfolding xor_1 by (cases "even n"; simp; presburger)

lemma xor_1_div_2: "(n XOR 1) div 2 = (n :: nat) div 2"
  unfolding xor_one_eq by (cases "even n"; simp; presburger)

lemma path_bit: "pos AND 2 ^ n = 0 \<longleftrightarrow> even (unat (pos :: u32) div 2 ^ n)"
  by (simp add: and_exp_eq_0_iff_not_bit bit_unat_odd)

context block_cipher
begin

lemma punc_step_eq:
  assumes "1 \<le> height" "height \<le> 31" "2 \<le> length (p_keys s)" "2 \<le> length (p_tmp s)" "depth < length (p_pset s)"
  shows "\<exists>ks ts. punc_step encBlocks pos height depth s = Some
      \<lparr>p_keys = ks, p_tmp = ts,
       p_key = mmo enc (child_input (p_key s) (unat pos div 2 ^ (height - 1))),
       p_pset = (p_pset s)[depth := mmo enc (child_input (p_key s) (unat pos div 2 ^ (height - 1) XOR 1))]\<rparr> \<and>
    length ks = length (p_keys s) \<and> length ts = length (p_tmp s)"
proof -
  let ?k = "p_key s" and ?b = "unat pos div 2 ^ (height - 1)"
  obtain a b t where t: "p_tmp s = a # b # t" using assms(4) by (metis Suc_le_length_iff numeral_2_eq_2)
  obtain c d k where k: "p_keys s = c # d # k" using assms(3) by (metis Suc_le_length_iff numeral_2_eq_2)
  have e: "encBlocks (?k # (?k XOR one) # t) 2 (c # d # k) = Some (enc ?k # enc (?k XOR one) # k)"
    using encBlocks [of 2 "?k # (?k XOR one) # t" "c # d # k"] by simp
  have m: "shl1 (height - 1) = Some (2 ^ (height - 1))" using assms(1,2) by (intro shl1_in) simp
  have x: "?k XOR one XOR one = ?k" "\<And>e. e XOR (?k XOR one) XOR one = e XOR ?k" by (simp_all add: xor.assoc)
  show ?thesis
    unfolding punc_step_def Let_def m
    using assms(5) by (auto simp: t k wr_def rd_def e mm_xor_si128_def x mmo_def child_input_def even_xor_iff path_bit)
qed

lemma punc_loop:
  assumes h: "h \<le> 31" "unat pos < 2 ^ h" and L: "L + 2 \<le> h \<or> L = 0"
    and len: "2 \<le> length (p_keys s) \<or> L = 0" "2 \<le> length (p_tmp s) \<or> L = 0" "L < length (p_pset s)"
    and key: "p_key s = seed"
  shows "\<exists>s'. for_range 0 L (\<lambda>depth. punc_step encBlocks pos (h - depth) depth) s = Some s' \<and>
    length (p_keys s') = length (p_keys s) \<and> length (p_tmp s') = length (p_tmp s) \<and>
    p_key s' = ggm_node enc seed L (path h pos L) \<and>
    p_pset s' = filled (ggm_sibling enc seed h pos) (p_pset s) L"
proof -
  define P where "P d s' \<longleftrightarrow> length (p_keys s') = length (p_keys s) \<and> length (p_tmp s') = length (p_tmp s) \<and>
    p_key s' = ggm_node enc seed d (path h pos d) \<and>
    p_pset s' = filled (ggm_sibling enc seed h pos) (p_pset s) d" for d and s' :: punc_state
  have "\<exists>t. for_range 0 L (\<lambda>depth. punc_step encBlocks pos (h - depth) depth) s = Some t \<and> P L t"
  proof (rule for_range_inv)
    show "P 0 s" by (simp add: P_def filled_0 key)
    fix d t assume d: "d < L" and P: "P d t"
    have q: "unat pos div 2 ^ (h - d - 1) = path h pos (Suc d)" by (simp add: path_def)
    have p: "path h pos d = path h pos (Suc d) div 2" using d L by (intro path_step) simp
    have r: "1 \<le> h - d" "h - d \<le> 31" "2 \<le> length (p_keys t)" "2 \<le> length (p_tmp t)" "d < length (p_pset t)"
      using d L h(1) len P by (auto simp: P_def)
    obtain ks ts where st: "punc_step encBlocks pos (h - d) d t = Some
        \<lparr>p_keys = ks, p_tmp = ts, p_key = mmo enc (child_input (p_key t) (path h pos (Suc d))),
         p_pset = (p_pset t)[d := mmo enc (child_input (p_key t) (path h pos (Suc d) XOR 1))]\<rparr>"
      "length ks = length (p_keys t)" "length ts = length (p_tmp t)"
      using punc_step_eq [OF r, of pos] unfolding q by blast
    have "(p_pset t)[d := ggm_sibling enc seed h pos d] = filled (ggm_sibling enc seed h pos) (p_pset s) (Suc d)"
      using P d len(3) wr_filled [of d "p_pset s" "ggm_sibling enc seed h pos"] by (simp add: P_def wr_def)
    with st P p show "\<exists>t'. punc_step encBlocks pos (h - d) d t = Some t' \<and> P (Suc d) t'"
      by (simp add: P_def ggm_sibling_def xor_1_div_2 xor_1_div_2 [simplified])
  qed simp
  then show ?thesis by (auto simp: P_def)
qed

text \<open>One layer of the punctured evaluation: every node of the level off the path is right.\<close>

lemma eval_punc_loop:
  assumes h: "h \<le> 31" "unat pos < 2 ^ h" and L: "L + 2 \<le> h \<or> L = 0"
    and len: "2 ^ L \<le> length ks" "2 ^ L \<le> length ts" "L < length ps"
    and ps: "\<forall>d < L. ps ! d = ggm_sibling enc seed h pos d"
  shows "\<exists>ks' ts'. for_range 0 L (\<lambda>depth. eval_punc_step encBlocks ps pos (h - depth) depth) (ks, ts) = Some (ks', ts') \<and>
    length ks' = length ks \<and> length ts' = length ts \<and>
    (\<forall>j < 2 ^ L. j \<noteq> path h pos L \<longrightarrow> ks' ! j = ggm_node enc seed L j)"
proof -
  define P where "P d s \<longleftrightarrow> length (fst s) = length ks \<and> length (snd s) = length ts \<and>
    (\<forall>j < 2 ^ d. j \<noteq> path h pos d \<longrightarrow> fst s ! j = ggm_node enc seed d j)" for d and s :: "m128 list \<times> m128 list"
  have "\<exists>t. for_range 0 L (\<lambda>depth. eval_punc_step encBlocks ps pos (h - depth) depth) (ks, ts) = Some t \<and> P L t"
  proof (rule for_range_inv)
    show "P 0 (ks, ts)" using path_0 [OF h(2)] by (simp add: P_def)
    fix d s assume d: "d < L" and P: "P d s"
    obtain ks1 ts1 where s: "s = (ks1, ts1)" by (cases s)
    let ?l = "map (\<lambda>j. mmo enc (child_input (ks1 ! (j div 2)) j)) [0..<2 ^ Suc d] @ drop (2 ^ Suc d) ks1"
    let ?q = "path h pos (Suc d)"
    have "2 ^ Suc d \<le> (2 :: nat) ^ L" using d by (intro power_increasing) simp_all
    with P s len have l: "2 ^ Suc d \<le> length ks1" "2 ^ Suc d \<le> length ts1" by (auto simp: P_def)
    then obtain ts2 where t: "tree_layer encBlocks d s = Some (?l, ts2)" "length ts2 = length ts1"
      using tree_layer_eq [of d ks1 ts1] d L h(1) s by auto
    have q: "?q < 2 ^ Suc d" using d L h(2) by (intro path_less) simp_all
    then have q1: "?q XOR 1 < 2 ^ Suc d" unfolding power_Suc by (rule xor_1_less)
    have p: "path h pos d = ?q div 2" using d L by (intro path_step) simp
    have x: "unat (drop_bit (h - d - 1) pos XOR 1) = ?q XOR 1"
      by (simp add: unsigned_xor_eq path_def)
    have "eval_punc_step encBlocks ps pos (h - d) d s = Some (?l[?q XOR 1 := ps ! d], ts2)"
      unfolding eval_punc_step_def t Option.bind.bind_lunit split_conv x
      using d len q1 l by (simp add: rd_in wr_in)
    moreover have "P (Suc d) (?l[?q XOR 1 := ps ! d], ts2)"
      unfolding P_def fst_conv snd_conv
    proof (intro conjI allI impI)
      fix j :: nat assume j: "j < 2 ^ Suc d" "j \<noteq> ?q"
      show "?l[?q XOR 1 := ps ! d] ! j = ggm_node enc seed (Suc d) j"
      proof (cases "j = ?q XOR 1")
        case True
        then show ?thesis using q1 l ps d by (simp add: ggm_sibling_def)
      next
        case False
        with j have "j div 2 \<noteq> ?q div 2" using xor_1_other by blast
        moreover have "j div 2 < 2 ^ d" using j(1) by (simp add: less_mult_imp_div_less)
        ultimately show ?thesis using P s False j p by (simp add: P_def nth_append)
      qed
    qed (use P s l t in \<open>auto simp: P_def\<close>)
    ultimately show "\<exists>t. eval_punc_step encBlocks ps pos (h - d) d s = Some t \<and> P (Suc d) t" by blast
  qed simp
  then show ?thesis by (auto simp: P_def)
qed

end

definition ggm_punctured :: "m128 \<Rightarrow> generator \<Rightarrow> u32 \<Rightarrow> m128 list" where
  "ggm_punctured seed gen pos =
     (let enc = encryptECB mAesFixedKey; h = get_height (set_size gen)
      in map (ggm_sibling enc seed h pos) [0..<h - 2] @ [ggm_last enc seed h pos])"

lemma pos_mod_4: "unat (pos AND 3 :: u32) = unat pos mod 4"
proof -
  have "pos AND 3 = take_bit 2 pos"
    by (simp add: take_bit_eq_mask mask_eq_exp_minus_1)
  then show ?thesis by (simp add: take_bit_eq_mod unat_mod)
qed

lemma punc_eq:
  assumes ok: "gen_ok gen" and seed: "toBlock seed 0 = Some s" and pos: "pos < set_size gen"
    and l: "pset_buffer_size gen \<le> 16 * length pset"
  shows "\<exists>gen'. pset_ggm_punc gen seed pos pset = Some (gen', ggm_punctured s gen pos @ drop (length (ggm_punctured s gen pos)) pset) \<and>
    gen_ok gen' \<and> set_size gen' = set_size gen \<and> univ_size gen' = univ_size gen"
proof -
  let ?h = "get_height (set_size gen)" and ?enc = "encryptECB mAesFixedKey"
  let ?st = "\<lparr>p_keys = keys gen, p_tmp = tmp gen, p_key = s, p_pset = pset\<rparr>"
  note h = gen_ok_height [OF ok]
  have len: "length (keys gen) = 2 ^ ?h" "length (tmp gen) = 2 ^ ?h" using ok by (simp_all add: gen_ok_def)
  have p: "unat pos < 2 ^ ?h" using pos h(3) by (simp add: word_less_nat_alt)
  have b: "?h - 2 < length pset" using l h(2) by (auto simp: pset_buffer_size_def Let_def split: if_splits)
  have two: "2 \<le> (2 :: nat) ^ ?h" using h(2) power_increasing [of 1 ?h "2 :: nat"] by simp
  have r: "?h \<le> 31" "?h - 2 + 2 \<le> ?h \<or> ?h - 2 = 0" "2 \<le> length (p_keys ?st) \<or> ?h - 2 = 0"
    "2 \<le> length (p_tmp ?st) \<or> ?h - 2 = 0" "?h - 2 < length (p_pset ?st)" "p_key ?st = s"
    using h(1) two b by (auto simp: len)
  obtain s' where L: "for_range 0 (?h - 2) (\<lambda>depth. punc_step (encryptECBBlocks mAesFixedKey) pos (?h - depth) depth) ?st = Some s'"
      "length (p_keys s') = 2 ^ ?h" "length (p_tmp s') = 2 ^ ?h"
      "p_key s' = ggm_node ?enc s (?h - 2) (path ?h pos (?h - 2))"
      "p_pset s' = filled (ggm_sibling ?enc s ?h pos) pset (?h - 2)"
    using fixed_key_cipher.punc_loop [OF r(1) p r(2-6), of mAesFixedKey] by (auto simp: len)
  have pre: "p_pset s' = map (ggm_sibling ?enc s ?h pos) [0..<?h - 2] @ drop (?h - 2) pset"
    by (simp only: L(5) filled_def)
  have "wr (p_pset s') (?h - 2) (vset_lane (0 :: u32) (p_key s') (unat (pos AND 3))) =
      Some (ggm_punctured s gen pos @ drop (Suc (?h - 2)) pset)"
    using b unfolding pre L(4) pos_mod_4
    by (simp add: wr_in list_update_append ggm_punctured_def ggm_last_def Let_def Cons_nth_drop_Suc [symmetric])
  then show ?thesis
    unfolding pset_ggm_punc_def seed Option.bind.bind_lunit Let_def L(1)
    using ok L(2,3) len by (simp add: gen_ok_update ggm_punctured_def Let_def)
qed

lemma lanes_leaf_punctured:
  assumes "i mod 4 \<noteq> k" "k < 4"
  shows "(lanes (vset_lane (0 :: u32) (x :: m128) k) :: u32 list) ! (i mod 4) = lanes x ! (i mod 4)"
  using assms by (simp add: lanes_vset_lane)

lemma out_pos_loop:
  assumes n: "n < 2 ^ 31" and p: "p < n" and l: "n - 1 \<le> length elems"
    and x: "\<And>i. i < n \<Longrightarrow> i \<noteq> p \<Longrightarrow> rd32 ks i = Some (x i)"
  shows "for_int n (\<lambda>i (out_pos, elems).
       if (of_nat i :: u32) = of_nat p then Some (out_pos, elems)
       else do {
         x \<leftarrow> rd32 ks i;
         elems \<leftarrow> wr elems out_pos (fast_range x us);
         Some (out_pos + 1, elems)
       }) (0, elems) =
    Some (n - 1, map (\<lambda>i. fast_range (x i) us) [0..<p] @ map (\<lambda>i. fast_range (x i) us) [Suc p..<n] @ drop (n - 1) elems)"
proof -
  let ?F = "\<lambda>j. fast_range (x (if j < p then j else Suc j)) us"
  let ?g = "\<lambda>i. let o_p = (if i \<le> p then i else i - 1) in (o_p, filled ?F elems o_p)"
  have inj: "(of_nat i :: u32) = of_nat p \<longleftrightarrow> i = p" if "i < n" for i
  proof -
    have "unat (of_nat i :: u32) = i" "unat (of_nat p :: u32) = p"
      using that n p by (simp_all add: unat_of_nat_small)
    then show ?thesis by metis
  qed
  have "for_int n (\<lambda>i (out_pos, elems).
       if (of_nat i :: u32) = of_nat p then Some (out_pos, elems)
       else do {
         x \<leftarrow> rd32 ks i;
         elems \<leftarrow> wr elems out_pos (fast_range x us);
         Some (out_pos + 1, elems)
       }) (?g 0) = Some (?g n)"
  proof (rule for_int_state [OF n, where g = ?g])
    fix i assume i: "i < n"
    consider "i < p" | "i = p" | "p < i" by linarith
    then show "(case ?g i of (out_pos, elems) \<Rightarrow>
       if (of_nat i :: u32) = of_nat p then Some (out_pos, elems)
       else do {
         x \<leftarrow> rd32 ks i;
         elems \<leftarrow> wr elems out_pos (fast_range x us);
         Some (out_pos + 1, elems)
       }) = Some (?g (Suc i))"
    proof cases
      case 1
      then show ?thesis using i l p x [of i] wr_filled [of i elems ?F] by (simp add: inj Let_def)
    next
      case 2
      then show ?thesis by (simp add: Let_def)
    next
      case 3
      then obtain k where k: "i = Suc k" "\<not> k < p" by (cases i) auto
      have "(of_nat i :: u32) \<noteq> of_nat p" using inj [OF i] 3 by simp
      then show ?thesis using k i l 3 x [of i] wr_filled [of k elems ?F] by (simp add: inj Let_def)
    qed
  qed
  moreover have "filled ?F elems (n - 1) = map (\<lambda>i. fast_range (x i) us) [0..<p] @ map (\<lambda>i. fast_range (x i) us) [Suc p..<n] @ drop (n - 1) elems"
    unfolding filled_def using p by (auto intro!: nth_equalityI simp: nth_append)
  ultimately show ?thesis using p by (simp add: Let_def filled_0)
qed

lemma eval_punc_eq:
  assumes ok: "gen_ok gen" and pos: "pos < set_size gen" and l: "unat (set_size gen) - 1 \<le> length elems"
  shows "\<exists>gen'. pset_ggm_eval_punc gen (ggm_punctured s gen pos @ rest) pos elems =
      Some (gen', take (unat pos) (ggm_set s gen) @ drop (Suc (unat pos)) (ggm_set s gen) @ drop (unat (set_size gen) - 1) elems) \<and>
    gen_ok gen' \<and> set_size gen' = set_size gen \<and> univ_size gen' = univ_size gen"
proof -
  let ?h = "get_height (set_size gen)" and ?enc = "encryptECB mAesFixedKey" and ?n = "unat (set_size gen)"
  let ?ps = "ggm_punctured s gen pos @ rest" and ?leaf = "path ?h pos (?h - 2)"
  note h = gen_ok_height [OF ok]
  have len: "length (keys gen) = 2 ^ ?h" "length (tmp gen) = 2 ^ ?h" using ok by (simp_all add: gen_ok_def)
  have pn: "unat pos < ?n" using pos by (simp add: word_less_nat_alt)
  then have p: "unat pos < 2 ^ ?h" using h(3) by linarith
  have le: "2 ^ (?h - 2) \<le> (2 :: nat) ^ ?h" by (intro power_increasing) simp_all
  have lp: "length (ggm_punctured s gen pos) = Suc (?h - 2)" by (simp add: ggm_punctured_def Let_def)
  have ps: "\<forall>d < ?h - 2. ?ps ! d = ggm_sibling ?enc s ?h pos d" and last: "rd ?ps (?h - 2) = Some (ggm_last ?enc s ?h pos)"
    by (simp_all add: ggm_punctured_def Let_def nth_append rd_def)
  have r: "?h \<le> 31" "?h - 2 + 2 \<le> ?h \<or> ?h - 2 = 0" "2 ^ (?h - 2) \<le> length (keys gen)" "2 ^ (?h - 2) \<le> length (tmp gen)"
    "?h - 2 < length ?ps"
    using h(1) le len lp by auto
  obtain ks ts where L: "for_range 0 (?h - 2) (\<lambda>depth. eval_punc_step (encryptECBBlocks mAesFixedKey) ?ps pos (?h - depth) depth)
        (keys gen, tmp gen) = Some (ks, ts)"
      "length ks = 2 ^ ?h" "length ts = 2 ^ ?h"
      "\<forall>j < 2 ^ (?h - 2). j \<noteq> ?leaf \<longrightarrow> ks ! j = ggm_node ?enc s (?h - 2) j"
    using fixed_key_cipher.eval_punc_loop [OF r(1) p r(2-5) ps] by (auto simp: len)
  have leaf: "?leaf < 2 ^ (?h - 2)" using p by (intro path_less) simp_all
  have leaf4: "?leaf = unat pos div 4"
  proof (cases "?h < 2")
    case True
    then have "?h = 1" using h(2) by linarith
    then show ?thesis using p by (simp add: path_def)
  next
    case False
    then have "?h - (?h - 2) = 2" by linarith
    then show ?thesis by (simp add: path_def)
  qed
  let ?ks = "ks[?leaf := ggm_last ?enc s ?h pos]"
  let ?x = "\<lambda>i. (lanes (ggm_node ?enc s (?h - 2) (i div 4)) :: u32 list) ! (i mod 4)"
  have w: "wr ks (unat (drop_bit (if ?h < 2 then ?h else 2) pos)) (ggm_last ?enc s ?h pos) = Some ?ks"
    unfolding path_leaf [OF h(2) p, symmetric] by (rule wr_in) (use less_le_trans [OF leaf le] L(2) in simp)
  have x: "rd32 ?ks i = Some (?x i)" if i: "i < ?n" "i \<noteq> unat pos" for i
  proof -
    have q: "i div 4 < 2 ^ (?h - 2)" using i h by (intro quarter) simp_all
    have in_range: "i div 4 < length ?ks" using less_le_trans [OF q le] L(2) by simp
    have "(lanes (?ks ! (i div 4)) :: u32 list) ! (i mod 4) = ?x i"
    proof (cases "i div 4 = ?leaf")
      case True
      have "i mod 4 \<noteq> unat pos mod 4" using True i(2) unfolding leaf4 by (metis div_mult_mod_eq)
      moreover have "?leaf < length ks" using less_le_trans [OF leaf le] L(2) by simp
      ultimately show ?thesis using True by (simp add: ggm_last_def lanes_leaf_punctured)
    next
      case False
      then show ?thesis using q L(4) by simp
    qed
    then show ?thesis by (simp only: rd32_def rd_in [OF in_range] option.map)
  qed
  have pos_nat: "pos = of_nat (unat pos)" by simp
  note out = out_pos_loop [OF h(4) pn l x, of "univ_size gen", folded pos_nat]
  have split: "map (\<lambda>i. fast_range (?x i) (univ_size gen)) [0..<unat pos] = take (unat pos) (ggm_set s gen)"
    "map (\<lambda>i. fast_range (?x i) (univ_size gen)) [Suc (unat pos)..<?n] = drop (Suc (unat pos)) (ggm_set s gen)"
    using pn by (simp_all add: ggm_set_def ggm_elem_def take_map drop_map)
  show ?thesis
    unfolding pset_ggm_eval_punc_def Let_def L(1) Option.bind.bind_lunit split_conv last w
    using out ok L(2,3) len by (simp add: gen_ok_update split)
qed

section \<open>Duplicates by linear probing\<close>

text \<open>The table as a list of 32-bit slots.\<close>

definition slots :: "m128 list \<Rightarrow> u32 list" where
  "slots ks = concat (map lanes ks)"

lemma length_slots [simp]: "length (slots ks) = 4 * length ks"
  by (induction ks) (simp_all add: slots_def)

lemma slots_append: "slots (xs @ ys) = slots xs @ slots ys"
  by (simp add: slots_def)

lemma nth_slots: "i < 4 * length ks \<Longrightarrow> slots ks ! i = (lanes (ks ! (i div 4)) :: u32 list) ! (i mod 4)"
proof (induction ks arbitrary: i)
  case (Cons k ks)
  show ?case
  proof (cases "i < 4")
    case True
    then show ?thesis by (simp add: slots_def nth_append)
  next
    case False
    then obtain j where "i = j + 4" by (metis le_add_diff_inverse2 not_less)
    moreover have "(j + 4) div 4 = Suc (j div 4)" by simp
    ultimately show ?thesis using Cons by (simp add: slots_def nth_append)
  qed
qed simp

lemma rd32_slots: "rd32 ks i = rd (slots ks) i"
proof (cases "i < 4 * length ks")
  case True
  then have "i div 4 < length ks" by (simp add: less_mult_imp_div_less mult.commute)
  with True show ?thesis by (simp add: rd32_def rd_def nth_slots)
next
  case False
  then have "\<not> i div 4 < length ks" by (simp add: div_less_iff_less_mult mult.commute)
  with False show ?thesis by (simp add: rd32_def rd_def)
qed

lemma wr32_slots:
  assumes "i < 4 * length ks"
  shows "\<exists>ks'. wr32 ks i v = Some ks' \<and> slots ks' = (slots ks)[i := v] \<and> length ks' = length ks"
proof -
  have q: "i div 4 < length ks" using assms by (simp add: less_mult_imp_div_less mult.commute)
  let ?ks = "ks[i div 4 := vset_lane v (ks ! (i div 4)) (i mod 4)]"
  have "slots ?ks = (slots ks)[i := v]"
  proof (rule nth_equalityI)
    fix j assume "j < length (slots ?ks)"
    then have j: "j < 4 * length ks" by simp
    then have qj: "j div 4 < length ks" by (simp add: less_mult_imp_div_less mult.commute)
    have "i = j \<longleftrightarrow> i div 4 = j div 4 \<and> i mod 4 = j mod 4" by (metis div_mult_mod_eq)
    then show "slots ?ks ! j = (slots ks)[i := v] ! j"
      using j q qj assms by (cases "i div 4 = j div 4") (auto simp: nth_slots nth_list_update lanes_vset_lane)
  qed simp
  then show ?thesis using q by (intro exI [of _ ?ks]) (simp add: wr32_def rd_in wr_in)
qed

text \<open>
  The probe loop over a table of \<open>N\<close> slots: the first slot from the hash that is empty or holds
  the element decides.
\<close>

definition probe_at :: "u32 list \<Rightarrow> nat \<Rightarrow> nat \<Rightarrow> nat \<Rightarrow> u32" where
  "probe_at T N h j = T ! ((h + j) mod N)"

lemma probe_steps:
  assumes N: "0 < N" "N \<le> length (slots table)" and e: "e = ucast x"
    and k: "probe_at (slots table) N h k \<in> {0, x}" "\<forall>j < k. probe_at (slots table) N h j \<notin> {0, x}"
    and i: "i \<le> k"
  shows "if probe_at (slots table) N h k = x \<and> x \<noteq> 0 then probe e N ((h + i) mod N) table = Some (table, False)
    else \<exists>table'. probe e N ((h + i) mod N) table = Some (table', True) \<and>
      slots table' = (slots table)[(h + k) mod N := x] \<and> length table' = length table"
  using i
proof (induction "k - i" arbitrary: i)
  case 0
  then have [simp]: "i = k" by simp
  have b: "(h + k) mod N < N" using N(1) by simp
  then have r: "rd32 table ((h + k) mod N) = Some (probe_at (slots table) N h k)"
    using N(2) by (simp add: rd32_slots rd_in probe_at_def)
  obtain table' where w: "wr32 table ((h + k) mod N) x = Some table'" "slots table' = (slots table)[(h + k) mod N := x]"
      "length table' = length table"
    using wr32_slots [of "(h + k) mod N" table x] b N(2) by auto
  have u: "(ucast (ucast x :: u64) :: u32) = x" by (rule bit_word_eqI) (simp add: bit_simps)
  show ?case
    using k(1) by (subst (1 2) probe.simps) (auto simp: r w e u)
next
  case (Suc m)
  then have i: "i < k" and IH: "m = k - Suc i" by linarith+
  have b: "(h + i) mod N < N" using N(1) by simp
  then have r: "rd32 table ((h + i) mod N) = Some (probe_at (slots table) N h i)"
    using N(2) by (simp add: rd32_slots rd_in probe_at_def)
  have ne: "probe_at (slots table) N h i \<noteq> 0" "(ucast (probe_at (slots table) N h i) :: u64) \<noteq> e"
  proof -
    show "probe_at (slots table) N h i \<noteq> 0" using k(2) i by auto
    have "probe_at (slots table) N h i \<noteq> x" using k(2) i by auto
    then show "(ucast (probe_at (slots table) N h i) :: u64) \<noteq> e"
      unfolding e by (metis unat_ucast_u64 unsigned_word_eqI)
  qed
  have nxt: "(if N \<le> (h + i) mod N + 1 then 0 else (h + i) mod N + 1) = (h + Suc i) mod N"
    using b mod_Suc [of "h + i" N] by auto
  have st: "probe e N ((h + i) mod N) table = probe e N ((h + Suc i) mod N) table"
    by (subst probe.simps) (simp only: r Option.bind.bind_lunit ne nxt if_False)
  show ?case using Suc.hyps(1) [OF IH] i unfolding st by simp
qed

text \<open>
  The table holds the set \<open>S\<close>: its full slots are elements of \<open>S\<close>, and every element is found
  from its hash without passing an empty slot.
\<close>

definition table_inv :: "nat \<Rightarrow> u32 list \<Rightarrow> u32 set \<Rightarrow> bool" where
  "table_inv N T S \<longleftrightarrow> N \<le> length T \<and> finite S \<and> 0 \<notin> S \<and>
     (\<forall>p < N. T ! p = 0 \<or> T ! p \<in> S) \<and>
     (\<forall>x \<in> S. \<exists>j. probe_at T N (unat x mod N) j = x \<and> (\<forall>i < j. probe_at T N (unat x mod N) i \<noteq> 0)) \<and>
     card {p. p < N \<and> T ! p \<noteq> 0} \<le> card S"

lemma table_inv_insert:
  assumes inv: "table_inv N T S" and N: "0 < N" and x: "x \<noteq> 0" "x \<notin> S"
    and k: "probe_at T N (unat x mod N) k = 0" "\<forall>i < k. probe_at T N (unat x mod N) i \<noteq> 0"
  shows "table_inv N (T[(unat x mod N + k) mod N := x]) (insert x S)"
proof -
  let ?p = "(unat x mod N + k) mod N" and ?T = "T[(unat x mod N + k) mod N := x]"
  have p1: "?p < N" using N by simp
  then have p: "?p < N" "?p < length T" "T ! ?p = 0"
    using inv k(1) by (auto simp: table_inv_def probe_at_def simp del: mod_less_divisor)
  have at: "probe_at ?T N h i = (if (h + i) mod N = ?p then x else probe_at T N h i)" for h i
    using p by (simp add: probe_at_def nth_list_update)
  have "\<exists>j. probe_at ?T N (unat y mod N) j = y \<and> (\<forall>i < j. probe_at ?T N (unat y mod N) i \<noteq> 0)" if "y \<in> insert x S" for y
  proof (cases "y = x")
    case True
    then show ?thesis using k x by (intro exI [of _ k]) (simp add: at)
  next
    case False
    with that have yS: "y \<in> S" by simp
    then have y: "y \<noteq> 0" using inv by (auto simp: table_inv_def)
    obtain j where j: "probe_at T N (unat y mod N) j = y" "\<forall>i < j. probe_at T N (unat y mod N) i \<noteq> 0"
      using inv yS unfolding table_inv_def by blast
    have "(unat y mod N + j) mod N \<noteq> ?p" using j(1) y p(3) by (metis probe_at_def)
    with j x show ?thesis by (intro exI [of _ j]) (simp add: at)
  qed
  moreover have "{q. q < N \<and> ?T ! q \<noteq> 0} \<subseteq> insert ?p {q. q < N \<and> T ! q \<noteq> 0}"
    using p by (auto simp: nth_list_update)
  then have "card {q. q < N \<and> ?T ! q \<noteq> 0} \<le> card (insert ?p {q. q < N \<and> T ! q \<noteq> 0})"
    by (rule card_mono [rotated]) simp
  then have "card {q. q < N \<and> ?T ! q \<noteq> 0} \<le> Suc (card {q. q < N \<and> T ! q \<noteq> 0})"
    using card_insert_le_m1 by (simp add: card_insert_if split: if_splits)
  ultimately show ?thesis
    using inv p x by (auto simp: table_inv_def nth_list_update)
qed

lemma probe_table:
  assumes inv: "table_inv N (slots table) S" and S: "card S < N"
  shows "\<exists>table'. probe (ucast x) N (unat x mod N) table = Some (table', x = 0 \<or> x \<notin> S) \<and>
    length table' = length table \<and>
    (x = 0 \<or> x \<notin> S \<longrightarrow> table_inv N (slots table') (if x = 0 then S else insert x S))"
proof -
  let ?T = "slots table" and ?h = "unat x mod N"
  have N: "0 < N" "N \<le> length ?T" using S inv by (auto simp: table_inv_def)
  have h: "?h < N" using N(1) by simp
  have c: "card {p. p < N \<and> ?T ! p \<noteq> 0} < N"
    using inv S unfolding table_inv_def by (meson le_less_trans)
  have "\<exists>p < N. ?T ! p = 0"
  proof (rule ccontr)
    assume "\<not> (\<exists>p < N. ?T ! p = 0)"
    then have "{p. p < N \<and> ?T ! p \<noteq> 0} = {p. p < N}" by blast
    with c show False by simp
  qed
  then obtain p where p: "p < N" "?T ! p = 0" by blast
  have "?h + (N - ?h + p) = N + p" using h by linarith
  then have e: "(?h + (N - ?h + p)) mod N = p" by (simp only: mod_add_self1 mod_less [OF p(1)])
  have "probe_at ?T N ?h (N - ?h + p) = 0" unfolding probe_at_def e by (rule p(2))
  then have ex: "\<exists>j. probe_at ?T N ?h j \<in> {0, x}" by blast
  define k where "k = (LEAST j. probe_at ?T N ?h j \<in> {0, x})"
  have k: "probe_at ?T N ?h k \<in> {0, x}" unfolding k_def by (rule LeastI_ex [OF ex])
  have k': "\<forall>j < k. probe_at ?T N ?h j \<notin> {0, x}" unfolding k_def using not_less_Least by blast
  note st = probe_steps [OF N refl k k', of 0, simplified]
  have kN: "(?h + k) mod N < N" using N(1) by simp
  show ?thesis
  proof (cases "probe_at ?T N ?h k = x \<and> x \<noteq> 0")
    case True
    then have "x \<in> S" using inv kN by (auto simp: table_inv_def probe_at_def)
    with True st show ?thesis by simp
  next
    case False
    then have z: "probe_at ?T N ?h k = 0" using k by auto
    have nS: "x \<notin> S"
    proof
      assume "x \<in> S"
      then obtain j where j: "probe_at ?T N ?h j = x" "\<forall>i < j. probe_at ?T N ?h i \<noteq> 0"
        using inv unfolding table_inv_def by blast
      moreover have "x \<noteq> 0" using inv \<open>x \<in> S\<close> by (auto simp: table_inv_def)
      ultimately have "k \<noteq> j" "\<not> k < j" "\<not> j < k" using z k' by auto
      then show False by simp
    qed
    from st False obtain table' where t: "probe (ucast x) N ?h table = Some (table', True)"
        "slots table' = ?T[(?h + k) mod N := x]" "length table' = length table" by auto
    have "table_inv N (slots table') (if x = 0 then S else insert x S)"
    proof (cases "x = 0")
      case True
      then have "slots table' = ?T" using t(2) z unfolding probe_at_def by (metis list_update_id)
      with True inv show ?thesis by simp
    next
      case False
      have "\<forall>i < k. probe_at ?T N ?h i \<noteq> 0" using k' by auto
      with table_inv_insert [OF inv N(1) False nS z] False show ?thesis by (simp add: t(2))
    qed
    with t nS show ?thesis by simp
  qed
qed

text \<open>The size of the table.\<close>

definition smear :: "nat \<Rightarrow> u32 \<Rightarrow> u32 \<Rightarrow> bool" where
  "smear d w s \<longleftrightarrow> (\<forall>n. bit s n \<longleftrightarrow> (\<exists>m. n \<le> m \<and> m < n + d \<and> bit w m))"

lemma smear_step:
  assumes "smear d w s"
  shows "smear (2 * d) w (s OR drop_bit d s)"
  unfolding smear_def
proof
  fix n
  have "(\<exists>m. n \<le> m \<and> m < n + 2 * d \<and> bit w m) \<longleftrightarrow>
      (\<exists>m. n \<le> m \<and> m < n + d \<and> bit w m) \<or> (\<exists>m. n + d \<le> m \<and> m < n + d + d \<and> bit w m)"
    by (auto; metis add.assoc leI le_add1 le_trans mult_2 trans_less_add1)
  then show "bit (s OR drop_bit d s) n \<longleftrightarrow> (\<exists>m. n \<le> m \<and> m < n + 2 * d \<and> bit w m)"
    using assms by (simp add: smear_def bit_or_iff bit_drop_bit_eq add.commute [of d n])
qed

lemma round_to_power_of_2:
  assumes v: "1 < v" "unat v \<le> 2 ^ 30"
  shows "\<exists>k. round_to_power_of_2 v = 2 ^ k \<and> unat v \<le> 2 ^ k \<and> 2 ^ k < 2 * unat v \<and> k \<le> 30"
proof -
  define w where "w = v - 1"
  have "v \<noteq> 0" using v(1) by auto
  then have uw: "unat w = unat v - 1" by (simp add: w_def unat_minus_one)
  have "1 < unat v" using v(1) by (simp add: word_less_nat_alt)
  then have w: "0 < unat w" "unat w < 2 ^ 30" using uw v(2) by linarith+
  define s where "s = (let v = w OR drop_bit 1 w; v = v OR drop_bit 2 v; v = v OR drop_bit 4 v;
    v = v OR drop_bit 8 v in v OR drop_bit 16 v)"
  have "smear 1 w w" by (auto simp: smear_def le_less_Suc_eq)
  from this [THEN smear_step, THEN smear_step, THEN smear_step, THEN smear_step, THEN smear_step]
  have "smear 32 w s" by (simp add: s_def Let_def)
  moreover have "m < n + 32" if "bit w m" for m n
    using bit_imp_le_length [OF that] by simp
  ultimately have s: "bit s n \<longleftrightarrow> (\<exists>m. n \<le> m \<and> bit w m)" for n
    unfolding smear_def by blast
  obtain k where k: "2 ^ k \<le> unat w" "unat w < 2 ^ Suc k"
    using ex_power_ivl1 [of 2 "unat w"] w(1) by auto
  have "k < 30" using k(1) w(2) by (metis le_less_trans power_less_imp_less_exp one_less_numeral_iff semiring_norm(76))
  have "s = mask (Suc k)"
  proof (rule bit_word_eqI)
    fix n assume "n < LENGTH(32)"
    have "unat w div 2 ^ k = 1" using k by (intro div_nat_eqI) simp_all
    then have top: "bit w k" by (simp add: bit_unat_odd)
    have "m \<le> k" if "bit w m" for m
    proof (rule ccontr)
      assume "\<not> m \<le> k"
      then have "(2 :: nat) ^ Suc k \<le> 2 ^ m" by (intro power_increasing) simp_all
      with k(2) have "unat w div 2 ^ m = 0" by simp
      with that show False by (simp add: bit_unat_odd)
    qed
    with top s have "bit s n \<longleftrightarrow> n \<le> k" by (meson le_trans)
    with \<open>n < _\<close> show "bit s n = bit (mask (Suc k) :: u32) n"
      by (auto simp: bit_mask_iff less_Suc_eq_le)
  qed
  then have "round_to_power_of_2 v = sint (mask (Suc k) + 1 :: u32)"
    by (simp add: round_to_power_of_2_def Let_def s_def flip: w_def)
  also have "mask (Suc k) + 1 = (2 ^ Suc k :: u32)" by (simp add: mask_eq_exp_minus_1)
  also have "sint (2 ^ Suc k :: u32) = 2 ^ Suc k"
  proof -
    have u: "unat (2 ^ Suc k :: u32) = 2 ^ Suc k" using \<open>k < 30\<close> by (intro unat_power_2) simp
    moreover have "(2 :: nat) ^ Suc k < 2 ^ 31" using \<open>k < 30\<close> by (intro power_strict_increasing) simp_all
    ultimately have "sint (2 ^ Suc k :: u32) = int (2 ^ Suc k)" using sint_small [of "2 ^ Suc k :: u32"] by simp
    then show ?thesis by simp
  qed
  finally show ?thesis using k uw \<open>k < 30\<close> w by (intro exI [of _ "Suc k"]) auto
qed

lemma fasthash_pow2: "unat (fasthash x (2 ^ k)) = unat x mod 2 ^ k"
proof -
  have "fasthash x (2 ^ k) = take_bit k x" by (simp add: fasthash_def take_bit_eq_mask mask_eq_exp_minus_1)
  moreover have "unat (take_bit k x) = take_bit k (unat x)" by (rule unsigned_take_bit_eq)
  moreover have "take_bit k (unat x) = unat x mod 2 ^ k" by (rule take_bit_eq_mod)
  ultimately show ?thesis by metis
qed

lemma distinct_from_eq:
  assumes "table_inv (2 ^ k) (slots table) S" "card S + n < 2 ^ k" "k < 32"
    and "take n (drop i elems) = map ucast xs" "i + n \<le> length elems"
  shows "\<exists>table'. distinct_from (2 ^ k) elems n i table =
      Some (table', distinct (filter (\<lambda>x. x \<noteq> 0) xs) \<and> set xs \<inter> S = {}) \<and>
    length table' = length table"
  using assms
proof (induction n arbitrary: i table S xs)
  case 0
  then show ?case by simp
next
  case (Suc n)
  have i: "i < length elems" using Suc.prems(5) by simp
  obtain x ys where xs: "xs = x # ys" and x: "elems ! i = ucast x" and ys: "take n (drop (i + 1) elems) = map ucast ys"
    using Suc.prems(4) i by (cases xs) (auto simp: Cons_nth_drop_Suc [symmetric])
  have r: "rd elems i = Some (ucast x)" using i x by (simp add: rd_in)
  have u: "(ucast (ucast x :: u64) :: u32) = x" by (rule bit_word_eqI) (simp add: bit_simps)
  have N: "nat (2 ^ k) = 2 ^ k" by (simp add: nat_power_eq)
  obtain t where t: "probe (ucast x) (2 ^ k) (unat x mod 2 ^ k) table = Some (t, x = 0 \<or> x \<notin> S)" "length t = length table"
    "x = 0 \<or> x \<notin> S \<longrightarrow> table_inv (2 ^ k) (slots t) (if x = 0 then S else insert x S)"
    using probe_table [OF Suc.prems(1), of x] Suc.prems(2) by auto
  have z: "0 \<notin> S" "finite S" using Suc.prems(1) by (auto simp: table_inv_def)
  have st: "distinct_from (2 ^ k) elems (Suc n) i table =
      (if x = 0 \<or> x \<notin> S then distinct_from (2 ^ k) elems n (i + 1) t else Some (t, False))"
    by (simp add: r u fasthash_pow2 N t(1) Let_def)
  show ?case
  proof (cases "x = 0 \<or> x \<notin> S")
    case True
    let ?S = "if x = 0 then S else insert x S"
    have "card ?S + n < 2 ^ k" using Suc.prems(2) z by (auto simp: card_insert_if)
    then obtain table' where "distinct_from (2 ^ k) elems n (i + 1) t =
        Some (table', distinct (filter (\<lambda>x. x \<noteq> 0) ys) \<and> set ys \<inter> ?S = {})" "length table' = length t"
      using Suc.IH [of t ?S "i + 1" ys] t(3) True Suc.prems(3,5) ys by auto
    then show ?thesis using True t(2) z unfolding st xs by auto
  next
    case False
    then show ?thesis using t(2) unfolding st xs by auto
  qed
qed

lemma clear_table:
  assumes "n \<le> 4 * length ts"
  shows "\<exists>ts'. for_range 0 n (\<lambda>i table. wr32 table i 0) ts = Some ts' \<and> length ts' = length ts \<and> (\<forall>j < n. slots ts' ! j = 0)"
proof -
  define P where "P i t \<longleftrightarrow> length t = length ts \<and> (\<forall>j < i. slots t ! j = 0)" for i and t :: "m128 list"
  have "\<exists>t. for_range 0 n (\<lambda>i table. wr32 table i 0) ts = Some t \<and> P n t"
  proof (rule for_range_inv)
    fix i s assume "i < n" "P i s"
    then show "\<exists>t. wr32 s i 0 = Some t \<and> P (Suc i) t"
      using wr32_slots [of i s 0] assms by (auto simp: P_def less_Suc_eq)
  qed (simp_all add: P_def)
  then show ?thesis by (simp add: P_def)
qed

lemma distinct_elems_eq:
  assumes n: "unat num \<le> 2 ^ 28" "unat num \<le> length elems" and small: "\<forall>e \<in> set (take (unat num) elems). e < 2 ^ 32"
    and l: "\<And>k. 2 ^ k < 8 * unat num \<Longrightarrow> 2 ^ k \<le> 4 * length (tmp gen)"
  shows "\<exists>gen'. distinct_elems gen elems num =
      Some (gen', distinct (filter (\<lambda>e. e \<noteq> 0) (take (unat num) elems))) \<and>
    keys gen' = keys gen \<and> length (tmp gen') = length (tmp gen)"
proof (cases "num = 0")
  case True
  then show ?thesis
    by (simp add: distinct_elems_def round_to_power_of_2_def Let_def)
next
  case False
  let ?n = "unat num" and ?xs = "map ucast (take (unat num) elems) :: u32 list"
  have u4: "unat (num * 4) = 4 * ?n"
    using n(1) by (simp add: unat_word_ariths)
  have pos: "0 < ?n" using False by (simp add: unat_gt_0)
  then have "1 < num * 4" using u4 by (simp add: word_less_nat_alt)
  then obtain k where k: "round_to_power_of_2 (num * 4) = 2 ^ k" "4 * ?n \<le> 2 ^ k" "2 ^ k < 2 * (4 * ?n)" "k \<le> 30"
    using round_to_power_of_2 [of "num * 4"] u4 n(1) by auto
  have fits: "2 ^ k \<le> 4 * length (tmp gen)" using l [of k] k(3) by simp
  have N: "nat (2 ^ k) = 2 ^ k" by (simp add: nat_power_eq)
  obtain t where t: "for_range 0 (2 ^ k) (\<lambda>i table. wr32 table i 0) (tmp gen) = Some t" "length t = length (tmp gen)"
    "\<forall>j < 2 ^ k. slots t ! j = 0"
    using clear_table [of "2 ^ k" "tmp gen"] fits by blast
  have emb: "ucast (ucast e :: u32) = e" if "e \<in> set (take ?n elems)" for e :: u64
  proof -
    have "e < 2 ^ 32" using small that by blast
    then have "unat e < 2 ^ 32" by (simp add: word_less_nat_alt)
    then have "unat (ucast (ucast e :: u32) :: u64) = unat e"
      unfolding unat_ucast_u64 by (simp add: unsigned_ucast_eq take_bit_nat_eq_self)
    then show ?thesis by (rule unsigned_word_eqI)
  qed
  have "table_inv (2 ^ k) (slots t) {}"
    using t(2,3) fits by (auto simp: table_inv_def)
  moreover have "?n < 2 ^ k" using k(2) pos by linarith
  moreover have "take ?n elems = map ucast ?xs"
    unfolding map_map by (rule map_idI [symmetric]) (simp add: emb)
  ultimately obtain t' where d: "distinct_from (2 ^ k) elems ?n 0 t = Some (t', distinct (filter (\<lambda>x. x \<noteq> 0) ?xs))"
      "length t' = length t"
    using distinct_from_eq [of k t "{}" ?n 0 elems ?xs] k(4) n(2) by auto
  have "inj_on (ucast :: u64 \<Rightarrow> u32) (set (take ?n elems))" by (metis emb inj_onI)
  then have "inj_on (ucast :: u64 \<Rightarrow> u32) (set (filter (\<lambda>e. e \<noteq> 0) (take ?n elems)))"
    by (rule inj_on_subset) auto
  moreover have "filter (\<lambda>x. x \<noteq> 0) ?xs = map ucast (filter (\<lambda>e. e \<noteq> 0) (take ?n elems))"
  proof -
    have "(ucast e :: u32) \<noteq> 0 \<longleftrightarrow> e \<noteq> 0" if "e \<in> set (take ?n elems)" for e
      using emb [OF that] by (metis ucast_0)
    then show ?thesis by (simp add: filter_map o_def cong: filter_cong)
  qed
  ultimately have "distinct (filter (\<lambda>x. x \<noteq> 0) ?xs) = distinct (filter (\<lambda>e. e \<noteq> 0) (take ?n elems))"
    by (simp add: distinct_map)
  with d show ?thesis
    using n(1) t(2) by (simp add: distinct_elems_def k(1) N t(1) Let_def)
qed

text \<open>The table of at most \<open>set_size\<close> elements fits into the region \<open>tmp\<close>: four slots an element rounded up to
  a power of two are at most the four lanes of each of the \<open>2 ^ height\<close> blocks.\<close>

lemma gen_ok_table_fits:
  assumes "gen_ok gen" "n \<le> unat (set_size gen)" "2 ^ k < 8 * n"
  shows "2 ^ k \<le> 4 * length (tmp gen)"
proof -
  let ?h = "get_height (set_size gen)"
  have "n \<le> 2 ^ ?h" using gen_ok_height(3) [OF assms(1)] assms(2) by simp
  then have "(2 :: nat) ^ k < 2 ^ (?h + 3)" using assms(3) by (simp add: power_add)
  then have "k < ?h + 3" by (rule power_less_imp_less_exp [rotated]) simp
  then have "(2 :: nat) ^ k \<le> 2 ^ (?h + 2)" by (intro power_increasing) simp_all
  then show ?thesis using assms(1) by (simp add: gen_ok_def power_add)
qed

section \<open>Layout, elements, expansion\<close>

lemma layout:
  assumes "ss \<noteq> 0" "unat ss \<le> 2 ^ 29" "workspace_size us ss = Some n"
  shows "16 dvd keys_addr ws" "ws + sizeof_generator \<le> keys_addr ws" "keys_addr ws < ws + sizeof_generator + 16"
    "tmp_addr ws ss = Some (keys_addr ws + 16 * 2 ^ get_height ss)"
    "unat n = (56 + 32 * 2 ^ get_height ss) mod 2 ^ 32"
proof -
  have h: "get_height ss \<le> 29" using assms by (intro get_height_le) simp_all
  then have p: "(2 :: nat) ^ get_height ss \<le> 2 ^ 29" by (intro power_increasing) simp_all
  show "16 dvd keys_addr ws" "ws + sizeof_generator \<le> keys_addr ws" "keys_addr ws < ws + sizeof_generator + 16"
    unfolding keys_addr_def sizeof_generator_def by (rule dvd_triv_right) presburger+
  show "tmp_addr ws ss = Some (keys_addr ws + 16 * 2 ^ get_height ss)"
    using h by (simp add: tmp_addr_def shl1_in)
  have "n = of_nat (sizeof_generator + 2 * 2 ^ get_height ss * 16 + 32)"
    using assms(3) h p by (simp add: workspace_size_def shl1_in)
  then have "n = of_nat (56 + 32 * 2 ^ get_height ss)"
    by (simp add: sizeof_generator_def)
  then show "unat n = (56 + 32 * 2 ^ get_height ss) mod 2 ^ 32"
    by (simp only: unat_of_nat) simp
qed

lemma unat_fast_range: "unat (fast_range x n) = unat x * unat n div 2 ^ 32"
proof -
  have "unat x * unat n \<le> (2 ^ 32 - 1) * (2 ^ 32 - 1)"
    using u32_bound [of x] u32_bound [of n] by (intro mult_le_mono) simp_all
  then have "unat x * unat n < 2 ^ 64" by simp
  then have "unat (ucast x * ucast n :: u64) = unat x * unat n"
    by (simp add: unat_word_ariths)
  then show ?thesis by (simp add: fast_range_def)
qed

lemma fast_range_less:
  assumes "n \<noteq> 0"
  shows "unat (fast_range x n) < unat n"
proof -
  have "0 < unat n" using assms by (simp add: unat_gt_0)
  then have "unat x * unat n < unat n * 2 ^ 32" using u32_bound [of x] by simp
  then show ?thesis unfolding unat_fast_range by (rule less_mult_imp_div_less)
qed

lemma expand_eq: "expand k = (mmo (encryptECB mAesFixedKey) k, mmo (encryptECB mAesFixedKey) k XOR one)"
  by (simp add: expand_def Let_def mm_xor_si128_def mmo_def xor.commute)

lemma lanes_one: "(lanes one :: u32 list) = [0, 0, 0, 1]"
  by (simp add: one_def mm_setr_epi32_def vld1_def)

lemma lane0_one: "(lanes (k XOR one) :: u32 list) ! 0 = lanes k ! 0"
proof -
  have d: "LENGTH(32) dvd LENGTH(128)" by simp
  have "(lanes (k XOR one) :: u32 list) ! 0 = lanes k ! 0 XOR lanes one ! 0"
    unfolding lanes_xor [OF d] by simp
  then show ?thesis by (simp add: lanes_one)
qed

text \<open>A set of two elements, through the depth-first walk.\<close>

lemma tree_walk_pair:
  assumes us: "us \<noteq> 0" and ks: "ks = k # a # b # ks'" and out: "out = c # d # out'"
  shows "\<exists>w. tree_walk 1 2 us \<lparr>w_keys = ks, w_key_pos = 0, w_height = 1, w_node = 0\<rparr> out =
    Some (w, ucast ((lanes (snd (expand k)) :: u32 list) ! 0 mod us) #
             ucast ((lanes (fst (expand k)) :: u32 list) ! 0 mod us) # out') \<and>
    length (w_keys w) = length ks"
proof -
  have up: "walk_up 0 0 p = (0, 0, p)" "walk_up 1 0 p = (0, 1, p - 1)" for p
    by (subst walk_up.simps; simp; subst walk_up.simps; simp)+
  have "\<not> (2 :: u32) \<le> 1" by (simp add: word_le_nat_alt)
  then show ?thesis
    unfolding ks out
    by - (subst tree_walk.simps, simp add: rd_def wr2_def wr_def,
        subst tree_walk.simps, simp add: rd32_def rd_def wr_def us up Let_def,
        subst tree_walk.simps, simp add: rd32_def rd_def wr_def us up Let_def)
qed

section \<open>Properties\<close>

text \<open>C23: \<open>pset_ggm_eval\<close> writes the leaves of the GGM tree over the seed, scaled into the universe: it
  stays inside its work space whatever that holds, writes \<open>set_size\<close> elements below \<open>univ_size\<close>, and
  leaves the rest of the output.\<close>

theorem pset_ggm_eval_tree:
  assumes "gen_ok gen" "16 \<le> length seed" "unat (set_size gen) \<le> length elems" "univ_size gen \<noteq> 0"
  shows "\<exists>gen'. pset_ggm_eval gen seed elems =
      Some (gen', ggm_set (of_lanes (take 16 seed)) gen @ drop (unat (set_size gen)) elems) \<and> gen_ok gen' \<and>
    (\<forall>e \<in> set (ggm_set (of_lanes (take 16 seed)) gen). unat e < unat (univ_size gen))"
proof -
  have "toBlock seed 0 = Some (of_lanes (take 16 seed))"
    using assms(2) by (simp add: toBlock_eq loadv_in)
  then show ?thesis
    using tree_eval_all2_eq [OF assms(1,3), of "of_lanes (take 16 seed)"] fast_range_less [OF assms(4)]
    by (auto simp: pset_ggm_eval_def ggm_set_def ggm_elem_def)
qed

theorem pset_ggm_eval_tree_witness:
  "\<exists>gen'. pset_ggm_eval \<lparr>univ_size = 100, set_size = 2, keys = [0, 0], tmp = [0, 0]\<rparr> (replicate 16 7) [9, 9, 9] =
     Some (gen', ggm_set (of_lanes (replicate 16 7 :: u8 list)) \<lparr>univ_size = 100, set_size = 2, keys = [0, 0], tmp = [0, 0]\<rparr> @ [9])"
proof -
  let ?g = "\<lparr>univ_size = 100, set_size = 2, keys = [0, 0], tmp = [0, 0]\<rparr>"
  have "get_height 2 = 1" by (simp add: get_height_def height_loop.simps)
  then have "gen_ok ?g" by (simp add: gen_ok_def)
  then show ?thesis
    using pset_ggm_eval_tree [of ?g "replicate 16 7" "[9, 9, 9]"] by auto
qed

text \<open>C15: puncturing is correct: evaluating the punctured seed, in any work space, gives the elements of
  the set in order without the one at the punctured position.\<close>

theorem pset_ggm_eval_punc_correct:
  assumes "gen_ok gen" "gen_ok gen2" "set_size gen2 = set_size gen" "univ_size gen2 = univ_size gen"
    and "16 \<le> length seed" "pos < set_size gen" "pset_buffer_size gen \<le> 16 * length pset"
    and "unat (set_size gen) - 1 \<le> length elems"
  shows "\<exists>gen1 ps gen3. pset_ggm_punc gen seed pos pset = Some (gen1, ps) \<and>
    pset_ggm_eval_punc gen2 ps pos elems =
      Some (gen3, take (unat pos) (ggm_set (of_lanes (take 16 seed)) gen) @
        drop (Suc (unat pos)) (ggm_set (of_lanes (take 16 seed)) gen) @ drop (unat (set_size gen) - 1) elems)"
proof -
  let ?s = "of_lanes (take 16 seed) :: m128"
  have seed: "toBlock seed 0 = Some ?s" using assms(5) by (simp add: toBlock_eq loadv_in)
  have same: "ggm_set ?s gen2 = ggm_set ?s gen" "ggm_punctured ?s gen2 pos = ggm_punctured ?s gen pos"
    using assms(3,4) by (simp_all add: ggm_set_def ggm_punctured_def)
  have e: "pos < set_size gen2" "unat (set_size gen2) - 1 \<le> length elems" using assms by simp_all
  let ?ps = "ggm_punctured ?s gen pos @ drop (length (ggm_punctured ?s gen pos)) pset"
  obtain gen1 where "pset_ggm_punc gen seed pos pset = Some (gen1, ?ps)"
    using punc_eq [OF assms(1) seed assms(6,7)] by blast
  moreover obtain gen3 where "pset_ggm_eval_punc gen2 ?ps pos elems =
      Some (gen3, take (unat pos) (ggm_set ?s gen) @ drop (Suc (unat pos)) (ggm_set ?s gen) @ drop (unat (set_size gen) - 1) elems)"
    using eval_punc_eq [OF assms(2) e, of ?s] unfolding same assms(3) by blast
  ultimately show ?thesis by blast
qed

theorem pset_ggm_eval_punc_correct_witness:
  "\<exists>gen1 ps gen3. pset_ggm_punc \<lparr>univ_size = 100, set_size = 5, keys = replicate 8 0, tmp = replicate 8 0\<rparr>
       (replicate 16 7) 3 [0, 0] = Some (gen1, ps) \<and>
     pset_ggm_eval_punc \<lparr>univ_size = 100, set_size = 5, keys = replicate 8 1, tmp = replicate 8 2\<rparr> ps 3 [0, 0, 0, 0] =
       Some (gen3, take 3 (ggm_set (of_lanes (replicate 16 7 :: u8 list)) \<lparr>univ_size = 100, set_size = 5, keys = replicate 8 0, tmp = replicate 8 0\<rparr>) @
         drop (Suc 3) (ggm_set (of_lanes (replicate 16 7 :: u8 list)) \<lparr>univ_size = 100, set_size = 5, keys = replicate 8 0, tmp = replicate 8 0\<rparr>))"
proof -
  let ?g = "\<lparr>univ_size = 100, set_size = 5, keys = replicate 8 0, tmp = replicate 8 0\<rparr>"
  let ?g2 = "\<lparr>univ_size = 100, set_size = 5, keys = replicate 8 1, tmp = replicate 8 2\<rparr>"
  have h: "get_height 5 = 3" by (simp add: get_height_def height_loop.simps)
  then have "gen_ok ?g" "gen_ok ?g2" "pset_buffer_size ?g = 32"
    by (simp_all add: gen_ok_def pset_buffer_size_def)
  then show ?thesis
    using pset_ggm_eval_punc_correct [of ?g ?g2 "replicate 16 7" 3 "[0, 0]" "[0, 0, 0, 0]"]
    by simp
qed

text \<open>\<open>pset_ggm_punc\<close> writes, inside a buffer of \<open>pset_buffer_size\<close> bytes, the siblings of the path to
  the position and the last block of the path without the lane of the position: every block of it
  but the last is a node off the path, and the punctured lane is zero.\<close>

theorem pset_ggm_punc_seed:
  assumes "gen_ok gen" "16 \<le> length seed" "pos < set_size gen" "pset_buffer_size gen = 16 * length pset"
  shows "\<exists>gen' ps lst. pset_ggm_punc gen seed pos pset = Some (gen', ps @ [lst]) \<and> length (ps @ [lst]) = length pset \<and>
    ps = map (ggm_sibling (encryptECB mAesFixedKey) (of_lanes (take 16 seed)) (get_height (set_size gen)) pos) [0..<length ps] \<and>
    (lanes lst :: u32 list) ! (unat pos mod 4) = 0"
proof -
  let ?s = "of_lanes (take 16 seed) :: m128" and ?h = "get_height (set_size gen)"
  have seed: "toBlock seed 0 = Some ?s" using assms(2) by (simp add: toBlock_eq loadv_in)
  have l: "length pset = Suc (?h - 2)"
    using assms(4) gen_ok_height(2) [OF assms(1)] by (auto simp: pset_buffer_size_def Let_def split: if_splits)
  have z: "(lanes (ggm_last enc s h pos) :: u32 list) ! (unat pos mod 4) = 0" for enc s h
    by (simp add: ggm_last_def lanes_vset_lane)
  obtain gen' where "pset_ggm_punc gen seed pos pset = Some (gen', ggm_punctured ?s gen pos @ drop (length (ggm_punctured ?s gen pos)) pset)"
    using punc_eq [OF assms(1) seed assms(3)] assms(4) by auto
  then show ?thesis
    using l z by (simp add: ggm_punctured_def Let_def)
qed

theorem pset_ggm_punc_seed_witness:
  "\<exists>gen' ps lst. pset_ggm_punc \<lparr>univ_size = 100, set_size = 5, keys = replicate 8 0, tmp = replicate 8 0\<rparr>
       (replicate 16 7) 3 [0, 0] = Some (gen', ps @ [lst]) \<and> length (ps @ [lst]) = 2 \<and> (lanes lst :: u32 list) ! 3 = 0"
proof -
  let ?g = "\<lparr>univ_size = 100, set_size = 5, keys = replicate 8 0, tmp = replicate 8 0\<rparr>"
  have h: "get_height 5 = 3" by (simp add: get_height_def height_loop.simps)
  then have "gen_ok ?g" "pset_buffer_size ?g = 32"
    by (simp_all add: gen_ok_def pset_buffer_size_def)
  then show ?thesis
    using pset_ggm_punc_seed [of ?g "replicate 16 7" 3 "[0, 0]"] by fastforce
qed

text \<open>C33: the work space: \<open>keys\<close> is 16-byte aligned behind the generator, \<open>tmp\<close> follows it, and both
  regions of \<open>2 ^ height\<close> blocks end inside \<open>workspace_size\<close> bytes exactly for sets of at most
  \<open>2 ^ 26\<close> elements, past which the returned size wraps around; \<open>pset_ggm_init\<close> then gives a generator
  that the other operations accept.\<close>

theorem workspace_holds_tree:
  assumes "ss \<noteq> 0" "unat ss \<le> 2 ^ 29" "workspace_size us ss = Some n"
  shows "16 dvd keys_addr ws \<and> ws + sizeof_generator \<le> keys_addr ws \<and>
    (\<exists>tmp. tmp_addr ws ss = Some tmp \<and> tmp = keys_addr ws + 16 * 2 ^ get_height ss \<and>
      (tmp + 16 * 2 ^ get_height ss \<le> ws + unat n \<longleftrightarrow> unat ss \<le> 2 ^ 26)) \<and>
    (\<exists>gen. pset_ggm_init us ss (replicate (2 ^ get_height ss) k) (replicate (2 ^ get_height ss) t) = Some gen \<and> gen_ok gen)"
proof -
  note l = layout [OF assms]
  let ?h = "get_height ss" and ?fin = "keys_addr ws + 16 * 2 ^ get_height ss + 16 * 2 ^ get_height ss"
  have "?fin \<le> ws + unat n \<longleftrightarrow> unat ss \<le> 2 ^ 26"
  proof (cases "unat ss \<le> 2 ^ 26")
    case True
    then have "?h \<le> 26" using assms(1) by (intro get_height_le) simp_all
    then have "(2 :: nat) ^ ?h \<le> 2 ^ 26" by (intro power_increasing) simp_all
    then have "unat n = 56 + 32 * 2 ^ ?h" unfolding l(5) by (intro mod_less) simp
    moreover have "keys_addr ws < ws + sizeof_generator + 16" by (rule l(3))
    ultimately show ?thesis using True by (simp add: sizeof_generator_def)
  next
    case False
    have "\<not> ?h \<le> 26"
    proof
      assume "?h \<le> 26"
      then have "(2 :: nat) ^ ?h \<le> 2 ^ 26" by (intro power_increasing) simp_all
      with False get_height_bounds(1) [OF assms(1)] show False by linarith
    qed
    then have "(2 :: nat) ^ 27 \<le> 2 ^ ?h" by (intro power_increasing) simp_all
    moreover have "unat n < 2 ^ 32" by (rule u32_bound)
    moreover have "ws + sizeof_generator \<le> keys_addr ws" by (rule l(2))
    ultimately show ?thesis using False by (simp add: sizeof_generator_def)
  qed
  moreover have "get_height ss \<le> 30" using assms(1,2) by (intro get_height_le) simp_all
  ultimately show ?thesis using l(1,2,4) assms(1,2) by (simp add: pset_ggm_init_def shl1_in gen_ok_def)
qed

theorem workspace_holds_tree_witness:
  "\<exists>tmp. tmp_addr 1001 5 = Some tmp \<and> tmp + 16 * 8 \<le> 1001 + unat (312 :: u32)"
proof -
  have h: "get_height 5 = 3" by (simp add: get_height_def height_loop.simps)
  then have "workspace_size 100 5 = Some 312"
    by (simp add: workspace_size_def shl1_def sizeof_generator_def)
  then show ?thesis
    using workspace_holds_tree [of 5 100 312 1001] h by auto
qed

text \<open>C28: \<open>distinct\<close> returns on at most \<open>set_size\<close> elements below \<open>2 ^ 32\<close> of a generator with the work space
  of \<open>pset_ggm_init\<close>: its table stays inside the region \<open>tmp\<close> and its probe loop ends. What it decides
  is whether the nonzero elements are distinct: zero marks a free slot, so repeated zeros go unnoticed.\<close>

theorem distinct_elems_decides:
  assumes "gen_ok gen" "unat num \<le> unat (set_size gen)" "unat num \<le> 2 ^ 28" "unat num \<le> length elems"
    and "\<forall>e \<in> set (take (unat num) elems). e < 2 ^ 32"
  shows "\<exists>gen'. distinct_elems gen elems num =
      Some (gen', distinct (filter (\<lambda>e. e \<noteq> 0) (take (unat num) elems))) \<and>
    keys gen' = keys gen \<and> length (tmp gen') = length (tmp gen)"
  by (rule distinct_elems_eq [OF assms(3-5) gen_ok_table_fits [OF assms(1,2)]])

theorem distinct_elems_decides_witness:
  "\<exists>gen'. distinct_elems \<lparr>univ_size = 100, set_size = 4, keys = replicate 4 0, tmp = replicate 4 0\<rparr> [5, 0, 7, 0] 4 = Some (gen', True)"
proof -
  let ?g = "\<lparr>univ_size = 100, set_size = 4, keys = replicate 4 0, tmp = replicate 4 0\<rparr>"
  have "get_height 4 = 2" by (simp add: get_height_def height_loop.simps)
  then have "gen_ok ?g" by (simp add: gen_ok_def)
  then show ?thesis using distinct_elems_decides [of ?g 4 "[5, 0, 7, 0]"] by auto
qed

text \<open>The dead evaluation \<open>tree_eval_all\<close> encrypts the same block for both children (\<open>expand\<close> drops the
  tweak of the right one), so on a set of two it writes the same element twice.\<close>

theorem tree_eval_all_pair_collides:
  assumes "set_size gen = 2" "univ_size gen \<noteq> 0" "gen_ok gen" "2 \<le> length out"
  shows "\<exists>gen' e. tree_eval_all gen seed out = Some (gen', e # e # drop 2 out)"
proof -
  have h: "get_height 2 = 1" by (simp add: get_height_def height_loop.simps)
  then have len: "length (keys gen) = 2" "length (tmp gen) = 2" using assms(1,3) by (simp_all add: gen_ok_def)
  obtain x y where k: "keys gen = [x, y]" using list_2 [OF len(1)] by blast
  obtain z t where t: "tmp gen = [z, t]" using list_2 [OF len(2)] by blast
  obtain c d out' where o: "out = c # d # out'"
    using assms(4) by (metis Suc_le_length_iff numeral_2_eq_2)
  have same: "(lanes (snd (expand seed)) :: u32 list) ! 0 = lanes (fst (expand seed)) ! 0"
    by (simp add: expand_eq lane0_one)
  show ?thesis
    using tree_walk_pair [OF assms(2) refl o, of seed y z "[t]"] same
    by (auto simp: tree_eval_all_def assms(1) h k t wr_def o)
qed

theorem tree_eval_all_pair_collides_witness:
  "\<exists>gen' e. tree_eval_all \<lparr>univ_size = 100, set_size = 2, keys = [0, 0], tmp = [0, 0]\<rparr> 77 [1, 2, 3] = Some (gen', [e, e, 3])"
proof -
  have "get_height 2 = 1" by (simp add: get_height_def height_loop.simps)
  then have "gen_ok \<lparr>univ_size = 100, set_size = 2, keys = [0, 0], tmp = [0, 0]\<rparr>" by (simp add: gen_ok_def)
  then show ?thesis
    using tree_eval_all_pair_collides [of "\<lparr>univ_size = 100, set_size = 2, keys = [0, 0], tmp = [0, 0]\<rparr>" "[1, 2, 3]" 77] by simp
qed

end
