(* ===== verification/Permute.thy ===== *)
theory Permute
  imports Ggm "HOL-Library.Multiset"
begin

text \<open>
  \<open>psetggm/permute.cpp\<close>: a random permutation by Fisher and Yates, and its inverse. Randomness comes
  from \<open>RAND_bytes\<close> of OpenSSL, which is not part of the repository: it is the parameter \<open>RAND\<close>,
  which gives the contents of the four-byte buffer after the \<open>n\<close>-th call from its contents before
  it, so it may fail and leave the buffer as it is (the code ignores its result). The state is the
  number of calls made and the global \<open>buf\<close>.
\<close>

section \<open>Random numbers\<close>

record rng =
  calls :: nat
  buf :: "u8 list"

type_synonym rand = "nat \<Rightarrow> u8 list \<Rightarrow> u8 list"

definition fastMod :: "u32 \<Rightarrow> u32 \<Rightarrow> u32" where
  "fastMod x N = ucast (drop_bit 32 (ucast x * ucast N :: u64))"

definition getRandIntModN :: "rand \<Rightarrow> u32 \<Rightarrow> rng \<Rightarrow> (u32 \<times> rng) option" where
  "getRandIntModN RAND N s = do {
     let b = RAND (calls s) (buf s);
     b0 \<leftarrow> rd b 0;
     b1 \<leftarrow> rd b 1;
     b2 \<leftarrow> rd b 2;
     b3 \<leftarrow> rd b 3;
     let x = push_bit 24 (ucast b0) OR push_bit 16 (ucast b1) OR push_bit 8 (ucast b2) OR ucast b3;
     Some (fastMod x N, \<lparr>calls = calls s + 1, buf = b\<rparr>)
   }"

section \<open>Permutations\<close>

definition swap_at :: "'a list \<Rightarrow> nat \<Rightarrow> nat \<Rightarrow> 'a list option" where
  "swap_at xs i j = do {
     x \<leftarrow> rd xs i;
     y \<leftarrow> rd xs j;
     xs \<leftarrow> wr xs i y;
     wr xs j x
   }"

text \<open>The loop from \<open>i\<close> down to 1.\<close>

fun shuffle :: "rand \<Rightarrow> nat \<Rightarrow> rng \<times> u32 list \<Rightarrow> (rng \<times> u32 list) option" where
  "shuffle RAND 0 st = Some st"
| "shuffle RAND (Suc i) (s, range_arr) = do {
     (j, s) \<leftarrow> getRandIntModN RAND (of_nat (Suc i) + 1) s;
     range_arr \<leftarrow> swap_at range_arr (Suc i) (unat j);
     shuffle RAND i (s, range_arr)
   }"

definition permute :: "rand \<Rightarrow> u32 \<Rightarrow> u32 \<Rightarrow> u32 list \<Rightarrow> rng \<Rightarrow> (rng \<times> u32 list) option" where
  "permute RAND seed n range_arr s = do {
     range_arr \<leftarrow> for_range 0 (unat n) (\<lambda>i range_arr. wr range_arr i (of_nat i)) range_arr;
     shuffle RAND (unat (n - 1)) (s, range_arr)
   }"

definition invert_permutation :: "u32 list \<Rightarrow> u32 \<Rightarrow> u32 list \<Rightarrow> u32 list option" where
  "invert_permutation perm_array n inv_array =
     for_range 0 (unat n) (\<lambda>i inv_array. do {
       p \<leftarrow> rd perm_array i;
       wr inv_array (unat p) (of_nat i)
     }) inv_array"

section \<open>Random numbers below a bound\<close>

lemma fastMod_fast_range: "fastMod x N = ucast (fast_range x N)"
  by (simp add: fastMod_def fast_range_def)

lemma unat_fastMod: "unat (fastMod x N) = unat x * unat N div 2 ^ 32"
proof -
  have "unat x * unat N div 2 ^ 32 < 2 ^ 32"
  proof (rule less_mult_imp_div_less)
    have "unat x * unat N \<le> (2 ^ 32 - 1) * (2 ^ 32 - 1)"
      using u32_bound [of x] u32_bound [of N] by (intro mult_le_mono) simp_all
    then show "unat x * unat N < 2 ^ 32 * 2 ^ 32" by simp
  qed
  then show ?thesis
    unfolding fastMod_fast_range unsigned_ucast_eq unat_fast_range by (simp add: take_bit_nat_eq_self)
qed

lemma fastMod_less: "N \<noteq> 0 \<Longrightarrow> unat (fastMod x N) < unat N"
  unfolding unat_fastMod unat_fast_range [symmetric] by (rule fast_range_less)

lemma fastMod_onto:
  assumes "j < unat N"
  shows "\<exists>x. unat (fastMod x N) = j"
proof -
  let ?N = "unat N"
  define x where "x = (j * 2 ^ 32 + ?N - 1) div ?N"
  have N: "?N < 2 ^ 32" by (rule u32_bound)
  have "x * ?N + (j * 2 ^ 32 + ?N - 1) mod ?N = j * 2 ^ 32 + ?N - 1"
    unfolding x_def by (rule div_mult_mod_eq)
  moreover have "(j * 2 ^ 32 + ?N - 1) mod ?N < ?N" using assms by (intro mod_less_divisor) linarith
  ultimately have lo: "j * 2 ^ 32 \<le> x * ?N" and hi: "x * ?N < j * 2 ^ 32 + ?N" using assms by linarith+
  have "x * ?N div 2 ^ 32 = j" using lo hi N by (intro div_nat_eqI) simp_all
  moreover have "x < 2 ^ 32"
  proof (rule ccontr)
    assume "\<not> x < 2 ^ 32"
    then have "2 ^ 32 * ?N \<le> x * ?N" by (intro mult_le_mono1) simp
    moreover have "(j + 1) * 2 ^ 32 \<le> ?N * 2 ^ 32" using assms by (intro mult_le_mono1) simp
    ultimately show False using hi N unfolding mult.commute [of _ ?N] add_mult_distrib by linarith
  qed
  ultimately have "unat (fastMod (of_nat x) N) = j" by (simp add: unat_fastMod unat_of_nat_small)
  then show ?thesis ..
qed

text \<open>The four bytes of the buffer, most significant first.\<close>

definition be32 :: "u8 list \<Rightarrow> u32" where
  "be32 b = push_bit 24 (ucast (b ! 0)) OR push_bit 16 (ucast (b ! 1)) OR push_bit 8 (ucast (b ! 2)) OR ucast (b ! 3)"

lemma be32_onto: "\<exists>b. length b = 4 \<and> be32 b = x"
proof (intro exI conjI)
  let ?b = "rev (lanes x :: u8 list)"
  show "length ?b = 4" by simp
  show "be32 ?b = x"
  proof (rule bit_word_eqI)
    fix n assume "n < LENGTH(32)"
    then have "n < 8 \<or> 8 \<le> n \<and> n < 16 \<or> 16 \<le> n \<and> n < 24 \<or> 24 \<le> n \<and> n < 32" by simp linarith
    then show "bit (be32 ?b) n = bit x n"
      by (auto simp: be32_def rev_nth nth_lanes bit_simps)
  qed
qed

text \<open>The contract of \<open>RAND_bytes\<close> that memory safety needs: the buffer keeps its four bytes.\<close>

definition rand_ok :: "rand \<Rightarrow> bool" where
  "rand_ok RAND \<longleftrightarrow> (\<forall>n b. length b = 4 \<longrightarrow> length (RAND n b) = 4)"

lemma getRandIntModN_eq:
  assumes "rand_ok RAND" "length (buf s) = 4"
  shows "getRandIntModN RAND N s = Some (fastMod (be32 (RAND (calls s) (buf s))) N,
     \<lparr>calls = calls s + 1, buf = RAND (calls s) (buf s)\<rparr>)"
proof -
  have l: "length (RAND (calls s) (buf s)) = 4" using assms by (simp add: rand_ok_def)
  show ?thesis unfolding getRandIntModN_def Let_def by (simp add: l rd_in be32_def)
qed

section \<open>Fisher and Yates\<close>

lemma swap_at_eq:
  "i < length xs \<Longrightarrow> j < length xs \<Longrightarrow> swap_at xs i j = Some (xs[i := xs ! j, j := xs ! i])"
  by (simp add: swap_at_def rd_in wr_in)

lemma mset_swap_prefix:
  assumes "i < n" "j < n" "n \<le> length xs"
  shows "mset (take n (xs[i := xs ! j, j := xs ! i])) = mset (take n xs)"
    "drop n (xs[i := xs ! j, j := xs ! i]) = drop n xs"
  using assms mset_swap [of j "take n xs" i] by (simp_all add: take_update_swap)

lemma fastMod_index:
  assumes "Suc i < 2 ^ 32"
  shows "unat (fastMod x (of_nat i + 1)) \<le> i"
proof -
  have u: "unat (of_nat (Suc i) :: u32) = Suc i" using assms by (intro unat_of_nat_small) simp
  then have "of_nat (Suc i) \<noteq> (0 :: u32)" by (metis unat_0 nat.distinct(1))
  from fastMod_less [OF this, of x] u show ?thesis by (simp add: add.commute)
qed

lemma take_Suc_drop: "Suc i \<le> length xs \<Longrightarrow> drop i ys = drop i xs \<Longrightarrow> length ys = length xs \<Longrightarrow>
    take (Suc i) ys = take i ys @ [xs ! i] \<and> drop (Suc i) ys = drop (Suc i) xs"
  by (simp add: take_Suc_conv_app_nth flip: nth_via_drop) (metis Cons_nth_drop_Suc Suc_le_eq list.inject)

lemma shuffle_eq:
  assumes "rand_ok RAND" "length (buf s) = 4" "Suc i \<le> length arr" "Suc i < 2 ^ 32"
  shows "\<exists>s' arr'. shuffle RAND i (s, arr) = Some (s', arr') \<and> length arr' = length arr \<and>
    mset (take (Suc i) arr') = mset (take (Suc i) arr) \<and> drop (Suc i) arr' = drop (Suc i) arr \<and>
    calls s' = calls s + i \<and> length (buf s') = 4"
  using assms(2-4)
proof (induction i arbitrary: s arr)
  case 0
  then show ?case by simp
next
  case (Suc i)
  let ?x = "be32 (RAND (calls s) (buf s))"
  let ?j = "unat (fastMod ?x (of_nat (Suc i) + 1))" and ?s = "\<lparr>calls = calls s + 1, buf = RAND (calls s) (buf s)\<rparr>"
  let ?arr = "arr[Suc i := arr ! ?j, ?j := arr ! Suc i]"
  have j: "?j \<le> Suc i" by (rule fastMod_index [OF Suc.prems(3)])
  then have sw: "swap_at arr (Suc i) ?j = Some ?arr" using Suc.prems(2) by (intro swap_at_eq) simp_all
  have m: "mset (take (Suc (Suc i)) ?arr) = mset (take (Suc (Suc i)) arr)" "drop (Suc (Suc i)) ?arr = drop (Suc (Suc i)) arr"
    using mset_swap_prefix [of "Suc i" "Suc (Suc i)" ?j arr] j Suc.prems(2) by simp_all
  have b: "length (buf ?s) = 4" using assms(1) Suc.prems(1) by (simp add: rand_ok_def)
  obtain s' arr' where r: "shuffle RAND i (?s, ?arr) = Some (s', arr')" "length arr' = length ?arr"
      "mset (take (Suc i) arr') = mset (take (Suc i) ?arr)" "drop (Suc i) arr' = drop (Suc i) ?arr"
      "calls s' = calls ?s + i" "length (buf s') = 4"
    using Suc.IH [of ?s ?arr] b Suc.prems(2,3) by auto
  have t: "take (Suc (Suc i)) arr' = take (Suc i) arr' @ [?arr ! Suc i]" "drop (Suc (Suc i)) arr' = drop (Suc (Suc i)) ?arr"
    using take_Suc_drop [of "Suc i" ?arr arr'] r(2,4) Suc.prems(2) by simp_all
  have "take (Suc (Suc i)) ?arr = take (Suc i) ?arr @ [?arr ! Suc i]"
    using Suc.prems(2) by (intro take_Suc_conv_app_nth) simp
  then have "mset (take (Suc (Suc i)) arr') = mset (take (Suc (Suc i)) arr)"
    unfolding m(1) [symmetric] t by (simp add: r(3))
  moreover have "shuffle RAND (Suc i) (s, arr) = Some (s', arr')"
    using sw r(1) by (simp add: getRandIntModN_eq [OF assms(1) Suc.prems(1)])
  ultimately show ?case using r t(2) m(2) by simp
qed


lemma shuffle_cong:
  assumes "\<forall>n \<ge> calls s. RAND n = RAND' n"
  shows "shuffle RAND i (s, arr) = shuffle RAND' i (s, arr)"
  using assms
proof (induction i arbitrary: s arr)
  case (Suc i)
  have g: "getRandIntModN RAND N s = getRandIntModN RAND' N s" for N
    using Suc.prems by (simp add: getRandIntModN_def)
  have c: "calls s' = calls s + 1" if "getRandIntModN RAND' N s = Some (j, s')" for N j s'
    using that by (auto simp: getRandIntModN_def Let_def bind_eq_Some_conv)
  show ?case
    unfolding shuffle.simps g
    using Suc.IH Suc.prems c by (fastforce intro!: Option.bind_cong)
qed simp

text \<open>Every arrangement of the prefix comes out for some randomness.\<close>

lemma shuffle_onto:
  assumes "Suc i \<le> length arr" "Suc i < 2 ^ 32" "mset t = mset (take (Suc i) arr)"
  shows "\<exists>RAND. rand_ok RAND \<and> (\<forall>s. calls s = c \<longrightarrow> length (buf s) = 4 \<longrightarrow>
    (\<exists>s'. shuffle RAND i (s, arr) = Some (s', t @ drop (Suc i) arr)))"
  using assms
proof (induction i arbitrary: arr t c)
  case 0
  have "t = take 1 arr" using 0(1,3) by (cases arr) (auto simp: mset_single_iff)
  then show ?case by (intro exI [of _ "\<lambda>n b. b"]) (simp add: rand_ok_def)
next
  case (Suc i)
  have lt: "length t = Suc (Suc i)" using Suc.prems(1) arg_cong [OF Suc.prems(3), of size] by simp
  then have t: "t = take (Suc i) t @ [t ! Suc i]" by (metis lessI order_refl take_Suc_conv_app_nth take_all)
  have "t ! Suc i \<in> set (take (Suc (Suc i)) arr)"
    using Suc.prems(3) lt by (metis lessI mset_eq_setD nth_mem)
  then obtain j where j: "j < Suc (Suc i)" "arr ! j = t ! Suc i"
    using Suc.prems(1) by (auto simp: in_set_conv_nth)
  have "of_nat (Suc i) + 1 = (of_nat (Suc (Suc i)) :: u32)" by simp
  then have u: "unat (of_nat (Suc i) + 1 :: u32) = Suc (Suc i)"
    using unat_of_nat_small [of "Suc (Suc i)", where 'a = 32] Suc.prems(2) by (simp only: len_num0 len_bit0 len_num1) simp
  obtain x where x: "unat (fastMod x (of_nat (Suc i) + 1)) = j" using fastMod_onto [of j "of_nat (Suc i) + 1"] j(1) u by auto
  obtain b where b: "length b = 4" "be32 b = x" using be32_onto by blast
  let ?arr = "arr[Suc i := arr ! j, j := arr ! Suc i]"
  have m: "mset (take (Suc (Suc i)) ?arr) = mset (take (Suc (Suc i)) arr)" "drop (Suc (Suc i)) ?arr = drop (Suc (Suc i)) arr"
    using mset_swap_prefix [of "Suc i" "Suc (Suc i)" j arr] j(1) Suc.prems(1) by simp_all
  have e: "take (Suc (Suc i)) ?arr = take (Suc i) ?arr @ [?arr ! Suc i]"
    using Suc.prems(1) by (intro take_Suc_conv_app_nth) simp
  have l: "?arr ! Suc i = t ! Suc i" using Suc.prems(1) j by (cases "j = Suc i") simp_all
  have "mset (take (Suc i) t) = mset (take (Suc i) ?arr)"
    using arg_cong [OF t, of mset] arg_cong [OF e, of mset] m(1) Suc.prems(3) l by simp
  then obtain R where R: "rand_ok R" "\<forall>s. calls s = c + 1 \<longrightarrow> length (buf s) = 4 \<longrightarrow>
      (\<exists>s'. shuffle R i (s, ?arr) = Some (s', take (Suc i) t @ drop (Suc i) ?arr))"
    using Suc.IH [of ?arr "take (Suc i) t" "c + 1"] Suc.prems(1,2) by auto
  let ?R = "R(c := \<lambda>_. b)"
  have ok: "rand_ok ?R" using R(1) b(1) by (simp add: rand_ok_def)
  have d: "take (Suc i) t @ drop (Suc i) ?arr = t @ drop (Suc (Suc i)) arr"
    using Suc.prems(1) l m(2) t by (metis Cons_nth_drop_Suc Suc_le_lessD append.assoc append_Cons append_Nil length_list_update)
  have "\<exists>s'. shuffle ?R (Suc i) (s, arr) = Some (s', t @ drop (Suc (Suc i)) arr)"
    if s: "calls s = c" "length (buf s) = 4" for s
  proof -
    let ?s = "\<lparr>calls = c + 1, buf = b\<rparr>"
    have "getRandIntModN ?R (of_nat (Suc i) + 1) s = Some (fastMod x (of_nat (Suc i) + 1), ?s)"
      using getRandIntModN_eq [OF ok s(2)] s(1) b(2) by simp
    moreover have "swap_at arr (Suc i) j = Some ?arr" using j(1) Suc.prems(1) by (intro swap_at_eq) simp_all
    moreover have "shuffle ?R i (?s, ?arr) = shuffle R i (?s, ?arr)" by (rule shuffle_cong) simp
    moreover obtain s' where "shuffle R i (?s, ?arr) = Some (s', take (Suc i) t @ drop (Suc i) ?arr)"
      using R(2) b(1) by (metis rng.select_convs)
    ultimately show ?thesis by (simp add: x d del: of_nat_Suc)
  qed
  with ok show ?case by blast
qed


section \<open>Permutations of an initial segment\<close>

definition is_perm :: "u32 list \<Rightarrow> bool" where
  "is_perm p \<longleftrightarrow> distinct p \<and> (\<forall>x \<in> set p. unat x < length p)"

definition ident :: "nat \<Rightarrow> u32 list" where
  "ident n = map of_nat [0..<n]"

lemma length_ident [simp]: "length (ident n) = n"
  by (simp add: ident_def)

lemma unat_ident: "x \<in> set (ident n) \<Longrightarrow> n \<le> 2 ^ 32 \<Longrightarrow> unat x < n"
  by (auto simp: ident_def unat_of_nat_small)

lemma unat_of_nat_u32: "n < 2 ^ 32 \<Longrightarrow> unat (of_nat n :: u32) = n"
  by (rule unat_of_nat_small) simp

lemma of_nat_u32_eq: "x < 2 ^ 32 \<Longrightarrow> y < 2 ^ 32 \<Longrightarrow> (of_nat x :: u32) = of_nat y \<longleftrightarrow> x = y"
  by (metis unat_of_nat_u32)

lemma distinct_ident: "n \<le> 2 ^ 32 \<Longrightarrow> distinct (ident n)"
  unfolding ident_def distinct_map
  by (auto intro!: inj_onI simp: of_nat_u32_eq)

lemma mset_ident_perm:
  assumes "mset p = mset (ident n)" "n \<le> 2 ^ 32"
  shows "is_perm p" "length p = n"
proof -
  show l: "length p = n" using arg_cong [OF assms(1), of size] by simp
  show "is_perm p"
    unfolding is_perm_def l using assms distinct_ident [OF assms(2)] unat_ident [OF _ assms(2)]
    by (metis mset_eq_imp_distinct_iff mset_eq_setD)
qed

lemma is_perm_onto:
  assumes "is_perm p" "v < length p" "length p \<le> 2 ^ 32"
  shows "\<exists>i < length p. unat (p ! i) = v"
proof -
  have "inj_on unat (set p)" by (rule inj_onI) (rule unsigned_word_eqI)
  then have "card (unat ` set p) = length p"
    using assms(1) by (simp add: card_image is_perm_def distinct_card)
  moreover have "unat ` set p \<subseteq> {..<length p}" using assms(1) by (auto simp: is_perm_def)
  ultimately have "unat ` set p = {..<length p}" by (intro card_subset_eq) simp_all
  then have "v \<in> unat ` set p" using assms(2) by simp
  then show ?thesis by (auto simp: in_set_conv_nth)
qed

lemma invert_permutation_eq:
  assumes p: "is_perm p" "length p = unat n" and l: "unat n \<le> length tgt"
  shows "\<exists>q. invert_permutation (p @ rest) n tgt = Some (q @ drop (unat n) tgt) \<and> is_perm q \<and> length q = unat n \<and>
    (\<forall>i < unat n. q ! unat (p ! i) = of_nat i \<and> p ! unat (q ! i) = of_nat i)"
proof -
  let ?N = "unat n"
  have N: "?N < 2 ^ 32" by (rule u32_bound)
  have lt: "unat (p ! i) < ?N" if "i < ?N" for i using p that by (simp add: is_perm_def)
  have inj: "unat (p ! i) = unat (p ! j) \<longleftrightarrow> i = j" if "i < ?N" "j < ?N" for i j
    using p that by (metis is_perm_def nth_eq_iff_index_eq unsigned_word_eqI)
  define P where "P v r \<longleftrightarrow> length r = length tgt \<and> drop ?N r = drop ?N tgt \<and> (\<forall>i < v. r ! unat (p ! i) = of_nat i)"
    for v and r :: "u32 list"
  have "\<exists>r. invert_permutation (p @ rest) n tgt = Some r \<and> P ?N r"
    unfolding invert_permutation_def
  proof (rule for_range_inv)
    fix i r assume i: "i < ?N" and P: "P i r"
    have "rd (p @ rest) i = Some (p ! i)" using i p(2) by (simp add: rd_def nth_append)
    moreover have "wr r (unat (p ! i)) (of_nat i) = Some (r[unat (p ! i) := of_nat i])"
      using lt [OF i] l P by (simp add: wr_in P_def)
    moreover have "P (Suc i) (r[unat (p ! i) := of_nat i])"
      using P i lt [OF i] l inj by (auto simp: P_def nth_list_update less_Suc_eq)
    ultimately show "\<exists>t. (do { p \<leftarrow> rd (p @ rest) i; wr r (unat p) (of_nat i) }) = Some t \<and> P (Suc i) t" by simp
  qed (simp_all add: P_def)
  then obtain r where r: "invert_permutation (p @ rest) n tgt = Some r" "P ?N r" by blast
  define q where "q = take ?N r"
  have q: "length q = ?N" "r = q @ drop ?N tgt" using r(2) l by (auto simp: q_def P_def) (metis append_take_drop_id)
  have at: "q ! unat (p ! i) = of_nat i" if "i < ?N" for i
    using r(2) that lt [OF that] by (simp add: q_def P_def)
  have src: "\<exists>i < ?N. unat (p ! i) = k \<and> q ! k = of_nat i" if "k < ?N" for k
    using is_perm_onto [OF p(1), of k] that p(2) N at by auto
  have ret: "p ! unat (q ! k) = of_nat k" if k: "k < ?N" for k
  proof -
    obtain i where i: "i < ?N" "unat (p ! i) = k" "q ! k = of_nat i" using src [OF k] by blast
    then have "unat (q ! k) = i" using N by (simp add: unat_of_nat_u32)
    then show ?thesis by (simp flip: i(2))
  qed
  have "is_perm q"
    unfolding is_perm_def q(1)
  proof
    show "distinct q"
      unfolding distinct_conv_nth q(1)
    proof (intro allI impI notI)
      fix i j assume ij: "i < ?N" "j < ?N" "i \<noteq> j" "q ! i = q ! j"
      then have "(of_nat i :: u32) = of_nat j" using ret [of i] ret [of j] by simp
      then show False using ij N by (simp add: of_nat_u32_eq)
    qed
    show "\<forall>x \<in> set q. unat x < ?N"
    proof
      fix x assume "x \<in> set q"
      then obtain k where "k < ?N" "q ! k = x" using q(1) by (auto simp: in_set_conv_nth)
      with src obtain i where "i < ?N" "x = of_nat i" by blast
      then show "unat x < ?N" using N by (simp add: unat_of_nat_u32)
    qed
  qed
  with r(1) q at ret show ?thesis by blast
qed


lemma init_loop:
  assumes "n \<le> length arr"
  shows "for_range 0 n (\<lambda>i range_arr. wr range_arr i (of_nat i)) arr = Some (ident n @ drop n arr)"
proof -
  have "for_range 0 n (\<lambda>i range_arr. wr range_arr i (of_nat i)) (filled of_nat arr 0) = Some (filled of_nat arr n)"
    by (rule for_range_state) (use assms in \<open>simp_all add: wr_filled\<close>)
  then show ?thesis by (simp add: filled_0 ident_def) (simp add: filled_def)
qed

lemma permute_eq:
  assumes "rand_ok RAND" "length (buf s) = 4" "n \<noteq> 0" "unat n \<le> length arr"
  shows "\<exists>s' p. permute RAND seed n arr s = Some (s', p @ drop (unat n) arr) \<and> is_perm p \<and> length p = unat n \<and>
    calls s' = calls s + (unat n - 1) \<and> length (buf s') = 4"
proof -
  let ?arr = "ident (unat n) @ drop (unat n) arr"
  have n: "Suc (unat (n - 1)) = unat n" using assms(3) by (simp add: unat_minus_one) (simp add: unat_gt_0)
  have b: "Suc (unat (n - 1)) \<le> length ?arr" "Suc (unat (n - 1)) < 2 ^ 32"
    unfolding n using u32_bound [of n] by simp_all
  obtain s' arr' where r: "shuffle RAND (unat (n - 1)) (s, ?arr) = Some (s', arr')" "length arr' = length ?arr"
      "mset (take (unat n) arr') = mset (take (unat n) ?arr)" "drop (unat n) arr' = drop (unat n) ?arr"
      "calls s' = calls s + unat (n - 1)" "length (buf s') = 4"
    using shuffle_eq [OF assms(1,2) b] unfolding n by blast
  have m: "mset (take (unat n) arr') = mset (ident (unat n))" using r(3) by simp
  have "arr' = take (unat n) arr' @ drop (unat n) arr" using r(4) by simp (metis append_take_drop_id)
  moreover have "permute RAND seed n arr s = Some (s', arr')"
    by (simp add: permute_def init_loop [OF assms(4)] r(1))
  moreover have "is_perm (take (unat n) arr')" "length (take (unat n) arr') = unat n"
    using mset_ident_perm [OF m] u32_bound [of n] by simp_all
  moreover have "unat (n - 1) = unat n - 1" using n by linarith
  ultimately show ?thesis using r(5,6) by metis
qed

section \<open>Properties\<close>

text \<open>C16: \<open>permute\<close> fills the array with a permutation of \<open>0 .. range - 1\<close>, whatever the random bytes are
  and whatever the array held; it draws \<open>range - 1\<close> random numbers and leaves the rest of the array.\<close>

theorem permute_permutes:
  assumes "rand_ok RAND" "length (buf s) = 4" "n \<noteq> 0" "unat n \<le> length arr"
  shows "\<exists>s' p. permute RAND seed n arr s = Some (s', p @ drop (unat n) arr) \<and> length p = unat n \<and>
    distinct p \<and> (\<forall>x \<in> set p. x < n) \<and> calls s' = calls s + (unat n - 1) \<and> length (buf s') = 4"
  using permute_eq [OF assms, of seed] by (auto simp: is_perm_def word_less_nat_alt)

theorem permute_permutes_witness:
  "\<exists>s' p. permute (\<lambda>n b. [200, 1, 2, 3]) 7 5 [9, 9, 9, 9, 9, 42] \<lparr>calls = 0, buf = [0, 0, 0, 0]\<rparr> = Some (s', p @ [42]) \<and>
     length p = 5 \<and> distinct p"
  using permute_permutes [of "\<lambda>n b. [200, 1, 2, 3]" "\<lparr>calls = 0, buf = [0, 0, 0, 0]\<rparr>" 5 "[9, 9, 9, 9, 9, 42]" 7]
  by (auto simp: rand_ok_def)

text \<open>C32: every permutation can come out: for each arrangement of \<open>0 .. range - 1\<close> there are random bytes
  that make \<open>permute\<close> write it.\<close>

theorem permute_onto:
  assumes "n \<noteq> 0" "unat n \<le> length arr" "mset t = mset (ident (unat n))"
  shows "\<exists>RAND. rand_ok RAND \<and> (\<forall>s. calls s = 0 \<longrightarrow> length (buf s) = 4 \<longrightarrow>
    (\<exists>s'. permute RAND seed n arr s = Some (s', t @ drop (unat n) arr)))"
proof -
  let ?arr = "ident (unat n) @ drop (unat n) arr"
  have n: "Suc (unat (n - 1)) = unat n" using assms(1) by (simp add: unat_minus_one) (simp add: unat_gt_0)
  have "Suc (unat (n - 1)) \<le> length ?arr" "Suc (unat (n - 1)) < 2 ^ 32" "mset t = mset (take (Suc (unat (n - 1))) ?arr)"
    unfolding n using u32_bound [of n] assms(3) by simp_all
  from shuffle_onto [OF this, of 0] show ?thesis
    unfolding n by (simp add: permute_def init_loop [OF assms(2)])
qed

theorem permute_onto_witness:
  "\<exists>RAND s'. permute RAND 0 3 [0, 0, 0] \<lparr>calls = 0, buf = [0, 0, 0, 0]\<rparr> = Some (s', [2, 0, 1])"
proof -
  have i: "ident 3 = [0, 1, 2]" by (simp add: ident_def upt_rec numeral_eq_Suc)
  have "mset [2, 0, 1] = mset (ident (unat (3 :: u32)))" unfolding i by (simp add: i)
  then obtain RAND where R: "\<forall>s. calls s = 0 \<longrightarrow> length (buf s) = 4 \<longrightarrow>
      (\<exists>s'. permute RAND 0 3 [0, 0, 0] s = Some (s', [2, 0, 1] @ drop (unat (3 :: u32)) [0, 0, 0]))"
    using permute_onto [of 3 "[0, 0, 0]" "[2, 0, 1]" 0] by auto
  from spec [OF this, of "\<lparr>calls = 0, buf = [0, 0, 0, 0]\<rparr>"] show ?thesis by auto
qed

text \<open>C22: \<open>invert_permutation\<close> is a two-sided inverse, itself a permutation, and inverting it again gives the
  permutation back.\<close>

theorem invert_permutation_inverse:
  assumes "distinct p" "\<forall>x \<in> set p. x < n" "length p = unat n" "unat n \<le> length inv_array" "unat n \<le> length inv2"
  shows "\<exists>q. invert_permutation p n inv_array = Some (q @ drop (unat n) inv_array) \<and> length q = unat n \<and>
    (\<forall>i < unat n. q ! unat (p ! i) = of_nat i \<and> p ! unat (q ! i) = of_nat i) \<and>
    invert_permutation q n inv2 = Some (p @ drop (unat n) inv2)"
proof -
  have p: "is_perm p" using assms(1-3) by (auto simp: is_perm_def word_less_nat_alt)
  obtain q where q: "invert_permutation (p @ []) n inv_array = Some (q @ drop (unat n) inv_array)" "is_perm q" "length q = unat n"
      "\<forall>i < unat n. q ! unat (p ! i) = of_nat i \<and> p ! unat (q ! i) = of_nat i"
    using invert_permutation_eq [OF p assms(3,4)] by blast
  obtain r where r: "invert_permutation (q @ []) n inv2 = Some (r @ drop (unat n) inv2)" "length r = unat n"
      "\<forall>i < unat n. r ! unat (q ! i) = of_nat i \<and> q ! unat (r ! i) = of_nat i"
    using invert_permutation_eq [OF q(2,3) assms(5)] by blast
  have "r = p"
  proof (rule nth_equalityI)
    fix k assume "k < length r"
    then have k: "k < unat n" using r(2) by simp
    then have "unat (p ! k) < unat n" using p assms(3) by (simp add: is_perm_def)
    with r(3) have "r ! unat (q ! unat (p ! k)) = of_nat (unat (p ! k))" by blast
    with q(4) k show "r ! k = p ! k" using u32_bound [of n] by (simp add: unat_of_nat_u32)
  qed (simp add: r(2) assms(3))
  with q r(1) show ?thesis by auto
qed

theorem invert_permutation_inverse_witness:
  "\<exists>q. invert_permutation [2, 0, 1] 3 [9, 9, 9, 9] = Some (q @ [9]) \<and> invert_permutation q 3 [0, 0, 0] = Some [2, 0, 1]"
proof -
  have "\<forall>x \<in> set [2, 0, 1 :: u32]. x < 3" by (simp add: word_less_nat_alt)
  then show ?thesis
    using invert_permutation_inverse [of "[2, 0, 1]" 3 "[9, 9, 9, 9]" "[0, 0, 0]"] by auto
qed

text \<open>with \<open>range = 0\<close> the loop of \<open>permute\<close> starts at \<open>2 ^ 32 - 1\<close> and the first swap is out of bounds.\<close>

theorem permute_zero_undefined:
  assumes "length arr < 2 ^ 32"
  shows "permute RAND seed 0 arr s = None"
proof -
  have "unat (0 - 1 :: u32) = 2 ^ 32 - 1"
    unfolding diff_0 unsigned_minus_1_eq_mask mask_eq_exp_minus_1 by simp
  then obtain i where i: "unat (0 - 1 :: u32) = Suc i" "length arr \<le> Suc i" using assms by (cases "unat (0 - 1 :: u32)") auto
  then have "swap_at arr (Suc i) j = None" for j by (simp add: swap_at_def rd_out)
  then have "shuffle RAND (Suc i) (s, arr) = None" by (simp split: Option.bind_split)
  then show ?thesis by (simp add: permute_def i(1) [simplified])
qed

theorem permute_zero_undefined_witness:
  "permute (\<lambda>n b. [0, 0, 0, 0]) 1 0 [1, 2] \<lparr>calls = 0, buf = [0, 0, 0, 0]\<rparr> = None"
  using permute_zero_undefined [of "[1, 2]"] by simp

end
