(* ===== verification/Xor.thy ===== *)
theory Xor
  imports Prelude
begin

text \<open>
  \<open>psetggm/xor.cpp\<close>: the byte-wise XOR kernels. A pointer is a buffer with a byte offset; the
  file compiles to one of two builds, \<open>__AVX2__\<close> with 256-bit blocks and the other one with
  128-bit blocks. Where the two texts differ in the block width only, one definition takes the
  block type as an argument and the two builds are its instances.
\<close>

section \<open>The abstract operations\<close>

definition row :: "u8 list \<Rightarrow> nat \<Rightarrow> nat \<Rightarrow> u8 list" where
  "row m off n = take n (drop off m)"

definition xors :: "nat \<Rightarrow> u8 list list \<Rightarrow> u8 list" where
  "xors n rs = foldl (map2 (XOR)) (replicate n 0) rs"

definition xor_at :: "u8 list \<Rightarrow> nat \<Rightarrow> u8 list \<Rightarrow> u8 list" where
  "xor_at out off xs =
     map (\<lambda>k. if off \<le> k \<and> k < off + length xs then out ! k XOR xs ! (k - off) else out ! k)
       [0..<length out]"

lemma length_row [simp]: "off + n \<le> length m \<Longrightarrow> length (row m off n) = n"
  by (simp add: row_def)

lemma nth_row [simp]: "off + n \<le> length m \<Longrightarrow> k < n \<Longrightarrow> row m off n ! k = m ! (off + k)"
  by (simp add: row_def)

lemma row_row: "a + w \<le> n \<Longrightarrow> row (row m off n) a w = row m (off + a) w"
  by (simp add: row_def drop_take min_def add.commute)

lemma row_0 [simp]: "row m off 0 = []"
  by (simp add: row_def)

lemma length_xor_at [simp]: "length (xor_at out off xs) = length out"
  by (simp add: xor_at_def)

lemma nth_xor_at:
  "k < length out \<Longrightarrow> xor_at out off xs ! k =
     (if off \<le> k \<and> k < off + length xs then out ! k XOR xs ! (k - off) else out ! k)"
  by (simp add: xor_at_def)

lemma xor_at_Nil [simp]: "xor_at out off [] = out"
  by (rule nth_equalityI) (auto simp: nth_xor_at)

lemma xor_at_append:
  "xor_at out off (xs @ ys) = xor_at (xor_at out off xs) (off + length xs) ys"
proof (rule nth_equalityI)
  fix k assume "k < length (xor_at out off (xs @ ys))"
  then show "xor_at out off (xs @ ys) ! k = xor_at (xor_at out off xs) (off + length xs) ys ! k"
    by (auto simp: nth_xor_at nth_append less_diff_conv2)
qed simp

lemma xor_at_0:
  "length xs \<le> length out \<Longrightarrow>
   xor_at out 0 xs = map2 (XOR) (take (length xs) out) xs @ drop (length xs) out"
  by (rule nth_equalityI) (auto simp: nth_xor_at nth_append min_def)

lemma row_split: "a \<le> n \<Longrightarrow> off + n \<le> length m \<Longrightarrow> row m off n = row m off a @ row m (off + a) (n - a)"
  by (simp add: row_def take_add [symmetric] add.commute flip: drop_drop)

lemma length_xors [simp]: "\<forall>r \<in> set rs. length r = n \<Longrightarrow> length (xors n rs) = n"
  by (induction rs rule: rev_induct) (simp_all add: xors_def)

lemma xors_Nil [simp]: "xors n [] = replicate n 0"
  by (simp add: xors_def)

lemma xors_snoc [simp]: "xors n (rs @ [r]) = map2 (XOR) (xors n rs) r"
  by (simp add: xors_def)

lemma nth_xors_snoc:
  "\<forall>r \<in> set rs. length r = n \<Longrightarrow> length r = n \<Longrightarrow> k < n \<Longrightarrow>
   xors n (rs @ [r]) ! k = xors n rs ! k XOR r ! k"
  by simp

section \<open>Block kernels\<close>

definition xor_tail_bytes :: "u8 list \<Rightarrow> nat \<Rightarrow> u8 list \<Rightarrow> nat \<Rightarrow> nat \<Rightarrow> nat \<Rightarrow> u8 list option" where
  "xor_tail_bytes out o0 inp i0 start elem_size =
     for_range start elem_size (\<lambda>i out. do {
       x \<leftarrow> rd out (o0 + i);
       y \<leftarrow> rd inp (i0 + i);
       wr out (o0 + i) (x XOR y)
     }) out"

text \<open>One step of the vector loop: load both blocks, XOR, store.\<close>

definition xor_block :: "'v::len itself \<Rightarrow> u8 list \<Rightarrow> nat \<Rightarrow> u8 list \<Rightarrow> nat \<Rightarrow> u8 list option" where
  "xor_block t out o0 inp i0 = do {
     x \<leftarrow> (loadv out o0 :: 'v word option);
     e \<leftarrow> loadv inp i0;
     storev out o0 (x XOR e)
   }"

definition xor_blocks :: "'v::len itself \<Rightarrow> u8 list \<Rightarrow> nat \<Rightarrow> u8 list \<Rightarrow> nat \<Rightarrow> nat \<Rightarrow> u8 list option" where
  "xor_blocks t out o0 inp i0 n =
     (let w = LENGTH('v) div 8
      in for_int (n div w) (\<lambda>b out. xor_block t out (o0 + w * b) inp (i0 + w * b)) out)"

definition xor_into :: "'v::len itself \<Rightarrow> u8 list \<Rightarrow> nat \<Rightarrow> u8 list \<Rightarrow> nat \<Rightarrow> u32 \<Rightarrow> u8 list option" where
  "xor_into t out o0 inp i0 elem_size =
     (let w = LENGTH('v) div 8; n = unat elem_size; vec_bytes = n div w * w
      in do {
        out \<leftarrow> xor_blocks t out o0 inp i0 n;
        xor_tail_bytes out o0 inp i0 vec_bytes n
      })"

definition xor_into_avx2 :: "u8 list \<Rightarrow> nat \<Rightarrow> u8 list \<Rightarrow> nat \<Rightarrow> u32 \<Rightarrow> u8 list option" where
  "xor_into_avx2 = xor_into TYPE(256)"

definition xor_into_sse :: "u8 list \<Rightarrow> nat \<Rightarrow> u8 list \<Rightarrow> nat \<Rightarrow> u32 \<Rightarrow> u8 list option" where
  "xor_into_sse = xor_into TYPE(128)"

definition memset0 :: "u8 list \<Rightarrow> nat \<Rightarrow> u8 list option" where
  "memset0 out n = (if n \<le> length out then Some (replicate n 0 @ drop n out) else None)"

definition xor_all_rows :: "'v::len itself \<Rightarrow> u8 list \<Rightarrow> u32 \<Rightarrow> u32 \<Rightarrow> u8 list \<Rightarrow> u8 list option" where
  "xor_all_rows t db num_elems elem_size out =
     (let n = unat elem_size; w = LENGTH('v) div 8; vec_bytes = n div w * w
      in do {
        out \<leftarrow> memset0 out n;
        for_int (unat num_elems) (\<lambda>i out. do {
          out \<leftarrow> xor_blocks t out 0 db (i * n) n;
          xor_tail_bytes out 0 db (i * n) vec_bytes n
        }) out
      })"

definition xor_all_rows_avx2 :: "u8 list \<Rightarrow> u32 \<Rightarrow> u32 \<Rightarrow> u8 list \<Rightarrow> u8 list option" where
  "xor_all_rows_avx2 = xor_all_rows TYPE(256)"

definition xor_all_rows_sse :: "u8 list \<Rightarrow> u32 \<Rightarrow> u32 \<Rightarrow> u8 list \<Rightarrow> u8 list option" where
  "xor_all_rows_sse = xor_all_rows TYPE(128)"

section \<open>What the kernels compute\<close>

text \<open>The side conditions on the block type: whole bytes, and at least one.\<close>

definition block_type :: "'v::len itself \<Rightarrow> bool" where
  "block_type t \<longleftrightarrow> LENGTH('v) mod 8 = 0"

lemma block_type_256 [simp]: "block_type TYPE(256)"
  by (simp add: block_type_def)

lemma block_type_128 [simp]: "block_type TYPE(128)"
  by (simp add: block_type_def)

lemma block_bytes:
  assumes "block_type TYPE('v::len)"
  shows "LENGTH('v) div 8 * 8 = LENGTH('v)" and "0 < LENGTH('v) div 8"
proof -
  show *: "LENGTH('v) div 8 * 8 = LENGTH('v)"
    using assms by (simp add: block_type_def mod_eq_0_iff_dvd)
  have "0 < LENGTH('v)" by simp
  with * show "0 < LENGTH('v) div 8" by linarith
qed

lemma xor_block_eq [mem_simps]:
  assumes t: "block_type TYPE('v::len)" and w: "w = LENGTH('v) div 8"
    and o0: "o0 + w \<le> length out" and i0: "i0 + w \<le> length inp"
  shows "xor_block TYPE('v) out o0 inp i0 = Some (xor_at out o0 (row inp i0 w))"
proof -
  note b = block_bytes [OF t]
  have dvd: "8 dvd LENGTH('v)" by (subst b(1) [symmetric]) (rule dvd_triv_right)
  let ?x = "row out o0 w" and ?y = "row inp i0 w"
  have len: "length ?x = w" "length ?y = w" using o0 i0 by simp_all
  have "lanes (of_lanes ?x XOR of_lanes ?y :: 'v word) = map2 (XOR) ?x ?y"
    using b len w dvd by (simp add: lane_simps)
  then have "xor_block TYPE('v) out o0 inp i0 =
      Some (take o0 out @ map2 (XOR) ?x ?y @ drop (o0 + w) out)"
    using o0 i0 w by (simp add: xor_block_def mem_simps row_def)
  moreover have "take o0 out @ map2 (XOR) ?x ?y @ drop (o0 + w) out = xor_at out o0 ?y"
    using o0 i0 by (intro nth_equalityI) (auto simp: nth_xor_at nth_append)
  ultimately show ?thesis by simp
qed

lemma xor_blocks_eq [mem_simps]:
  assumes t: "block_type TYPE('v::len)" and v: "v = n div (LENGTH('v) div 8) * (LENGTH('v) div 8)"
    and n: "n < 2 ^ 32" and w4: "4 \<le> LENGTH('v) div 8"
    and o0: "o0 + v \<le> length out" and i0: "i0 + v \<le> length inp"
  shows "xor_blocks TYPE('v) out o0 inp i0 n = Some (xor_at out o0 (row inp i0 v))"
proof -
  define w where "w = LENGTH('v) div 8"
  let ?g = "\<lambda>b. xor_at out o0 (row inp i0 (w * b))"
  have wpos: "0 < w" using w4 by (simp add: w_def)
  have bound: "n div w < 2 ^ 31"
  proof -
    have "n div w \<le> n div 4" using w4 by (simp add: w_def div_le_mono2)
    also have "\<dots> < 2 ^ 31" using n by simp
    finally show ?thesis .
  qed
  have "for_int (n div w) (\<lambda>b out. xor_block TYPE('v) out (o0 + w * b) inp (i0 + w * b)) (?g 0) =
      Some (?g (n div w))"
  proof (rule for_int_state)
    fix b assume b: "b < n div w"
    have le: "w * b + w \<le> v"
    proof -
      have "w * Suc b \<le> w * (n div w)" using b by (intro mult_le_mono2) simp
      then show ?thesis by (simp add: v w_def mult.commute)
    qed
    have "xor_block TYPE('v) (?g b) (o0 + w * b) inp (i0 + w * b) =
        Some (xor_at (?g b) (o0 + w * b) (row inp (i0 + w * b) w))"
      using t le o0 i0 by (intro xor_block_eq) (simp_all add: w_def)
    moreover have "xor_at (?g b) (o0 + w * b) (row inp (i0 + w * b) w) = ?g (Suc b)"
      using le i0 row_split [of "w * b" "w * Suc b" i0 inp]
      by (simp add: xor_at_append algebra_simps)
    ultimately show "xor_block TYPE('v) (?g b) (o0 + w * b) inp (i0 + w * b) = Some (?g (Suc b))"
      by simp
  qed (rule bound)
  then show ?thesis
    by (simp add: xor_blocks_def Let_def v w_def mult.commute)
qed

lemma xor_tail_bytes_eq [mem_simps]:
  assumes "start \<le> n" and o0: "o0 + n \<le> length out" and i0: "i0 + n \<le> length inp"
  shows "xor_tail_bytes out o0 inp i0 start n =
    Some (xor_at out (o0 + start) (row inp (i0 + start) (n - start)))"
proof -
  let ?g = "\<lambda>i. xor_at out (o0 + start) (row inp (i0 + start) (i - start))"
  have "for_range start n (\<lambda>i out. do {
       x \<leftarrow> rd out (o0 + i);
       y \<leftarrow> rd inp (i0 + i);
       wr out (o0 + i) (x XOR y)
     }) (?g start) = Some (?g n)"
  proof (rule for_range_state)
    fix i assume i: "start \<le> i" "i < n"
    have "(?g i)[o0 + i := ?g i ! (o0 + i) XOR inp ! (i0 + i)] = ?g (Suc i)"
      by (rule nth_equalityI)
        (use i o0 i0 in \<open>auto simp: nth_xor_at nth_list_update intro!: arg_cong2 [where f = "(XOR)"]\<close>)
    with i o0 i0 show "do {
       x \<leftarrow> rd (?g i) (o0 + i);
       y \<leftarrow> rd inp (i0 + i);
       wr (?g i) (o0 + i) (x XOR y)
     } = Some (?g (Suc i))"
      by (simp add: mem_simps)
  qed (use assms in simp)
  then show ?thesis by (simp add: xor_tail_bytes_def)
qed

lemma xor_row_eq:
  assumes t: "block_type TYPE('v::len)" and w: "w = LENGTH('v) div 8" "4 \<le> w"
    and n: "n < 2 ^ 32" and o0: "o0 + n \<le> length out" and i0: "i0 + n \<le> length inp"
  shows "Option.bind (xor_blocks TYPE('v) out o0 inp i0 n)
      (\<lambda>out. xor_tail_bytes out o0 inp i0 (n div w * w) n) = Some (xor_at out o0 (row inp i0 n))"
proof -
  let ?v = "n div w * w"
  have v: "?v \<le> n" by simp
  have "xor_blocks TYPE('v) out o0 inp i0 n = Some (xor_at out o0 (row inp i0 ?v))"
  proof (rule xor_blocks_eq [OF t _ n])
    show "?v = n div (LENGTH('v) div 8) * (LENGTH('v) div 8)" and "4 \<le> LENGTH('v) div 8"
      using w by simp_all
    show "o0 + ?v \<le> length out" and "i0 + ?v \<le> length inp"
      using v o0 i0 by linarith+
  qed
  moreover have "xor_tail_bytes (xor_at out o0 (row inp i0 ?v)) o0 inp i0 ?v n =
      Some (xor_at (xor_at out o0 (row inp i0 ?v)) (o0 + ?v) (row inp (i0 + ?v) (n - ?v)))"
    using v o0 i0 by (intro xor_tail_bytes_eq) auto
  moreover have "length (row inp i0 ?v) = ?v"
    using v i0 by (intro length_row) linarith
  ultimately show ?thesis
    using row_split [OF v i0] by (simp add: xor_at_append del: length_row)
qed

lemma xor_into_eq:
  assumes t: "block_type TYPE('v::len)" "4 \<le> LENGTH('v) div 8"
    and "o0 + unat elem_size \<le> length out" and "i0 + unat elem_size \<le> length inp"
  shows "xor_into TYPE('v) out o0 inp i0 elem_size =
    Some (xor_at out o0 (row inp i0 (unat elem_size)))"
  unfolding xor_into_def Let_def
  by (rule xor_row_eq) (use assms u32_bound [of elem_size] in simp_all)

text \<open>The first \<open>i\<close> rows of a packed array of rows of \<open>n\<close> bytes.\<close>

definition rows_of :: "u8 list \<Rightarrow> nat \<Rightarrow> nat \<Rightarrow> u8 list list" where
  "rows_of db n c = map (\<lambda>i. row db (i * n) n) [0..<c]"

lemma rows_of_Suc [simp]: "rows_of db n (Suc c) = rows_of db n c @ [row db (c * n) n]"
  by (simp add: rows_of_def)

lemma rows_of_0 [simp]: "rows_of db n 0 = []"
  by (simp add: rows_of_def)

lemma length_rows_of [simp]: "length (rows_of db n c) = c"
  by (simp add: rows_of_def)

lemma row_end: "i < c \<Longrightarrow> c * n \<le> l \<Longrightarrow> i * n + n \<le> (l::nat)"
  using mult_le_mono1 [of "Suc i" c n] by simp

lemma rows_of_lengths: "c * n \<le> length db \<Longrightarrow> r \<in> set (rows_of db n c) \<Longrightarrow> length r = n"
  by (auto simp: rows_of_def row_end)

lemma length_xors_rows_of [simp]: "c * n \<le> length db \<Longrightarrow> length (xors n (rows_of db n c)) = n"
  by (rule length_xors) (blast dest: rows_of_lengths)

lemma xor_all_rows_eq:
  assumes t: "block_type TYPE('v::len)" "4 \<le> LENGTH('v) div 8"
    and c: "unat num_elems < 2 ^ 31" and out: "unat elem_size \<le> length out"
    and db: "unat num_elems * unat elem_size \<le> length db"
  shows "xor_all_rows TYPE('v) db num_elems elem_size out =
    Some (xors (unat elem_size) (rows_of db (unat elem_size) (unat num_elems)) @ drop (unat elem_size) out)"
proof -
  define n c' where "n = unat elem_size" and "c' = unat num_elems"
  let ?g = "\<lambda>i. xors n (rows_of db n i) @ drop n out"
  let ?f = "\<lambda>i out. do {
       out \<leftarrow> xor_blocks TYPE('v) out 0 db (i * n) n;
       xor_tail_bytes out 0 db (i * n) (n div (LENGTH('v) div 8) * (LENGTH('v) div 8)) n
     }"
  have step: "?f i (?g i) = Some (?g (Suc i))" if i: "i < c'" for i
  proof -
    have le: "i * n + n \<le> length db" "i * n \<le> length db"
      using row_end [OF i, of n "length db"] db by (simp_all add: c'_def n_def)
    have len: "length (xors n (rows_of db n i)) = n"
      using le(2) by simp
    have "?f i (?g i) = Some (xor_at (?g i) 0 (row db (i * n) n))"
      using t le len u32_bound [of elem_size] by (intro xor_row_eq) (simp_all add: n_def)
    also have "\<dots> = Some (?g (Suc i))"
      using le len by (simp add: xor_at_0)
    finally show ?thesis .
  qed
  have "for_int c' ?f (?g 0) = Some (?g c')"
    using c step by (intro for_int_state) (simp_all add: c'_def)
  then show ?thesis
    using out by (simp add: xor_all_rows_def Let_def memset0_def n_def c'_def)
qed

section \<open>Gathering rows: \<open>xor_rows\<close>\<close>

text \<open>
  The accumulators of the last \<open>block_len mod 32\<close> (or \<open>mod 16\<close>) bytes. The AVX2 text has all
  five, the other one leaves \<open>acc128\<close> out.
\<close>

record tail_acc =
  acc128 :: m128
  acc64 :: u64
  acc32 :: u32
  acc16 :: u16
  acc8 :: u8

definition tail_acc0 :: tail_acc where
  "tail_acc0 = \<lparr>acc128 = 0, acc64 = 0, acc32 = 0, acc16 = 0, acc8 = 0\<rparr>"

text \<open>\<open>if (use) acc ^= *(T *)(block + off)\<close> and \<open>if (use) *(T *)(out + off) = acc\<close>.\<close>

definition tail_load :: "bool \<Rightarrow> u8 list \<Rightarrow> nat \<Rightarrow> 'v::len word \<Rightarrow> 'v word option" where
  "tail_load use db off acc = (if use then map_option (\<lambda>e. acc XOR e) (loadv db off) else Some acc)"

definition tail_store :: "bool \<Rightarrow> u8 list \<Rightarrow> nat \<Rightarrow> 'v::len word \<Rightarrow> u8 list option" where
  "tail_store use out off acc = (if use then storev out off acc else Some out)"

text \<open>
  \<open>_mm_load_si128\<close> and the dereference of a \<open>__m128i *\<close> or \<open>__m256i *\<close> are aligned accesses: on
  an address that is not a multiple of the block size they are undefined (on x86 they fault).
  \<open>base\<close> is the address of \<open>db\<close>.
\<close>

definition load_aligned :: "nat \<Rightarrow> u8 list \<Rightarrow> nat \<Rightarrow> 'v::len word option" where
  "load_aligned base db off =
     (if (base + off) mod (LENGTH('v) div 8) = 0 then loadv db off else None)"

text \<open>The first loop, over whole vector blocks; it skips a row past \<open>db_len - block_len\<close>.\<close>

definition xor_rows_blocks :: "'v::len itself \<Rightarrow> u8 list \<Rightarrow> u32 \<Rightarrow> u64 list \<Rightarrow> u32 \<Rightarrow> u32 \<Rightarrow>
    u8 list \<Rightarrow> u8 list option" where
  "xor_rows_blocks t db db_len elems num_elems block_len out =
     for_int (unat num_elems) (\<lambda>i out. do {
       e \<leftarrow> rd elems i;
       (if ucast (db_len - block_len) < e then Some out
        else xor_blocks t out 0 db (unat e) (unat block_len))
     }) out"

text \<open>
  The second loop and the final stores, over the bytes the vector blocks leave. Only the AVX2
  text has the 128-bit accumulator: the other build is the instance with \<open>use128\<close> false.
\<close>

definition xor_rows_tail :: "bool \<Rightarrow> nat \<Rightarrow> nat \<Rightarrow> u8 list \<Rightarrow> u32 \<Rightarrow> u64 list \<Rightarrow> u32 \<Rightarrow> u32 \<Rightarrow>
    u8 list \<Rightarrow> u8 list option" where
  "xor_rows_tail use128 off128 base db db_len elems num_elems block_len out =
     (let use64 = block_len mod 16 \<ge> 8; use32 = block_len mod 8 \<ge> 4;
          use16 = block_len mod 4 \<ge> 2; use8 = block_len mod 2 \<ge> 1;
          off64 = unat (block_len - block_len mod 16); off32 = unat (block_len - block_len mod 8);
          off16 = unat (block_len - block_len mod 4); off8 = unat (block_len - 1)
      in do {
        a \<leftarrow> for_int (unat num_elems) (\<lambda>i a. do {
          e \<leftarrow> rd elems i;
          (if ucast db_len < e then Some a else do {
             a128 \<leftarrow> (if use128 then map_option (\<lambda>x. acc128 a XOR x)
                        (load_aligned base db (unat e + off128)) else Some (acc128 a));
             a64 \<leftarrow> tail_load use64 db (unat e + off64) (acc64 a);
             a32 \<leftarrow> tail_load use32 db (unat e + off32) (acc32 a);
             a16 \<leftarrow> tail_load use16 db (unat e + off16) (acc16 a);
             a8 \<leftarrow> tail_load use8 db (unat e + off8) (acc8 a);
             Some \<lparr>acc128 = a128, acc64 = a64, acc32 = a32, acc16 = a16, acc8 = a8\<rparr>
           })
        }) tail_acc0;
        out \<leftarrow> tail_store use128 out off128 (acc128 a);
        out \<leftarrow> tail_store use64 out off64 (acc64 a);
        out \<leftarrow> tail_store use32 out off32 (acc32 a);
        out \<leftarrow> tail_store use16 out off16 (acc16 a);
        tail_store use8 out off8 (acc8 a)
      })"

definition xor_rows_avx2 :: "nat \<Rightarrow> u8 list \<Rightarrow> u32 \<Rightarrow> u64 list \<Rightarrow> u32 \<Rightarrow> u32 \<Rightarrow> u8 list \<Rightarrow> u8 list option" where
  "xor_rows_avx2 base db db_len elems num_elems block_len out = do {
     out \<leftarrow> memset0 out (unat block_len);
     out \<leftarrow> xor_rows_blocks TYPE(256) db db_len elems num_elems block_len out;
     (if block_len mod 32 = 0 then Some out
      else xor_rows_tail (block_len mod 32 \<ge> 16) (unat (block_len - block_len mod 32)) base
        db db_len elems num_elems block_len out)
   }"

definition xor_rows_sse :: "u8 list \<Rightarrow> u32 \<Rightarrow> u64 list \<Rightarrow> u32 \<Rightarrow> u32 \<Rightarrow> u8 list \<Rightarrow> u8 list option" where
  "xor_rows_sse db db_len elems num_elems block_len out = do {
     out \<leftarrow> memset0 out (unat block_len);
     out \<leftarrow> xor_rows_blocks TYPE(128) db db_len elems num_elems block_len out;
     (if block_len mod 16 = 0 then Some out
      else xor_rows_tail False 0 0 db db_len elems num_elems block_len out)
   }"

section \<open>Single-pass hints: \<open>xor_single_pass\<close>\<close>

text \<open>\<open>inverse_perm[i] * elem_size\<close> is a product of two 32-bit unsigned values and wraps.\<close>

definition xor_single_pass :: "'v::len itself \<Rightarrow> u8 list \<Rightarrow> nat \<Rightarrow> u32 list \<Rightarrow> nat \<Rightarrow> u32 \<Rightarrow> u8 list \<Rightarrow>
    u32 \<Rightarrow> u8 list option" where
  "xor_single_pass t db d0 inverse_perm p0 perm_size parities elem_size =
     (let n = unat elem_size; w = LENGTH('v) div 8; vec_bytes = n div w * w
      in for_int (unat perm_size) (\<lambda>i parities. do {
           p \<leftarrow> rd inverse_perm (p0 + i);
           let curr_parity = unat (p * elem_size);
           parities \<leftarrow> xor_blocks t parities curr_parity db (d0 + i * n) n;
           xor_tail_bytes parities curr_parity db (d0 + i * n) vec_bytes n
         }) parities)"

definition xor_single_pass_avx2 :: "u8 list \<Rightarrow> nat \<Rightarrow> u32 list \<Rightarrow> nat \<Rightarrow> u32 \<Rightarrow> u8 list \<Rightarrow> u32 \<Rightarrow>
    u8 list option" where
  "xor_single_pass_avx2 = xor_single_pass TYPE(256)"

definition xor_single_pass_sse :: "u8 list \<Rightarrow> nat \<Rightarrow> u32 list \<Rightarrow> nat \<Rightarrow> u32 \<Rightarrow> u8 list \<Rightarrow> u32 \<Rightarrow>
    u8 list option" where
  "xor_single_pass_sse = xor_single_pass TYPE(128)"

section \<open>Selection by a bit vector: \<open>xor_hashes_by_bit_vector\<close>\<close>

text \<open>
  \<open>results[k][b] = results[k][1] ^ db[i]\<close> with \<open>b\<close> the selector bit: the slot 0 is a dump for
  the rows that are not selected, the slot 1 the accumulator. The table is a list of pairs.
\<close>

definition slot_step :: "bool \<Rightarrow> 'v::len word \<Rightarrow> 'v word \<times> 'v word \<Rightarrow> 'v word \<times> 'v word" where
  "slot_step sel x r = (if sel then (fst r, snd r XOR x) else (snd r XOR x, snd r))"

definition slot_update :: "('v::len word \<times> 'v word) list \<Rightarrow> nat \<Rightarrow> bool \<Rightarrow> 'v word option \<Rightarrow>
    ('v word \<times> 'v word) list option" where
  "slot_update rs k sel x = do { x \<leftarrow> x; r \<leftarrow> rd rs k; wr rs k (slot_step sel x r) }"

text \<open>
  The two loops over the rows: eight rows per selector byte (the source unrolls the inner loop),
  then the remaining ones. \<open>upd i sel\<close> is what the body does with row \<open>i\<close> and its selector bit.
\<close>

definition select_rows :: "(nat \<Rightarrow> bool \<Rightarrow> 's \<Rightarrow> 's option) \<Rightarrow> nat \<Rightarrow> u8 list \<Rightarrow> 's \<Rightarrow> 's option" where
  "select_rows upd rows indexing results =
     (let len_full_bytes = rows div 8 * 8
      in do {
        results \<leftarrow> for_range 0 (len_full_bytes div 8) (\<lambda>q results. do {
          tmp \<leftarrow> rd indexing q;
          for_range 0 8 (\<lambda>k. upd (8 * q + k) (bit tmp k)) results
        }) results;
        for_range len_full_bytes rows (\<lambda>i results. do {
          tmp \<leftarrow> rd indexing (i div 8);
          upd i (bit tmp (i mod 8)) results
        }) results
      })"

definition combine_slots :: "('v::len word \<times> 'v word) list \<Rightarrow> 'v word" where
  "combine_slots rs = foldl (\<lambda>r k. r XOR snd (rs ! k)) (snd (rs ! 0)) [1..<8]"

definition hashes_avx2_upd :: "nat \<Rightarrow> u8 list \<Rightarrow> nat \<Rightarrow> bool \<Rightarrow> (m256 \<times> m256) list \<Rightarrow>
    (m256 \<times> m256) list option" where
  "hashes_avx2_upd base db i sel results =
     slot_update results (i mod 8) sel (load_aligned base db (32 * i))"

definition hashes_sse_upd :: "nat \<Rightarrow> u8 list \<Rightarrow> nat \<Rightarrow> bool \<Rightarrow>
    (m128 \<times> m128) list \<times> (m128 \<times> m128) list \<Rightarrow> ((m128 \<times> m128) list \<times> (m128 \<times> m128) list) option" where
  "hashes_sse_upd base db i sel results = do {
     results_lo \<leftarrow> slot_update (fst results) (i mod 8) sel (load_aligned base db (16 * (2 * i)));
     results_hi \<leftarrow> slot_update (snd results) (i mod 8) sel (load_aligned base db (16 * (2 * i + 1)));
     Some (results_lo, results_hi)
   }"

definition xor_hashes_avx2 :: "nat \<Rightarrow> u8 list \<Rightarrow> u32 \<Rightarrow> u8 list \<Rightarrow> u8 list \<Rightarrow> u8 list option" where
  "xor_hashes_avx2 base db db_len indexing out = do {
     results \<leftarrow> select_rows (hashes_avx2_upd base db) (unat (db_len div 32)) indexing
       (replicate 8 (0, 0));
     storev out 0 (combine_slots results)
   }"

definition xor_hashes_sse :: "nat \<Rightarrow> u8 list \<Rightarrow> u32 \<Rightarrow> u8 list \<Rightarrow> u8 list \<Rightarrow> u8 list option" where
  "xor_hashes_sse base db db_len indexing out = do {
     results \<leftarrow> select_rows (hashes_sse_upd base db) (unat (db_len div 32)) indexing
       (replicate 8 (0, 0), replicate 8 (0, 0));
     out \<leftarrow> storev out 0 (combine_slots (fst results));
     storev out 16 (combine_slots (snd results))
   }"

subsection \<open>Selection is the XOR of the selected rows\<close>

definition selected :: "u8 list \<Rightarrow> nat \<Rightarrow> bool" where
  "selected indexing i \<longleftrightarrow> bit (indexing ! (i div 8)) (i mod 8)"

text \<open>An invariant of the row loop that \<open>upd\<close> advances holds at its end.\<close>

lemma select_rows_inv:
  assumes idx: "rows \<le> 8 * length indexing" and init: "I 0 s"
    and step: "\<And>i s. i < rows \<Longrightarrow> I i s \<Longrightarrow> \<exists>t. upd i (selected indexing i) s = Some t \<and> I (Suc i) t"
  shows "\<exists>t. select_rows upd rows indexing s = Some t \<and> I rows t"
proof -
  let ?full = "rows div 8 * 8"
  let ?outer = "\<lambda>q results. do {
       tmp \<leftarrow> rd indexing q;
       for_range 0 8 (\<lambda>k. upd (8 * q + k) (bit tmp k)) results
     }"
  have "\<exists>t. for_range 0 (?full div 8) ?outer s = Some t \<and> I (8 * (?full div 8)) t"
  proof (rule for_range_inv [where P = "\<lambda>q. I (8 * q)"])
    fix q s assume q: "q < ?full div 8" and I: "I (8 * q) s"
    have in_idx: "q < length indexing" and in_rows: "\<And>k. k < 8 \<Longrightarrow> 8 * q + k < rows"
      using q idx by auto
    have "\<exists>t. for_range 0 8 (\<lambda>k. upd (8 * q + k) (bit (indexing ! q) k)) s = Some t \<and> I (8 * q + 8) t"
    proof (rule for_range_inv [where P = "\<lambda>k. I (8 * q + k)"])
      fix k s assume k: "k < 8" and "I (8 * q + k) s"
      then show "\<exists>t. upd (8 * q + k) (bit (indexing ! q) k) s = Some t \<and> I (8 * q + Suc k) t"
        using step [of "8 * q + k" s] in_rows [OF k] by (simp add: selected_def)
    qed (use I in simp_all)
    then show "\<exists>t. ?outer q s = Some t \<and> I (8 * Suc q) t"
      using in_idx by (simp add: mem_simps add.commute)
  qed (use init in simp_all)
  then obtain t where t: "for_range 0 (?full div 8) ?outer s = Some t" "I ?full t"
    by (auto simp: mult.commute)
  have "\<exists>u. for_range ?full rows (\<lambda>i results. do {
          tmp \<leftarrow> rd indexing (i div 8);
          upd i (bit tmp (i mod 8)) results
        }) t = Some u \<and> I rows u"
  proof (rule for_range_inv)
    fix i s assume i: "i < rows" and "I i s"
    have "i div 8 < length indexing" using i idx by auto
    with step [OF i \<open>I i s\<close>]
    show "\<exists>t. do { tmp \<leftarrow> rd indexing (i div 8); upd i (bit tmp (i mod 8)) s } = Some t \<and> I (Suc i) t"
      by (simp add: mem_simps selected_def)
  qed (use t(2) in simp_all)
  with t(1) show ?thesis by (simp add: select_rows_def Let_def)
qed

lemma combine_slots_unfold:
  "combine_slots rs = snd (rs ! 0) XOR snd (rs ! 1) XOR snd (rs ! 2) XOR snd (rs ! 3) XOR
     snd (rs ! 4) XOR snd (rs ! 5) XOR snd (rs ! 6) XOR snd (rs ! 7)"
  by (simp add: combine_slots_def upt_rec numeral_eq_Suc ac_simps)

lemma combine_slots_update:
  assumes "length rs = 8" "k < 8"
  shows "combine_slots (rs[k := slot_step sel x (rs ! k)]) =
    combine_slots rs XOR (if sel then x else 0)"
proof -
  have "k \<in> {0, 1, 2, 3, 4, 5, 6, 7}" using assms(2) by auto
  then show ?thesis
    using assms(1) by (elim insertE emptyE) (simp_all add: combine_slots_unfold slot_step_def ac_simps)
qed

lemma slot_update_combine:
  assumes "length rs = 8" "k < 8"
  shows "\<exists>t. slot_update rs k sel (Some x) = Some t \<and> length t = 8 \<and>
    combine_slots t = combine_slots rs XOR (if sel then x else 0)"
  using assms combine_slots_update [OF assms] by (simp add: slot_update_def mem_simps)

primrec sel_xor :: "(nat \<Rightarrow> bool) \<Rightarrow> (nat \<Rightarrow> 'v::len word) \<Rightarrow> nat \<Rightarrow> 'v word" where
  "sel_xor sel blk 0 = 0"
| "sel_xor sel blk (Suc i) = sel_xor sel blk i XOR (if sel i then blk i else 0)"

lemma lanes_sel_xor:
  assumes w: "w * 8 = LENGTH('v::len)" and le: "\<And>i. i < n \<Longrightarrow> off i + w \<le> length db"
  shows "lanes (sel_xor sel (\<lambda>i. of_lanes (row db (off i) w) :: 'v word) n) =
    xors w (map (\<lambda>i. row db (off i) w) (filter sel [0..<n]))"
  using le
proof (induction n)
  case 0
  then show ?case using w by (simp add: lane_simps flip: w)
next
  case (Suc n)
  have dvd: "8 dvd LENGTH('v)" by (simp flip: w)
  have len: "length (row db (off n) w) = w" using Suc.prems [of n] by simp
  show ?case
  proof (cases "sel n")
    case True
    with Suc dvd len w show ?thesis by (simp add: lane_simps)
  next
    case False
    with Suc show ?thesis by simp
  qed
qed

lemma hashes_avx2_loop:
  assumes al: "base mod 32 = 0" and db: "rows * 32 \<le> length db" and idx: "rows \<le> 8 * length indexing"
  shows "\<exists>rs. select_rows (hashes_avx2_upd base db) rows indexing (replicate 8 (0, 0)) = Some rs \<and>
    length rs = 8 \<and>
    combine_slots rs = sel_xor (selected indexing) (\<lambda>i. of_lanes (row db (32 * i) 32)) rows"
proof (rule select_rows_inv [where I = "\<lambda>i rs. length rs = 8 \<and>
      combine_slots rs = sel_xor (selected indexing) (\<lambda>i. of_lanes (row db (32 * i) 32)) i"])
  show "length (replicate 8 (0, 0) :: (m256 \<times> m256) list) = 8 \<and>
      combine_slots (replicate 8 (0, 0) :: (m256 \<times> m256) list) = sel_xor (selected indexing) (\<lambda>i. of_lanes (row db (32 * i) 32)) 0"
    by (simp add: combine_slots_unfold numeral_eq_Suc)
next
  fix i and rs :: "(m256 \<times> m256) list"
  assume i: "i < rows" and I: "length rs = 8 \<and>
      combine_slots rs = sel_xor (selected indexing) (\<lambda>i. of_lanes (row db (32 * i) 32)) i"
  have "load_aligned base db (32 * i) = Some (of_lanes (row db (32 * i) 32) :: m256)"
    using al i db by (simp add: load_aligned_def loadv_def row_def mod_add_eq [symmetric])
  then show "\<exists>t. hashes_avx2_upd base db i (selected indexing i) rs = Some t \<and> length t = 8 \<and>
      combine_slots t = sel_xor (selected indexing) (\<lambda>i. of_lanes (row db (32 * i) 32)) (Suc i)"
    using I slot_update_combine [of rs "i mod 8"] by (simp add: hashes_avx2_upd_def)
qed (rule idx)

lemma hashes_sse_loop:
  assumes al: "base mod 16 = 0" and db: "rows * 32 \<le> length db" and idx: "rows \<le> 8 * length indexing"
  shows "\<exists>lo hi. select_rows (hashes_sse_upd base db) rows indexing
      (replicate 8 (0, 0), replicate 8 (0, 0)) = Some (lo, hi) \<and>
    combine_slots lo = sel_xor (selected indexing) (\<lambda>i. of_lanes (row db (32 * i) 16)) rows \<and>
    combine_slots hi = sel_xor (selected indexing) (\<lambda>i. of_lanes (row db (32 * i + 16) 16)) rows"
proof -
  define lo hi :: "nat \<Rightarrow> m128"
    where "lo = sel_xor (selected indexing) (\<lambda>i. of_lanes (row db (32 * i) 16))"
      and "hi = sel_xor (selected indexing) (\<lambda>i. of_lanes (row db (32 * i + 16) 16))"
  let ?I = "\<lambda>i (rs, rs'). length rs = 8 \<and> length rs' = 8 \<and> combine_slots rs = lo i \<and> combine_slots rs' = hi i"
  have "\<exists>t. select_rows (hashes_sse_upd base db) rows indexing
      (replicate 8 (0, 0), replicate 8 (0, 0)) = Some t \<and> ?I rows t"
  proof (rule select_rows_inv [where I = ?I])
    show "?I 0 (replicate 8 (0, 0), replicate 8 (0, 0))"
      by (simp add: combine_slots_unfold numeral_eq_Suc lo_def hi_def)
  next
    fix i and s :: "(m128 \<times> m128) list \<times> (m128 \<times> m128) list"
    assume i: "i < rows" and I: "?I i s"
    obtain rl rh where s: "s = (rl, rh)" by (cases s)
    let ?sel = "selected indexing i"
    have len: "length rl = 8" "length rh = 8" and k: "i mod 8 < 8" using I s by simp_all
    have ld: "load_aligned base db (16 * (2 * i)) = Some (of_lanes (row db (32 * i) 16) :: m128)"
      "load_aligned base db (16 * (2 * i + 1)) = Some (of_lanes (row db (32 * i + 16) 16) :: m128)"
      using al i db by (simp_all add: load_aligned_def loadv_def row_def mod_add_eq [symmetric] algebra_simps)
    obtain rl' where l: "slot_update rl (i mod 8) ?sel (Some (of_lanes (row db (32 * i) 16))) = Some rl'"
      "length rl' = 8" "combine_slots rl' = lo (Suc i)"
      using slot_update_combine [OF len(1) k, of ?sel "of_lanes (row db (32 * i) 16)"] I s
      by (auto simp: lo_def)
    obtain rh' where h: "slot_update rh (i mod 8) ?sel (Some (of_lanes (row db (32 * i + 16) 16))) = Some rh'"
      "length rh' = 8" "combine_slots rh' = hi (Suc i)"
      using slot_update_combine [OF len(2) k, of ?sel "of_lanes (row db (32 * i + 16) 16)"] I s
      by (auto simp: hi_def)
    have "hashes_sse_upd base db i ?sel s = Some (rl', rh')"
      unfolding hashes_sse_upd_def s ld using l(1) h(1) by simp
    then show "\<exists>t. hashes_sse_upd base db i ?sel s = Some t \<and> ?I (Suc i) t"
      using l h by simp
  qed (rule idx)
  then show ?thesis by (auto simp: lo_def hi_def)
qed

definition selected_rows :: "u8 list \<Rightarrow> nat \<Rightarrow> u8 list \<Rightarrow> u8 list list" where
  "selected_rows db rows indexing =
     map (\<lambda>i. row db (32 * i) 32) (filter (selected indexing) [0..<rows])"

lemma storev_0:
  "LENGTH('v) div 8 \<le> length m \<Longrightarrow> storev m 0 (v :: 'v::len word) = Some (lanes v @ drop (LENGTH('v) div 8) m)"
  by (simp add: storev_def)

lemma xor_hashes_avx2_eq:
  assumes "base mod 32 = 0" "unat db_len \<le> length db" "unat db_len div 32 \<le> 8 * length indexing"
    and "32 \<le> length out"
  shows "xor_hashes_avx2 base db db_len indexing out =
    Some (xors 32 (selected_rows db (unat db_len div 32) indexing) @ drop 32 out)"
proof -
  let ?rows = "unat db_len div 32"
  have rows: "?rows * 32 \<le> length db" using assms(2) by (simp add: le_trans [OF div_times_less_eq_dividend])
  obtain rs where "select_rows (hashes_avx2_upd base db) ?rows indexing (replicate 8 (0, 0)) = Some rs"
    and "combine_slots rs = sel_xor (selected indexing) (\<lambda>i. of_lanes (row db (32 * i) 32)) ?rows"
    using hashes_avx2_loop [OF assms(1) rows assms(3)] by blast
  moreover have "lanes (sel_xor (selected indexing) (\<lambda>i. of_lanes (row db (32 * i) 32) :: m256) ?rows) =
      xors 32 (selected_rows db ?rows indexing)"
    unfolding selected_rows_def by (rule lanes_sel_xor) (use rows in auto)
  ultimately show ?thesis
    using assms(4) by (simp add: xor_hashes_avx2_def unat_div storev_0)
qed

lemma xors_split:
  assumes "\<forall>r \<in> set rs. length r = a + b"
  shows "xors (a + b) rs = xors a (map (take a) rs) @ xors b (map (drop a) rs)"
  using assms
proof (induction rs rule: rev_induct)
  case Nil
  then show ?case by (simp add: replicate_add)
next
  case (snoc r rs)
  have "length (xors a (map (take a) rs)) = a"
    using snoc.prems by (intro length_xors) auto
  moreover have "r = take a r @ drop a r" by simp
  ultimately have "map2 (XOR) (xors a (map (take a) rs) @ xors b (map (drop a) rs)) r =
      map2 (XOR) (xors a (map (take a) rs)) (take a r) @ map2 (XOR) (xors b (map (drop a) rs)) (drop a r)"
    using snoc.prems by (subst \<open>r = _\<close>, subst zip_append) auto
  with snoc show ?case by simp
qed

lemma xor_hashes_sse_eq:
  assumes "base mod 16 = 0" "unat db_len \<le> length db" "unat db_len div 32 \<le> 8 * length indexing"
    and "32 \<le> length out"
  shows "xor_hashes_sse base db db_len indexing out =
    Some (xors 32 (selected_rows db (unat db_len div 32) indexing) @ drop 32 out)"
proof -
  let ?rows = "unat db_len div 32"
  let ?lo = "sel_xor (selected indexing) (\<lambda>i. of_lanes (row db (32 * i) 16)) ?rows :: m128"
  let ?hi = "sel_xor (selected indexing) (\<lambda>i. of_lanes (row db (32 * i + 16) 16)) ?rows :: m128"
  have rows: "?rows * 32 \<le> length db" using assms(2) by (simp add: le_trans [OF div_times_less_eq_dividend])
  have in_db: "32 * i + 32 \<le> length db" if "i < ?rows" for i
    using row_end [OF that rows] by (simp add: mult.commute)
  obtain lo hi where *: "select_rows (hashes_sse_upd base db) ?rows indexing
        (replicate 8 (0, 0), replicate 8 (0, 0)) = Some (lo, hi)"
    "combine_slots lo = ?lo" "combine_slots hi = ?hi"
    using hashes_sse_loop [OF assms(1) rows assms(3)] by blast
  have lo: "lanes ?lo = xors 16 (map (\<lambda>i. row db (32 * i) 16) (filter (selected indexing) [0..<?rows]))"
    by (rule lanes_sel_xor) (use in_db in force)+
  have hi: "lanes ?hi = xors 16 (map (\<lambda>i. row db (32 * i + 16) 16) (filter (selected indexing) [0..<?rows]))"
    by (rule lanes_sel_xor) (use in_db in force)+
  have sel: "\<forall>r \<in> set (selected_rows db ?rows indexing). length r = 16 + 16"
    by (auto simp: selected_rows_def in_db)
  have "xors (16 + 16) (selected_rows db ?rows indexing) = lanes ?lo @ lanes ?hi"
    unfolding lo hi
    by (subst xors_split [OF sel]) (simp add: selected_rows_def o_def row_def drop_take add.commute)
  then show ?thesis
    using * assms(4) by (simp add: xor_hashes_sse_def unat_div storev_def)
qed

subsection \<open>Gathering is the XOR of the rows at the given offsets\<close>

lemma of_lanes_xor:
  assumes "length xs * 8 = LENGTH('v::len)" "length ys * 8 = LENGTH('v)"
  shows "(of_lanes xs XOR of_lanes ys :: 'v word) = of_lanes (map2 (XOR) xs (ys :: u8 list))"
proof (rule lanes_eqI)
  show "LENGTH(8) dvd LENGTH('v)" by (simp flip: assms(1))
  then show "lanes (of_lanes xs XOR of_lanes ys :: 'v word) =
      (lanes (of_lanes (map2 (XOR) xs ys) :: 'v word) :: u8 list)"
    using assms by (simp add: lane_simps)
qed

lemma row_map2: "row (map2 f xs ys) off w = map2 f (row xs off w) (row ys off w)"
  by (simp add: row_def take_map drop_map take_zip drop_zip)

text \<open>One accumulator over one row: it holds the bytes \<open>off ..< off + w\<close> of the running XOR.\<close>

definition acc_of :: "bool \<Rightarrow> u8 list \<Rightarrow> nat \<Rightarrow> 'v::len word" where
  "acc_of use g off = (if use then of_lanes (row g off (LENGTH('v) div 8)) else 0)"

lemma tail_load_eq:
  assumes t: "block_type TYPE('v::len)" and g: "length g = n" and db: "e + n \<le> length db"
    and off: "use \<Longrightarrow> off + LENGTH('v) div 8 \<le> n"
  shows "tail_load use db (e + off) (acc_of use g off :: 'v word) =
    Some (acc_of use (map2 (XOR) g (row db e n)) off)"
proof (cases use)
  case True
  let ?w = "LENGTH('v) div 8"
  have off: "off + ?w \<le> n" using assms(4) True .
  have "loadv db (e + off) = Some (of_lanes (row (row db e n) off ?w) :: 'v word)"
    using off db by (simp add: loadv_def row_row) (simp add: row_def)
  moreover have "length (row g off ?w) * 8 = LENGTH('v)" "length (row (row db e n) off ?w) * 8 = LENGTH('v)"
    using off g db block_bytes [OF t] by simp_all
  ultimately show ?thesis
    using True by (simp add: tail_load_def acc_of_def of_lanes_xor row_map2)
qed (simp add: tail_load_def acc_of_def)

text \<open>\<open>done_upto p\<close>: the first \<open>p\<close> bytes of \<open>out\<close> are final, and nothing past \<open>n\<close> changed.\<close>

definition done_upto :: "u8 list \<Rightarrow> u8 list \<Rightarrow> nat \<Rightarrow> u8 list \<Rightarrow> bool" where
  "done_upto g rest p out \<longleftrightarrow>
     length out = length g + length rest \<and> take p out = take p g \<and> drop (length g) out = rest"

lemma tail_store_done:
  assumes d: "done_upto g rest p out" and t: "block_type TYPE('v::len)"
    and q: "q = p + (if use then LENGTH('v) div 8 else 0)" and "q \<le> length g" and "use \<Longrightarrow> off = p"
  shows "\<exists>out'. tail_store use out off (acc_of use g off :: 'v word) = Some out' \<and> done_upto g rest q out'"
proof (cases use)
  case True
  let ?w = "LENGTH('v) div 8"
  have q: "q = p + ?w" and off: "off = p" and le: "p + ?w \<le> length g" using assms True by simp_all
  have "lanes (of_lanes (row g p ?w) :: 'v word) = row g p ?w"
    using le block_bytes [OF t] by simp
  moreover have "take (p + ?w) g = take p g @ row g p ?w" by (simp add: row_def take_add)
  ultimately show ?thesis
    using d True le by (simp add: tail_store_def acc_of_def storev_def done_upto_def q off)
qed (use assms in \<open>simp add: tail_store_def\<close>)

lemma done_upto_end: "done_upto g rest (length g) out \<Longrightarrow> out = g @ rest"
  by (metis append_take_drop_id done_upto_def order_refl take_all)

text \<open>The rows that \<open>xor_rows\<close> sums: those that lie inside the database.\<close>

definition gathered :: "u8 list \<Rightarrow> nat \<Rightarrow> nat \<Rightarrow> u64 list \<Rightarrow> u8 list list" where
  "gathered db db_len n elems =
     map (\<lambda>e. row db (unat e) n) (filter (\<lambda>e. unat e + n \<le> db_len) elems)"

text \<open>
  An offset is clear when its row lies in the database or starts past the end: the two guards
  of the code agree on it. In between the two loops disagree.
\<close>

definition clear_offset :: "nat \<Rightarrow> nat \<Rightarrow> u64 \<Rightarrow> bool" where
  "clear_offset db_len n e \<longleftrightarrow> unat e + n \<le> db_len \<or> db_len < unat e"

lemma gathered_length [simp]:
  "db_len \<le> length db \<Longrightarrow> length (xors n (gathered db db_len n elems)) = n"
  by (rule length_xors) (auto simp: gathered_def)

lemma gathered_snoc:
  "gathered db db_len n (es @ [e]) =
     gathered db db_len n es @ (if unat e + n \<le> db_len then [row db (unat e) n] else [])"
  by (simp add: gathered_def)

lemma guard_blocks:
  "unat block_len \<le> unat db_len \<Longrightarrow>
   ucast (db_len - block_len :: u32) < (e :: u64) \<longleftrightarrow> \<not> unat e + unat block_len \<le> unat db_len"
  by (auto simp: word_less_nat_alt unat_sub word_le_nat_alt)

lemma guard_tail: "ucast (db_len :: u32) < (e :: u64) \<longleftrightarrow> unat db_len < unat e"
  by (simp add: word_less_nat_alt)

lemma xor_rows_blocks_eq:
  assumes t: "block_type TYPE('v::len)" "4 \<le> LENGTH('v) div 8"
    and v: "v = n div (LENGTH('v) div 8) * (LENGTH('v) div 8)" and n: "n = unat block_len"
    and le: "n \<le> unat db_len" "unat db_len \<le> length db" and out: "n \<le> length out"
    and c: "unat num_elems < 2 ^ 31" "unat num_elems \<le> length elems"
  shows "xor_rows_blocks TYPE('v) db db_len elems num_elems block_len (replicate n 0 @ drop n out) =
    Some (take v (xors n (gathered db (unat db_len) n (take (unat num_elems) elems))) @
      replicate (n - v) 0 @ drop n out)"
proof -
  let ?X = "\<lambda>i. xors n (gathered db (unat db_len) n (take i elems))"
  let ?g = "\<lambda>i. take v (?X i) @ replicate (n - v) 0 @ drop n out"
  let ?f = "\<lambda>i out. do {
       e \<leftarrow> rd elems i;
       (if ucast (db_len - block_len) < e then Some out
        else xor_blocks TYPE('v) out 0 db (unat e) (unat block_len))
     }"
  have vn: "v \<le> n" by (simp add: v)
  have len: "length (?X i) = n" for i using le by simp
  have "?f i (?g i) = Some (?g (Suc i))" if i: "i < unat num_elems" for i
  proof -
    let ?e = "elems ! i"
    have i': "i < length elems" using i c by simp
    show ?thesis
    proof (cases "unat ?e + n \<le> unat db_len")
      case False
      then show ?thesis
        using i' le n by (simp add: mem_simps guard_blocks take_Suc_conv_app_nth gathered_snoc)
    next
      case True
      have b: "unat ?e + v \<le> length db" using True le vn by linarith
      have "xor_blocks TYPE('v) (?g i) 0 db (unat ?e) n = Some (xor_at (?g i) 0 (row db (unat ?e) v))"
        using t(1) v _ t(2)
      proof (rule xor_blocks_eq)
        show "n < 2 ^ 32" unfolding n by (rule u32_bound)
        show "0 + v \<le> length (?g i)" using len vn out by simp
      qed (rule b)
      also have "xor_at (?g i) 0 (row db (unat ?e) v) = ?g (Suc i)"
      proof -
        have r: "take v (row db (unat ?e) n) = row db (unat ?e) v"
          using vn by (simp add: row_def)
        have l: "length (row db (unat ?e) v) = v" using b by simp
        have g: "take v (?g i) = take v (?X i)" "drop v (?g i) = replicate (n - v) 0 @ drop n out"
          using len [of i] vn by simp_all
        have "xor_at (?g i) 0 (row db (unat ?e) v) =
            map2 (XOR) (take v (?X i)) (row db (unat ?e) v) @ replicate (n - v) 0 @ drop n out"
          using l len [of i] vn out by (subst xor_at_0) (simp_all only: l g, simp)
        also have "map2 (XOR) (take v (?X i)) (row db (unat ?e) v) = take v (?X (Suc i))"
          using i' True by (simp add: take_Suc_conv_app_nth gathered_snoc take_map take_zip r)
        finally show ?thesis .
      qed
      finally show ?thesis
        using True i' le n by (simp add: mem_simps guard_blocks)
    qed
  qed
  with c(1) have "for_int (unat num_elems) ?f (?g 0) = Some (?g (unat num_elems))"
    by (intro for_int_state)
  then show ?thesis
    using vn by (simp add: xor_rows_blocks_def gathered_def min_def replicate_split)
qed

lemma unat_sub_mod: "unat (b - b mod m :: u32) = unat b - unat b mod unat m"
proof -
  have "b mod m \<le> b" by (simp add: word_le_nat_alt unat_mod)
  then show ?thesis by (simp add: unat_sub unat_mod)
qed

lemma mod_ge: "b mod m \<ge> (k :: u32) \<longleftrightarrow> unat b mod unat m \<ge> unat k"
  by (simp add: word_le_nat_alt unat_mod)

lemma mod_eq_0: "(b :: u32) mod m = 0 \<longleftrightarrow> unat b mod unat m = 0"
  by (simp only: unat_mod [symmetric] unat_0_iff)

lemma unat_sub_1: "1 \<le> unat b \<Longrightarrow> unat (b - 1 :: u32) = unat b - 1"
  by (metis One_nat_def not_one_le_zero unat_minus_one unsigned_0)

lemmas unat_offsets = unat_sub_mod mod_ge mod_eq_0 unat_sub_1

text \<open>Rounding down to a multiple of \<open>d\<close>, from the multiple of \<open>2 d\<close> below.\<close>

lemma round_down_half:
  assumes "(0::nat) < d"
  shows "n - n mod d = n - n mod (d * 2) + (if n mod (d * 2) \<ge> d then d else 0)"
proof -
  have m: "n mod (d * 2) = d * (n div d mod 2) + n mod d" by (rule mod_mult2_eq)
  have r: "n mod d < d" using assms by simp
  have le: "n mod (d * 2) \<le> n" by simp
  have "n div d mod 2 = 0 \<or> n div d mod 2 = 1" by auto
  then show ?thesis
    using m r le by (elim disjE) simp_all
qed

lemmas tail_pieces =
  round_down_half [of 16, simplified] round_down_half [of 8, simplified]
  round_down_half [of 4, simplified] round_down_half [of 2, simplified]
  round_down_half [of 1, simplified, symmetric]

lemma acc_of_0 [simp]: "acc_of use (replicate n 0) off = 0"
  by (simp add: acc_of_def row_def)

lemma block_type_small [simp]:
  "block_type TYPE(64)" "block_type TYPE(32)" "block_type TYPE(16)" "block_type TYPE(8)"
  by (simp_all add: block_type_def)

lemma aligned_load_eq:
  assumes g: "length g = n" and db: "e + n \<le> length db"
    and off: "use \<Longrightarrow> off + LENGTH(128) div 8 \<le> n" and al: "use \<Longrightarrow> (base + (e + off)) mod 16 = 0"
  shows "(if use then map_option (\<lambda>x. acc_of use g off XOR x) (load_aligned base db (e + off))
      else Some (acc_of use g off)) = Some (acc_of use (map2 (XOR) g (row db e n)) off :: m128)"
  using tail_load_eq [of g n e db use off, where 'v = 128, OF block_type_128 g db off] al
  by (auto simp: tail_load_def load_aligned_def)

lemma xor_rows_tail_eq:
  fixes block_len db_len num_elems :: u32 and elems :: "u64 list" and db :: "u8 list"
  defines "n \<equiv> unat block_len" and "N \<equiv> unat num_elems"
  defines "G \<equiv> xors n (gathered db (unat db_len) n (take N elems))"
  assumes le: "unat db_len \<le> length db" and c: "N < 2 ^ 31" "N \<le> length elems"
    and clear: "\<forall>e \<in> set (take N elems). clear_offset (unat db_len) n e"
    and al: "use128 \<Longrightarrow> \<forall>e \<in> set (take N elems). unat e + n \<le> unat db_len \<longrightarrow> (base + (unat e + off128)) mod 16 = 0"
    and d: "done_upto G rest p out" and p: "n - n mod 16 = p + (if use128 then LENGTH(128) div 8 else 0)"
    and p128: "use128 \<Longrightarrow> off128 = p"
  shows "xor_rows_tail use128 off128 base db db_len elems num_elems block_len out = Some (G @ rest)"
proof -
  define X where "X i = xors n (gathered db (unat db_len) n (take i elems))" for i
  have lenX [simp]: "length (X i) = n" for i using le by (simp add: X_def)
  have G: "G = X N" by (simp add: G_def X_def)
  define use64 use32 use16 use8 where "use64 \<longleftrightarrow> block_len mod 16 \<ge> 8" and "use32 \<longleftrightarrow> block_len mod 8 \<ge> 4"
    and "use16 \<longleftrightarrow> block_len mod 4 \<ge> 2" and "use8 \<longleftrightarrow> block_len mod 2 \<ge> 1"
  define off64 off32 off16 off8 where "off64 = unat (block_len - block_len mod 16)"
    and "off32 = unat (block_len - block_len mod 8)" and "off16 = unat (block_len - block_len mod 4)"
    and "off8 = unat (block_len - 1)"
  have use: "use64 \<longleftrightarrow> n mod 16 \<ge> 8" "use32 \<longleftrightarrow> n mod 8 \<ge> 4" "use16 \<longleftrightarrow> n mod 4 \<ge> 2" "use8 \<longleftrightarrow> n mod 2 \<ge> 1"
    by (simp_all add: use64_def use32_def use16_def use8_def mod_ge n_def)
  have off: "off64 = n - n mod 16" "off32 = n - n mod 8" "off16 = n - n mod 4"
    by (simp_all add: off64_def off32_def off16_def unat_sub_mod n_def)
  have off8: "off8 = n - n mod 2" if use8
  proof -
    have "n mod 2 = 1" using that use by simp
    then have "1 \<le> n" by (cases n) auto
    with \<open>n mod 2 = 1\<close> show ?thesis by (simp add: off8_def n_def unat_sub_1)
  qed
  have piece8: "n - n mod 2 + (if use8 then LENGTH(8) div 8 else 0) = n"
    unfolding use using tail_pieces(5) [of n] by (simp split: if_splits)
  have pieces: "off64 = p + (if use128 then LENGTH(128) div 8 else 0)"
      "off32 = off64 + (if use64 then LENGTH(64) div 8 else 0)"
      "off16 = off32 + (if use32 then LENGTH(32) div 8 else 0)"
      "n - n mod 2 = off16 + (if use16 then LENGTH(16) div 8 else 0)"
    unfolding use off by (rule p, use tail_pieces(2) [of n] in simp,
      use tail_pieces(3) [of n] in simp, use tail_pieces(4) [of n] in simp)
  have le_G: "off64 \<le> length G" "off32 \<le> length G" "off16 \<le> length G" "n - n mod 2 \<le> length G" "n \<le> length G"
    by (simp_all add: off G)
  let ?acc = "\<lambda>g. \<lparr>acc128 = acc_of use128 g off128, acc64 = acc_of use64 g off64,
      acc32 = acc_of use32 g off32, acc16 = acc_of use16 g off16, acc8 = acc_of use8 g off8\<rparr>"
  let ?f = "\<lambda>i a. do {
        e \<leftarrow> rd elems i;
        (if ucast db_len < e then Some a else do {
           a128 \<leftarrow> (if use128 then map_option (\<lambda>x. acc128 a XOR x)
                      (load_aligned base db (unat e + off128)) else Some (acc128 a));
           a64 \<leftarrow> tail_load use64 db (unat e + off64) (acc64 a);
           a32 \<leftarrow> tail_load use32 db (unat e + off32) (acc32 a);
           a16 \<leftarrow> tail_load use16 db (unat e + off16) (acc16 a);
           a8 \<leftarrow> tail_load use8 db (unat e + off8) (acc8 a);
           Some \<lparr>acc128 = a128, acc64 = a64, acc32 = a32, acc16 = a16, acc8 = a8\<rparr>
         })
      }"
  have step: "?f i (?acc (X i)) = Some (?acc (X (Suc i)))" if i: "i < N" for i
  proof -
    let ?e = "elems ! i"
    have rd: "rd elems i = Some ?e" and i': "i < length elems" using i c by (simp_all add: rd_def)
    have mem: "?e \<in> set (take N elems)" using i i' by (auto simp: in_set_conv_nth)
    show ?thesis
    proof (cases "unat db_len < unat ?e")
      case True
      then show ?thesis
        using i' rd by (simp add: guard_tail X_def take_Suc_conv_app_nth gathered_snoc)
    next
      case False
      with clear mem have inside: "unat ?e + n \<le> unat db_len" by (auto simp: clear_offset_def)
      have b: "unat ?e + n \<le> length db" using inside le by linarith
      have X': "X (Suc i) = map2 (XOR) (X i) (row db (unat ?e) n)"
        using i' inside by (simp add: X_def take_Suc_conv_app_nth gathered_snoc)
      have w: "use128 \<Longrightarrow> off128 + LENGTH(128) div 8 \<le> n"
        "use64 \<Longrightarrow> off64 + LENGTH(64) div 8 \<le> n" "use32 \<Longrightarrow> off32 + LENGTH(32) div 8 \<le> n"
        "use16 \<Longrightarrow> off16 + LENGTH(16) div 8 \<le> n" "use8 \<Longrightarrow> off8 + LENGTH(8) div 8 \<le> n"
        using le_G [unfolded G lenX] p128 pieces piece8 off8 by simp_all
      have a: "use128 \<Longrightarrow> (base + (unat ?e + off128)) mod 16 = 0" using al mem inside by blast
      show ?thesis
        using False by (simp only: rd guard_tail bind.bind_lunit if_False tail_acc.simps X'
            aligned_load_eq [OF lenX b w(1) a] tail_load_eq [OF block_type_small(1) lenX b w(2)]
            tail_load_eq [OF block_type_small(2) lenX b w(3)] tail_load_eq [OF block_type_small(3) lenX b w(4)]
            tail_load_eq [OF block_type_small(4) lenX b w(5)])
    qed
  qed
  have "?acc (X 0) = tail_acc0" by (simp add: tail_acc0_def X_def gathered_def)
  with for_int_state [of N ?f "\<lambda>i. ?acc (X i)", OF c(1) step]
  have accs: "for_int N ?f tail_acc0 = Some (?acc G)" by (simp add: G)
  note store = tail_store_done [OF _ _ pieces(1) le_G(1)] tail_store_done [OF _ _ pieces(2) le_G(2)]
    tail_store_done [OF _ _ pieces(3) le_G(3)] tail_store_done [OF _ _ pieces(4) le_G(4)]
    tail_store_done [OF _ _ piece8 [symmetric] le_G(5)]
  obtain o0 where o0: "tail_store use128 out off128 (acc_of use128 G off128 :: m128) = Some o0"
    "done_upto G rest off64 o0"
    using store(1) [OF d, of off128] p128 by auto
  obtain o1 where o1: "tail_store use64 o0 off64 (acc_of use64 G off64 :: u64) = Some o1"
    "done_upto G rest off32 o1"
    using store(2) [OF o0(2), of off64] by auto
  obtain o2 where o2: "tail_store use32 o1 off32 (acc_of use32 G off32 :: u32) = Some o2"
    "done_upto G rest off16 o2"
    using store(3) [OF o1(2), of off32] by auto
  obtain o3 where o3: "tail_store use16 o2 off16 (acc_of use16 G off16 :: u16) = Some o3"
    "done_upto G rest (n - n mod 2) o3"
    using store(4) [OF o2(2), of off16] by auto
  obtain o4 where o4: "tail_store use8 o3 off8 (acc_of use8 G off8 :: u8) = Some o4"
    "done_upto G rest n o4"
    using store(5) [OF o3(2), of off8] off8 by auto
  have "o4 = G @ rest" using done_upto_end [of G rest o4] o4(2) by (simp add: G)
  then show ?thesis
    unfolding xor_rows_tail_def Let_def use64_def [symmetric] use32_def [symmetric] use16_def [symmetric]
      use8_def [symmetric] off64_def [symmetric] off32_def [symmetric] off16_def [symmetric] off8_def [symmetric]
    using accs o0(1) o1(1) o2(1) o3(1) o4(1) by (simp add: N_def [symmetric])
qed

text \<open>After the block loop, the bytes of the whole blocks are final.\<close>

lemma blocks_done:
  assumes "length G = n" "n \<le> length out" "v \<le> n"
  shows "done_upto G (drop n out) v (take v G @ replicate (n - v) 0 @ drop n out)"
  using assms by (simp add: done_upto_def)

lemma memset0_eq: "n \<le> length out \<Longrightarrow> memset0 out n = Some (replicate n 0 @ drop n out)"
  by (simp add: memset0_def)

lemma xor_rows_sse_eq:
  fixes block_len db_len num_elems :: u32 and elems :: "u64 list" and db :: "u8 list"
  defines "n \<equiv> unat block_len" and "N \<equiv> unat num_elems"
  assumes le: "n \<le> unat db_len" "unat db_len \<le> length db" and out: "n \<le> length out"
    and c: "N < 2 ^ 31" "N \<le> length elems"
    and clear: "\<forall>e \<in> set (take N elems). clear_offset (unat db_len) n e"
  shows "xor_rows_sse db db_len elems num_elems block_len out =
    Some (xors n (gathered db (unat db_len) n (take N elems)) @ drop n out)"
proof -
  let ?G = "xors n (gathered db (unat db_len) n (take N elems))" and ?v = "n - n mod 16"
  have v: "?v = n div (LENGTH(128) div 8) * (LENGTH(128) div 8)" by (simp add: minus_mod_eq_div_mult)
  have blocks: "xor_rows_blocks TYPE(128) db db_len elems num_elems block_len (replicate n 0 @ drop n out) =
      Some (take ?v ?G @ replicate (n - ?v) 0 @ drop n out)"
    unfolding v N_def by (rule xor_rows_blocks_eq) (use le out c in \<open>simp_all add: n_def N_def\<close>)
  have "done_upto ?G (drop n out) ?v (take ?v ?G @ replicate (n - ?v) 0 @ drop n out)"
    using le out by (intro blocks_done) simp_all
  then have "xor_rows_tail False 0 0 db db_len elems num_elems block_len
      (take ?v ?G @ replicate (n - ?v) 0 @ drop n out) = Some (?G @ drop n out)"
    unfolding n_def N_def
    by (intro xor_rows_tail_eq) (use le c clear in \<open>simp_all add: n_def N_def\<close>)
  then show ?thesis
    using blocks out le by (simp add: xor_rows_sse_def memset0_eq n_def [symmetric] mod_eq_0)
qed

lemma xor_rows_avx2_eq:
  fixes block_len db_len num_elems :: u32 and elems :: "u64 list" and db :: "u8 list"
  defines "n \<equiv> unat block_len" and "N \<equiv> unat num_elems"
  assumes le: "n \<le> unat db_len" "unat db_len \<le> length db" and out: "n \<le> length out"
    and c: "N < 2 ^ 31" "N \<le> length elems"
    and clear: "\<forall>e \<in> set (take N elems). clear_offset (unat db_len) n e"
    and al: "n mod 32 \<ge> 16 \<Longrightarrow> \<forall>e \<in> set (take N elems). unat e + n \<le> unat db_len \<longrightarrow>
      (base + (unat e + (n - n mod 32))) mod 16 = 0"
  shows "xor_rows_avx2 base db db_len elems num_elems block_len out =
    Some (xors n (gathered db (unat db_len) n (take N elems)) @ drop n out)"
proof -
  let ?G = "xors n (gathered db (unat db_len) n (take N elems))" and ?v = "n - n mod 32"
  have v: "?v = n div (LENGTH(256) div 8) * (LENGTH(256) div 8)" by (simp add: minus_mod_eq_div_mult)
  have blocks: "xor_rows_blocks TYPE(256) db db_len elems num_elems block_len (replicate n 0 @ drop n out) =
      Some (take ?v ?G @ replicate (n - ?v) 0 @ drop n out)"
    unfolding v N_def by (rule xor_rows_blocks_eq) (use le out c in \<open>simp_all add: n_def N_def\<close>)
  have "done_upto ?G (drop n out) ?v (take ?v ?G @ replicate (n - ?v) 0 @ drop n out)"
    using le out by (intro blocks_done) simp_all
  then have "xor_rows_tail (block_len mod 32 \<ge> 16) (unat (block_len - block_len mod 32)) base
      db db_len elems num_elems block_len
      (take ?v ?G @ replicate (n - ?v) 0 @ drop n out) = Some (?G @ drop n out)"
    unfolding n_def N_def using tail_pieces(1) [of n]
    by (intro xor_rows_tail_eq) (use le c clear al in \<open>simp_all add: n_def N_def unat_sub_mod mod_ge\<close>)
  then show ?thesis
    using blocks out le by (simp add: xor_rows_avx2_def memset0_eq n_def [symmetric] mod_eq_0)
qed

text \<open>
  An offset between the two guards: the block loop skips it, the tail loop reads the last bytes
  of its row past the end of the database.
\<close>

lemma tail_load_out:
  assumes "use" and "length db < off + LENGTH('v::len) div 8"
  shows "tail_load use db off (acc :: 'v word) = None"
  using assms by (simp add: tail_load_def loadv_def)

lemma last_piece:
  assumes "n mod 16 \<noteq> (0::nat)"
  obtains "n mod 2 \<ge> 1" | "n mod 2 = 0" "n mod 4 \<ge> 2" "n - n mod 4 + 2 = n"
    | "n mod 4 = 0" "n mod 8 \<ge> 4" "n - n mod 8 + 4 = n"
    | "n mod 8 = 0" "n mod 16 \<ge> 8" "n - n mod 16 + 8 = n"
proof -
  have half: "n mod d = 0 \<Longrightarrow> n mod (d * 2) = 0 \<or> n mod (d * 2) \<ge> d \<and> n - n mod (d * 2) + d = n"
    if "0 < d" for d
    using round_down_half [OF that, of n] mod_mult2_eq [of n d 2] by (auto split: if_splits)
  have h2: "n mod 2 = 0 \<Longrightarrow> n mod 4 = 0 \<or> n mod 4 \<ge> 2 \<and> n - n mod 4 + 2 = n" using half [of 2] by simp
  have h4: "n mod 4 = 0 \<Longrightarrow> n mod 8 = 0 \<or> n mod 8 \<ge> 4 \<and> n - n mod 8 + 4 = n" using half [of 4] by simp
  have h8: "n mod 8 = 0 \<Longrightarrow> n mod 16 = 0 \<or> n mod 16 \<ge> 8 \<and> n - n mod 16 + 8 = n" using half [of 8] by simp
  consider "n mod 2 \<noteq> 0" | "n mod 2 = 0" "n mod 4 \<noteq> 0" | "n mod 4 = 0" "n mod 8 \<noteq> 0" | "n mod 8 = 0"
    using h2 by blast
  then show thesis
  proof cases
    case 1
    then have "1 \<le> n mod 2" by linarith
    then show thesis by (rule that(1))
  next
    case 2
    with h2 show thesis by (metis that(2))
  next
    case 3
    with h4 show thesis by (metis that(3))
  next
    case 4
    with h8 assms show thesis by (metis that(4))
  qed
qed

lemma xor_rows_tail_gap:
  fixes block_len db_len num_elems :: u32 and elems :: "u64 list" and db :: "u8 list"
  defines "n \<equiv> unat block_len"
  assumes len: "unat db_len = length db" and n: "n mod 16 \<noteq> 0"
    and i: "i < unat num_elems" "i < length elems"
    and gap: "unat db_len < unat (elems ! i) + n" "unat (elems ! i) \<le> unat db_len"
  shows "xor_rows_tail use128 off128 base db db_len elems num_elems block_len out = None"
proof -
  define e where "e = unat (elems ! i)"
  have rd: "rd elems i = Some (elems ! i)" and past: "\<not> ucast db_len < elems ! i"
    using i gap by (simp_all add: rd_def guard_tail)
  have bad: "length db < e + n" using gap len by (simp add: e_def)
  define off64 off32 off16 off8 where "off64 = unat (block_len - block_len mod 16)"
    and "off32 = unat (block_len - block_len mod 8)" and "off16 = unat (block_len - block_len mod 4)"
    and "off8 = unat (block_len - 1)"
  have "(block_len mod 2 \<ge> 1 \<and> length db < e + off8 + 1) \<or>
    (block_len mod 4 \<ge> 2 \<and> length db < e + off16 + 2) \<or>
    (block_len mod 8 \<ge> 4 \<and> length db < e + off32 + 4) \<or>
    (block_len mod 16 \<ge> 8 \<and> length db < e + off64 + 8)"
  proof (cases rule: last_piece [OF n])
    case 1
    moreover from this have "1 \<le> n" by (cases n) auto
    ultimately have "block_len mod 2 \<ge> 1" "off8 + 1 = n"
      by (simp_all add: off8_def n_def unat_sub_1 mod_ge)
    with bad show ?thesis by simp
  next
    case 2
    then have "block_len mod 4 \<ge> 2" "off16 + 2 = n" by (simp_all add: off16_def n_def unat_sub_mod mod_ge)
    with bad show ?thesis by simp
  next
    case 3
    then have "block_len mod 8 \<ge> 4" "off32 + 4 = n" by (simp_all add: off32_def n_def unat_sub_mod mod_ge)
    with bad show ?thesis by simp
  next
    case 4
    then have "block_len mod 16 \<ge> 8" "off64 + 8 = n" by (simp_all add: off64_def n_def unat_sub_mod mod_ge)
    with bad show ?thesis by simp
  qed
  then have "(block_len mod 2 \<ge> 1 \<and> (\<forall>acc :: u8. tail_load (block_len mod 2 \<ge> 1) db (e + off8) acc = None)) \<or>
    (block_len mod 4 \<ge> 2 \<and> (\<forall>acc :: u16. tail_load (block_len mod 4 \<ge> 2) db (e + off16) acc = None)) \<or>
    (block_len mod 8 \<ge> 4 \<and> (\<forall>acc :: u32. tail_load (block_len mod 8 \<ge> 4) db (e + off32) acc = None)) \<or>
    (block_len mod 16 \<ge> 8 \<and> (\<forall>acc :: u64. tail_load (block_len mod 16 \<ge> 8) db (e + off64) acc = None))"
    by (elim disjE) (simp_all add: tail_load_out)
  then show ?thesis
    unfolding xor_rows_tail_def Let_def off64_def [symmetric] off32_def [symmetric] off16_def [symmetric]
      off8_def [symmetric]
    by (subst for_int_None [OF i(1)]) (auto simp: rd past e_def [symmetric] split: Option.bind_split)
qed

section \<open>The parities of \<open>xor_single_pass\<close>\<close>

text \<open>
  \<open>scatter\<close> is what \<open>xor_single_pass\<close> computes: row \<open>i\<close> is added to the parity \<open>ps ! i\<close>.
\<close>

definition scatter :: "nat \<Rightarrow> nat list \<Rightarrow> u8 list list \<Rightarrow> u8 list \<Rightarrow> u8 list" where
  "scatter n ps rs out = foldl (\<lambda>out (p, r). xor_at out (p * n) r) out (zip ps rs)"

lemma length_scatter [simp]: "length (scatter n ps rs out) = length out"
proof -
  have "length (foldl (\<lambda>out (p, r). xor_at out (p * n) r) out zs) = length out" for zs
    by (induction zs arbitrary: out) (auto split: prod.splits)
  then show ?thesis by (simp add: scatter_def)
qed

lemma scatter_Nil [simp]: "scatter n [] rs out = out" "scatter n ps [] out = out"
  by (simp_all add: scatter_def)

lemma scatter_snoc:
  "length ps = length rs \<Longrightarrow>
   scatter n (ps @ [p]) (rs @ [r]) out = xor_at (scatter n ps rs out) (p * n) r"
  by (simp add: scatter_def)

lemma row_xor_at:
  assumes "length r = n" "p * n + n \<le> length out" "q * n + n \<le> length out"
  shows "row (xor_at out (p * n) r) (q * n) n =
    (if p = q then map2 (XOR) (row out (q * n) n) r else row out (q * n) n)"
proof (rule nth_equalityI)
  fix k assume "k < length (row (xor_at out (p * n) r) (q * n) n)"
  then have k: "k < n" using assms by simp
  have "p = q" if "p * n \<le> q * n + k" "q * n + k < p * n + n"
  proof -
    have "p * n < Suc q * n" "q * n < Suc p * n" using that k by simp_all
    then show ?thesis using k by (simp only: mult_less_cancel2) simp
  qed
  then show "row (xor_at out (p * n) r) (q * n) n ! k =
      (if p = q then map2 (XOR) (row out (q * n) n) r else row out (q * n) n) ! k"
    using assms k by (auto simp: nth_xor_at)
qed (use assms in simp)

text \<open>A parity collects the rows sent to it, whatever the order.\<close>

definition sent_to :: "nat \<Rightarrow> nat list \<Rightarrow> 'a list \<Rightarrow> 'a list" where
  "sent_to q ps rs = map snd (filter (\<lambda>(p, r). p = q) (zip ps rs))"

lemma row_scatter:
  assumes "length ps = length rs" "\<forall>r \<in> set rs. length r = n" "\<forall>p \<in> set ps. p * n + n \<le> length out"
    and "q * n + n \<le> length out"
  shows "row (scatter n ps rs out) (q * n) n = map2 (XOR) (row out (q * n) n) (xors n (sent_to q ps rs))"
  using assms
proof (induction ps rs rule: rev_induct2)
  case 1
  then show ?case by (intro nth_equalityI) (simp_all add: sent_to_def)
next
  case (4 p ps r rs)
  have len: "length (xors n (sent_to q ps rs)) = n"
    using 4(2-) by (intro length_xors) (auto simp: sent_to_def dest: set_zip_rightD)
  have "row (scatter n (ps @ [p]) (rs @ [r]) out) (q * n) n =
      (if p = q then map2 (XOR) (row (scatter n ps rs out) (q * n) n) r else row (scatter n ps rs out) (q * n) n)"
    using 4(2-) by (simp add: scatter_snoc row_xor_at)
  also have "\<dots> = map2 (XOR) (row out (q * n) n) (xors n (sent_to q (ps @ [p]) (rs @ [r])))"
    using 4 len by (auto simp: sent_to_def intro!: nth_equalityI simp: ac_simps)
  finally show ?case .
qed simp_all

lemma sent_to_distinct:
  assumes "distinct ps" "length ps = length rs" "i < length ps"
  shows "sent_to (ps ! i) ps rs = [rs ! i]"
proof -
  have "filter (\<lambda>(p, r). p = ps ! i) (zip ps rs) = [(ps ! i, rs ! i)]"
    using assms
  proof (induction ps rs arbitrary: i rule: list_induct2')
    case (4 p ps r rs)
    then show ?case
    proof (cases i)
      case 0
      with 4 have "filter (\<lambda>(p', r). p' = p) (zip ps rs) = []" by (auto simp: filter_empty_conv dest: set_zip_leftD)
      with 0 show ?thesis by simp
    next
      case (Suc j)
      with 4 have "p \<noteq> ps ! j" by auto
      with Suc 4 show ?thesis by simp
    qed
  qed simp_all
  then show ?thesis by (simp add: sent_to_def)
qed

lemma xor_single_pass_eq:
  fixes elem_size perm_size :: u32 and inv :: "u32 list"
  defines "n \<equiv> unat elem_size" and "N \<equiv> unat perm_size"
  assumes t: "block_type TYPE('v::len)" "4 \<le> LENGTH('v) div 8" and N: "N < 2 ^ 31"
    and inv: "p0 + N \<le> length inv" and db: "d0 + N * n \<le> length db"
    and par: "\<forall>p \<in> set (take N (drop p0 inv)). unat p * n + n \<le> length parities \<and> unat p * n < 2 ^ 32"
  shows "xor_single_pass TYPE('v) db d0 inv p0 perm_size parities elem_size =
    Some (scatter n (map unat (take N (drop p0 inv))) (map (\<lambda>i. row db (d0 + i * n) n) [0..<N]) parities)"
proof -
  let ?ps = "\<lambda>i. map unat (take i (drop p0 inv))" and ?rs = "\<lambda>i. map (\<lambda>i. row db (d0 + i * n) n) [0..<i]"
  let ?g = "\<lambda>i. scatter n (?ps i) (?rs i) parities"
  let ?f = "\<lambda>i parities. do {
           p \<leftarrow> rd inv (p0 + i);
           let curr_parity = unat (p * elem_size);
           parities \<leftarrow> xor_blocks TYPE('v) parities curr_parity db (d0 + i * n) n;
           xor_tail_bytes parities curr_parity db (d0 + i * n) (n div (LENGTH('v) div 8) * (LENGTH('v) div 8)) n
         }"
  have step: "?f i (?g i) = Some (?g (Suc i))" if i: "i < N" for i
  proof -
    let ?p = "inv ! (p0 + i)"
    have "?p \<in> set (take N (drop p0 inv))"
      using i inv by (auto simp: in_set_conv_nth intro!: exI [of _ i])
    with par have p: "unat ?p * n + n \<le> length parities" "unat ?p * n < 2 ^ 32" by blast+
    then have off: "unat (?p * elem_size) = unat ?p * n"
      by (simp add: n_def unat_word_ariths)
    have d: "d0 + i * n + n \<le> length db" using row_end [OF i, of n "length db - d0"] db by linarith
    have ps: "?ps (Suc i) = ?ps i @ [unat ?p]"
      using i inv by (simp add: take_Suc_conv_app_nth)
    have rd: "rd inv (p0 + i) = Some ?p" using i inv by (intro rd_in) simp
    have len: "length (?ps i) = length (?rs i)" using i inv by simp
    have "?f i (?g i) = Some (xor_at (?g i) (unat ?p * n) (row db (d0 + i * n) n))"
      unfolding rd off bind.bind_lunit Let_def
      by (rule xor_row_eq [OF t(1) refl t(2)]) (use p d u32_bound [of elem_size] in \<open>simp_all add: n_def\<close>)
    also have "\<dots> = Some (?g (Suc i))"
      by (simp add: ps scatter_snoc [OF len, symmetric] del: upt_Suc map_append) simp
    finally show ?thesis .
  qed
  have "for_int N ?f (?g 0) = Some (?g N)" by (intro for_int_state N step)
  then show ?thesis
    by (simp add: xor_single_pass_def Let_def n_def N_def)
qed

lemma map2_zero:
  fixes xs :: "'a::len word list"
  assumes "length xs = n"
  shows "map2 (XOR) (replicate n 0) xs = xs" "map2 (XOR) xs (replicate n 0) = xs"
  using assms by (auto intro!: nth_equalityI)

section \<open>Properties\<close>

text \<open>C18: \<open>xor_rows\<close>. Both builds write the XOR of the rows at the given offsets, leaving out the
  rows that start past the database, and stay inside their buffers, provided no offset lies in the
  last \<open>block_len - 1\<close> bytes. The AVX2 build needs, when the tail of a row has a 16-byte piece, that
  this piece is aligned in every row; the SSE build needs nothing of the kind.\<close>

theorem xor_rows_correct:
  fixes block_len db_len num_elems :: u32 and elems :: "u64 list" and db :: "u8 list"
  defines "n \<equiv> unat block_len" and "N \<equiv> unat num_elems"
  assumes "n \<le> unat db_len" "unat db_len \<le> length db" "n \<le> length out"
    and "N < 2 ^ 31" "N \<le> length elems"
    and "\<forall>e \<in> set (take N elems). clear_offset (unat db_len) n e"
  shows "xor_rows_sse db db_len elems num_elems block_len out =
      Some (xors n (gathered db (unat db_len) n (take N elems)) @ drop n out) \<and>
    ((n mod 32 \<ge> 16 \<longrightarrow> (\<forall>e \<in> set (take N elems). unat e + n \<le> unat db_len \<longrightarrow>
        (base + (unat e + (n - n mod 32))) mod 16 = 0)) \<longrightarrow>
     xor_rows_avx2 base db db_len elems num_elems block_len out =
      Some (xors n (gathered db (unat db_len) n (take N elems)) @ drop n out))"
proof (intro conjI impI)
  show "xor_rows_sse db db_len elems num_elems block_len out =
      Some (xors n (gathered db (unat db_len) n (take N elems)) @ drop n out)"
    unfolding n_def N_def by (rule xor_rows_sse_eq [OF assms(3-8) [unfolded n_def N_def]])
next
  assume "n mod 32 \<ge> 16 \<longrightarrow> (\<forall>e \<in> set (take N elems). unat e + n \<le> unat db_len \<longrightarrow>
      (base + (unat e + (n - n mod 32))) mod 16 = 0)"
  then show "xor_rows_avx2 base db db_len elems num_elems block_len out =
      Some (xors n (gathered db (unat db_len) n (take N elems)) @ drop n out)"
    unfolding n_def N_def by (intro xor_rows_avx2_eq [OF assms(3-8) [unfolded n_def N_def]]) blast
qed

theorem xor_rows_correct_witness:
  "xor_rows_sse (replicate 31 1 @ replicate 31 2 @ replicate 31 4) 93 [62, 1000, 31] 3 31 (replicate 32 7) =
     Some (replicate 31 6 @ [7]) \<and>
   xor_rows_avx2 0 [1, 2, 4, 8, 16, 32] 6 [3, 100, 0] 3 3 [7, 7, 7, 9] = Some [9, 18, 36, 9]"
  using xor_rows_correct [where block_len = 31 and db_len = 93 and num_elems = 3 and base = 0
      and elems = "[62, 1000, 31]" and db = "replicate 31 1 @ replicate 31 2 @ replicate 31 4" and out = "replicate 32 7"]
    xor_rows_correct [where block_len = 3 and db_len = 6 and num_elems = 3 and base = 0
      and elems = "[3, 100, 0]" and db = "[1, 2, 4, 8, 16, 32]" and out = "[7, 7, 7, 9]"]
  by (simp add: clear_offset_def gathered_def row_def xors_def replicate_numeral)

text \<open>C36: the guards of \<open>xor_rows\<close> disagree. On an offset in the last \<open>block_len - 1\<close> bytes
  the block loop skips the row but the tail loop reads past the end of the database: with a block
  length that is not a multiple of 16 neither build has a defined result.\<close>

theorem xor_rows_gap_undefined:
  fixes block_len db_len num_elems :: u32 and elems :: "u64 list" and db :: "u8 list"
  assumes "unat db_len = length db" "unat block_len mod 16 \<noteq> 0"
    and "i < unat num_elems" "i < length elems"
    and "unat db_len < unat (elems ! i) + unat block_len" "unat (elems ! i) \<le> unat db_len"
  shows "xor_rows_sse db db_len elems num_elems block_len out = None \<and>
    xor_rows_avx2 base db db_len elems num_elems block_len out = None"
proof -
  have "unat block_len mod 32 \<noteq> 0"
    using assms(2) mod_mod_cancel [of 16 32 "unat block_len"] by auto
  then show ?thesis
    using xor_rows_tail_gap [OF assms] assms(2)
    by (auto simp: xor_rows_sse_def xor_rows_avx2_def mod_eq_0 split: Option.bind_split)
qed

theorem xor_rows_gap_undefined_witness: "xor_rows_sse [1, 2, 3, 4] 4 [2] 1 3 [0, 0, 0] = None"
  using xor_rows_gap_undefined [where db_len = 4 and db = "[1, 2, 3, 4]" and block_len = 3 and i = 0
      and elems = "[2]" and num_elems = 1]
  by simp

text \<open>C25: \<open>xor_hashes_by_bit_vector\<close>. Both builds write the XOR of the 32-byte rows whose bit is
  set in the index vector, when the database is aligned to the build's block.\<close>

theorem xor_hashes_correct:
  assumes "unat db_len \<le> length db" "unat db_len div 32 \<le> 8 * length indexing" "32 \<le> length out"
  shows "(base mod 16 = 0 \<longrightarrow> xor_hashes_sse base db db_len indexing out =
      Some (xors 32 (selected_rows db (unat db_len div 32) indexing) @ drop 32 out)) \<and>
    (base mod 32 = 0 \<longrightarrow> xor_hashes_avx2 base db db_len indexing out =
      Some (xors 32 (selected_rows db (unat db_len div 32) indexing) @ drop 32 out))"
  using assms xor_hashes_sse_eq [of base db_len db indexing out]
    xor_hashes_avx2_eq [of base db_len db indexing out] by simp

theorem xor_hashes_correct_witness:
  "xor_hashes_avx2 64 (replicate 32 5 @ replicate 32 9 @ replicate 32 3) 96 [5] (replicate 33 1) =
    Some (replicate 32 6 @ [1])"
proof -
  have "[0..<3] = [0, 1, 2 :: nat]" by (simp add: upt_rec)
  moreover have "selected [5] 0" "\<not> selected [5] 1" "selected [5] 2"
    by (simp_all add: selected_def bit_numeral_rec bit_1_iff)
  ultimately show ?thesis
    using xor_hashes_correct [where base = 64 and db_len = 96 and indexing = "[5]"
        and db = "replicate 32 5 @ replicate 32 9 @ replicate 32 3" and out = "replicate 33 1"]
    by (simp add: selected_rows_def row_def xors_def)
qed

text \<open>C24: \<open>xor_all_rows\<close> writes the XOR of all rows, in both builds.\<close>

theorem xor_all_rows_correct:
  assumes "unat num_elems < 2 ^ 31" "unat elem_size \<le> length out"
    and "unat num_elems * unat elem_size \<le> length db"
  shows "xor_all_rows_avx2 db num_elems elem_size out =
      Some (xors (unat elem_size) (rows_of db (unat elem_size) (unat num_elems)) @ drop (unat elem_size) out) \<and>
    xor_all_rows_sse db num_elems elem_size out = xor_all_rows_avx2 db num_elems elem_size out"
  using xor_all_rows_eq [where 'v = 256] xor_all_rows_eq [where 'v = 128] assms
  by (simp add: xor_all_rows_avx2_def xor_all_rows_sse_def)

theorem xor_all_rows_correct_witness:
  "xor_all_rows_avx2 [1, 2, 4, 8] 2 2 [7, 7, 7] = Some [5, 10, 7]"
  using xor_all_rows_correct [where num_elems = 2 and elem_size = 2 and db = "[1, 2, 4, 8]"
      and out = "[7, 7, 7]"]
  by (simp add: rows_of_def row_def xors_def upt_rec replicate_numeral)

text \<open>C19: \<open>xor_single_pass\<close>. Sent along distinct targets, every row of the set is added to the
  parity of its target and every other parity is left alone; nothing outside the buffers is
  accessed. The two builds agree.\<close>

theorem xor_single_pass_parities:
  fixes elem_size perm_size :: u32 and inv :: "u32 list"
  defines "n \<equiv> unat elem_size" and "N \<equiv> unat perm_size"
  assumes N: "N < 2 ^ 31" "p0 + N \<le> length inv"
    and db: "d0 + N * n \<le> length db" and dist: "distinct (take N (drop p0 inv))"
    and par: "\<forall>p \<in> set (take N (drop p0 inv)). unat p * n + n \<le> length parities \<and> unat p * n < 2 ^ 32"
  shows "\<exists>out. xor_single_pass_avx2 db d0 inv p0 perm_size parities elem_size = Some out \<and>
    xor_single_pass_sse db d0 inv p0 perm_size parities elem_size = Some out \<and>
    length out = length parities \<and>
    (\<forall>i < N. row out (unat (inv ! (p0 + i)) * n) n =
      map2 (XOR) (row parities (unat (inv ! (p0 + i)) * n) n) (row db (d0 + i * n) n)) \<and>
    (\<forall>q. q * n + n \<le> length parities \<longrightarrow> q \<notin> unat ` set (take N (drop p0 inv)) \<longrightarrow>
      row out (q * n) n = row parities (q * n) n)"
proof -
  let ?ps = "map unat (take N (drop p0 inv))" and ?rs = "map (\<lambda>i. row db (d0 + i * n) n) [0..<N]"
  have run: "xor_single_pass_avx2 db d0 inv p0 perm_size parities elem_size = Some (scatter n ?ps ?rs parities)"
    "xor_single_pass_sse db d0 inv p0 perm_size parities elem_size = Some (scatter n ?ps ?rs parities)"
    using N db par unfolding n_def N_def xor_single_pass_avx2_def xor_single_pass_sse_def
    by (auto intro!: xor_single_pass_eq)
  have len: "length ?ps = length ?rs" using N by simp
  have rowlen: "length (row db (d0 + i * n) n) = n" if "i < N" for i
    using row_end [OF that, of n "length db - d0"] db by (simp add: le_diff_conv2)
  then have rs: "\<forall>r \<in> set ?rs. length r = n" by auto
  have ps: "\<forall>p \<in> set ?ps. p * n + n \<le> length parities" using par by auto
  note row = row_scatter [OF len rs ps]
  have "row (scatter n ?ps ?rs parities) (unat (inv ! (p0 + i)) * n) n =
      map2 (XOR) (row parities (unat (inv ! (p0 + i)) * n) n) (row db (d0 + i * n) n)" if i: "i < N" for i
  proof -
    have "distinct ?ps" using dist by (simp add: distinct_map inj_on_def word_unat_eq_iff)
    then have "sent_to (?ps ! i) ?ps ?rs = [?rs ! i]"
      using i N by (intro sent_to_distinct) simp_all
    moreover have "?ps ! i = unat (inv ! (p0 + i))" and "?ps ! i \<in> set ?ps"
      by (use i N in simp, rule nth_mem) (use i N in simp)
    ultimately show ?thesis
      using row [of "?ps ! i"] ps i rowlen [OF i] by (simp add: xors_def map2_zero)
  qed
  moreover have "row (scatter n ?ps ?rs parities) (q * n) n = row parities (q * n) n"
    if "q * n + n \<le> length parities" "q \<notin> unat ` set (take N (drop p0 inv))" for q
  proof -
    have "sent_to q ?ps ?rs = []"
      using that by (force simp: sent_to_def filter_empty_conv dest: set_zip_leftD)
    then show ?thesis using row [OF that(1)] that(1) by (simp add: map2_zero)
  qed
  ultimately show ?thesis using run by auto
qed

theorem xor_single_pass_parities_witness:
  "\<exists>out. xor_single_pass_sse [1, 2, 4, 8] 0 [2, 0] 0 2 [0, 0, 16, 16, 64, 64] 2 = Some out \<and>
    row out 4 2 = [65, 66] \<and> row out 0 2 = [4, 8] \<and> row out 2 2 = [16, 16]"
proof -
  obtain out where out: "xor_single_pass_sse [1, 2, 4, 8] 0 [2, 0] 0 2 [0, 0, 16, 16, 64, 64] 2 = Some out"
    "\<forall>i < 2. row out (unat ([2, 0 :: u32] ! i) * 2) 2 = map2 (XOR)
       (row [0, 0, 16, 16, 64, 64] (unat ([2, 0 :: u32] ! i) * 2) 2) (row [1, 2, 4, 8] (i * 2) 2)"
    "\<forall>q. q * 2 + 2 \<le> 6 \<longrightarrow> q \<notin> unat ` {2, 0 :: u32} \<longrightarrow> row out (q * 2) 2 = row [0, 0, 16, 16, 64, 64] (q * 2) 2"
    using xor_single_pass_parities [where elem_size = 2 and perm_size = 2 and ?d0.0 = 0 and ?p0.0 = 0
        and inv = "[2, 0]" and db = "[1, 2, 4, 8]" and parities = "[0, 0, 16, 16, 64, 64]"]
    by auto
  show ?thesis
    using out(1) out(2) [rule_format, of 0] out(2) [rule_format, of 1] out(3) [rule_format, of 1]
    by (simp add: row_def)
qed

end
