(* ===== verification/Kernel.thy ===== *)
theory Kernel
  imports Xor
begin

text \<open>
  The interface between the XOR kernels and their clients (\<open>answer.cpp\<close> and the Go protocol): what
  both builds of \<open>xor.cpp\<close> promise. The AVX2 build asks for aligned rows in \<open>xor_rows\<close>, so that
  contract has a condition \<open>ok\<close> on offsets; the 128-bit build has none.
\<close>

locale xor_kernel =
  fixes into :: "u8 list \<Rightarrow> nat \<Rightarrow> u8 list \<Rightarrow> nat \<Rightarrow> u32 \<Rightarrow> u8 list option"
    and all_rows :: "u8 list \<Rightarrow> u32 \<Rightarrow> u32 \<Rightarrow> u8 list \<Rightarrow> u8 list option"
    and single_pass :: "u8 list \<Rightarrow> nat \<Rightarrow> u32 list \<Rightarrow> nat \<Rightarrow> u32 \<Rightarrow> u8 list \<Rightarrow> u32 \<Rightarrow> u8 list option"
  assumes into: "o0 + unat n \<le> length out \<Longrightarrow> i0 + unat n \<le> length inp \<Longrightarrow>
      into out o0 inp i0 n = Some (xor_at out o0 (row inp i0 (unat n)))"
    and all_rows: "unat num < 2 ^ 31 \<Longrightarrow> unat n \<le> length out \<Longrightarrow> unat num * unat n \<le> length db \<Longrightarrow>
      all_rows db num n out = Some (xors (unat n) (rows_of db (unat n) (unat num)) @ drop (unat n) out)"
    and single_pass: "unat N < 2 ^ 31 \<Longrightarrow> p0 + unat N \<le> length tgt \<Longrightarrow> d0 + unat N * unat n \<le> length db \<Longrightarrow>
      \<forall>p \<in> set (take (unat N) (drop p0 tgt)). unat p * unat n + unat n \<le> length parities \<and> unat p * unat n < 2 ^ 32 \<Longrightarrow>
      single_pass db d0 tgt p0 N parities n =
        Some (scatter (unat n) (map unat (take (unat N) (drop p0 tgt)))
          (map (\<lambda>i. row db (d0 + i * unat n) (unat n)) [0..<unat N]) parities)"

locale gather_kernel = xor_kernel +
  fixes gather :: "u8 list \<Rightarrow> u32 \<Rightarrow> u64 list \<Rightarrow> u32 \<Rightarrow> u32 \<Rightarrow> u8 list \<Rightarrow> u8 list option"
    and ok :: "nat \<Rightarrow> u64 \<Rightarrow> bool"
  assumes gather: "unat n \<le> unat db_len \<Longrightarrow> unat db_len \<le> length db \<Longrightarrow> unat n \<le> length out \<Longrightarrow>
      unat num < 2 ^ 31 \<Longrightarrow> unat num \<le> length elems \<Longrightarrow>
      \<forall>e \<in> set (take (unat num) elems). clear_offset (unat db_len) (unat n) e \<Longrightarrow>
      \<forall>e \<in> set (take (unat num) elems). ok (unat n) e \<Longrightarrow>
      gather db db_len elems num n out =
        Some (xors (unat n) (gathered db (unat db_len) (unat n) (take (unat num) elems)) @ drop (unat n) out)"

text \<open>The alignment that the AVX2 build of \<open>xor_rows\<close> needs at database address \<open>base\<close>.\<close>

definition avx2_aligned :: "nat \<Rightarrow> nat \<Rightarrow> u64 \<Rightarrow> bool" where
  "avx2_aligned base n e \<longleftrightarrow> (n mod 32 \<ge> 16 \<longrightarrow> (base + (unat e + (n - n mod 32))) mod 16 = 0)"

interpretation avx2: gather_kernel xor_into_avx2 xor_all_rows_avx2 xor_single_pass_avx2
  "xor_rows_avx2 base" "avx2_aligned base" for base
proof unfold_locales
  fix o0 i0 :: nat and n :: u32 and out inp :: "u8 list"
  assume "o0 + unat n \<le> length out" "i0 + unat n \<le> length inp"
  then show "xor_into_avx2 out o0 inp i0 n = Some (xor_at out o0 (row inp i0 (unat n)))"
    unfolding xor_into_avx2_def by (intro xor_into_eq) simp_all
qed (auto simp: xor_all_rows_avx2_def xor_all_rows_eq xor_single_pass_avx2_def avx2_aligned_def
    intro!: xor_rows_avx2_eq xor_single_pass_eq)

interpretation sse: gather_kernel xor_into_sse xor_all_rows_sse xor_single_pass_sse
  xor_rows_sse "\<lambda>_ _. True"
proof unfold_locales
  fix o0 i0 :: nat and n :: u32 and out inp :: "u8 list"
  assume "o0 + unat n \<le> length out" "i0 + unat n \<le> length inp"
  then show "xor_into_sse out o0 inp i0 n = Some (xor_at out o0 (row inp i0 (unat n)))"
    unfolding xor_into_sse_def by (intro xor_into_eq) simp_all
qed (auto simp: xor_all_rows_sse_def xor_all_rows_eq xor_single_pass_sse_def
    intro!: xor_rows_sse_eq xor_single_pass_eq)

section \<open>Sums of rows\<close>

lemma foldl_map2_xor_length:
  "length a = n \<Longrightarrow> \<forall>r \<in> set rs. length r = n \<Longrightarrow> length (foldl (map2 (XOR)) a rs) = n"
  by (induction rs arbitrary: a) simp_all

lemma map2_xor_assoc:
  "length a = length b \<Longrightarrow> length b = length (c :: u8 list) \<Longrightarrow> map2 (XOR) (map2 (XOR) a b) c = map2 (XOR) a (map2 (XOR) b c)"
  by (rule nth_equalityI) (simp_all add: xor.assoc)

lemma map2_xor_comm: "map2 (XOR) a b = map2 (XOR) b (a :: u8 list)"
  by (rule nth_equalityI) (simp_all add: xor.commute)

lemma map2_xor_self: "map2 (XOR) a a = replicate (length a) (0 :: u8)"
  by (rule nth_equalityI) simp_all

lemma map2_xor_0: "length a = n \<Longrightarrow> map2 (XOR) (replicate n 0) a = (a :: u8 list)" "length a = n \<Longrightarrow> map2 (XOR) a (replicate n 0) = a"
  by (auto intro!: nth_equalityI)

lemma xors_Cons:
  assumes "length r = n" "\<forall>r \<in> set rs. length r = n"
  shows "xors n (r # rs) = map2 (XOR) r (xors n rs)"
proof -
  have "foldl (map2 (XOR)) (map2 (XOR) a b) rs = map2 (XOR) a (foldl (map2 (XOR)) b rs)"
    if "length a = n" "length b = n" for a b :: "u8 list"
    using assms(2) that
  proof (induction rs arbitrary: b)
    case (Cons c rs)
    then show ?case by (simp add: map2_xor_assoc)
  qed simp
  from this [of r "replicate n 0"] assms(1) show ?thesis
    by (simp add: xors_def map2_xor_0)
qed

lemma xors_append:
  assumes "\<forall>r \<in> set rs. length r = n" "\<forall>r \<in> set rs'. length r = n"
  shows "xors n (rs @ rs') = map2 (XOR) (xors n rs) (xors n rs')"
  using assms
proof (induction rs)
  case Nil
  then show ?case using length_xors [of rs' n] by (simp add: xors_def [of n "[]"] map2_xor_0)
next
  case (Cons r rs)
  then have "\<forall>r \<in> set (rs @ rs'). length r = n" "length r = n" by auto
  with Cons show ?case by (simp add: xors_Cons map2_xor_assoc)
qed

end
