(* ===== verification/Answer.thy ===== *)
theory Answer
  imports Permute Kernel
begin

text \<open>
  \<open>psetggm/answer.cpp\<close>: the server's two answers. Both are functions of the XOR kernel they are
  linked with, and are proved once for every kernel with the contract of \<open>Kernel\<close>. Memory from
  \<open>malloc\<close> is a parameter of arbitrary contents; its result is taken to be non-null. \<open>srand\<close> sets
  a generator that nothing reads, so \<open>answer_single_pass\<close> takes its seed and ignores it.
\<close>

section \<open>The answer to a punctured set\<close>

record scratch =
  ws_keys :: "m128 list"
  ws_tmp :: "m128 list"
  ws_elems :: "u64 list"

text \<open>\<open>((elems[i]+shift)%univ_size)*row_len\<close>, in 64 bits; the remainder by zero is undefined.\<close>

definition offset_of :: "u32 \<Rightarrow> u32 \<Rightarrow> u32 \<Rightarrow> u64 \<Rightarrow> u64 option" where
  "offset_of us shift row_len e =
     (if us = 0 then None else Some ((e + ucast shift) mod ucast us * ucast row_len))"

definition answer :: "(u8 list \<Rightarrow> u32 \<Rightarrow> u64 list \<Rightarrow> u32 \<Rightarrow> u32 \<Rightarrow> u8 list \<Rightarrow> u8 list option) \<Rightarrow> scratch \<Rightarrow>
    m128 list \<Rightarrow> u32 \<Rightarrow> u32 \<Rightarrow> u32 \<Rightarrow> u32 \<Rightarrow> u8 list \<Rightarrow> u32 \<Rightarrow> u32 \<Rightarrow> u32 \<Rightarrow> u8 list \<Rightarrow> u8 list option" where
  "answer gather ws pset pos us ss shift db db_len row_len block_len out = do {
     worksize \<leftarrow> workspace_size us (ss + 1);
     gen \<leftarrow> pset_ggm_init us (ss + 1) (ws_keys ws) (ws_tmp ws);
     (gen, elems) \<leftarrow> pset_ggm_eval_punc gen pset pos (ws_elems ws);
     elems \<leftarrow> for_int (unat ss) (\<lambda>i elems. do {
       e \<leftarrow> rd elems i;
       e \<leftarrow> offset_of us shift row_len e;
       wr elems i e
     }) elems;
     gather db db_len elems ss block_len out
   }"

section \<open>The single-pass hint\<close>

text \<open>
  One turn of the loop: the pointers \<open>moving_db\<close>, \<open>curr_permutation\<close> and \<open>curr_inverse\<close> are offsets;
  \<open>db_elem_size * perm_size\<close> is a 32-bit product.
\<close>

record single_pass_state =
  sp_rng :: rng
  moving_db :: nat
  curr :: nat
  permutations :: "u32 list"
  inverse_permutations :: "u32 list"
  parities :: "u8 list"

definition on_suffix :: "nat \<Rightarrow> ('a list \<Rightarrow> 'a list option) \<Rightarrow> 'a list \<Rightarrow> 'a list option" where
  "on_suffix k f xs = (if k \<le> length xs then map_option (\<lambda>ys. take k xs @ ys) (f (drop k xs)) else None)"

definition single_pass_step :: "(u8 list \<Rightarrow> nat \<Rightarrow> u32 list \<Rightarrow> nat \<Rightarrow> u32 \<Rightarrow> u8 list \<Rightarrow> u32 \<Rightarrow> u8 list option) \<Rightarrow> rand \<Rightarrow>
    u8 list \<Rightarrow> u32 \<Rightarrow> u32 \<Rightarrow> single_pass_state \<Rightarrow> single_pass_state option" where
  "single_pass_step single_pass RAND db perm_size db_elem_size st = do {
     (rng, perm) \<leftarrow> permute RAND 0 perm_size (drop (curr st) (permutations st)) (sp_rng st);
     invs \<leftarrow> on_suffix (curr st) (invert_permutation perm perm_size) (inverse_permutations st);
     pars \<leftarrow> single_pass db (moving_db st) invs (curr st) perm_size (parities st) db_elem_size;
     Some \<lparr>sp_rng = rng, moving_db = moving_db st + unat (db_elem_size * perm_size),
       curr = curr st + unat perm_size, permutations = take (curr st) (permutations st) @ perm,
       inverse_permutations = invs, parities = pars\<rparr>
   }"

definition answer_single_pass :: "(u8 list \<Rightarrow> nat \<Rightarrow> u32 list \<Rightarrow> nat \<Rightarrow> u32 \<Rightarrow> u8 list \<Rightarrow> u32 \<Rightarrow> u8 list option) \<Rightarrow> rand \<Rightarrow>
    u8 list \<Rightarrow> u32 \<Rightarrow> u32 \<Rightarrow> u32 \<Rightarrow> u8 list \<Rightarrow> u32 \<Rightarrow> u32 list \<Rightarrow> u32 list \<Rightarrow> rng \<Rightarrow> single_pass_state option" where
  "answer_single_pass single_pass RAND db db_num_elems set_num_elems db_elem_size pars seed_permutations perms invs rng =
     (if set_num_elems = 0 then None
      else
        let perm_size = db_num_elems div set_num_elems
        in for_int (unat set_num_elems) (\<lambda>i. single_pass_step single_pass RAND db perm_size db_elem_size)
             \<lparr>sp_rng = rng, moving_db = 0, curr = 0, permutations = perms, inverse_permutations = invs, parities = pars\<rparr>)"

section \<open>Offsets and rows of a punctured set\<close>

text \<open>The index of the row that an element stands for.\<close>

definition shifted :: "u32 \<Rightarrow> u32 \<Rightarrow> u64 \<Rightarrow> nat" where
  "shifted us shift e = (unat e + unat shift) mod unat us"

definition set_rows :: "u8 list \<Rightarrow> nat \<Rightarrow> u32 \<Rightarrow> u32 \<Rightarrow> u64 list \<Rightarrow> u8 list list" where
  "set_rows db n us shift es = map (\<lambda>e. row db (shifted us shift e * n) n) es"

lemma offset_of_eq:
  assumes "us \<noteq> 0" "unat e < unat us"
  shows "\<exists>v. offset_of us shift n e = Some v \<and> unat v = shifted us shift e * unat n"
proof -
  have us: "0 < unat us" using assms(1) by (simp add: unat_gt_0)
  have s: "unat e + unat shift < 2 ^ 64" using assms(2) u32_bound [of us] u32_bound [of shift] by simp
  then have "unat (e + ucast shift) = unat e + unat shift"
    by (simp add: unat_word_ariths)
  define r :: u64 where "r = (e + ucast shift) mod ucast us"
  have m: "unat r = shifted us shift e"
    unfolding r_def unat_mod shifted_def using \<open>unat (e + ucast shift) = _\<close> by simp
  have "shifted us shift e * unat n \<le> (2 ^ 32 - 1) * (2 ^ 32 - 1)"
    using us u32_bound [of us] u32_bound [of n] mod_less_divisor [OF us, of "unat e + unat shift"]
    unfolding shifted_def by (intro mult_le_mono) linarith+
  then have "shifted us shift e * unat n < 2 ^ 64" by simp
  then have "unat (r * ucast n) = shifted us shift e * unat n"
    by (simp add: unat_word_ariths m)
  then show ?thesis using assms(1) by (simp add: offset_of_def r_def)
qed

lemma offsets_loop:
  assumes "N < 2 ^ 31" "N \<le> length elems" "us \<noteq> 0" "\<forall>e \<in> set (take N elems). unat e < unat us"
  shows "\<exists>offs. for_int N (\<lambda>i elems. do {
       e \<leftarrow> rd elems i;
       e \<leftarrow> offset_of us shift n e;
       wr elems i e
     }) elems = Some offs \<and> length offs = length elems \<and>
     (\<forall>i < N. unat (offs ! i) = shifted us shift (elems ! i) * unat n)"
proof -
  let ?f = "\<lambda>i. the (offset_of us shift n (elems ! i))"
  have at: "offset_of us shift n (elems ! i) = Some (?f i) \<and> unat (?f i) = shifted us shift (elems ! i) * unat n" if "i < N" for i
  proof -
    have "elems ! i \<in> set (take N elems)" using that assms(2) by (auto simp: in_set_conv_nth)
    then show ?thesis using offset_of_eq [OF assms(3), of "elems ! i" shift n] assms(4) by auto
  qed
  have "for_int N (\<lambda>i elems. do {
       e \<leftarrow> rd elems i;
       e \<leftarrow> offset_of us shift n e;
       wr elems i e
     }) (filled ?f elems 0) = Some (filled ?f elems N)"
  proof (rule for_int_state [OF assms(1), where g = "filled ?f elems"])
    fix i assume i: "i < N"
    have "rd (filled ?f elems i) i = Some (elems ! i)"
      using i assms(2) by (simp add: rd_def filled_def nth_append)
    moreover obtain v where "offset_of us shift n (elems ! i) = Some v" using at [OF i] by auto
    ultimately show "(do {
       e \<leftarrow> rd (filled ?f elems i) i;
       e \<leftarrow> offset_of us shift n e;
       wr (filled ?f elems i) i e
     }) = Some (filled ?f elems (Suc i))"
      using i assms(2) wr_filled [of i elems ?f] by simp
  qed
  then show ?thesis
    using at assms(2) by (intro exI [of _ "filled ?f elems N"]) (simp add: filled_0 filled_def nth_append)
qed

lemma ggm_set_bound:
  assumes "univ_size gen \<noteq> 0"
  shows "\<forall>e \<in> set (ggm_set s gen). unat e < unat (univ_size gen)"
  using fast_range_less [OF assms] by (auto simp: ggm_set_def ggm_elem_def)

lemma length_ggm_set [simp]: "length (ggm_set s gen) = unat (set_size gen)"
  by (simp add: ggm_set_def)

text \<open>The set without the position.\<close>

definition without :: "nat \<Rightarrow> 'a list \<Rightarrow> 'a list" where
  "without k xs = take k xs @ drop (Suc k) xs"

lemma length_without [simp]: "k < length xs \<Longrightarrow> length (without k xs) = length xs - 1"
  by (simp add: without_def)

lemma set_without: "set (without k xs) \<subseteq> set xs"
  by (auto simp: without_def dest: in_set_takeD in_set_dropD)

context gather_kernel
begin

lemma answer_eq:
  assumes ss: "unat ss < 2 ^ 29" "pos \<le> ss" and us: "us \<noteq> 0"
    and gen: "gen = \<lparr>univ_size = us, set_size = ss + 1, keys = ws_keys ws, tmp = ws_tmp ws\<rparr>"
    and ws: "length (ws_keys ws) = 2 ^ get_height (ss + 1)" "length (ws_tmp ws) = 2 ^ get_height (ss + 1)"
      "length (ws_elems ws) = unat ss"
    and db: "unat us * unat n \<le> unat db_len" "unat db_len \<le> length db" "unat n \<le> unat db_len" "unat n \<le> length out"
    and al: "\<And>e. unat n dvd unat e \<Longrightarrow> ok (unat n) e"
  shows "answer gather ws (ggm_punctured s gen pos @ rest) pos us ss shift db db_len n n out =
    Some (xors (unat n) (set_rows db (unat n) us shift (without (unat pos) (ggm_set s gen))) @ drop (unat n) out)"
proof -
  have s1: "unat (ss + 1) = unat ss + 1" using ss(1) by (simp add: unat_word_ariths)
  have nz: "ss + 1 \<noteq> 0" using s1 by auto
  have ok: "gen_ok gen" using ss s1 nz ws by (simp add: gen gen_ok_def)
  note h = gen_ok_height(1) [OF ok]
  have le: "get_height (ss + 1) \<le> 29 + 1" using h by (simp add: gen)
  have h29: "get_height (ss + 1) \<le> 29" using nz s1 ss(1) by (intro get_height_le) simp_all
  then have p29: "(2 :: nat) ^ get_height (ss + 1) \<le> 2 ^ 29" by (intro power_increasing) simp_all
  have work: "\<exists>w. workspace_size us (ss + 1) = Some w" using h29 p29 by (simp add: workspace_size_def shl1_in)
  have init: "pset_ggm_init us (ss + 1) (ws_keys ws) (ws_tmp ws) = Some gen"
    using h29 ws by (simp add: pset_ggm_init_def shl1_in gen)
  have pos: "pos < set_size gen" "unat pos < unat ss + 1" using ss s1 by (simp_all add: gen word_less_nat_alt word_le_nat_alt)
  let ?es = "without (unat pos) (ggm_set s gen)"
  have les: "length ?es = unat ss" using pos s1 by (simp add: gen)
  obtain gen' where ev: "pset_ggm_eval_punc gen (ggm_punctured s gen pos @ rest) pos (ws_elems ws) = Some (gen', ?es)"
    using eval_punc_eq [OF ok pos(1), of "ws_elems ws" s rest] ws(3) s1 by (auto simp: gen without_def)
  have bound: "\<forall>e \<in> set (take (unat ss) ?es). unat e < unat us"
    using ggm_set_bound [of gen s] us set_without by (fastforce simp: gen dest: in_set_takeD)
  obtain offs where offs: "for_int (unat ss) (\<lambda>i elems. do {
       e \<leftarrow> rd elems i;
       e \<leftarrow> offset_of us shift n e;
       wr elems i e
     }) ?es = Some offs" "length offs = unat ss" "\<forall>i < unat ss. unat (offs ! i) = shifted us shift (?es ! i) * unat n"
    using offsets_loop [OF _ _ us bound, of shift n] ss(1) les by auto
  have inside: "unat e + unat n \<le> unat db_len" if e: "e \<in> set offs" for e
  proof -
    obtain i where i: "i < unat ss" "e = offs ! i" using e offs(2) unfolding in_set_conv_nth by metis
    have "shifted us shift (?es ! i) < unat us" using us by (simp add: shifted_def unat_gt_0)
    from row_end [OF this db(1)] show ?thesis using offs(3) i by simp
  qed
  have mult: "unat n dvd unat e" if "e \<in> set offs" for e
    using that offs(2,3) by (auto simp: in_set_conv_nth)
  have "map (\<lambda>e. row db (unat e) (unat n)) offs = set_rows db (unat n) us shift ?es"
    unfolding set_rows_def using offs(2,3) les by (intro nth_equalityI) simp_all
  moreover have "filter (\<lambda>e. unat e + unat n \<le> unat db_len) offs = offs" using inside by simp
  ultimately have g: "gathered db (unat db_len) (unat n) (take (unat ss) offs) = set_rows db (unat n) us shift ?es"
    using offs(2) by (simp add: gathered_def)
  have "gather db db_len offs ss n out = Some (xors (unat n) (gathered db (unat db_len) (unat n) (take (unat ss) offs)) @ drop (unat n) out)"
    using gather [of n db_len db out ss offs] db ss(1) offs(2) inside al mult by (simp add: clear_offset_def)
  then show ?thesis
    using work init ev offs(1) by (auto simp: answer_def g)
qed

end

text \<open>The parity that a hint holds at position \<open>k\<close>: one row of every chunk, picked by its permutation.\<close>

definition hint_of :: "u8 list \<Rightarrow> nat \<Rightarrow> nat \<Rightarrow> u32 list list \<Rightarrow> nat \<Rightarrow> u8 list" where
  "hint_of db n M ps k = xors n (map (\<lambda>j. row db ((j * M + unat (ps ! j ! k)) * n) n) [0..<length ps])"

definition inverse_pair :: "nat \<Rightarrow> u32 list \<Rightarrow> u32 list \<Rightarrow> bool" where
  "inverse_pair M p q \<longleftrightarrow> is_perm p \<and> is_perm q \<and> length p = M \<and> length q = M \<and>
     (\<forall>i < M. q ! unat (p ! i) = of_nat i \<and> p ! unat (q ! i) = of_nat i)"

lemma length_concat_all: "\<forall>x \<in> set xs. length x = M \<Longrightarrow> length (concat xs) = length xs * M"
  by (induction xs) simp_all

lemma hint_of_snoc:
  assumes "j = length ps"
  shows "hint_of db n M (ps @ [p]) k = map2 (XOR) (hint_of db n M ps k) (row db ((j * M + unat (p ! k)) * n) n)"
proof -
  have e: "[0..<length (ps @ [p])] = [0..<length ps] @ [length ps]" by simp
  have "map (\<lambda>j. row db ((j * M + unat ((ps @ [p]) ! j ! k)) * n) n) [0..<length ps] =
      map (\<lambda>j. row db ((j * M + unat (ps ! j ! k)) * n) n) [0..<length ps]"
    by (intro map_cong refl) (simp add: nth_append)
  then show ?thesis unfolding hint_of_def e map_append by (simp only: xors_snoc list.map nth_append_length assms)
qed

lemma chunk_row:
  assumes "j < S" "p < M" "S * M * n \<le> l"
  shows "(j * M + p) * n + n \<le> (l :: nat)"
proof -
  have "j * M + M \<le> S * M" using row_end [of j S M] assms(1) by simp
  then have "j * M + p < S * M" using assms(2) by linarith
  from row_end [OF this assms(3)] show ?thesis .
qed

lemma length_hint_of:
  assumes "\<forall>j < length ps. unat (ps ! j ! k) < M" "length ps * M * n \<le> length db"
  shows "length (hint_of db n M ps k) = n"
  unfolding hint_of_def
proof (intro length_xors ballI)
  fix r assume "r \<in> set (map (\<lambda>j. row db ((j * M + unat (ps ! j ! k)) * n) n) [0..<length ps])"
  then obtain j where j: "j < length ps" "r = row db ((j * M + unat (ps ! j ! k)) * n) n" by auto
  from chunk_row [OF j(1) _ assms(2)] assms(1) j show "length r = n" by simp
qed

lemma inverse_pair_less: "inverse_pair M p q \<Longrightarrow> k < M \<Longrightarrow> unat (p ! k) < M \<and> unat (q ! k) < M"
  by (metis inverse_pair_def is_perm_def nth_mem)

context xor_kernel
begin

text \<open>One permutation: its inverse sends every row of the chunk to the parity that asks for it.\<close>

lemma chunk_parities:
  assumes p: "is_perm p" "length p = unat N" and q: "is_perm q" "length q = unat N"
    and pq: "\<forall>i < unat N. q ! unat (p ! i) = of_nat i \<and> p ! unat (q ! i) = of_nat i"
    and N: "unat N < 2 ^ 31" and i: "p0 + unat N \<le> length invs" "take (unat N) (drop p0 invs) = q"
    and db: "d0 + unat N * unat n \<le> length db"
    and par: "unat N * unat n \<le> length pars" "unat N * unat n < 2 ^ 32"
  shows "\<exists>pars'. single_pass db d0 invs p0 N pars n = Some pars' \<and> length pars' = length pars \<and>
    (\<forall>k < unat N. row pars' (k * unat n) (unat n) =
      map2 (XOR) (row pars (k * unat n) (unat n)) (row db (d0 + unat (p ! k) * unat n) (unat n)))"
proof -
  let ?N = "unat N" and ?n = "unat n"
  let ?ps = "map unat q" and ?rs = "map (\<lambda>i. row db (d0 + i * ?n) ?n) [0..<?N]"
  have at: "unat x * ?n + ?n \<le> ?N * ?n" if "x \<in> set q" for x
    using row_end [of "unat x" ?N ?n "?N * ?n"] that q by (simp add: is_perm_def)
  have "\<forall>x \<in> set q. unat x * ?n + ?n \<le> length pars \<and> unat x * ?n < 2 ^ 32"
    using at par by (meson le_add1 le_less_trans le_trans)
  then have run: "single_pass db d0 invs p0 N pars n = Some (scatter ?n ?ps ?rs pars)"
    using single_pass [of N p0 invs d0 n db pars] N i db by simp
  have len: "length ?ps = length ?rs" using q by simp
  have rl: "length (row db (d0 + i * ?n) ?n) = ?n" if "i < ?N" for i
    using row_end [OF that, of ?n "length db - d0"] db by (simp add: le_diff_conv2)
  then have rs: "\<forall>r \<in> set ?rs. length r = ?n" by auto
  have ps: "\<forall>x \<in> set ?ps. x * ?n + ?n \<le> length pars" using at par(1) by (auto intro: le_trans)
  have dist: "distinct ?ps" using q(1) by (simp add: is_perm_def distinct_map inj_on_def word_unat_eq_iff)
  have "row (scatter ?n ?ps ?rs pars) (k * ?n) ?n =
      map2 (XOR) (row pars (k * ?n) ?n) (row db (d0 + unat (p ! k) * ?n) ?n)" if k: "k < ?N" for k
  proof -
    have pk: "unat (p ! k) < ?N" using p k by (simp add: is_perm_def)
    have "?ps ! unat (p ! k) = k" using pq k pk q(2) u32_bound [of N] by (simp add: unat_of_nat_u32)
    then have st: "sent_to k ?ps ?rs = [row db (d0 + unat (p ! k) * ?n) ?n]"
      using sent_to_distinct [OF dist len, of "unat (p ! k)"] pk q(2) by simp
    have "k * ?n + ?n \<le> length pars" using row_end [OF k par(1)] .
    from row_scatter [OF len rs ps this] st show ?thesis
      using rl [OF pk] by (simp add: xors_def map2_zero map2_xor_0)
  qed
  with run show ?thesis by simp
qed

lemma single_pass_step_eq:
  assumes R: "rand_ok RAND" "length (buf (sp_rng st)) = 4" and N: "N \<noteq> 0" "unat N < 2 ^ 31"
    and st: "curr st = i * unat N" "moving_db st = i * unat N * unat n"
      "Suc i * unat N \<le> length (permutations st)" "Suc i * unat N \<le> length (inverse_permutations st)"
    and db: "Suc i * unat N * unat n \<le> length db"
    and par: "unat N * unat n \<le> length (parities st)" "unat N * unat n < 2 ^ 32"
  shows "\<exists>p q st'. single_pass_step single_pass RAND db N n st = Some st' \<and> inverse_pair (unat N) p q \<and>
    length (buf (sp_rng st')) = 4 \<and>
    curr st' = Suc i * unat N \<and> moving_db st' = Suc i * unat N * unat n \<and>
    permutations st' = take (i * unat N) (permutations st) @ p @ drop (Suc i * unat N) (permutations st) \<and>
    inverse_permutations st' = take (i * unat N) (inverse_permutations st) @ q @ drop (Suc i * unat N) (inverse_permutations st) \<and>
    length (parities st') = length (parities st) \<and>
    (\<forall>k < unat N. row (parities st') (k * unat n) (unat n) =
      map2 (XOR) (row (parities st) (k * unat n) (unat n)) (row db ((i * unat N + unat (p ! k)) * unat n) (unat n)))"
proof -
  let ?N = "unat N" and ?n = "unat n" and ?P = "drop (curr st) (permutations st)" and ?I = "inverse_permutations st"
  have lP: "?N \<le> length ?P" and lI: "?N \<le> length (drop (curr st) ?I)" "curr st \<le> length ?I" using st by simp_all
  obtain rng' p where p: "permute RAND 0 N ?P (sp_rng st) = Some (rng', p @ drop ?N ?P)" "is_perm p" "length p = ?N"
      "length (buf rng') = 4"
    using permute_eq [OF R N(1) lP] by blast
  obtain q where q: "invert_permutation (p @ drop ?N ?P) N (drop (curr st) ?I) = Some (q @ drop ?N (drop (curr st) ?I))"
      "is_perm q" "length q = ?N" "\<forall>i < ?N. q ! unat (p ! i) = of_nat i \<and> p ! unat (q ! i) = of_nat i"
    using invert_permutation_eq [OF p(2,3) lI(1)] by blast
  let ?invs = "take (curr st) ?I @ q @ drop ?N (drop (curr st) ?I)"
  have inv: "on_suffix (curr st) (invert_permutation (p @ drop ?N ?P) N) ?I = Some ?invs"
    using lI(2) q(1) by (simp add: on_suffix_def)
  have "moving_db st + ?N * ?n \<le> length db" using db st(2) by (simp add: add_mult_distrib)
  then obtain pars where pars: "single_pass db (moving_db st) ?invs (curr st) N (parities st) n = Some pars"
      "length pars = length (parities st)"
      "\<forall>k < ?N. row pars (k * ?n) ?n = map2 (XOR) (row (parities st) (k * ?n) ?n) (row db (moving_db st + unat (p ! k) * ?n) ?n)"
    using chunk_parities [OF p(2,3) q(2,3,4) N(2), of "curr st" ?invs "moving_db st" n db "parities st"] lI(2) q(3) par by auto
  have u: "unat (n * N) = ?N * ?n"
    using par(2) by (simp add: unat_word_ariths mult.commute)
  have "single_pass_step single_pass RAND db N n st = Some \<lparr>sp_rng = rng', moving_db = moving_db st + ?N * ?n,
      curr = curr st + ?N, permutations = take (curr st) (permutations st) @ p @ drop ?N ?P,
      inverse_permutations = ?invs, parities = pars\<rparr>"
    by (simp only: single_pass_step_def p(1) inv pars(1) u Option.bind.bind_lunit split_conv)
  then show ?thesis
    using p q pars st by (auto simp: add.commute [of ?N] add_mult_distrib inverse_pair_def)
qed

lemma answer_single_pass_eq:
  assumes R: "rand_ok RAND" "length (buf rng) = 4"
    and S: "S \<noteq> 0" "unat S < 2 ^ 31" and N: "N = num div S" "N \<noteq> 0" "unat N < 2 ^ 31"
    and len: "unat S * unat N \<le> length perms" "unat S * unat N \<le> length invs" "unat S * unat N * unat n \<le> length db"
    and par: "unat N * unat n \<le> length pars" "unat N * unat n < 2 ^ 32"
  shows "\<exists>st ps qs. answer_single_pass single_pass RAND db num S n pars seed perms invs rng = Some st \<and>
    length ps = unat S \<and> length qs = unat S \<and> (\<forall>j < unat S. inverse_pair (unat N) (ps ! j) (qs ! j)) \<and>
    permutations st = concat ps @ drop (unat S * unat N) perms \<and>
    inverse_permutations st = concat qs @ drop (unat S * unat N) invs \<and>
    length (parities st) = length pars \<and>
    (\<forall>k < unat N. row (parities st) (k * unat n) (unat n) =
      map2 (XOR) (row pars (k * unat n) (unat n)) (hint_of db (unat n) (unat N) ps k))"
proof -
  let ?S = "unat S" and ?N = "unat N" and ?n = "unat n"
  let ?st = "\<lparr>sp_rng = rng, moving_db = 0, curr = 0, permutations = perms, inverse_permutations = invs, parities = pars\<rparr>"
  define P where "P i st \<longleftrightarrow> (\<exists>ps qs. length ps = i \<and> length qs = i \<and> (\<forall>j < i. inverse_pair ?N (ps ! j) (qs ! j)) \<and>
      permutations st = concat ps @ drop (i * ?N) perms \<and> inverse_permutations st = concat qs @ drop (i * ?N) invs \<and>
      (\<forall>k < ?N. row (parities st) (k * ?n) ?n = map2 (XOR) (row pars (k * ?n) ?n) (hint_of db ?n ?N ps k))) \<and>
    length (buf (sp_rng st)) = 4 \<and> curr st = i * ?N \<and> moving_db st = i * ?N * ?n \<and> length (parities st) = length pars"
    for i and st :: single_pass_state
  have row0: "length (row pars (k * ?n) ?n) = ?n" if "k < ?N" for k using row_end [OF that par(1)] by simp
  have "\<exists>st. for_int ?S (\<lambda>i. single_pass_step single_pass RAND db N n) ?st = Some st \<and> P ?S st"
  proof (rule for_int_inv [OF S(2)])
    show "P 0 ?st" using R(2) row0 by (auto simp: P_def hint_of_def xors_def map2_xor_0)
    fix i st assume i: "i < ?S" and "P i st"
    then obtain ps qs where l: "length ps = i" "length qs = i" and pq: "\<forall>j < i. inverse_pair ?N (ps ! j) (qs ! j)"
      and st: "permutations st = concat ps @ drop (i * ?N) perms" "inverse_permutations st = concat qs @ drop (i * ?N) invs"
        "\<forall>k < ?N. row (parities st) (k * ?n) ?n = map2 (XOR) (row pars (k * ?n) ?n) (hint_of db ?n ?N ps k)"
        "length (buf (sp_rng st)) = 4" "curr st = i * ?N" "moving_db st = i * ?N * ?n" "length (parities st) = length pars"
      unfolding P_def by blast
    have c: "length (concat ps) = i * ?N" "length (concat qs) = i * ?N"
      using l pq by (auto simp: inverse_pair_def in_set_conv_nth intro!: length_concat_all [THEN trans])
    have le: "Suc i * ?N \<le> ?S * ?N" using i by (intro mult_le_mono1) simp
    then have le3: "Suc i * ?N * ?n \<le> length db" using len(3) mult_le_mono1 [OF le, of ?n] by linarith
    have b: "Suc i * ?N \<le> length (permutations st)" "Suc i * ?N \<le> length (inverse_permutations st)"
      using le len(1,2) c by (simp_all add: st(1,2))
    obtain p q st' where s: "single_pass_step single_pass RAND db N n st = Some st'" "inverse_pair ?N p q" "length (buf (sp_rng st')) = 4"
        "curr st' = Suc i * ?N" "moving_db st' = Suc i * ?N * ?n"
        "permutations st' = take (i * ?N) (permutations st) @ p @ drop (Suc i * ?N) (permutations st)"
        "inverse_permutations st' = take (i * ?N) (inverse_permutations st) @ q @ drop (Suc i * ?N) (inverse_permutations st)"
        "length (parities st') = length (parities st)"
        "\<forall>k < ?N. row (parities st') (k * ?n) ?n = map2 (XOR) (row (parities st) (k * ?n) ?n) (row db ((i * ?N + unat (p ! k)) * ?n) ?n)"
      using single_pass_step_eq [OF R(1) st(4) N(2,3) st(5,6) b le3] par st(7) by auto
    have hint: "row (parities st') (k * ?n) ?n = map2 (XOR) (row pars (k * ?n) ?n) (hint_of db ?n ?N (ps @ [p]) k)" if k: "k < ?N" for k
    proof -
      have "unat (p ! k) < ?N" using inverse_pair_less [OF s(2) k] by blast
      then have "length (row db ((i * ?N + unat (p ! k)) * ?n) ?n) = ?n" using chunk_row [OF i _ len(3)] by simp
      moreover have "length (hint_of db ?n ?N ps k) = ?n"
      proof (rule length_hint_of)
        show "\<forall>j < length ps. unat (ps ! j ! k) < ?N" using pq k l(1) inverse_pair_less by blast
        have "i * ?N * ?n \<le> Suc i * ?N * ?n" by (intro mult_le_mono1) simp
        then show "length ps * ?N * ?n \<le> length db" unfolding l(1) using le3 by (rule le_trans)
      qed
      ultimately show ?thesis
        using s(9) st(3) k row0 [OF k] l(1) by (simp add: hint_of_snoc [OF refl] map2_xor_assoc)
    qed
    have "\<forall>j < Suc i. inverse_pair ?N ((ps @ [p]) ! j) ((qs @ [q]) ! j)"
      using pq s(2) l by (auto simp: nth_append less_Suc_eq)
    moreover have "permutations st' = concat (ps @ [p]) @ drop (Suc i * ?N) perms"
      "inverse_permutations st' = concat (qs @ [q]) @ drop (Suc i * ?N) invs"
      using s(6,7) c by (simp_all add: st(1,2) add.commute)
    moreover have "length (ps @ [p]) = Suc i" "length (qs @ [q]) = Suc i" using l by simp_all
    ultimately have "P (Suc i) st'"
      unfolding P_def using hint s(3,4,5,8) st(7) by (intro conjI exI) auto
    with s(1) show "\<exists>t. single_pass_step single_pass RAND db N n st = Some t \<and> P (Suc i) t" by blast
  qed
  then show ?thesis
    using S(1) unfolding answer_single_pass_def N(1) [symmetric] P_def by (auto simp: Let_def)
qed

end


section \<open>Properties\<close>

lemma xors_without:
  assumes "\<forall>r \<in> set rs. length r = n" "k < length rs"
  shows "map2 (XOR) (xors n rs) (xors n (without k rs)) = rs ! k"
proof -
  have e: "rs = take k rs @ rs ! k # drop (Suc k) rs" using assms(2) by (simp add: id_take_nth_drop)
  have l: "length (rs ! k) = n" "\<forall>r \<in> set (take k rs). length r = n" "\<forall>r \<in> set (drop (Suc k) rs). length r = n"
    using assms by (auto dest: in_set_takeD in_set_dropD)
  let ?a = "xors n (take k rs)" and ?b = "xors n (drop (Suc k) rs)"
  have ab: "length ?a = n" "length ?b = n" using l by simp_all
  have "xors n rs = map2 (XOR) ?a (map2 (XOR) (rs ! k) ?b)"
    using l by (subst e) (simp add: xors_append xors_Cons)
  moreover have "xors n (without k rs) = map2 (XOR) ?a ?b"
    using l by (simp add: without_def xors_append)
  moreover have "map2 (XOR) (map2 (XOR) ?a (map2 (XOR) (rs ! k) ?b)) (map2 (XOR) ?a ?b) = rs ! k"
  proof (rule nth_equalityI)
    fix i assume "i < length (map2 (XOR) (map2 (XOR) ?a (map2 (XOR) (rs ! k) ?b)) (map2 (XOR) ?a ?b))"
    then have i: "i < n" using ab l by simp
    have "(x XOR (y XOR z)) XOR (x XOR z) = y" for x y z :: u8
      by (auto simp: bit_eq_iff bit_xor_iff)
    then show "map2 (XOR) (map2 (XOR) ?a (map2 (XOR) (rs ! k) ?b)) (map2 (XOR) ?a ?b) ! i = rs ! k ! i"
      using i ab l by simp
  qed (use ab l in simp)
  ultimately show ?thesis by simp
qed

lemma aligned_rows:
  assumes "n mod 32 < 16 \<or> 16 dvd base \<and> 16 dvd n" "n dvd unat e"
  shows "avx2_aligned base n e"
proof (cases "n mod 32 < 16")
  case False
  then have d: "16 dvd base" "16 dvd n" "16 dvd unat e" using assms by (auto intro: dvd_trans)
  have "32 dvd n - n mod 32" by (simp add: minus_mod_eq_div_mult)
  then have "16 dvd n - n mod 32" by (rule dvd_trans [rotated]) simp
  with d have "16 dvd base + (unat e + (n - n mod 32))" by (intro dvd_add)
  then show ?thesis by (simp add: avx2_aligned_def)
qed (simp add: avx2_aligned_def)

text \<open>C6: \<open>answer\<close>, in both builds: from a seed punctured at \<open>pos\<close> the server computes the parity of the
  rows of the set without that position, and the client's stored parity of the whole set XOR the
  answer is the row at the position.\<close>

theorem answer_recovers_row:
  assumes "unat ss < 2 ^ 29" "pos \<le> ss" "us \<noteq> 0" "gen_ok gen" "set_size gen = ss + 1" "univ_size gen = us"
    and "16 \<le> length seed" "pset_buffer_size gen \<le> 16 * length pset0"
    and "length (ws_keys ws) = 2 ^ get_height (ss + 1)" "length (ws_tmp ws) = 2 ^ get_height (ss + 1)"
      "length (ws_elems ws) = unat ss"
    and "unat us * unat n \<le> unat db_len" "unat db_len \<le> length db" "unat n \<le> unat db_len" "unat n \<le> length out"
  shows "\<exists>g pset a. pset_ggm_punc gen seed pos pset0 = Some (g, pset) \<and>
    answer xor_rows_sse ws pset pos us ss shift db db_len n n out = Some a \<and>
    (unat n mod 32 < 16 \<or> 16 dvd base \<and> 16 dvd unat n \<longrightarrow>
      answer (xor_rows_avx2 base) ws pset pos us ss shift db db_len n n out = Some a) \<and>
    drop (unat n) a = drop (unat n) out \<and>
    map2 (XOR) (xors (unat n) (set_rows db (unat n) us shift (ggm_set (of_lanes (take 16 seed)) gen))) (take (unat n) a) =
      row db (shifted us shift (ggm_set (of_lanes (take 16 seed)) gen ! unat pos) * unat n) (unat n)"
proof -
  let ?s = "of_lanes (take 16 seed) :: m128" and ?n = "unat n"
  let ?gen = "\<lparr>univ_size = us, set_size = ss + 1, keys = ws_keys ws, tmp = ws_tmp ws\<rparr>"
  let ?rows = "set_rows db ?n us shift (ggm_set ?s gen)"
  have s1: "unat (ss + 1) = unat ss + 1" using assms(1) by (simp add: unat_word_ariths)
  have pos: "pos < set_size gen" "unat pos < unat ss + 1"
    using assms(2,5) s1 by (simp_all add: word_less_nat_alt word_le_nat_alt)
  have seed: "toBlock seed 0 = Some ?s" using assms(7) by (simp add: toBlock_eq loadv_in)
  have same: "ggm_punctured ?s ?gen pos = ggm_punctured ?s gen pos" "ggm_set ?s ?gen = ggm_set ?s gen"
    using assms(5,6) by (simp_all add: ggm_punctured_def ggm_set_def)
  let ?pset = "ggm_punctured ?s gen pos @ drop (length (ggm_punctured ?s gen pos)) pset0"
  obtain g where g: "pset_ggm_punc gen seed pos pset0 = Some (g, ?pset)"
    using punc_eq [OF assms(4) seed pos(1) assms(8)] by blast
  let ?a = "xors ?n (without (unat pos) ?rows) @ drop ?n out"
  have w: "without (unat pos) ?rows = set_rows db ?n us shift (without (unat pos) (ggm_set ?s gen))"
    by (simp add: without_def set_rows_def take_map drop_map)
  have rl: "\<forall>r \<in> set ?rows. length r = ?n"
  proof
    fix r assume "r \<in> set ?rows"
    then obtain e where r: "r = row db (shifted us shift e * ?n) ?n" by (auto simp: set_rows_def)
    have "shifted us shift e < unat us" using assms(3) by (simp add: shifted_def unat_gt_0)
    from row_end [OF this assms(12)] assms(13) show "length r = ?n" by (simp add: r)
  qed
  then have rw: "\<forall>r \<in> set (without (unat pos) ?rows). length r = ?n" using set_without by fastforce
  have a: "answer xor_rows_sse ws ?pset pos us ss shift db db_len n n out = Some ?a"
    using sse.answer_eq [OF assms(1-3) refl assms(9-15), of ?s] by (simp add: same w)
  have a2: "answer (xor_rows_avx2 base) ws ?pset pos us ss shift db db_len n n out = Some ?a"
    if "?n mod 32 < 16 \<or> 16 dvd base \<and> 16 dvd ?n"
    using avx2.answer_eq [OF assms(1-3) refl assms(9-15) aligned_rows [OF that], of ?s] by (simp add: same w)
  have "map2 (XOR) (xors ?n ?rows) (take ?n ?a) = ?rows ! unat pos"
    using xors_without [OF rl, of "unat pos"] rw pos s1 assms(5) by (simp add: set_rows_def)
  also have "?rows ! unat pos = row db (shifted us shift (ggm_set ?s gen ! unat pos) * ?n) ?n"
    using pos s1 assms(5) by (simp add: set_rows_def)
  finally show ?thesis using g a a2 rw by (intro exI [of _ g] exI [of _ ?pset] exI [of _ ?a]) simp
qed

theorem answer_recovers_row_witness:
  "\<exists>pset a. answer xor_rows_sse \<lparr>ws_keys = [5, 6], ws_tmp = [7, 8], ws_elems = [9]\<rparr> pset 1 4 1 3 [1, 2, 4, 8] 4 1 1 [0] = Some a \<and>
     map2 (XOR) (xors 1 (set_rows [1, 2, 4, 8] 1 4 3
         (ggm_set (of_lanes (replicate 16 7 :: u8 list)) \<lparr>univ_size = 4, set_size = 2, keys = [0, 0], tmp = [0, 0]\<rparr>))) (take 1 a) =
       row [1, 2, 4, 8] (shifted 4 3 (ggm_set (of_lanes (replicate 16 7 :: u8 list))
         \<lparr>univ_size = 4, set_size = 2, keys = [0, 0], tmp = [0, 0]\<rparr> ! 1)) 1"
proof -
  let ?g = "\<lparr>univ_size = 4, set_size = 2, keys = [0, 0], tmp = [0, 0]\<rparr>"
  have h: "get_height 2 = 1" by (simp add: get_height_def height_loop.simps)
  then have "gen_ok ?g" "pset_buffer_size ?g = 16" by (simp_all add: gen_ok_def pset_buffer_size_def)
  then show ?thesis
    using answer_recovers_row [of 1 1 4 ?g "replicate 16 7" "[0]" "\<lparr>ws_keys = [5, 6], ws_tmp = [7, 8], ws_elems = [9]\<rparr>" 1 4 "[1, 2, 4, 8]" "[0]" 3] h
    by (simp del: replicate_numeral) blast
qed

text \<open>C5: \<open>answer_single_pass\<close>, in both builds: for every chunk of the database it stores a permutation
  and its inverse, and adds to parity \<open>k\<close> the row of every chunk that the permutation of the chunk
  puts at \<open>k\<close>. The random bytes decide only which permutations.\<close>

theorem answer_single_pass_hints:
  assumes "kern \<in> {xor_single_pass_sse, xor_single_pass_avx2}" "rand_ok RAND" "length (buf rng) = 4" "S \<noteq> 0" "unat S < 2 ^ 31"
    and "num div S \<noteq> 0" "unat (num div S) < 2 ^ 31"
    and "unat S * unat (num div S) \<le> length perms" "unat S * unat (num div S) \<le> length invs"
      "unat S * unat (num div S) * unat n \<le> length db"
    and "unat (num div S) * unat n \<le> length pars" "unat (num div S) * unat n < 2 ^ 32"
  shows "\<exists>st ps qs. answer_single_pass kern RAND db num S n pars seed perms invs rng = Some st \<and>
    length ps = unat S \<and> length qs = unat S \<and> (\<forall>j < unat S. inverse_pair (unat (num div S)) (ps ! j) (qs ! j)) \<and>
    permutations st = concat ps @ drop (unat S * unat (num div S)) perms \<and>
    inverse_permutations st = concat qs @ drop (unat S * unat (num div S)) invs \<and>
    (\<forall>k < unat (num div S). row (parities st) (k * unat n) (unat n) =
      map2 (XOR) (row pars (k * unat n) (unat n)) (hint_of db (unat n) (unat (num div S)) ps k))"
  using assms(1) sse.answer_single_pass_eq [OF assms(2-5) refl assms(6-12), of seed]
    avx2.answer_single_pass_eq [OF assms(2-5) refl assms(6-12), of seed]
  by (elim insertE emptyE; blast)

theorem answer_single_pass_hints_witness:
  "\<exists>st ps. answer_single_pass xor_single_pass_avx2 (\<lambda>n b. [200, 1, 2, 3]) [1, 2, 4, 8] 4 2 1 [0, 0] 7 [0, 0, 0, 0] [0, 0, 0, 0]
       \<lparr>calls = 0, buf = [0, 0, 0, 0]\<rparr> = Some st \<and> permutations st = concat ps \<and>
     row (parities st) 0 1 = map2 (XOR) [0] (hint_of [1, 2, 4, 8] 1 2 ps 0)"
proof -
  have "(4 :: u32) div 2 = 2" by (simp add: word_arith_nat_div)
  then obtain st ps where st: "answer_single_pass xor_single_pass_avx2 (\<lambda>n b. [200, 1, 2, 3]) [1, 2, 4, 8] 4 2 1 [0, 0] 7 [0, 0, 0, 0] [0, 0, 0, 0]
       \<lparr>calls = 0, buf = [0, 0, 0, 0]\<rparr> = Some st" "permutations st = concat ps"
     "\<forall>k < 2. row (parities st) k 1 = map2 (XOR) (row [0, 0] k 1) (hint_of [1, 2, 4, 8] 1 2 ps k)"
    using answer_single_pass_hints [of xor_single_pass_avx2 "\<lambda>n b. [200, 1, 2, 3]" "\<lparr>calls = 0, buf = [0, 0, 0, 0]\<rparr>" 2 4
        "[0, 0, 0, 0]" "[0, 0, 0, 0]" 1 "[1, 2, 4, 8]" "[0, 0]" 7]
    by (auto simp: rand_ok_def)
  have "row (parities st) 0 1 = map2 (XOR) (row [0, 0] 0 1) (hint_of [1, 2, 4, 8] 1 2 ps 0)"
    using spec [OF st(3), of 0] by simp
  then have "row (parities st) 0 1 = map2 (XOR) [0] (hint_of [1, 2, 4, 8] 1 2 ps 0)" by (simp add: row_def)
  with st show ?thesis by blast
qed

end
