(* ===== verification/SinglePass.thy ===== *)
theory SinglePass
  imports Answer "HOL-Library.Signed_Division"
begin

text \<open>
  \<open>pir/pir_single_pass.go\<close>: the protocol between a client and two servers that hold the same
  database, with the glue of \<open>psetggm/pset_ggm_c.go\<close> that calls the C kernels. A Go panic (index or
  slice out of range, division by zero, address of the first element of an empty slice) is \<open>None\<close>;
  a returned error is the left of a sum. An \<open>int\<close> that may be negative is an \<open>int\<close>, a length or a
  count is a \<open>nat\<close>: all of them are bounded by the memory that the slices take. The slices of the
  client do not overlap, so they are lists. \<open>rand.Intn\<close> is a function of the number of calls made.
\<close>

section \<open>Go slices and the glue\<close>

definition at :: "'a list \<Rightarrow> int \<Rightarrow> 'a option" where
  "at xs i = (if 0 \<le> i then rd xs (nat i) else None)"

definition put :: "'a list \<Rightarrow> int \<Rightarrow> 'a \<Rightarrow> 'a list option" where
  "put xs i v = (if 0 \<le> i then wr xs (nat i) v else None)"

lemma at_nat [simp]: "at xs (int i) = rd xs i"
  by (simp add: at_def)

lemma put_nat [simp]: "put xs (int i) = wr xs i"
  by (simp add: put_def fun_eq_iff)

lemma at_of [simp]: "0 \<le> i \<Longrightarrow> at xs i = rd xs (nat i)" and put_of [simp]: "0 \<le> i \<Longrightarrow> put xs i = wr xs (nat i)"
  by (simp_all add: at_def put_def fun_eq_iff)

text \<open>\<open>make([]T, n)\<close> of a type of numbers.\<close>

definition zeros :: "nat \<Rightarrow> 'a::zero list" where
  "zeros n = replicate n 0"

lemma length_zeros [simp]: "length (zeros n) = n"
  by (simp add: zeros_def)

text \<open>\<open>FastXorInto(out, in[off : off+len], n)\<close>: \<open>&out[0]\<close> and \<open>&in[0]\<close> need an element.\<close>

type_synonym into_kernel = "u8 list \<Rightarrow> nat \<Rightarrow> u8 list \<Rightarrow> nat \<Rightarrow> u32 \<Rightarrow> u8 list option"
type_synonym rows_kernel = "u8 list \<Rightarrow> u32 \<Rightarrow> u32 \<Rightarrow> u8 list \<Rightarrow> u8 list option"

definition FastXorInto :: "into_kernel \<Rightarrow> u8 list \<Rightarrow> u8 list \<Rightarrow> nat \<Rightarrow> nat \<Rightarrow> nat \<Rightarrow> u8 list option" where
  "FastXorInto into out inp off l elemSize =
     (if out \<noteq> [] \<and> 0 < l \<and> off + l \<le> length inp then into out 0 inp off (of_nat elemSize) else None)"

definition CopyIn :: "into_kernel \<Rightarrow> u8 list \<Rightarrow> nat \<Rightarrow> nat \<Rightarrow> u8 list \<Rightarrow> nat \<Rightarrow> nat \<Rightarrow> u8 list option" where
  "CopyIn into out off l db index elemSize =
     (if 0 < l \<and> off + l \<le> length out \<and> index * elemSize < length db
      then into out off db (index * elemSize) (of_nat elemSize) else None)"

definition XorBlocksTogether :: "rows_kernel \<Rightarrow> u8 list \<Rightarrow> u8 list \<Rightarrow> nat \<Rightarrow> nat \<Rightarrow> u8 list option" where
  "XorBlocksTogether all_rows db out elemSize numElems =
     (if db \<noteq> [] \<and> out \<noteq> [] then all_rows db (of_nat numElems) (of_nat elemSize) out else None)"

text \<open>\<open>%\<close> of Go truncates.\<close>

definition MathMod :: "int \<Rightarrow> int \<Rightarrow> int option" where
  "MathMod x m = (if m = 0 then None else let out = x smod m in Some (if out < 0 then out + m else out))"

section \<open>The client\<close>

record static_db =
  NumRows :: nat
  RowLen :: nat
  Version :: nat
  FlatDb :: "u8 list"

record client =
  c_nRows :: nat
  c_RowLen :: nat
  setSize :: nat
  hints :: "u8 list list"
  nHints :: nat
  randSource :: nat
  idxToSetIdx :: "u32 list list"
  setIdxToIdx :: "u32 list list"
  c_currVersion :: int

record hint_resp =
  resp_NRows :: nat
  resp_RowLen :: nat
  resp_SetSize :: nat
  resp_Hints :: "u8 list list"
  resp_NHints :: nat
  resp_Permutations :: "u32 list"
  resp_InversePermutations :: "u32 list"
  resp_Version :: nat

text \<open>
  \<open>int(math.Sqrt(float64(n)))\<close>: the rounded root of a double and the exact one have the same integer
  part below \<open>2^52\<close>.
\<close>

definition int_sqrt :: "nat \<Rightarrow> nat" where
  "int_sqrt n = length (takeWhile (\<lambda>k. k * k \<le> n) [1..<Suc n])"

text \<open>The server's answer to \<open>SinglePassHintReq\<close>; \<open>seed\<close> is the squashed key.\<close>

definition hint_process :: "(u8 list \<Rightarrow> nat \<Rightarrow> u32 list \<Rightarrow> nat \<Rightarrow> u32 \<Rightarrow> u8 list \<Rightarrow> u32 \<Rightarrow> u8 list option) \<Rightarrow> rand \<Rightarrow>
    nat \<Rightarrow> u8 list \<Rightarrow> static_db \<Rightarrow> rng \<Rightarrow> (rng \<times> hint_resp) option" where
  "hint_process single_pass RAND reqSetSize RandSeed db rng =
     (let s = if reqSetSize \<noteq> 0 then reqSetSize else int_sqrt (NumRows db); n = NumRows db div s;
        seed = of_nat (sum_list (map unat RandSeed))
      in if s = 0 \<or> FlatDb db = [] \<or> n * RowLen db = 0 \<or> NumRows db = 0 then None
      else do {
        st \<leftarrow> answer_single_pass single_pass RAND (FlatDb db) (of_nat (NumRows db)) (of_nat s) (of_nat (RowLen db))
          (zeros (n * RowLen db)) seed (zeros (NumRows db)) (zeros (NumRows db)) rng;
        Some (sp_rng st, \<lparr>resp_NRows = NumRows db, resp_RowLen = RowLen db, resp_SetSize = s,
          resp_Hints = map (\<lambda>i. take (RowLen db) (drop (RowLen db * i) (parities st))) [0..<n], resp_NHints = n,
          resp_Permutations = permutations st, resp_InversePermutations = inverse_permutations st, resp_Version = Version db\<rparr>)
      })"

text \<open>The loop of \<open>initState\<close>: \<open>permutations[ind : ind+nHints]\<close> for every chunk.\<close>

function initState_loop :: "nat \<Rightarrow> nat \<Rightarrow> u32 list \<Rightarrow> u32 list \<Rightarrow> nat \<Rightarrow> nat \<Rightarrow>
    u32 list list \<Rightarrow> u32 list list \<Rightarrow> (u32 list list \<times> u32 list list) option" where
  "initState_loop s n perms invs ind i P Q =
     (if ind < length perms then
        if i < s \<and> ind + n \<le> length perms \<and> ind + n \<le> length invs
        then initState_loop s n perms invs (ind + n) (Suc i)
          (P[i := take n (drop ind perms)]) (Q[i := take n (drop ind invs)])
        else None
      else Some (P, Q))"
  by pat_completeness auto
termination
  by (relation "measure (\<lambda>(s, n, perms, invs, ind, i, P, Q). s - i)") auto

declare initState_loop.simps [simp del]

definition initState :: "client \<Rightarrow> u32 list \<Rightarrow> u32 list \<Rightarrow> client option" where
  "initState c perms invs = do {
     (P, Q) \<leftarrow> initState_loop (setSize c) (nHints c) perms invs 0 0
       (replicate (setSize c) []) (replicate (setSize c) []);
     Some (c\<lparr>idxToSetIdx := P, setIdxToIdx := Q\<rparr>)
   }"

definition InitClient :: "hint_resp \<Rightarrow> nat \<Rightarrow> client option" where
  "InitClient resp src = initState
     \<lparr>c_nRows = resp_NRows resp, c_RowLen = resp_RowLen resp, setSize = resp_SetSize resp, hints = resp_Hints resp,
      nHints = resp_NHints resp, randSource = src, idxToSetIdx = [], setIdxToIdx = [], c_currVersion = int (resp_Version resp)\<rparr>
     (resp_Permutations resp) (resp_InversePermutations resp)"

definition findIndex :: "client \<Rightarrow> int \<Rightarrow> (int \<times> int \<times> int) option" where
  "findIndex c index =
     (if index \<ge> int (c_nRows c) then Some (-1, -1, -1)
      else if nHints c = 0 then None
      else
        let i0 = index sdiv int (nHints c); i1 = index - i0 * int (nHints c)
        in do {
          q \<leftarrow> at (setIdxToIdx c) i0;
          v \<leftarrow> at q i1;
          Some (i0, i1, int (unat v))
        })"

section \<open>A query\<close>

definition randomIdx :: "(nat \<Rightarrow> nat \<Rightarrow> nat) \<Rightarrow> nat \<Rightarrow> client \<Rightarrow> (client \<times> u32) option" where
  "randomIdx Intn rangeMax c =
     (if rangeMax = 0 then None
      else Some (c\<lparr>randSource := Suc (randSource c)\<rparr>, of_nat (Intn (randSource c) rangeMax)))"

record query_req =
  PRSet :: "u32 list"
  SetSize :: nat

text \<open>What the closure returned by \<open>Query\<close> remembers.\<close>

record pending =
  index_0 :: int
  p_pos :: int
  randSwaps :: "u32 list"

definition query_step :: "(nat \<Rightarrow> nat \<Rightarrow> nat) \<Rightarrow> int \<Rightarrow> nat \<Rightarrow> client \<times> u32 list \<times> u32 list \<times> u32 list \<Rightarrow>
    (client \<times> u32 list \<times> u32 list \<times> u32 list) option" where
  "query_step Intn pos j = (\<lambda>(c, setOnline, setOffline, swaps). do {
     p \<leftarrow> rd (idxToSetIdx c) j;
     v \<leftarrow> at p pos;
     setOnline \<leftarrow> wr setOnline j v;
     (c, r) \<leftarrow> randomIdx Intn (nHints c) c;
     swaps \<leftarrow> wr swaps j r;
     v \<leftarrow> rd p (unat r);
     setOffline \<leftarrow> wr setOffline j v;
     Some (c, setOnline, setOffline, swaps)
   })"

definition Query :: "(nat \<Rightarrow> nat \<Rightarrow> nat) \<Rightarrow> client \<Rightarrow> int \<Rightarrow> (client \<times> query_req \<times> query_req \<times> pending) option" where
  "Query Intn c i =
     (if length (hints c) < 1 then None
      else do {
        i \<leftarrow> MathMod i (int (c_nRows c));
        (i0, _, pos) \<leftarrow> findIndex c i;
        (c, setOnline, setOffline, swaps) \<leftarrow> for_range 0 (setSize c) (query_step Intn pos)
          (c, zeros (setSize c), zeros (setSize c), zeros (setSize c));
        p \<leftarrow> at (idxToSetIdx c) i0;
        r \<leftarrow> at swaps i0;
        v \<leftarrow> rd p (unat r);
        setOnline \<leftarrow> put setOnline i0 v;
        Some (c, \<lparr>PRSet = setOffline, SetSize = setSize c\<rparr>, \<lparr>PRSet = setOnline, SetSize = setSize c\<rparr>,
          \<lparr>index_0 = i0, p_pos = pos, randSwaps = swaps\<rparr>)
      })"

text \<open>The server copies the rows at the requested places into one answer.\<close>

definition query_process :: "into_kernel \<Rightarrow> query_req \<Rightarrow> static_db \<Rightarrow> u8 list option" where
  "query_process into q db =
     (let n = RowLen db
      in if SetSize q = 0 then None
      else
        let offset = NumRows db div SetSize q
        in for_range 0 (SetSize q) (\<lambda>i ans. do {
             s \<leftarrow> rd (PRSet q) i;
             CopyIn into ans (i * n) n (FlatDb db) (offset * i + unat s) n
           }) (zeros (SetSize q * n)))"

section \<open>Reconstruction\<close>

text \<open>A response is of any type until the closure has looked at it.\<close>

datatype response = QueryResp "u8 list" | OtherResp

datatype go_error = InvalidResponseType | UnexpectedAnswers nat | VersionTooOld | DifferentSizes

definition reconstruct_step :: "into_kernel \<Rightarrow> u8 list \<Rightarrow> u8 list \<Rightarrow> nat \<Rightarrow> pending \<Rightarrow> nat \<Rightarrow> client \<Rightarrow> client option" where
  "reconstruct_step into ans0 ans1 elemSize q i c = do {
     r \<leftarrow> rd (randSwaps q) i;
     h \<leftarrow> rd (hints c) (unat r);
     h \<leftarrow> FastXorInto into h ans0 (i * elemSize) elemSize elemSize;
     h \<leftarrow> FastXorInto into h ans1 (i * elemSize) elemSize elemSize;
     hs \<leftarrow> wr (hints c) (unat r) h;
     p \<leftarrow> rd (idxToSetIdx c) i;
     temp1 \<leftarrow> at p (p_pos q);
     temp2 \<leftarrow> rd p (unat r);
     p \<leftarrow> put p (p_pos q) temp2;
     p \<leftarrow> wr p (unat r) temp1;
     v \<leftarrow> rd (setIdxToIdx c) i;
     v \<leftarrow> wr v (unat temp1) r;
     v \<leftarrow> wr v (unat temp2) (of_int (p_pos q));
     Some (c\<lparr>hints := hs, idxToSetIdx := (idxToSetIdx c)[i := p], setIdxToIdx := (setIdxToIdx c)[i := v]\<rparr>)
   }"

definition reconstruct :: "into_kernel \<Rightarrow> rows_kernel \<Rightarrow> client \<Rightarrow> u8 list list \<Rightarrow> pending \<Rightarrow>
    (client \<times> (go_error + u8 list)) option" where
  "reconstruct into all_rows c resp q =
     (if length resp \<noteq> 2 then Some (c, Inl (UnexpectedAnswers (length resp)))
      else do {
        h0 \<leftarrow> rd (hints c) 0;
        let elemSize = length h0;
        let ans0 = resp ! 0;
        let ans1 = resp ! 1;
        xorResp0 \<leftarrow> XorBlocksTogether all_rows ans0 (zeros elemSize) elemSize (setSize c);
        xorResp1 \<leftarrow> XorBlocksTogether all_rows ans1 (zeros elemSize) elemSize (setSize c);
        out \<leftarrow> FastXorInto into (zeros elemSize) xorResp1 0 (length xorResp1) elemSize;
        h \<leftarrow> at (hints c) (p_pos q);
        out \<leftarrow> FastXorInto into out h 0 (length h) elemSize;
        off \<leftarrow> (if 0 \<le> index_0 q then Some (nat (index_0 q) * elemSize) else None);
        out \<leftarrow> FastXorInto into out ans1 off elemSize elemSize;
        hs \<leftarrow> put (hints c) (p_pos q) xorResp0;
        c \<leftarrow> for_range 0 (setSize c) (reconstruct_step into ans0 ans1 elemSize q) (c\<lparr>hints := hs\<rparr>);
        r \<leftarrow> at (randSwaps q) (index_0 q);
        h \<leftarrow> rd (hints c) (unat r);
        h \<leftarrow> FastXorInto into h ans1 off elemSize elemSize;
        h \<leftarrow> FastXorInto into h out 0 (length out) elemSize;
        hs \<leftarrow> wr (hints c) (unat r) h;
        Some (c\<lparr>hints := hs\<rparr>, Inr out)
      })"

text \<open>The closure: all responses must be answers.\<close>

fun answers :: "response list \<Rightarrow> u8 list list option" where
  "answers [] = Some []"
| "answers (QueryResp a # rs) = map_option ((#) a) (answers rs)"
| "answers (OtherResp # rs) = None"

definition reconstruct_closure :: "into_kernel \<Rightarrow> rows_kernel \<Rightarrow> client \<Rightarrow> pending \<Rightarrow> response list \<Rightarrow>
    (client \<times> (go_error + u8 list)) option" where
  "reconstruct_closure into all_rows c q resps =
     (case answers resps of
       None \<Rightarrow> Some (c, Inl InvalidResponseType)
     | Some as \<Rightarrow> reconstruct into all_rows c as q)"

text \<open>A query with its two answers.\<close>

definition query_round :: "into_kernel \<Rightarrow> rows_kernel \<Rightarrow> (nat \<Rightarrow> nat \<Rightarrow> nat) \<Rightarrow> static_db \<Rightarrow> static_db \<Rightarrow> client \<Rightarrow> int \<Rightarrow>
    (client \<times> (go_error + u8 list)) option" where
  "query_round into all_rows Intn db0 db1 c i = do {
     (c, q0, q1, pend) \<leftarrow> Query Intn c i;
     a0 \<leftarrow> query_process into q0 db0;
     a1 \<leftarrow> query_process into q1 db1;
     reconstruct_closure into all_rows c pend [QueryResp a0, QueryResp a1]
   }"

section \<open>The rest of the client\<close>

text \<open>The key of a hint request is read from the random source; \<open>ReadKey k\<close> is the read number \<open>k\<close>.\<close>

definition NewSinglePassHintReq :: "(nat \<Rightarrow> u8 list) \<Rightarrow> nat \<Rightarrow> nat \<Rightarrow> nat \<times> u8 list \<times> nat" where
  "NewSinglePassHintReq ReadKey src reqSetSize = (Suc src, ReadKey src, reqSetSize)"

text \<open>Rejection sampling without a bound.\<close>

partial_function (option) randomIdxExcept :: "(nat \<Rightarrow> nat \<Rightarrow> nat) \<Rightarrow> nat \<Rightarrow> int \<Rightarrow> client \<Rightarrow> (client \<times> nat) option" where
  "randomIdxExcept Intn rangeMax idx c =
     (if rangeMax = 0 then None
      else
        let val = Intn (randSource c) rangeMax; c = c\<lparr>randSource := Suc (randSource c)\<rparr>
        in if int val \<noteq> idx then Some (c, val) else randomIdxExcept Intn rangeMax idx c)"

text \<open>The dummy request divides by zero in \<open>Process\<close>: the server panics, whatever its database.\<close>

definition DummyQuery :: query_req where
  "DummyQuery = \<lparr>PRSet = zeros 1, SetSize = 0\<rparr>"

lemma dummy_query_panics: "query_process into DummyQuery db = None"
  by (simp add: query_process_def DummyQuery_def)

end
