(* ===== verification/Protocol.thy ===== *)
theory Protocol
  imports SinglePass
begin

text \<open>
  What the single-pass protocol promises: the state of the client stays in step with the database,
  and every query returns the row that it asks for. The client state is in step when every chunk has
  a permutation with its inverse and every hint is the parity that the permutations define.
\<close>

section \<open>Parities under a change of one permutation\<close>

lemma nth_map2_xor: "k < length a \<Longrightarrow> k < length b \<Longrightarrow> map2 (XOR) a b ! k = a ! k XOR (b ! k :: u8)"
  by simp

lemma xors_update:
  assumes "j < length rs" "\<forall>r \<in> set rs. length r = n" "length r = n"
  shows "xors n (rs[j := r]) = map2 (XOR) (map2 (XOR) (xors n rs) (rs ! j)) r"
proof -
  let ?A = "take j rs" and ?B = "drop (Suc j) rs"
  have e: "rs = ?A @ rs ! j # ?B" using assms(1) by (simp add: id_take_nth_drop)
  have u: "rs[j := r] = ?A @ r # ?B" using assms(1) by (simp add: upd_conv_take_nth_drop)
  have A: "\<forall>r \<in> set ?A. length r = n" and B: "\<forall>r \<in> set ?B. length r = n"
    using assms(2) by (auto dest: in_set_takeD in_set_dropD)
  have x: "length (rs ! j) = n" using assms(1,2) by simp
  have s: "xors n (?A @ y # ?B) = map2 (XOR) (xors n ?A) (map2 (XOR) y (xors n ?B))" if "length y = n" for y
    using that A B by (simp add: xors_append xors_Cons)
  have l: "length (xors n ?A) = n" "length (xors n ?B) = n" using A B by simp_all
  have "xors n rs = map2 (XOR) (xors n ?A) (map2 (XOR) (rs ! j) (xors n ?B))" using s [OF x] e by simp
  then show ?thesis
    unfolding u s [OF assms(3)] using l x assms(3)
    by (intro nth_equalityI) (simp_all add: xor.assoc xor.left_commute xor.commute)
qed

text \<open>The row that chunk \<open>j\<close> gives for value \<open>v\<close> of its permutation.\<close>

definition chunk_at :: "u8 list \<Rightarrow> nat \<Rightarrow> nat \<Rightarrow> nat \<Rightarrow> u32 \<Rightarrow> u8 list" where
  "chunk_at db n M j v = row db ((j * M + unat v) * n) n"

lemma length_chunk_at [simp]:
  "j < S \<Longrightarrow> unat v < M \<Longrightarrow> S * M * n \<le> length db \<Longrightarrow> length (chunk_at db n M j v) = n"
  using chunk_row [of j S "unat v" M n "length db"] by (simp add: chunk_at_def)

lemma hint_of_chunks: "hint_of db n M ps k = xors n (map (\<lambda>j. chunk_at db n M j (ps ! j ! k)) [0..<length ps])"
  by (simp add: hint_of_def chunk_at_def)

definition picks :: "u8 list \<Rightarrow> nat \<Rightarrow> nat \<Rightarrow> u32 list \<Rightarrow> u8 list" where
  "picks db n M vs = xors n (map (\<lambda>j. chunk_at db n M j (vs ! j)) [0..<length vs])"

lemma hint_of_picks: "hint_of db n M ps k = picks db n M (map (\<lambda>p. p ! k) ps)"
  unfolding hint_of_chunks picks_def by (intro arg_cong [of _ _ "xors n"] map_cong) simp_all

lemma length_picks:
  assumes "\<forall>v \<in> set vs. unat v < M" "length vs * M * n \<le> length db"
  shows "length (picks db n M vs) = n"
  unfolding picks_def using assms by (intro length_xors) (auto simp: all_set_conv_all_nth)

lemma picks_update:
  assumes "j < length vs" "\<forall>v \<in> set vs. unat v < M" "unat v < M" "length vs * M * n \<le> length db"
  shows "picks db n M (vs[j := v]) = map2 (XOR) (map2 (XOR) (picks db n M vs) (chunk_at db n M j (vs ! j))) (chunk_at db n M j v)"
proof -
  let ?rs = "map (\<lambda>j. chunk_at db n M j (vs ! j)) [0..<length vs]"
  have "map (\<lambda>i. chunk_at db n M i (vs[j := v] ! i)) [0..<length vs] = ?rs[j := chunk_at db n M j v]"
    using assms(1) by (intro nth_equalityI) (simp_all add: nth_list_update)
  moreover have "\<forall>r \<in> set ?rs. length r = n" using assms by auto
  moreover have "length (chunk_at db n M j v) = n" using assms by simp
  ultimately show ?thesis using xors_update [of j ?rs n "chunk_at db n M j v"] assms(1)
    by (simp add: picks_def)
qed

section \<open>Swapping two places of a permutation\<close>

definition swapped :: "nat \<Rightarrow> nat \<Rightarrow> 'a list \<Rightarrow> 'a list" where
  "swapped a b p = p[a := p ! b, b := p ! a]"

lemma length_swapped [simp]: "length (swapped a b p) = length p"
  by (simp add: swapped_def)

lemma nth_swapped:
  "a < length p \<Longrightarrow> b < length p \<Longrightarrow> k < length p \<Longrightarrow>
   swapped a b p ! k = (if k = b then p ! a else if k = a then p ! b else p ! k)"
  by (simp add: swapped_def nth_list_update)

lemma mset_swapped: "a < length p \<Longrightarrow> b < length p \<Longrightarrow> mset (swapped a b p) = mset p"
  by (simp add: swapped_def mset_swap)

lemma is_perm_swapped: "is_perm p \<Longrightarrow> a < length p \<Longrightarrow> b < length p \<Longrightarrow> is_perm (swapped a b p)"
  using mset_swapped [of a p b] by (metis is_perm_def length_swapped mset_eq_imp_distinct_iff mset_eq_setD)

lemma inverse_pair_swapped:
  assumes "inverse_pair M p q" "a < M" "b < M" "M < 2 ^ 32"
  shows "inverse_pair M (swapped a b p) (q[unat (p ! a) := of_nat b, unat (p ! b) := of_nat a])"
proof -
  let ?p = "swapped a b p" and ?q = "q[unat (p ! a) := of_nat b, unat (p ! b) := of_nat a]"
  have l: "length p = M" "length q = M" and d: "distinct p" "is_perm p" "is_perm q"
    and pq: "\<forall>i < M. q ! unat (p ! i) = of_nat i \<and> p ! unat (q ! i) = of_nat i"
    using assms(1) by (auto simp: inverse_pair_def is_perm_def)
  have lt: "unat (p ! i) < M" if "i < M" for i using inverse_pair_less [OF assms(1) that] by blast
  have inj: "p ! i = p ! j \<longleftrightarrow> i = j" if "i < M" "j < M" for i j
    using d(1) l(1) that by (simp add: nth_eq_iff_index_eq)
  have fwd: "?q ! unat (?p ! i) = of_nat i" if i: "i < M" for i
  proof -
    have "unat (p ! i) = unat (p ! a) \<longleftrightarrow> i = a" "unat (p ! i) = unat (p ! b) \<longleftrightarrow> i = b" "unat (p ! b) = unat (p ! a) \<longleftrightarrow> b = a"
      using inj [OF i assms(2)] inj [OF i assms(3)] inj [OF assms(3,2)] by (simp_all add: word_unat_eq_iff)
    then show ?thesis
      using assms(2,3) i l lt pq by (auto simp: nth_swapped)
  qed
  have s: "swapped (unat (p ! a)) (unat (p ! b)) q = ?q"
    using pq assms(2,3) by (simp add: swapped_def)
  have perms: "is_perm ?p" "is_perm ?q" "length ?p = M" "length ?q = M"
    using is_perm_swapped [OF d(2)] is_perm_swapped [OF d(3), of "unat (p ! a)" "unat (p ! b)"] assms(2,3) l lt
    by (simp_all add: s)
  have "?p ! unat (?q ! k) = of_nat k" if k: "k < M" for k
  proof -
    obtain i where i: "i < M" "unat (?p ! i) = k"
      using is_perm_onto [OF perms(1), of k] k perms(3) assms(4) by auto
    have "?q ! k = of_nat i" using fwd [OF i(1)] i(2) by simp
    moreover have "?p ! i = of_nat k" using i(2) by (simp flip: i(2))
    ultimately show ?thesis using i(1) assms(4) by (simp add: unat_of_nat_u32)
  qed
  with fwd perms show ?thesis by (simp add: inverse_pair_def)
qed


section \<open>The client in step with the database\<close>

definition client_ok :: "u8 list \<Rightarrow> nat \<Rightarrow> nat \<Rightarrow> client \<Rightarrow> bool" where
  "client_ok db n M c \<longleftrightarrow>
     0 < n \<and> n < 2 ^ 32 \<and> 0 < M \<and> M < 2 ^ 32 \<and> 0 < setSize c \<and> setSize c < 2 ^ 31 \<and>
     setSize c * M * n \<le> length db \<and> nHints c = M \<and> c_nRows c = setSize c * M \<and> c_RowLen c = n \<and>
     length (idxToSetIdx c) = setSize c \<and> length (setIdxToIdx c) = setSize c \<and> length (hints c) = M \<and>
     (\<forall>j < setSize c. inverse_pair M (idxToSetIdx c ! j) (setIdxToIdx c ! j)) \<and>
     (\<forall>k < M. hints c ! k = hint_of db n M (idxToSetIdx c) k)"

definition Intn_ok :: "(nat \<Rightarrow> nat \<Rightarrow> nat) \<Rightarrow> bool" where
  "Intn_ok Intn \<longleftrightarrow> (\<forall>k m. 0 < m \<longrightarrow> Intn k m < m)"

lemma MathMod_eq: "0 < m \<Longrightarrow> MathMod x m = Some (x mod m)"
proof (cases "0 \<le> x")
  case False
  assume m: "0 < m"
  have s: "x smod m = - (- x mod m)" using False m by (simp add: signed_modulo_int_def)
  show ?thesis
  proof (cases "- x mod m = 0")
    case True
    then have "m dvd x" by auto
    with True s m show ?thesis by (simp add: MathMod_def)
  next
    case nz: False
    then have "0 < - x mod m" using m by (simp add: order_less_le)
    moreover have "x mod m = m - - x mod m" using nz zmod_zminus1_eq_if [of "- x" m] by simp
    ultimately show ?thesis using s m by (simp add: MathMod_def)
  qed
qed (auto simp: MathMod_def signed_modulo_int_def sgn_if Let_def not_less)

lemma findIndex_eq:
  assumes ok: "client_ok db n M c" and k: "k < c_nRows c"
  shows "findIndex c (int k) = Some (int (k div M), int (k mod M), int (unat (setIdxToIdx c ! (k div M) ! (k mod M))))"
    and "k div M < setSize c" and "k mod M < M"
proof -
  have M: "0 < M" "nHints c = M" "length (setIdxToIdx c) = setSize c" and S: "c_nRows c = setSize c * M"
    using ok by (simp_all add: client_ok_def)
  show i: "k div M < setSize c" using k S M(1) by (simp add: less_mult_imp_div_less)
  show j: "k mod M < M" using M(1) by simp
  have "length (setIdxToIdx c ! (k div M)) = M" using ok i by (simp add: client_ok_def inverse_pair_def)
  moreover have "int k sdiv int M = int (k div M)" by (auto simp: signed_divide_int_def zdiv_int sgn_if)
  moreover have "int k - int (k div M) * int M = int (k mod M)"
    by (metis minus_div_mult_eq_mod of_nat_diff of_nat_mult div_times_less_eq_dividend)
  ultimately show "findIndex c (int k) = Some (int (k div M), int (k mod M), int (unat (setIdxToIdx c ! (k div M) ! (k mod M))))"
    using k i j M by (simp add: findIndex_def Let_def rd_in)
qed

section \<open>The query\<close>

definition draws :: "(nat \<Rightarrow> nat \<Rightarrow> nat) \<Rightarrow> client \<Rightarrow> u32 list" where
  "draws Intn c = map (\<lambda>j. of_nat (Intn (randSource c + j) (nHints c))) [0..<setSize c]"

definition offline_set :: "client \<Rightarrow> u32 list \<Rightarrow> u32 list" where
  "offline_set c sw = map (\<lambda>j. idxToSetIdx c ! j ! unat (sw ! j)) [0..<setSize c]"

definition online_set :: "client \<Rightarrow> nat \<Rightarrow> u32 list" where
  "online_set c pos = map (\<lambda>j. idxToSetIdx c ! j ! pos) [0..<setSize c]"

lemma draws_less:
  assumes "Intn_ok Intn" "client_ok db n M c" "j < setSize c"
  shows "unat (draws Intn c ! j) < M"
proof -
  have "Intn (randSource c + j) M < M" "M < 2 ^ 32" "nHints c = M" using assms by (simp_all add: Intn_ok_def client_ok_def)
  then show ?thesis using assms(3) by (simp add: draws_def unat_of_nat_u32)
qed

lemma query_loop:
  assumes ok: "client_ok db n M c" "Intn_ok Intn" and pos: "pos < M"
  shows "for_range 0 (setSize c) (query_step Intn (int pos)) (c, zeros (setSize c), zeros (setSize c), zeros (setSize c)) =
    Some (c\<lparr>randSource := randSource c + setSize c\<rparr>, online_set c pos, offline_set c (draws Intn c), draws Intn c)"
proof -
  let ?z = "zeros (setSize c) :: u32 list" and ?P = "idxToSetIdx c"
  let ?on = "\<lambda>j. ?P ! j ! pos" and ?sw = "\<lambda>j. of_nat (Intn (randSource c + j) (nHints c)) :: u32"
  let ?off = "\<lambda>j. ?P ! j ! unat (draws Intn c ! j)"
  let ?g = "\<lambda>j. (c\<lparr>randSource := randSource c + j\<rparr>, filled ?on ?z j, filled ?off ?z j, filled ?sw ?z j)"
  have "for_range 0 (setSize c) (query_step Intn (int pos)) (?g 0) = Some (?g (setSize c))"
  proof (rule for_range_state)
    fix j assume j: "j < setSize c"
    have M: "nHints c = M" "0 < M" "length ?P = setSize c" "length (?P ! j) = M"
      using ok j by (simp_all add: client_ok_def inverse_pair_def)
    have d: "draws Intn c ! j = ?sw j" "unat (?sw j) < M"
      using draws_less [OF ok(2,1) j] j by (simp_all add: draws_def)
    show "query_step Intn (int pos) j (?g j) = Some (?g (Suc j))"
      using j M pos d wr_filled [of j ?z ?on] wr_filled [of j ?z ?off] wr_filled [of j ?z ?sw] by (simp add: query_step_def randomIdx_def rd_in)
  qed simp
  then show ?thesis
    by (simp add: filled_def zeros_def online_set_def offline_set_def draws_def)
qed

lemma Query_eq:
  assumes ok: "client_ok db n M c" "Intn_ok Intn"
    and k: "k = nat (i mod int (c_nRows c))" "i0 = k div M" "pos = unat (setIdxToIdx c ! i0 ! (k mod M))"
  shows "Query Intn c i = Some (c\<lparr>randSource := randSource c + setSize c\<rparr>,
      \<lparr>PRSet = offline_set c (draws Intn c), SetSize = setSize c\<rparr>,
      \<lparr>PRSet = (online_set c pos)[i0 := offline_set c (draws Intn c) ! i0], SetSize = setSize c\<rparr>,
      \<lparr>index_0 = int i0, p_pos = int pos, randSwaps = draws Intn c\<rparr>)"
    and "k < c_nRows c" "i0 < setSize c" "pos < M" "idxToSetIdx c ! i0 ! pos = of_nat (k mod M)"
proof -
  have c: "0 < c_nRows c" "hints c \<noteq> []" "nHints c = M" "0 < M" "length (idxToSetIdx c) = setSize c"
    using ok(1) by (auto simp: client_ok_def)
  have i: "i mod int (c_nRows c) = int k" using k(1) c(1) by simp
  then show kl: "k < c_nRows c" using c(1) by (metis of_nat_less_iff of_nat_0_less_iff pos_mod_bound)
  note f = findIndex_eq [OF ok(1) kl, folded k(2)]
  show i0: "i0 < setSize c" using f(2) .
  then have pq: "inverse_pair M (idxToSetIdx c ! i0) (setIdxToIdx c ! i0)" using ok(1) by (simp add: client_ok_def)
  show pos: "pos < M" using inverse_pair_less [OF pq f(3)] k(3) by simp
  show "idxToSetIdx c ! i0 ! pos = of_nat (k mod M)" using pq f(3) k(3) by (simp add: inverse_pair_def)
  have d: "unat (draws Intn c ! i0) < M" by (rule draws_less [OF ok(2,1) i0])
  have "length (idxToSetIdx c ! i0) = M" using pq by (simp add: inverse_pair_def)
  then show "Query Intn c i = Some (c\<lparr>randSource := randSource c + setSize c\<rparr>,
      \<lparr>PRSet = offline_set c (draws Intn c), SetSize = setSize c\<rparr>,
      \<lparr>PRSet = (online_set c pos)[i0 := offline_set c (draws Intn c) ! i0], SetSize = setSize c\<rparr>,
      \<lparr>index_0 = int i0, p_pos = int pos, randSwaps = draws Intn c\<rparr>)"
    using c i0 d MathMod_eq [of "int (c_nRows c)" i] i f(1) query_loop [OF ok pos] k(3)
    by (simp add: Query_def rd_in wr_in online_set_def offline_set_def draws_def)
qed


section \<open>The answers\<close>

lemma length_joined: "\<forall>i < k. length (f i) = n \<Longrightarrow> length (concat (map f [0..<k])) = k * n"
  by (induction k) simp_all

lemma row_joined:
  assumes "\<forall>i < S. length (f i) = n" "i < S"
  shows "row (concat (map f [0..<S])) (i * n) n = f i"
proof -
  have "[0..<S] = [0..<i] @ i # [Suc i..<S]"
    using upt_add_eq_append [of 0 i "S - i"] upt_conv_Cons [OF assms(2)] assms(2) by simp
  then have "concat (map f [0..<S]) = concat (map f [0..<i]) @ f i @ concat (map f [Suc i..<S])" by simp
  moreover have "length (concat (map f [0..<i])) = i * n" using assms by (intro length_joined) simp
  ultimately show ?thesis using assms by (simp add: row_def)
qed

lemma xor_at_zeros:
  "length A = a \<Longrightarrow> length r = n \<Longrightarrow> xor_at (A @ replicate n 0 @ B) a r = A @ r @ B"
  by (rule nth_equalityI) (auto simp: nth_xor_at nth_append)

lemma unat_of_nat_bytes: "n < 2 ^ 32 \<Longrightarrow> unat (of_nat n :: u32) = n"
  by (rule unat_of_nat_u32)

context xor_kernel
begin

lemma FastXorInto_eq:
  assumes "length out = n" "0 < n" "n < 2 ^ 32" "0 < l" "off + l \<le> length inp" "off + n \<le> length inp"
  shows "FastXorInto into out inp off l n = Some (map2 (XOR) out (row inp off n))"
proof -
  have "into out 0 inp off (of_nat n) = Some (xor_at out 0 (row inp off n))"
    using into [of 0 "of_nat n" out off inp] assms by (simp add: unat_of_nat_u32)
  moreover have "length (row inp off n) = n" using assms(6) by simp
  moreover have "out \<noteq> []" using assms(1,2) by auto
  ultimately show ?thesis using assms by (simp add: FastXorInto_def xor_at_0)
qed

lemma query_process_eq:
  assumes n: "0 < n" "n < 2 ^ 32" "RowLen db = n" and S: "0 < S" "NumRows db div S = M" "S * M * n \<le> length (FlatDb db)"
    and vs: "length vs = S" "\<forall>v \<in> set vs. unat v < M"
  shows "query_process into \<lparr>PRSet = vs, SetSize = S\<rparr> db =
    Some (concat (map (\<lambda>j. chunk_at (FlatDb db) n M j (vs ! j)) [0..<S]))"
proof -
  let ?db = "FlatDb db" and ?f = "\<lambda>j. chunk_at (FlatDb db) n M j (vs ! j)"
  let ?g = "\<lambda>j. concat (map ?f [0..<j]) @ zeros ((S - j) * n)"
  let ?body = "\<lambda>i ans. do { s \<leftarrow> rd vs i; CopyIn into ans (i * n) n ?db (M * i + unat s) n }"
  have lf: "\<forall>j < S. length (?f j) = n" using vs S by auto
  have "for_range 0 S ?body (?g 0) = Some (?g S)"
  proof (rule for_range_state)
    fix i assume i: "i < S"
    have lc: "length (concat (map ?f [0..<i])) = i * n" using lf i by (intro length_joined) simp
    have z: "(zeros ((S - i) * n) :: u8 list) = replicate n 0 @ zeros ((S - Suc i) * n)"
      using i by (metis Suc_diff_Suc mult_Suc replicate_add zeros_def)
    have e: "(i * M + unat (vs ! i)) * n + n \<le> length ?db" using chunk_row [OF i _ S(3)] vs i by simp
    have c: "(M * i + unat (vs ! i)) * n = (i * M + unat (vs ! i)) * n" by (simp add: mult.commute)
    have "into (?g i) (i * n) ?db ((i * M + unat (vs ! i)) * n) (of_nat n) = Some (xor_at (?g i) (i * n) (?f i))"
      using into [of "i * n" "of_nat n" "?g i" "(i * M + unat (vs ! i)) * n" ?db] n e lc z i
      by (simp add: unat_of_nat_u32 chunk_at_def)
    moreover have "xor_at (?g i) (i * n) (?f i) = ?g (Suc i)"
      using xor_at_zeros [OF lc, of "?f i" n] lf i z by simp
    ultimately show "?body i (?g i) = Some (?g (Suc i))"
      using i vs(1) n(1) e lc z by (simp add: rd_in CopyIn_def c)
  qed simp
  then show ?thesis using n(3) S by (simp add: query_process_def Let_def zeros_def)
qed

lemma XorBlocksTogether_eq:
  assumes "0 < n" "n < 2 ^ 32" "0 < S" "S < 2 ^ 31" "\<forall>i < S. length (f i) = n"
  shows "XorBlocksTogether all_rows (concat (map f [0..<S])) (zeros n) n S = Some (xors n (map f [0..<S]))"
proof -
  let ?db = "concat (map f [0..<S])"
  have l: "length ?db = S * n" by (rule length_joined [OF assms(5)])
  have "rows_of ?db n S = map f [0..<S]" unfolding rows_of_def using row_joined [OF assms(5)] by simp
  moreover have "?db \<noteq> []" using l assms(1,3) by (metis length_0_conv mult_is_0 not_gr0)
  moreover have "zeros n \<noteq> ([] :: u8 list)" using assms(1) by (simp add: zeros_def)
  moreover have "S < 2 ^ 32" using assms(4) by simp
  ultimately show ?thesis
    using all_rows [of "of_nat S" "of_nat n" "zeros n" ?db] assms l
    by (simp add: XorBlocksTogether_def unat_of_nat_u32)
qed

text \<open>One turn of the loop of \<open>reconstruct\<close>.\<close>

lemma reconstruct_step_eq:
  assumes n: "0 < n" "n < 2 ^ 32" and j: "j < setSize c"
    and c: "length (idxToSetIdx c) = setSize c" "length (setIdxToIdx c) = setSize c" "length (hints c) = M"
    and pq: "inverse_pair M (idxToSetIdx c ! j) (setIdxToIdx c ! j)"
    and q: "q = \<lparr>index_0 = i0, p_pos = int pos, randSwaps = sw\<rparr>" "pos < M" "length sw = setSize c" "unat (sw ! j) < M"
    and A: "length A0 = setSize c * n" "length A1 = setSize c * n" and h: "length (hints c ! unat (sw ! j)) = n"
  shows "reconstruct_step into A0 A1 n q j c = Some (c\<lparr>
      hints := (hints c)[unat (sw ! j) := map2 (XOR) (map2 (XOR) (hints c ! unat (sw ! j)) (row A0 (j * n) n)) (row A1 (j * n) n)],
      idxToSetIdx := (idxToSetIdx c)[j := swapped pos (unat (sw ! j)) (idxToSetIdx c ! j)],
      setIdxToIdx := (setIdxToIdx c)[j := (setIdxToIdx c ! j)[unat (idxToSetIdx c ! j ! pos) := sw ! j,
        unat (idxToSetIdx c ! j ! unat (sw ! j)) := of_nat pos]]\<rparr>)"
proof -
  have l: "length (idxToSetIdx c ! j) = M" "length (setIdxToIdx c ! j) = M" using pq by (simp_all add: inverse_pair_def)
  have lt: "unat (idxToSetIdx c ! j ! k) < M" if "k < M" for k using inverse_pair_less [OF pq that] by simp
  have e: "j * n + n \<le> setSize c * n" using row_end [OF j order_refl] .
  let ?h = "map2 (XOR) (hints c ! unat (sw ! j)) (row A0 (j * n) n)"
  have f: "FastXorInto into (hints c ! unat (sw ! j)) A0 (j * n) n n = Some ?h"
    "FastXorInto into ?h A1 (j * n) n n = Some (map2 (XOR) ?h (row A1 (j * n) n))"
    using n h e A by (auto intro!: FastXorInto_eq)
  show ?thesis
    using j c q l lt f by (simp add: reconstruct_step_def rd_in wr_in swapped_def)
qed

end

text \<open>The permutations and inverses after the loop has passed the chunks below \<open>k\<close>.\<close>

definition perms_upto :: "client \<Rightarrow> nat \<Rightarrow> u32 list \<Rightarrow> nat \<Rightarrow> u32 list list" where
  "perms_upto c pos sw = filled (\<lambda>j. swapped pos (unat (sw ! j)) (idxToSetIdx c ! j)) (idxToSetIdx c)"

definition inverses_upto :: "client \<Rightarrow> nat \<Rightarrow> u32 list \<Rightarrow> nat \<Rightarrow> u32 list list" where
  "inverses_upto c pos sw = filled (\<lambda>j. (setIdxToIdx c ! j)[unat (idxToSetIdx c ! j ! pos) := sw ! j,
     unat (idxToSetIdx c ! j ! unat (sw ! j)) := of_nat pos]) (setIdxToIdx c)"

text \<open>What hint \<open>h\<close> sums after these turns: chunk \<open>i0\<close> is not yet exchanged.\<close>

definition picks_upto :: "client \<Rightarrow> nat \<Rightarrow> u32 list \<Rightarrow> nat \<Rightarrow> nat \<Rightarrow> nat \<Rightarrow> u32 list" where
  "picks_upto c pos sw i0 h k = map (\<lambda>j. if j < k \<and> j \<noteq> i0
     then swapped pos (unat (sw ! j)) (idxToSetIdx c ! j) ! h else idxToSetIdx c ! j ! h) [0..<setSize c]"

lemma picks_upto_Suc:
  "k < setSize c \<Longrightarrow> k \<noteq> i0 \<Longrightarrow> picks_upto c pos sw i0 h (Suc k) =
     (picks_upto c pos sw i0 h k)[k := swapped pos (unat (sw ! k)) (idxToSetIdx c ! k) ! h]"
  "k = i0 \<Longrightarrow> picks_upto c pos sw i0 h (Suc k) = picks_upto c pos sw i0 h k"
  by (auto simp: picks_upto_def less_Suc_eq intro!: nth_equalityI)

lemma map2_xor_cancel: "length a = length (h :: u8 list) \<Longrightarrow> map2 (XOR) (map2 (XOR) h a) a = h"
  by (rule nth_equalityI) (simp_all add: xor.assoc)

text \<open>Exchanging chunk \<open>i0\<close> as well gives the parities of the new permutations.\<close>

lemma exchanged_hints:
  assumes ok: "client_ok db n M c" and pos: "pos < M" and i0: "i0 < setSize c"
    and sw: "\<forall>j < setSize c. unat (sw ! j) < M" and h: "h < M"
    and H: "length H = M" "\<forall>h < M. length (H ! h) = n" "H ! pos = picks db n M (offline_set c sw)"
      "\<forall>h < M. h \<noteq> pos \<longrightarrow> H ! h = picks db n M (picks_upto c pos sw i0 h (setSize c))"
  shows "H[unat (sw ! i0) := map2 (XOR) (map2 (XOR) (H ! unat (sw ! i0)) (chunk_at db n M i0 (idxToSetIdx c ! i0 ! unat (sw ! i0))))
      (chunk_at db n M i0 (idxToSetIdx c ! i0 ! pos))] ! h = hint_of db n M (perms_upto c pos sw (setSize c)) h"
proof -
  let ?S = "setSize c" and ?P = "idxToSetIdx c" and ?r = "unat (sw ! i0)"
  let ?V = "map (\<lambda>p. p ! h) (perms_upto c pos sw ?S)"
  have P: "length ?P = ?S" "?S * M * n \<le> length db" using ok by (simp_all add: client_ok_def)
  have lt: "unat (?P ! j ! k) < M" "length (?P ! j) = M" if "j < ?S" "k < M" for j k
    using ok that inverse_pair_less [of M "?P ! j" "setIdxToIdx c ! j" k] by (auto simp: client_ok_def inverse_pair_def)
  have r: "?r < M" using sw i0 by simp
  have V: "?V = map (\<lambda>j. swapped pos (unat (sw ! j)) (?P ! j) ! h) [0..<?S]"
    using P(1) by (simp add: perms_upto_def filled_def)
  have l: "length (H ! ?r) = n" "length (chunk_at db n M i0 (?P ! i0 ! ?r)) = n" using H(2) r lt i0 P(2) by simp_all
  consider (pos) "h = pos" | (r) "h \<noteq> pos" "h = ?r" | (other) "h \<noteq> pos" "h \<noteq> ?r" by blast
  then show ?thesis
  proof cases
    case pos
    have "?V = offline_set c sw" unfolding V offline_set_def
      using pos assms(2) sw lt by (intro map_cong) (simp_all add: nth_swapped)
    then show ?thesis using pos assms(2) H map2_xor_cancel [of _ "H ! ?r"] l by (cases "?r = pos") (simp_all add: hint_of_picks)
  next
    case r
    let ?vs = "picks_upto c pos sw i0 h ?S"
    have "?V = ?vs[i0 := ?P ! i0 ! pos]" unfolding V
      using i0 r assms(2) lt sw by (intro nth_equalityI) (auto simp: picks_upto_def nth_list_update nth_swapped)
    moreover have "\<forall>v \<in> set ?vs. unat v < M" using lt h pos sw by (auto simp: picks_upto_def nth_swapped)
    ultimately show ?thesis
      using picks_update [of i0 ?vs M "?P ! i0 ! pos" n db] r H(1,4) h i0 lt pos P(2) by (simp add: hint_of_picks picks_upto_def)
  next
    case other
    have "?V = picks_upto c pos sw i0 h ?S" unfolding V picks_upto_def
      using other h assms(2) lt sw r by (intro map_cong) (auto simp: nth_swapped)
    then show ?thesis using other H(4) h by (simp add: hint_of_picks)
  qed
qed

context xor_kernel
begin

lemma reconstruct_loop:
  assumes ok: "client_ok db n M c" and pos: "pos < M" and sw: "length sw = setSize c" "\<forall>j < setSize c. unat (sw ! j) < M"
    and on: "on = (online_set c pos)[i0 := offline_set c sw ! i0]"
    and x0: "length x0 = n" and q: "q = \<lparr>index_0 = int i0, p_pos = int pos, randSwaps = sw\<rparr>"
    and A: "length A0 = setSize c * n" "length A1 = setSize c * n"
      "\<forall>j < setSize c. row A0 (j * n) n = chunk_at db n M j (offline_set c sw ! j)"
      "\<forall>j < setSize c. row A1 (j * n) n = chunk_at db n M j (on ! j)"
  shows "\<exists>H. for_range 0 (setSize c) (reconstruct_step into A0 A1 n q) (c\<lparr>hints := (hints c)[pos := x0]\<rparr>) =
      Some (c\<lparr>hints := H, idxToSetIdx := perms_upto c pos sw (setSize c), setIdxToIdx := inverses_upto c pos sw (setSize c)\<rparr>) \<and>
      length H = M \<and> H ! pos = x0 \<and>
      (\<forall>h < M. h \<noteq> pos \<longrightarrow> H ! h = picks db n M (picks_upto c pos sw i0 h (setSize c)))"
proof -
  let ?S = "setSize c" and ?P = "idxToSetIdx c" and ?off = "offline_set c sw"
  define I where "I k c' \<longleftrightarrow> (\<exists>H. c' = c\<lparr>hints := H, idxToSetIdx := perms_upto c pos sw k, setIdxToIdx := inverses_upto c pos sw k\<rparr> \<and>
      length H = M \<and> H ! pos = x0 \<and> (\<forall>h < M. h \<noteq> pos \<longrightarrow> H ! h = picks db n M (picks_upto c pos sw i0 h k)))" for k c'
  have n: "0 < n" "n < 2 ^ 32" and db: "?S * M * n \<le> length db" and M: "length (hints c) = M" "length ?P = ?S" "length (setIdxToIdx c) = ?S"
    using ok by (simp_all add: client_ok_def)
  have pq: "inverse_pair M (?P ! j) (setIdxToIdx c ! j)" if "j < ?S" for j using ok that by (simp add: client_ok_def)
  have lt: "unat (?P ! j ! k) < M" "length (?P ! j) = M" if "j < ?S" "k < M" for j k
    using inverse_pair_less [OF pq [OF that(1)] that(2)] pq [OF that(1)] by (simp_all add: inverse_pair_def)
  have pu: "\<forall>v \<in> set (picks_upto c pos sw i0 h k). unat v < M" "length (picks_upto c pos sw i0 h k) = ?S" if "h < M" for h k
    using lt that pos sw by (auto simp: picks_upto_def nth_swapped)
  have lp: "length (picks db n M (picks_upto c pos sw i0 h k)) = n" if "h < M" for h k
    using length_picks [of _ M n db] pu [OF that] db by simp
  have "\<exists>c'. for_range 0 ?S (reconstruct_step into A0 A1 n q) (c\<lparr>hints := (hints c)[pos := x0]\<rparr>) = Some c' \<and> I ?S c'"
  proof (rule for_range_inv)
    have "hints c ! h = picks db n M (picks_upto c pos sw i0 h 0)" if "h < M" for h
    proof -
      have "picks_upto c pos sw i0 h 0 = map (\<lambda>p. p ! h) ?P" using M(2) by (auto simp: picks_upto_def intro: nth_equalityI)
      then show ?thesis using ok that by (simp add: client_ok_def hint_of_picks)
    qed
    then show "I 0 (c\<lparr>hints := (hints c)[pos := x0]\<rparr>)"
      using M pos unfolding I_def
      by (intro exI [of _ "(hints c)[pos := x0]"]) (simp add: perms_upto_def inverses_upto_def filled_def)
    fix k c' assume k: "k < ?S" and "I k c'"
    then obtain H where c': "c' = c\<lparr>hints := H, idxToSetIdx := perms_upto c pos sw k, setIdxToIdx := inverses_upto c pos sw k\<rparr>"
      and H: "length H = M" "H ! pos = x0" "\<forall>h < M. h \<noteq> pos \<longrightarrow> H ! h = picks db n M (picks_upto c pos sw i0 h k)"
      unfolding I_def by blast
    let ?r = "unat (sw ! k)"
    have r: "?r < M" using sw(2) k by simp
    have at: "perms_upto c pos sw k ! k = ?P ! k" "inverses_upto c pos sw k ! k = setIdxToIdx c ! k"
      "length (perms_upto c pos sw k) = ?S" "length (inverses_upto c pos sw k) = ?S"
      using k M by (simp_all add: perms_upto_def inverses_upto_def filled_def nth_append)
    have lH: "length (H ! h) = n" if "h < M" for h using H lp that x0 by metis
    let ?a = "chunk_at db n M k (?off ! k)" and ?b = "chunk_at db n M k (on ! k)"
    let ?H = "H[?r := map2 (XOR) (map2 (XOR) (H ! ?r) ?a) ?b]"
    have step: "reconstruct_step into A0 A1 n q k c' = Some (c\<lparr>hints := ?H,
        idxToSetIdx := perms_upto c pos sw (Suc k), setIdxToIdx := inverses_upto c pos sw (Suc k)\<rparr>)"
      using reconstruct_step_eq [of n k c' M q "int i0" pos sw A0 A1] n k c' H(1) pq [OF k] q pos sw(1) r A lH [OF r] at M(2,3)
      by (simp add: perms_upto_def inverses_upto_def filled_def list_update_append nth_append upd_conv_take_nth_drop) 
    have "I (Suc k) (c\<lparr>hints := ?H,
        idxToSetIdx := perms_upto c pos sw (Suc k), setIdxToIdx := inverses_upto c pos sw (Suc k)\<rparr>)"
    proof -
      have vk: "picks_upto c pos sw i0 h k ! k = ?P ! k ! h" for h using k by (simp add: picks_upto_def)
      have la: "length ?a = n" "length ?b = n"
        using A k by (metis length_row row_end order_refl)+
      have same: ?thesis if e: "?a = ?b" and v: "\<And>h. h < M \<Longrightarrow> picks_upto c pos sw i0 h (Suc k) = picks_upto c pos sw i0 h k"
      proof -
        have "?H = H" using map2_xor_cancel [of ?b "H ! ?r"] lH [OF r] la e by simp
        then show ?thesis unfolding I_def using H v by (intro exI [of _ H]) simp
      qed
      show ?thesis
      proof (cases "k = i0 \<or> ?r = pos")
        case True
        then show ?thesis
        proof (intro same)
          show "?a = ?b" using True k on by (cases "k = i0") (simp_all add: online_set_def offline_set_def)
          fix h assume "h < M"
          show "picks_upto c pos sw i0 h (Suc k) = picks_upto c pos sw i0 h k"
          proof (cases "k = i0")
            case False
            with True have "swapped pos ?r (?P ! k) = ?P ! k" by (simp add: swapped_def)
            with False show ?thesis using picks_upto_Suc(1) [OF k False] vk [of h] by (metis list_update_id)
          qed (simp add: picks_upto_Suc)
        qed
      next
        case False
        then have b: "?b = chunk_at db n M k (?P ! k ! pos)" and a: "?a = chunk_at db n M k (?P ! k ! ?r)"
          using k on by (simp_all add: online_set_def offline_set_def)
        have "?H ! h = picks db n M (picks_upto c pos sw i0 h (Suc k))" if h: "h < M" "h \<noteq> pos" for h
        proof (cases "h = ?r")
          case True
          have "picks db n M (picks_upto c pos sw i0 h (Suc k)) = map2 (XOR) (map2 (XOR) (H ! h) ?a) ?b"
            using picks_update [of k "picks_upto c pos sw i0 h k" M "?P ! k ! pos" n db] pu [OF h(1)] k lt pos H(3) h db False
            by (simp add: picks_upto_Suc nth_swapped a b vk True)
          then show ?thesis using True H(1) r by simp
        next
          case o: False
          then have "swapped pos ?r (?P ! k) ! h = ?P ! k ! h" using h lt(2) [OF k h(1)] pos r by (simp add: nth_swapped)
          then have "picks_upto c pos sw i0 h (Suc k) = picks_upto c pos sw i0 h k"
            using picks_upto_Suc(1) [OF k] False vk [of h] by (metis list_update_id)
          then show ?thesis using o H h by simp
        qed
        then show ?thesis unfolding I_def using H False by (intro exI [of _ ?H]) simp
      qed
    qed
    with step show "\<exists>t. reconstruct_step into A0 A1 n q k c' = Some t \<and> I (Suc k) t" by blast
  qed simp
  then show ?thesis unfolding I_def by blast
qed

lemma reconstruct_eq:
  assumes ok: "client_ok db n M c" and pos: "pos < M" and i0: "i0 < setSize c"
    and sw: "length sw = setSize c" "\<forall>j < setSize c. unat (sw ! j) < M"
    and on: "on = (online_set c pos)[i0 := offline_set c sw ! i0]"
  shows "\<exists>c'. reconstruct into all_rows c
      [concat (map (\<lambda>j. chunk_at db n M j (offline_set c sw ! j)) [0..<setSize c]),
       concat (map (\<lambda>j. chunk_at db n M j (on ! j)) [0..<setSize c])]
      \<lparr>index_0 = int i0, p_pos = int pos, randSwaps = sw\<rparr> =
    Some (c', Inr (chunk_at db n M i0 (idxToSetIdx c ! i0 ! pos))) \<and> client_ok db n M c' \<and> setSize c' = setSize c \<and>
    c_currVersion c' = c_currVersion c \<and> randSource c' = randSource c \<and> idxToSetIdx c' = perms_upto c pos sw (setSize c)"
proof -
  let ?S = "setSize c" and ?P = "idxToSetIdx c" and ?off = "offline_set c sw"
  let ?fa = "\<lambda>j. chunk_at db n M j (?off ! j)" and ?fb = "\<lambda>j. chunk_at db n M j (on ! j)"
  let ?A0 = "concat (map ?fa [0..<?S])" and ?A1 = "concat (map ?fb [0..<?S])"
  let ?q = "\<lparr>index_0 = int i0, p_pos = int pos, randSwaps = sw\<rparr>"
  let ?out = "chunk_at db n M i0 (?P ! i0 ! pos)"
  have n: "0 < n" "n < 2 ^ 32" "0 < ?S" "?S < 2 ^ 31" "0 < M" "M < 2 ^ 32" and db: "?S * M * n \<le> length db"
    and M: "length (hints c) = M" "length ?P = ?S"
    using ok by (simp_all add: client_ok_def)
  have pq: "inverse_pair M (?P ! j) (setIdxToIdx c ! j)" if "j < ?S" for j using ok that by (simp add: client_ok_def)
  have lt: "unat (?P ! j ! k) < M" "length (?P ! j) = M" if "j < ?S" "k < M" for j k
    using inverse_pair_less [OF pq [OF that(1)] that(2)] pq [OF that(1)] by (simp_all add: inverse_pair_def)
  have hs: "hints c ! h = picks db n M (map (\<lambda>p. p ! h) ?P)" if "h < M" for h
    using ok that by (simp add: client_ok_def hint_of_picks)
  have lo: "length on = ?S" by (simp add: on online_set_def)
  have off: "?off ! j = ?P ! j ! unat (sw ! j)" if "j < ?S" for j using that by (simp add: offline_set_def)
  have ond: "on ! j = (if j = i0 then ?P ! j ! unat (sw ! j) else ?P ! j ! pos)" if "j < ?S" for j
    using that by (simp add: on online_set_def offline_set_def nth_list_update)
  have la: "\<forall>j < ?S. length (?fa j) = n" using lt sw db by (simp add: off)
  have lb: "\<forall>j < ?S. length (?fb j) = n" using lt sw db pos by (simp add: ond)
  have lA: "length ?A0 = ?S * n" "length ?A1 = ?S * n" using la lb by (simp_all only: length_joined)
  let ?x0 = "xors n (map ?fa [0..<?S])" and ?x1 = "xors n (map ?fb [0..<?S])"
  have x: "XorBlocksTogether all_rows ?A0 (zeros n) n ?S = Some ?x0" "XorBlocksTogether all_rows ?A1 (zeros n) n ?S = Some ?x1"
    by (rule XorBlocksTogether_eq [OF n(1-4) la], rule XorBlocksTogether_eq [OF n(1-4) lb])
  have l01: "length ?x0 = n" "length ?x1 = n" using la lb by simp_all
  let ?r0 = "unat (sw ! i0)" and ?h = "hints c ! pos" and ?b0 = "chunk_at db n M i0 (?P ! i0 ! unat (sw ! i0))"
  have r0: "?r0 < M" using sw(2) i0 by simp
  have lr: "length ?out = n" "length ?b0 = n" using lt i0 pos r0 db by simp_all
  have vs: "online_set c pos = map (\<lambda>p. p ! pos) ?P" using M(2) by (auto simp: online_set_def intro: nth_equalityI)
  have vok: "\<forall>v \<in> set (map (\<lambda>p. p ! h) ?P). unat v < M" if "h < M" for h
    using lt(1) that M(2) by (auto simp: in_set_conv_nth)
  have lh: "length (hints c ! h) = n" if "h < M" for h
    unfolding hs [OF that] using vok [OF that] M(2) db by (intro length_picks) simp_all
  have "?x1 = picks db n M on" by (simp add: picks_def lo)
  also have "\<dots> = map2 (XOR) (map2 (XOR) ?h ?out) ?b0"
    using picks_update [of i0 "map (\<lambda>p. p ! pos) ?P" M "?P ! i0 ! ?r0" n db] vok [OF pos] lt(1) [OF i0 r0] M(2) i0 db hs [OF pos]
    by (simp add: on vs off)
  finally have x1: "?x1 = map2 (XOR) (map2 (XOR) ?h ?out) ?b0" .
  have rA: "\<forall>j < ?S. row ?A0 (j * n) n = chunk_at db n M j (?off ! j)" "\<forall>j < ?S. row ?A1 (j * n) n = chunk_at db n M j (on ! j)"
    using row_joined [OF la] row_joined [OF lb] by blast+
  have b0: "row ?A1 (i0 * n) n = ?b0" using rA(2) i0 ond [OF i0] by simp
  have o1: "FastXorInto into (zeros n) ?x1 0 (length ?x1) n = Some ?x1"
    using FastXorInto_eq [of "zeros n" n "length ?x1" 0 ?x1] n l01 by (simp add: row_def zeros_def map2_xor_0)
  have o2: "FastXorInto into ?x1 ?h 0 (length ?h) n = Some (map2 (XOR) ?x1 ?h)"
    using FastXorInto_eq [of ?x1 n "length ?h" 0 ?h] n l01 lh [OF pos] by (simp add: row_def)
  have e0: "i0 * n + n \<le> ?S * n" by (rule row_end [OF i0 order_refl])
  have "map2 (XOR) (map2 (XOR) ?x1 ?h) ?b0 = ?out"
    unfolding x1 using lh [OF pos] lr by (intro nth_equalityI) (simp_all add: xor.assoc xor.left_commute xor.commute)
  then have o3: "FastXorInto into (map2 (XOR) ?x1 ?h) ?A1 (i0 * n) n n = Some ?out"
    using FastXorInto_eq [of "map2 (XOR) ?x1 ?h" n n "i0 * n" ?A1] n l01 lh [OF pos] e0 lA b0 by simp
  obtain H where H: "for_range 0 ?S (reconstruct_step into ?A0 ?A1 n ?q) (c\<lparr>hints := (hints c)[pos := ?x0]\<rparr>) =
      Some (c\<lparr>hints := H, idxToSetIdx := perms_upto c pos sw ?S, setIdxToIdx := inverses_upto c pos sw ?S\<rparr>)"
      "length H = M" "H ! pos = ?x0" "\<forall>h < M. h \<noteq> pos \<longrightarrow> H ! h = picks db n M (picks_upto c pos sw i0 h ?S)"
    using reconstruct_loop [OF ok pos sw on l01(1) refl lA rA] by blast
  let ?c = "c\<lparr>hints := H, idxToSetIdx := perms_upto c pos sw ?S, setIdxToIdx := inverses_upto c pos sw ?S\<rparr>"
  let ?Z = "map2 (XOR) (map2 (XOR) (H ! ?r0) ?b0) ?out"
  have x0: "?x0 = picks db n M ?off" by (simp add: picks_def offline_set_def)
  have pu: "\<forall>v \<in> set (picks_upto c pos sw i0 h ?S). unat v < M" "length (picks_upto c pos sw i0 h ?S) = ?S" if "h < M" for h
    using lt that pos sw by (auto simp: picks_upto_def nth_swapped)
  have lH: "\<forall>h < M. length (H ! h) = n"
  proof (intro allI impI)
    fix h assume h: "h < M"
    show "length (H ! h) = n"
    proof (cases "h = pos")
      case False
      then have "H ! h = picks db n M (picks_upto c pos sw i0 h ?S)" using H(4) h by blast
      then show ?thesis using length_picks [OF pu(1) [OF h], of n db] pu(2) [OF h] db by simp
    qed (simp only: H(3) l01)
  qed
  have f: "FastXorInto into (H ! ?r0) ?A1 (i0 * n) n n = Some (map2 (XOR) (H ! ?r0) ?b0)"
    "FastXorInto into (map2 (XOR) (H ! ?r0) ?b0) ?out 0 (length ?out) n = Some ?Z"
    using FastXorInto_eq [of "H ! ?r0" n n "i0 * n" ?A1] FastXorInto_eq [of "map2 (XOR) (H ! ?r0) ?b0" n "length ?out" 0 ?out]
      n lH r0 e0 lA b0 lr by (simp_all add: row_def)
  let ?c' = "?c\<lparr>hints := H[?r0 := ?Z]\<rparr>"
  have "reconstruct into all_rows c [?A0, ?A1] ?q = Some (?c', Inr ?out)"
    using n(1,5) M pos i0 sw(1) lh [of 0] x o1 o2 o3 H(1,2) f r0
    by (simp add: reconstruct_def rd_in wr_in Let_def del: map_map)
  moreover have "client_ok db n M ?c'"
  proof -
    have "inverse_pair M (perms_upto c pos sw ?S ! j) (inverses_upto c pos sw ?S ! j)" if "j < ?S" for j
      using inverse_pair_swapped [OF pq [OF that] pos _ n(6), of "unat (sw ! j)"] sw(2) that
      by (simp add: perms_upto_def inverses_upto_def filled_def nth_append)
    moreover have "length (perms_upto c pos sw ?S) = ?S" "length (inverses_upto c pos sw ?S) = ?S"
      using ok by (simp_all add: perms_upto_def inverses_upto_def filled_def client_ok_def)
    ultimately show ?thesis
      using ok H(2) exchanged_hints [OF ok pos i0 sw(2) _ H(2) lH _ H(4)] H(3) x0
      by (simp add: client_ok_def)
  qed
  ultimately show ?thesis by (intro exI [of _ ?c']) simp
qed

lemma client_ok_randSource: "client_ok db n M (c\<lparr>randSource := x\<rparr>) = client_ok db n M c"
  by (simp add: client_ok_def)

lemma query_round_state:
  assumes ok: "client_ok (FlatDb db) n M c" and R: "Intn_ok Intn" and db: "RowLen db = n" "NumRows db = c_nRows c"
    and k_def: "k = nat (i mod int (c_nRows c))" and i0_def: "i0 = k div M" and pos_def: "pos = unat (setIdxToIdx c ! i0 ! (k mod M))"
  shows "\<exists>c'. query_round into all_rows Intn db db c i =
      Some (c', Inr (row (FlatDb db) (k * n) n)) \<and> client_ok (FlatDb db) n M c' \<and>
    setSize c' = setSize c \<and> c_currVersion c' = c_currVersion c \<and> randSource c' = randSource c + setSize c \<and>
    idxToSetIdx c' = perms_upto c pos (draws Intn c) (setSize c)"
proof -
  note Q = Query_eq [OF ok R k_def i0_def pos_def]
  let ?c = "c\<lparr>randSource := randSource c + setSize c\<rparr>" and ?sw = "draws Intn c" and ?db = "FlatDb db"
  let ?on = "(online_set c pos)[i0 := offline_set c ?sw ! i0]"
  have n: "0 < n" "n < 2 ^ 32" "0 < setSize c" "NumRows db = setSize c * M" "setSize c * M * n \<le> length ?db" "M < 2 ^ 32" "0 < M"
    "length (idxToSetIdx c) = setSize c"
    using ok db by (simp_all add: client_ok_def)
  have lt: "unat (idxToSetIdx c ! j ! h) < M" if "j < setSize c" "h < M" for j h
    using ok that inverse_pair_less [of M "idxToSetIdx c ! j" "setIdxToIdx c ! j" h] by (simp add: client_ok_def)
  have sw: "length ?sw = setSize c" "\<forall>j < setSize c. unat (?sw ! j) < M"
    using draws_less [OF R ok] by (simp_all add: draws_def)
  have off: "length (offline_set c ?sw) = setSize c" "\<forall>v \<in> set (offline_set c ?sw). unat v < M"
    using lt sw by (auto simp: offline_set_def)
  have on: "length ?on = setSize c" "\<forall>v \<in> set ?on. unat v < M"
    using lt Q(3,4) off by (auto simp: online_set_def dest!: set_update_subset_insert [THEN subsetD])
  have a: "query_process into \<lparr>PRSet = vs, SetSize = setSize c\<rparr> db = Some (concat (map (\<lambda>j. chunk_at ?db n M j (vs ! j)) [0..<setSize c]))"
    if "length vs = setSize c" "\<forall>v \<in> set vs. unat v < M" for vs
    by (rule query_process_eq [OF n(1,2) db(1) n(3) _ n(5) that]) (simp add: n(3,4))
  obtain c' where r: "reconstruct into all_rows ?c
      [concat (map (\<lambda>j. chunk_at ?db n M j (offline_set c ?sw ! j)) [0..<setSize c]),
       concat (map (\<lambda>j. chunk_at ?db n M j (?on ! j)) [0..<setSize c])]
      \<lparr>index_0 = int i0, p_pos = int pos, randSwaps = ?sw\<rparr> = Some (c', Inr (chunk_at ?db n M i0 (idxToSetIdx c ! i0 ! pos)))"
    "client_ok ?db n M c'" "setSize c' = setSize c" "c_currVersion c' = c_currVersion c"
    "randSource c' = randSource c + setSize c" "idxToSetIdx c' = perms_upto c pos ?sw (setSize c)"
    using reconstruct_eq [of ?db n M ?c pos i0 ?sw ?on] ok Q(3,4) sw
    by (auto simp: client_ok_randSource online_set_def offline_set_def perms_upto_def)
  have "k mod M < M" "i0 * M + k mod M = k" using n(7) by (simp_all add: i0_def)
  then have "chunk_at ?db n M i0 (idxToSetIdx c ! i0 ! pos) = row ?db (k * n) n"
    using n(6) by (simp add: Q(5) chunk_at_def unat_of_nat_u32)
  then show ?thesis
    using Q(1) a [OF off] a [OF on] r by (simp add: query_round_def reconstruct_closure_def)
qed

lemma query_round_eq:
  assumes "client_ok (FlatDb db) n M c" "Intn_ok Intn" "RowLen db = n" "NumRows db = c_nRows c"
  shows "\<exists>c'. query_round into all_rows Intn db db c i =
      Some (c', Inr (row (FlatDb db) (nat (i mod int (c_nRows c)) * n) n)) \<and> client_ok (FlatDb db) n M c' \<and>
    setSize c' = setSize c \<and> c_currVersion c' = c_currVersion c"
  using query_round_state [OF assms refl refl refl, of i] by blast

end

text \<open>C2: a query round, in both builds: whatever index is asked for (taken modulo the number of rows) and
  whatever the random source draws, it returns that row and leaves the client in step with the
  database, so the next query works as well.\<close>

theorem query_round_correct:
  assumes "kern \<in> {(xor_into_sse, xor_all_rows_sse), (xor_into_avx2, xor_all_rows_avx2)}"
    and "client_ok (FlatDb db) (RowLen db) M c" "Intn_ok Intn" "NumRows db = c_nRows c"
  shows "\<exists>c'. query_round (fst kern) (snd kern) Intn db db c i =
      Some (c', Inr (row (FlatDb db) (nat (i mod int (c_nRows c)) * RowLen db) (RowLen db))) \<and>
    client_ok (FlatDb db) (RowLen db) M c'"
  using assms(1) sse.query_round_eq [OF assms(2,3) refl assms(4), of i] avx2.query_round_eq [OF assms(2,3) refl assms(4), of i]
  by (elim insertE emptyE) auto

theorem query_round_correct_witness:
  "\<exists>c'. query_round xor_into_sse xor_all_rows_sse (\<lambda>k m. k mod m)
      \<lparr>NumRows = 4, RowLen = 1, Version = 0, FlatDb = [1, 2, 4, 8]\<rparr> \<lparr>NumRows = 4, RowLen = 1, Version = 0, FlatDb = [1, 2, 4, 8]\<rparr>
      \<lparr>c_nRows = 4, c_RowLen = 1, setSize = 2, hints = [[9], [6]], nHints = 2, randSource = 0,
        idxToSetIdx = [[0, 1], [1, 0]], setIdxToIdx = [[0, 1], [1, 0]], c_currVersion = 0\<rparr> (-2) = Some (c', Inr [4])"
proof -
  let ?c = "\<lparr>c_nRows = 4, c_RowLen = 1, setSize = 2, hints = [[9], [6]], nHints = 2, randSource = 0,
    idxToSetIdx = [[0, 1], [1, 0]], setIdxToIdx = [[0, 1], [1, 0]], c_currVersion = 0\<rparr>"
  have two: "(\<forall>j < (2 :: nat). Q j) \<longleftrightarrow> Q 0 \<and> Q 1" for Q by (auto simp: less_2_cases_iff)
  have "inverse_pair 2 [0, 1] [0, 1]" "inverse_pair 2 [1, 0] [1, 0]"
    unfolding inverse_pair_def two by (simp_all add: is_perm_def)
  then have "client_ok [1, 2, 4, 8] 1 2 ?c"
    by (simp add: client_ok_def two hint_of_def xors_def row_def upt_rec)
  then show ?thesis
    using query_round_correct [of "(xor_into_sse, xor_all_rows_sse)" "\<lparr>NumRows = 4, RowLen = 1, Version = 0, FlatDb = [1, 2, 4, 8]\<rparr>" 2 ?c "\<lambda>k m. k mod m" "-2"]
    by (auto simp: Intn_ok_def row_def)
qed

section \<open>The offline phase\<close>

lemma initState_loop_eq:
  assumes l: "length ps = s" "length qs = s" "\<forall>p \<in> set ps. length p = M" "\<forall>q \<in> set qs. length q = M" and M: "0 < M" and i: "i \<le> s"
  shows "initState_loop s M (concat ps) (concat qs) (i * M) i (take i ps @ replicate (s - i) []) (take i qs @ replicate (s - i) []) = Some (ps, qs)"
  using i
proof (induction "s - i" arbitrary: i)
  case 0
  have "length (concat ps) = s * M" using length_concat_all [OF l(3)] l(1) by simp
  moreover have "i = s" using 0 by simp
  ultimately show ?case using l by (subst initState_loop.simps) simp
next
  case (Suc m)
  then have i: "i < s" by simp
  have lc: "length (concat ps) = s * M" "length (concat qs) = s * M" using length_concat_all [OF l(3)] length_concat_all [OF l(4)] l(1,2) by simp_all
  have at: "take M (drop (i * M) (concat xs)) = xs ! i" "(take i xs @ replicate (s - i) [])[i := xs ! i] = take (Suc i) xs @ replicate (s - Suc i) []"
    if x: "length xs = s" "\<forall>x \<in> set xs. length x = M" for xs :: "u32 list list"
  proof -
    have e: "xs = take i xs @ xs ! i # drop (Suc i) xs" using i x(1) by (simp add: id_take_nth_drop)
    then have "concat xs = concat (take i xs) @ xs ! i @ concat (drop (Suc i) xs)" by (metis concat.simps(2) concat_append)
    moreover have "length (concat (take i xs)) = i * M"
      using i x by (subst length_concat_all [of "take i xs" M]) (auto dest: in_set_takeD)
    ultimately show "take M (drop (i * M) (concat xs)) = xs ! i" using i x by simp
    show "(take i xs @ replicate (s - i) [])[i := xs ! i] = take (Suc i) xs @ replicate (s - Suc i) []"
      using i x(1) by (simp add: list_update_append take_Suc_conv_app_nth flip: Suc_diff_Suc)
  qed
  have le: "i * M + M \<le> s * M" by (rule row_end [OF i order_refl])
  moreover have "i * M < s * M" using i M by simp
  ultimately show ?case
    using Suc.hyps(1) [of "Suc i"] Suc.hyps(2) i lc at [OF l(1,3)] at [OF l(2,4)]
    by (subst initState_loop.simps) (simp add: add.commute)
qed

lemma initState_loop_short:
  "ind + (s - i) * n < length perms \<Longrightarrow> initState_loop s n perms invs ind i P Q = None"
proof (induction s n perms invs ind i P Q rule: initState_loop.induct)
  case (1 s n perms invs ind i P Q)
  have "ind + n + (s - Suc i) * n = ind + (s - i) * n" if "i < s"
    using that by (metis Suc_diff_Suc add.assoc mult_Suc)
  with 1 show ?case by (subst initState_loop.simps) auto
qed

text \<open>The parameters that the offline phase can handle: every product fits the C types.\<close>

definition sizes_ok :: "static_db \<Rightarrow> nat \<Rightarrow> nat \<Rightarrow> bool" where
  "sizes_ok db s M \<longleftrightarrow> 0 < s \<and> s < 2 ^ 31 \<and> 0 < M \<and> M < 2 ^ 31 \<and> NumRows db < 2 ^ 32 \<and> M = NumRows db div s \<and>
     0 < RowLen db \<and> M * RowLen db < 2 ^ 32 \<and> NumRows db * RowLen db \<le> length (FlatDb db)"

context xor_kernel
begin

lemma hint_process_eq:
  assumes R: "rand_ok RAND" "length (buf rng) = 4" and sz: "sizes_ok db s M"
    and req: "s = (if req \<noteq> 0 then req else int_sqrt (NumRows db))"
  shows "\<exists>rng' resp ps qs. hint_process single_pass RAND req seed db rng = Some (rng', resp) \<and>
    length ps = s \<and> length qs = s \<and> (\<forall>j < s. inverse_pair M (ps ! j) (qs ! j)) \<and>
    resp = \<lparr>resp_NRows = NumRows db, resp_RowLen = RowLen db, resp_SetSize = s,
      resp_Hints = map (hint_of (FlatDb db) (RowLen db) M ps) [0..<M], resp_NHints = M,
      resp_Permutations = concat ps @ zeros (NumRows db - s * M), resp_InversePermutations = concat qs @ zeros (NumRows db - s * M),
      resp_Version = Version db\<rparr>"
proof -
  let ?n = "RowLen db" and ?N = "NumRows db" and ?db = "FlatDb db"
  let ?seed = "of_nat (sum_list (map unat seed)) :: u32"
  have z: "0 < s" "s < 2 ^ 31" "0 < M" "M < 2 ^ 31" "?N < 2 ^ 32" "M = ?N div s" "0 < ?n" "M * ?n < 2 ^ 32" "?N * ?n \<le> length ?db"
    using sz unfolding sizes_ok_def by blast+
  have le: "s * M \<le> ?N" using z(6) by simp
  then have le3: "s * M * ?n \<le> length ?db" using z(9) mult_le_mono1 [OF le, of ?n] by linarith
  have N0: "0 < ?N" using z(1,3) le by (metis gr0I le_zero_eq mult_is_0 not_gr0)
  then have db: "?db \<noteq> []" using z(7,9) by (metis length_0_conv le_zero_eq mult_is_0 not_gr0)
  have n: "?n < 2 ^ 32" using z(3,8) by (metis less_le_trans leI mult_le_cancel2 nat_mult_1 not_less One_nat_def Suc_leI le_trans)
  have u: "unat (of_nat s :: u32) = s" "unat (of_nat ?N :: u32) = ?N" "unat (of_nat ?n :: u32) = ?n"
    using z n by (simp_all add: unat_of_nat_u32)
  have d: "unat ((of_nat ?N :: u32) div of_nat s) = M" using u z(6) by (simp add: unat_div_distrib)
  then have d0: "(of_nat ?N :: u32) div of_nat s \<noteq> 0" using z(3) by auto
  have s0: "(of_nat s :: u32) \<noteq> 0" using u(1) z(1) by auto
  obtain st ps qs where st: "answer_single_pass single_pass RAND ?db (of_nat ?N) (of_nat s) (of_nat ?n) (zeros (M * ?n)) ?seed
        (zeros ?N) (zeros ?N) rng = Some st"
      "length ps = s" "length qs = s" "\<forall>j < s. inverse_pair M (ps ! j) (qs ! j)"
      "permutations st = concat ps @ drop (s * M) (zeros ?N)" "inverse_permutations st = concat qs @ drop (s * M) (zeros ?N)"
      "\<forall>k < M. row (parities st) (k * ?n) ?n = map2 (XOR) (row (zeros (M * ?n)) (k * ?n) ?n) (hint_of ?db ?n M ps k)"
    using answer_single_pass_eq [OF R s0 _ refl d0, of "zeros ?N" "zeros ?N" "of_nat ?n" ?db "zeros (M * ?n)" ?seed] z le le3 d u by auto
  have "map (\<lambda>i. take ?n (drop (?n * i) (parities st))) [0..<M] = map (hint_of ?db ?n M ps) [0..<M]"
  proof (intro map_cong refl)
    fix k assume "k \<in> set [0..<M]"
    then have k: "k < M" by simp
    have "row (zeros (M * ?n)) (k * ?n) ?n = (replicate ?n 0 :: u8 list)"
      using row_end [OF k order_refl, of ?n] by (simp add: row_def zeros_def)
    moreover have "length (hint_of ?db ?n M ps k) = ?n"
      using st(2,4) k le3 inverse_pair_less by (intro length_hint_of) auto
    ultimately have "row (parities st) (k * ?n) ?n = hint_of ?db ?n M ps k" using st(7) k by (simp add: map2_xor_0)
    then show "take ?n (drop (?n * k) (parities st)) = hint_of ?db ?n M ps k" by (simp add: row_def mult.commute)
  qed
  then show ?thesis
    using st z(1,3,6,7) N0 db req [symmetric]
    by (intro exI [of _ "sp_rng st"] exI [of _ ps] exI [of _ qs] exI) (auto simp: hint_process_def Let_def zeros_def)
qed

end

lemma InitClient_eq:
  assumes l: "length ps = s" "length qs = s" "\<forall>p \<in> set ps. length p = M" "\<forall>q \<in> set qs. length q = M" and M: "0 < M"
    and r: "resp_SetSize resp = s" "resp_NHints resp = M" "resp_Permutations resp = concat ps" "resp_InversePermutations resp = concat qs"
  shows "InitClient resp src = Some
     \<lparr>c_nRows = resp_NRows resp, c_RowLen = resp_RowLen resp, setSize = s, hints = resp_Hints resp,
      nHints = M, randSource = src, idxToSetIdx = ps, setIdxToIdx = qs, c_currVersion = int (resp_Version resp)\<rparr>"
  using initState_loop_eq [OF l M, of 0] r by (simp add: InitClient_def initState_def)

lemma offline_step:
  assumes "kern \<in> {xor_single_pass_sse, xor_single_pass_avx2}" "rand_ok RAND" "length (buf rng) = 4"
    and "sizes_ok db s M" "s = (if req \<noteq> 0 then req else int_sqrt (NumRows db))"
  shows "\<exists>rng' resp. hint_process kern RAND req seed db rng = Some (rng', resp) \<and>
    (if s dvd NumRows db
     then \<exists>c. InitClient resp src = Some c \<and> client_ok (FlatDb db) (RowLen db) M c \<and> setSize c = s \<and> c_currVersion c = int (Version db)
     else InitClient resp src = None)"
proof -
  obtain rng' resp ps qs where h: "hint_process kern RAND req seed db rng = Some (rng', resp)"
    and l: "length ps = s" "length qs = s" and pq: "\<forall>j < s. inverse_pair M (ps ! j) (qs ! j)"
    and resp: "resp = \<lparr>resp_NRows = NumRows db, resp_RowLen = RowLen db, resp_SetSize = s,
      resp_Hints = map (hint_of (FlatDb db) (RowLen db) M ps) [0..<M], resp_NHints = M,
      resp_Permutations = concat ps @ zeros (NumRows db - s * M), resp_InversePermutations = concat qs @ zeros (NumRows db - s * M),
      resp_Version = Version db\<rparr>"
    using assms(1) sse.hint_process_eq [OF assms(2-5), of seed] avx2.hint_process_eq [OF assms(2-5), of seed]
    by (elim insertE emptyE) blast+
  have lM: "\<forall>p \<in> set ps. length p = M" "\<forall>q \<in> set qs. length q = M"
    using pq l by (auto simp: inverse_pair_def in_set_conv_nth)
  have z: "0 < s" "s < 2 ^ 31" "0 < M" "M < 2 ^ 31" "M = NumRows db div s" "0 < RowLen db" "M * RowLen db < 2 ^ 32"
      "NumRows db * RowLen db \<le> length (FlatDb db)"
    using assms(4) unfolding sizes_ok_def by blast+
  show ?thesis
  proof (cases "s dvd NumRows db")
    case True
    then have N: "NumRows db = s * M" using z(5) by simp
    have "1 * RowLen db \<le> M * RowLen db" using z(3) by (intro mult_le_mono1) simp
    then have "RowLen db < 2 ^ 32" using z(7) by linarith
    then show ?thesis
      using True h z(1-4,6-8) l pq N InitClient_eq [OF l lM z(3), of resp src]
      by (simp add: resp client_ok_def zeros_def)
  next
    case False
    have "s * M \<noteq> NumRows db" using False by (metis dvd_triv_left)
    moreover have "s * M \<le> NumRows db" using z(5) by simp
    ultimately have "0 + (s - 0) * M < length (concat ps @ zeros (NumRows db - s * M))"
      using length_concat_all [OF lM(1)] l(1) by simp
    then have "InitClient resp src = None"
      using initState_loop_short [of 0 s 0 M] by (simp add: InitClient_def initState_def resp)
    with False h show ?thesis by simp
  qed
qed

text \<open>C7: the offline phase, in both builds: when the number of chunks divides the number of rows, the server
  answers the hint request and the client that is built from the answer is in step with the database;
  when it does not divide, building the client panics.\<close>

theorem offline_phase:
  assumes "kern \<in> {xor_single_pass_sse, xor_single_pass_avx2}" "rand_ok RAND" "length (buf rng) = 4"
    and "sizes_ok db s M" "s = (if req \<noteq> 0 then req else int_sqrt (NumRows db))"
  shows "\<exists>rng' resp. hint_process kern RAND req seed db rng = Some (rng', resp) \<and>
    (if s dvd NumRows db
     then \<exists>c. InitClient resp src = Some c \<and> client_ok (FlatDb db) (RowLen db) M c \<and> setSize c = s \<and> c_currVersion c = int (Version db)
     else InitClient resp src = None)"
  by (rule offline_step [OF assms])

theorem offline_phase_witness:
  "\<exists>rng' resp c. hint_process xor_single_pass_avx2 (\<lambda>n b. [200, 1, 2, 3]) 0 [7]
      \<lparr>NumRows = 4, RowLen = 1, Version = 5, FlatDb = [1, 2, 4, 8]\<rparr> \<lparr>calls = 0, buf = [0, 0, 0, 0]\<rparr> = Some (rng', resp) \<and>
    InitClient resp 0 = Some c \<and> client_ok [1, 2, 4, 8] 1 2 c"
proof -
  let ?db = "\<lparr>NumRows = 4, RowLen = 1, Version = 5, FlatDb = [1, 2, 4, 8]\<rparr>"
  have q: "2 = (if 0 \<noteq> (0 :: nat) then 0 else int_sqrt (NumRows ?db))" by (simp add: int_sqrt_def upt_rec)
  have R: "rand_ok (\<lambda>n b. [200, 1, 2, 3])" "length (buf \<lparr>calls = 0, buf = [0, 0, 0, 0]\<rparr>) = 4" by (simp_all add: rand_ok_def)
  have sz: "sizes_ok ?db 2 2" by (simp add: sizes_ok_def)
  have d: "2 dvd NumRows ?db" by simp
  show ?thesis
    using offline_phase [OF _ R sz q, of xor_single_pass_avx2 "[7]" 0, unfolded if_P [OF d]] by fastforce
qed

end
