(* ===== verification/Dynamic.thy ===== *)
theory Dynamic
  imports Protocol
begin

text \<open>
  The updatable database of \<open>pir/dynamic_db.go\<close> and \<open>pir/static_db.go\<close>, the update operations of
  \<open>pir/pir_single_pass.go\<close>, and sessions: a client and a server that query, edit and update in any
  order. The two methods \<open>UpdateServer\<close> and \<open>UpdateClient\<close> only forward to \<open>EditRows\<close> and
  \<open>GetUpdates\<close>; \<open>checkUpdateState\<close> does nothing.
\<close>

section \<open>The database\<close>

record update_op =
  Index :: int
  OldData :: "u8 list"
  NewData :: "u8 list"

record dynamic_db =
  staticDb :: static_db
  ops :: "update_op list"
  d_currVersion :: int
  opInitVersion :: int
  realSizeDB :: nat
  extendSize :: nat

text \<open>\<open>Row(i)\<close>: nil past the end, a slice otherwise.\<close>

definition Row :: "static_db \<Rightarrow> int \<Rightarrow> u8 list option" where
  "Row db i =
     (if int (NumRows db) \<le> i then Some []
      else if 0 \<le> i \<and> (nat i + 1) * RowLen db \<le> length (FlatDb db)
      then Some (take (RowLen db) (drop (nat i * RowLen db) (FlatDb db))) else None)"

definition UpdateRow :: "static_db \<Rightarrow> int \<Rightarrow> u8 list \<Rightarrow> static_db option" where
  "UpdateRow db index updatedRow =
     (if int (NumRows db) \<le> index then Some db
      else do {
        flat \<leftarrow> for_range 0 (RowLen db) (\<lambda>i flat. do {
          v \<leftarrow> rd updatedRow i;
          put flat (index * int (RowLen db) + int i) v
        }) (FlatDb db);
        Some (db\<lparr>FlatDb := flat, Version := Version db + 1\<rparr>)
      })"

definition ExtendDb :: "static_db \<Rightarrow> nat \<Rightarrow> static_db" where
  "ExtendDb db extendVal = db\<lparr>FlatDb := FlatDb db @ zeros (extendVal * RowLen db), NumRows := NumRows db + extendVal\<rparr>"

text \<open>\<open>copy(dst, src)\<close>\<close>

definition copy :: "u8 list \<Rightarrow> u8 list \<Rightarrow> u8 list" where
  "copy dst src = take (length dst) src @ drop (length src) dst"

definition edit_step :: "int list \<Rightarrow> u8 list list \<Rightarrow> nat \<Rightarrow> dynamic_db \<Rightarrow> dynamic_db option" where
  "edit_step updateIndices updatedRows i ddb = do {
     editIndex \<leftarrow> rd updateIndices i;
     r0 \<leftarrow> rd updatedRows 0;
     old \<leftarrow> Row (staticDb ddb) editIndex;
     new \<leftarrow> rd updatedRows i;
     db \<leftarrow> UpdateRow (staticDb ddb) editIndex new;
     Some (ddb\<lparr>ops := ops ddb @ [\<lparr>Index = editIndex, OldData = copy (zeros (length r0)) old, NewData = new\<rparr>],
       staticDb := db\<rparr>)
   }"

definition EditRows :: "dynamic_db \<Rightarrow> int list \<Rightarrow> u8 list list \<Rightarrow> (go_error + dynamic_db) option" where
  "EditRows ddb updateIndices updatedRows =
     (if length updateIndices \<noteq> length updatedRows then Some (Inl DifferentSizes)
      else do {
        ddb \<leftarrow> for_range 0 (length updateIndices) (edit_step updateIndices updatedRows) ddb;
        Some (Inr (ddb\<lparr>d_currVersion := d_currVersion ddb + int (length updateIndices)\<rparr>))
      })"

definition AppendRows :: "dynamic_db \<Rightarrow> u8 list list \<Rightarrow> (go_error + dynamic_db) option" where
  "AppendRows ddb newRows =
     (let numAdds = length newRows;
        ddb = (if realSizeDB ddb + numAdds \<ge> NumRows (staticDb ddb)
          then ddb\<lparr>staticDb := ExtendDb (staticDb ddb) (extendSize ddb)\<rparr> else ddb)
      in do {
        r \<leftarrow> EditRows ddb (map int [realSizeDB ddb..<realSizeDB ddb + numAdds]) newRows;
        case r of Inl e \<Rightarrow> Some (Inl e)
        | Inr ddb \<Rightarrow> Some (Inr (ddb\<lparr>realSizeDB := realSizeDB ddb + numAdds\<rparr>))
      })"

definition StaticDBFromRows :: "u8 list list \<Rightarrow> static_db option" where
  "StaticDBFromRows rows =
     (if length rows < 1 then Some \<lparr>NumRows = 0, RowLen = 0, Version = 0, FlatDb = []\<rparr>
      else if list_all (\<lambda>v. length v = length (rows ! 0)) rows
      then Some \<lparr>NumRows = length rows, RowLen = length (rows ! 0), Version = 0, FlatDb = concat rows\<rparr> else None)"

definition DynamicDBFromRows :: "u8 list list \<Rightarrow> nat \<Rightarrow> dynamic_db option" where
  "DynamicDBFromRows rows numRows = do {
     db \<leftarrow> StaticDBFromRows rows;
     if int_sqrt (NumRows db) = 0 then None
     else Some \<lparr>staticDb = db, ops = [], d_currVersion = 0, opInitVersion = 0, realSizeDB = numRows,
       extendSize = numRows div int_sqrt (NumRows db)\<rparr>
   }"

section \<open>The update of a client\<close>

datatype update_resp = SinglePassUpdateResp int "update_op list" | UpdateOps "update_op list"

definition GetUpdates :: "int \<Rightarrow> dynamic_db \<Rightarrow> (go_error + update_resp) option" where
  "GetUpdates currVersion ddb =
     (if currVersion < opInitVersion ddb then Some (Inl VersionTooOld)
      else if ops ddb = [] then Some (Inr (UpdateOps []))
      else if currVersion - opInitVersion ddb \<le> int (length (ops ddb))
      then Some (Inr (SinglePassUpdateResp (d_currVersion ddb) (drop (nat (currVersion - opInitVersion ddb)) (ops ddb))))
      else None)"

definition SinglePermutation :: "rand \<Rightarrow> nat \<Rightarrow> u32 list \<Rightarrow> u32 list \<Rightarrow> rng \<Rightarrow> (rng \<times> u32 list \<times> u32 list) option" where
  "SinglePermutation RAND n permArr invPermArr rng =
     (if permArr = [] \<or> invPermArr = [] then None
      else do {
        (rng, p) \<leftarrow> permute RAND 0 (of_nat n) permArr rng;
        q \<leftarrow> invert_permutation p (of_nat n) invPermArr;
        Some (rng, p, q)
      })"

definition grow :: "rand \<Rightarrow> rng \<times> client \<Rightarrow> (rng \<times> client) option" where
  "grow RAND = (\<lambda>(rng, c). do {
     (rng, p, q) \<leftarrow> SinglePermutation RAND (nHints c) (zeros (nHints c)) (zeros (nHints c)) rng;
     Some (rng, c\<lparr>c_nRows := c_nRows c + nHints c, setSize := setSize c + 1,
       idxToSetIdx := idxToSetIdx c @ [p], setIdxToIdx := setIdxToIdx c @ [q]\<rparr>)
   })"

definition update_step :: "into_kernel \<Rightarrow> rand \<Rightarrow> update_op \<Rightarrow> rng \<times> client \<Rightarrow> (rng \<times> client) option" where
  "update_step into RAND op s = do {
     (rng, c) \<leftarrow> (if int (c_nRows (snd s)) \<le> Index op then grow RAND s else Some s);
     (_, _, pos) \<leftarrow> findIndex c (Index op);
     h \<leftarrow> at (hints c) pos;
     h \<leftarrow> FastXorInto into h (OldData op) 0 (length (OldData op)) (c_RowLen c);
     h \<leftarrow> FastXorInto into h (NewData op) 0 (length (NewData op)) (c_RowLen c);
     hs \<leftarrow> put (hints c) pos h;
     Some (rng, c\<lparr>hints := hs\<rparr>)
   }"

definition updateState :: "into_kernel \<Rightarrow> rand \<Rightarrow> int \<Rightarrow> update_op list \<Rightarrow> rng \<times> client \<Rightarrow> (rng \<times> client) option" where
  "updateState into RAND newVersion updates s = do {
     (rng, c) \<leftarrow> foldM (update_step into RAND) updates s;
     Some (rng, c\<lparr>c_currVersion := newVersion\<rparr>)
   }"

text \<open>The closure of \<open>Update\<close>: only a \<open>SinglePassUpdateResp\<close> is accepted.\<close>

definition update_closure :: "into_kernel \<Rightarrow> rand \<Rightarrow> update_resp \<Rightarrow> rng \<times> client \<Rightarrow> (rng \<times> (go_error + client)) option" where
  "update_closure into RAND resp s =
     (case resp of
       SinglePassUpdateResp v us \<Rightarrow> map_option (\<lambda>(rng, c). (rng, Inr c)) (updateState into RAND v us s)
     | UpdateOps us \<Rightarrow> Some (fst s, Inl InvalidResponseType))"

definition update_round :: "into_kernel \<Rightarrow> rand \<Rightarrow> dynamic_db \<Rightarrow> rng \<times> client \<Rightarrow> (rng \<times> (go_error + client)) option" where
  "update_round into RAND ddb s = do {
     r \<leftarrow> GetUpdates (c_currVersion (snd s)) ddb;
     case r of Inl e \<Rightarrow> Some (fst s, Inl e) | Inr resp \<Rightarrow> update_closure into RAND resp s
   }"

section \<open>Editing one row\<close>

definition set_row :: "u8 list \<Rightarrow> nat \<Rightarrow> nat \<Rightarrow> u8 list \<Rightarrow> u8 list" where
  "set_row flat i n new = take (i * n) flat @ new @ drop (i * n + n) flat"

lemma length_set_row [simp]: "i * n + n \<le> length flat \<Longrightarrow> length new = n \<Longrightarrow> length (set_row flat i n new) = length flat"
  by (simp add: set_row_def)

lemma nth_set_row:
  "i * n + n \<le> length flat \<Longrightarrow> length new = n \<Longrightarrow> m < length flat \<Longrightarrow>
   set_row flat i n new ! m = (if i * n \<le> m \<and> m < i * n + n then new ! (m - i * n) else flat ! m)"
  by (auto simp: set_row_def nth_append)

lemma row_set_row:
  assumes "i * n + n \<le> length flat" "length new = n" "j * n + n \<le> length flat"
  shows "row (set_row flat i n new) (j * n) n = (if j = i then new else row flat (j * n) n)"
proof (rule nth_equalityI)
  fix k assume "k < length (row (set_row flat i n new) (j * n) n)"
  then have k: "k < n" using assms by simp
  have "j \<noteq> i \<Longrightarrow> \<not> (i * n \<le> j * n + k \<and> j * n + k < i * n + n)"
    using k row_end [of i j n "j * n"] row_end [of j i n "i * n"] by (cases "j < i") auto
  then show "row (set_row flat i n new) (j * n) n ! k = (if j = i then new else row flat (j * n) n) ! k"
    using assms k by (cases "j = i") (auto simp: nth_set_row)
qed (use assms in simp)

lemma UpdateRow_eq:
  assumes "i < NumRows db" "NumRows db * RowLen db \<le> length (FlatDb db)" "length new = RowLen db"
  shows "UpdateRow db (int i) new = Some (db\<lparr>FlatDb := set_row (FlatDb db) i (RowLen db) new, Version := Version db + 1\<rparr>)"
proof -
  let ?n = "RowLen db" and ?f = "FlatDb db"
  let ?g = "\<lambda>k. take (i * ?n) ?f @ take k new @ drop (i * ?n + k) ?f"
  have e: "i * ?n + ?n \<le> length ?f" using row_end [OF assms(1,2)] .
  have "for_range 0 ?n (\<lambda>i' flat. do { v \<leftarrow> rd new i'; put flat (int i * int ?n + int i') v }) (?g 0) = Some (?g ?n)"
  proof (rule for_range_state)
    fix k assume k: "k < ?n"
    have p: "int i * int ?n + int k = int (i * ?n + k)" by simp
    have "(?g k)[i * ?n + k := new ! k] = ?g (Suc k)"
      using k e assms(3) by (intro nth_equalityI) (auto simp: nth_list_update nth_append less_Suc_eq)
    then show "(do { v \<leftarrow> rd new k; put (?g k) (int i * int ?n + int k) v }) = Some (?g (Suc k))"
      using k e assms(3) unfolding p put_nat by (simp add: rd_in wr_in)
  qed simp
  then show ?thesis using assms by (simp add: UpdateRow_def set_row_def)
qed

section \<open>The hints after an edit\<close>

text \<open>What an operation stands for: the old data are in the database, the new data replace them.\<close>

definition op_ok :: "nat \<Rightarrow> nat \<Rightarrow> u8 list \<Rightarrow> update_op \<Rightarrow> bool" where
  "op_ok rows n flat op \<longleftrightarrow> 0 \<le> Index op \<and> Index op < int rows \<and>
     OldData op = row flat (nat (Index op) * n) n \<and> length (NewData op) = n"

definition replay :: "nat \<Rightarrow> nat \<Rightarrow> update_op list \<Rightarrow> u8 list \<Rightarrow> u8 list option" where
  "replay rows n = foldM (\<lambda>op flat. if op_ok rows n flat op then Some (set_row flat (nat (Index op)) n (NewData op)) else None)"

lemma replay_snoc: "replay rows n (us @ [u]) flat = Option.bind (replay rows n us flat) (replay rows n [u])"
  by (simp add: replay_def foldM_append)

lemma chunk_at_set_row:
  assumes "i0 < S" "i1 < M" "j < S" "unat v < M" "S * M * n \<le> length flat" "length new = n"
  shows "chunk_at (set_row flat (i0 * M + i1) n new) n M j v = (if j = i0 \<and> unat v = i1 then new else chunk_at flat n M j v)"
proof -
  have "(i0 * M + i1) * n + n \<le> length flat" "(j * M + unat v) * n + n \<le> length flat"
    using chunk_row assms by blast+
  moreover have "j * M + unat v = i0 * M + i1 \<longleftrightarrow> j = i0 \<and> unat v = i1"
  proof
    assume e: "j * M + unat v = i0 * M + i1"
    then have "(j * M + unat v) div M = (i0 * M + i1) div M" "(j * M + unat v) mod M = (i0 * M + i1) mod M" by simp_all
    then show "j = i0 \<and> unat v = i1" using assms(2,4) by simp
  qed simp
  ultimately show ?thesis using assms(6) by (simp add: chunk_at_def row_set_row)
qed

lemma hint_of_set_row:
  assumes ok: "client_ok flat n M c" and i: "i0 < setSize c" "i1 < M" and new: "length new = n" and k: "k < M"
  shows "hint_of (set_row flat (i0 * M + i1) n new) n M (idxToSetIdx c) k =
    (if k = unat (setIdxToIdx c ! i0 ! i1)
     then map2 (XOR) (map2 (XOR) (hint_of flat n M (idxToSetIdx c) k) (row flat ((i0 * M + i1) * n) n)) new
     else hint_of flat n M (idxToSetIdx c) k)"
proof -
  let ?P = "idxToSetIdx c" and ?S = "setSize c" and ?pos = "unat (setIdxToIdx c ! i0 ! i1)"
  let ?rs = "map (\<lambda>j. chunk_at flat n M j (?P ! j ! k)) [0..<?S]"
  have S: "?S * M * n \<le> length flat" "length ?P = ?S" "M < 2 ^ 32" using ok by (simp_all add: client_ok_def)
  have pq: "inverse_pair M (?P ! j) (setIdxToIdx c ! j)" if "j < ?S" for j using ok that by (simp add: client_ok_def)
  have lt: "unat (?P ! j ! k) < M" if "j < ?S" for j using inverse_pair_less [OF pq [OF that] k] by simp
  have "unat (?P ! i0 ! k) = i1 \<longleftrightarrow> k = ?pos"
  proof
    assume "unat (?P ! i0 ! k) = i1"
    then show "k = ?pos" using pq [OF i(1)] k S(3) by (auto simp: inverse_pair_def unat_of_nat_u32)
  qed (use pq [OF i(1)] i(2) S(3) in \<open>simp add: inverse_pair_def unat_of_nat_u32\<close>)
  then have rs: "map (\<lambda>j. chunk_at (set_row flat (i0 * M + i1) n new) n M j (?P ! j ! k)) [0..<?S] = (if k = ?pos then ?rs[i0 := new] else ?rs)"
    using lt chunk_at_set_row [OF i _ _ S(1) new] i(1) by (auto intro!: nth_equalityI simp: nth_list_update)
  have "\<forall>r \<in> set ?rs. length r = n" using lt S by auto
  moreover have "?rs ! i0 = row flat ((i0 * M + i1) * n) n" if "k = ?pos"
    using that i \<open>unat (?P ! i0 ! k) = i1 \<longleftrightarrow> k = ?pos\<close> by (simp add: chunk_at_def)
  ultimately show ?thesis
    unfolding hint_of_chunks S(2) rs using xors_update [of i0 ?rs n new] i(1) new by (cases "k = ?pos") simp_all
qed

section \<open>The update of the client\<close>

lemma client_ok_version: "client_ok db n M (c\<lparr>c_currVersion := v\<rparr>) = client_ok db n M c"
  by (simp add: client_ok_def)

lemma client_ok_hints:
  assumes "client_ok flat n M c" "length flat' = length flat" "length hs = M"
    and "\<And>k. k < M \<Longrightarrow> hs ! k = hint_of flat' n M (idxToSetIdx c) k"
  shows "client_ok flat' n M (c\<lparr>hints := hs\<rparr>)"
  using assms by (simp add: client_ok_def)

text \<open>A chunk of zero rows is added to the client.\<close>

lemma row_append: "off + n \<le> length a \<Longrightarrow> row (a @ b) off n = row a off n"
  by (simp add: row_def)

lemma hint_of_zero_chunk:
  assumes ok: "client_ok flat n M c" and l: "length flat = setSize c * M * n" and p: "unat (p ! k) < M" and k: "k < M"
  shows "hint_of (flat @ zeros (M * n)) n M (idxToSetIdx c @ [p]) k = hint_of flat n M (idxToSetIdx c) k"
proof -
  let ?S = "setSize c" and ?P = "idxToSetIdx c" and ?f = "flat @ zeros (M * n)"
  have lP: "length ?P = ?S" using ok by (simp add: client_ok_def)
  have lt: "unat (?P ! j ! k) < M" if "j < ?S" for j
    using ok k that inverse_pair_less [of M "?P ! j" "setIdxToIdx c ! j" k] by (auto simp: client_ok_def)
  have old: "hint_of ?f n M ?P k = hint_of flat n M ?P k"
    unfolding hint_of_def lP using chunk_row [of _ ?S _ M n "length flat"] lt l
    by (intro arg_cong [of _ _ "xors n"] map_cong refl row_append) simp
  have "length (hint_of flat n M ?P k) = n" using lt lP l by (intro length_hint_of) simp_all
  moreover have "row ?f ((?S * M + unat (p ! k)) * n) n = replicate n 0"
  proof -
    have "unat (p ! k) * n + n \<le> M * n" by (rule row_end [OF p order_refl])
    moreover have "(?S * M + unat (p ! k)) * n = length flat + unat (p ! k) * n" by (simp add: l add_mult_distrib)
    ultimately show ?thesis by (simp add: row_def zeros_def)
  qed
  ultimately show ?thesis using hint_of_snoc [of ?S ?P ?f n M p k] lP old by (simp add: map2_xor_0)
qed

lemma grow_eq:
  assumes ok: "client_ok flat n M c" and l: "length flat = setSize c * M * n" and S: "setSize c + 1 < 2 ^ 31"
    and R: "rand_ok RAND" "length (buf rng) = 4"
  shows "\<exists>rng' c'. grow RAND (rng, c) = Some (rng', c') \<and> client_ok (flat @ zeros (M * n)) n M c' \<and>
    setSize c' = setSize c + 1 \<and> c_currVersion c' = c_currVersion c \<and> length (buf rng') = 4"
proof -
  let ?f = "flat @ zeros (M * n)" and ?z = "zeros M :: u32 list"
  have M: "0 < M" "M < 2 ^ 32" "nHints c = M" "c_RowLen c = n" using ok by (simp_all add: client_ok_def)
  have u: "unat (of_nat M :: u32) = M" "(of_nat M :: u32) \<noteq> 0" "?z \<noteq> []"
    using M by (auto simp: unat_of_nat_u32 zeros_def) (metis M(1,2) less_numeral_extra(3) unat_0 unat_of_nat_u32)
  obtain rng' p where p: "permute RAND 0 (of_nat M) ?z rng = Some (rng', p)" "is_perm p" "length p = M" "length (buf rng') = 4"
    using permute_eq [OF R u(2), of ?z 0] u(1) by (auto simp: zeros_def)
  obtain q where q: "invert_permutation p (of_nat M) ?z = Some q" "is_perm q" "length q = M"
      "\<forall>i < M. q ! unat (p ! i) = of_nat i \<and> p ! unat (q ! i) = of_nat i"
    using invert_permutation_eq [of p "of_nat M" ?z "[]"] p u(1) by (auto simp: zeros_def)
  have pq: "inverse_pair M p q" using p q by (simp add: inverse_pair_def)
  have h: "hint_of ?f n M (idxToSetIdx c @ [p]) k = hint_of flat n M (idxToSetIdx c) k" if "k < M" for k
    by (rule hint_of_zero_chunk [OF ok l _ that]) (use inverse_pair_less [OF pq that] in blast)
  let ?c = "c\<lparr>c_nRows := c_nRows c + M, setSize := setSize c + 1, idxToSetIdx := idxToSetIdx c @ [p], setIdxToIdx := setIdxToIdx c @ [q]\<rparr>"
  have "client_ok ?f n M ?c"
    using ok l S pq h by (auto simp: client_ok_def nth_append less_Suc_eq add_mult_distrib)
  then show ?thesis
    using p q u M by (intro exI [of _ rng'] exI [of _ ?c]) (simp add: grow_def SinglePermutation_def)
qed

text \<open>The rows that the client sees before an operation: one more chunk of zeros when the index is new.\<close>

definition seen :: "nat \<Rightarrow> nat \<Rightarrow> client \<Rightarrow> u8 list \<Rightarrow> update_op \<Rightarrow> u8 list" where
  "seen n M c flat op = (if int (c_nRows c) \<le> Index op then flat @ zeros (M * n) else flat)"

context xor_kernel
begin

lemma update_hint_eq:
  assumes ok: "client_ok flat n M c" and op: "op_ok (c_nRows c) n flat op"
  shows "\<exists>c'. update_step into RAND op (rng, c) = Some (rng, c') \<and>
    client_ok (set_row flat (nat (Index op)) n (NewData op)) n M c' \<and> setSize c' = setSize c \<and> c_currVersion c' = c_currVersion c"
proof -
  define i where "i = nat (Index op)"
  let ?i0 = "i div M" and ?i1 = "i mod M" and ?f = "set_row flat i n (NewData op)"
  let ?pos = "unat (setIdxToIdx c ! ?i0 ! ?i1)"
  have i: "Index op = int i" "i < c_nRows c" using op by (auto simp: op_ok_def i_def)
  note fi = findIndex_eq [OF ok i(2)]
  have e: "?i0 * M + ?i1 = i" by simp
  have n: "0 < n" "n < 2 ^ 32" "setSize c * M * n \<le> length flat" "c_RowLen c = n" "length (hints c) = M" using ok by (simp_all add: client_ok_def)
  have pos: "?pos < M" using ok fi(2,3) inverse_pair_less [of M "idxToSetIdx c ! ?i0" "setIdxToIdx c ! ?i0" ?i1] by (simp add: client_ok_def)
  have old: "OldData op = row flat (i * n) n" and new: "length (NewData op) = n" using op by (simp_all add: op_ok_def i_def)
  have r: "i * n + n \<le> length flat" using chunk_row [OF fi(2,3) n(3)] e by simp
  have lo: "length (OldData op) = n" using old r by simp
  have lh: "length (hints c ! ?pos) = n"
  proof -
    have "\<forall>j < length (idxToSetIdx c). unat (idxToSetIdx c ! j ! ?pos) < M"
      using ok pos inverse_pair_less by (auto simp: client_ok_def)
    then have "length (hint_of flat n M (idxToSetIdx c) ?pos) = n"
      using ok n(3) by (intro length_hint_of) (simp_all add: client_ok_def)
    then show ?thesis using ok pos by (simp add: client_ok_def)
  qed
  let ?h = "map2 (XOR) (map2 (XOR) (hints c ! ?pos) (OldData op)) (NewData op)"
  have f: "FastXorInto into (hints c ! ?pos) (OldData op) 0 (length (OldData op)) n = Some (map2 (XOR) (hints c ! ?pos) (OldData op))"
    "FastXorInto into (map2 (XOR) (hints c ! ?pos) (OldData op)) (NewData op) 0 (length (NewData op)) n = Some ?h"
    using n lo new lh FastXorInto_eq [of "hints c ! ?pos" n "length (OldData op)" 0 "OldData op"]
      FastXorInto_eq [of "map2 (XOR) (hints c ! ?pos) (OldData op)" n "length (NewData op)" 0 "NewData op"] by (simp_all add: row_def)
  let ?c = "c\<lparr>hints := (hints c)[?pos := ?h]\<rparr>"
  have "update_step into RAND op (rng, c) = Some (rng, ?c)"
    using i fi(1) pos n(4,5) f by (simp add: update_step_def rd_in wr_in)
  moreover have "client_ok ?f n M ?c"
  proof (rule client_ok_hints [OF ok])
    show "length ?f = length flat" using r new by simp
    fix k assume k: "k < M"
    have "hints c ! k = hint_of flat n M (idxToSetIdx c) k" using ok k by (simp add: client_ok_def)
    then show "(hints c)[?pos := ?h] ! k = hint_of ?f n M (idxToSetIdx c) k"
      using hint_of_set_row [OF ok fi(2,3) new k] e k n(5) old by (cases "k = ?pos") simp_all
  qed (simp add: n(5))
  ultimately show ?thesis by (intro exI [of _ ?c]) (simp add: i_def)
qed

lemma update_step_eq:
  assumes ok: "client_ok flat n M c" and op: "op_ok (c_nRows c + M) n (seen n M c flat op) op"
    and R: "rand_ok RAND" "length (buf rng) = 4"
    and new: "int (c_nRows c) \<le> Index op \<Longrightarrow> length flat = setSize c * M * n \<and> setSize c + 1 < 2 ^ 31"
  shows "\<exists>rng' c'. update_step into RAND op (rng, c) = Some (rng', c') \<and>
    client_ok (set_row (seen n M c flat op) (nat (Index op)) n (NewData op)) n M c' \<and>
    setSize c' = setSize c + (if int (c_nRows c) \<le> Index op then 1 else 0) \<and> c_currVersion c' = c_currVersion c \<and> length (buf rng') = 4"
proof (cases "int (c_nRows c) \<le> Index op")
  case False
  then have "op_ok (c_nRows c) n flat op" using op by (simp add: op_ok_def seen_def)
  from update_hint_eq [OF ok this] False R(2) show ?thesis by (fastforce simp: seen_def)
next
  case True
  obtain rng' c' where g: "grow RAND (rng, c) = Some (rng', c')" "client_ok (flat @ zeros (M * n)) n M c'"
      "setSize c' = setSize c + 1" "c_currVersion c' = c_currVersion c" "length (buf rng') = 4"
    using grow_eq [OF ok _ _ R] new [OF True] by blast
  have n: "c_nRows c' = c_nRows c + M" using g(2,3) ok by (simp add: client_ok_def add.commute)
  then have "op_ok (c_nRows c') n (flat @ zeros (M * n)) op" using op True by (simp add: seen_def)
  from update_hint_eq [OF g(2) this, of RAND rng'] obtain c'' where c'': "update_step into RAND op (rng', c') = Some (rng', c'')"
      "client_ok (set_row (flat @ zeros (M * n)) (nat (Index op)) n (NewData op)) n M c''" "setSize c'' = setSize c'"
      "c_currVersion c'' = c_currVersion c'"
    by blast
  have "\<not> int (c_nRows c') \<le> Index op" using op n by (simp add: op_ok_def)
  then have "update_step into RAND op (rng, c) = update_step into RAND op (rng', c')"
    using True g(1) by (simp add: update_step_def)
  with c'' g True show ?thesis by (simp add: seen_def)
qed

end

section \<open>Edits and updates in step\<close>

lemma edit_step_eq:
  assumes j: "j < length is" "length rs = length is" and i: "0 \<le> is ! j" "is ! j < int (NumRows db)"
    and rs: "\<forall>r \<in> set rs. length r = RowLen db" and db: "staticDb d = db" "NumRows db * RowLen db \<le> length (FlatDb db)"
  shows "\<exists>u. edit_step is rs j d = Some (d\<lparr>ops := ops d @ [u],
      staticDb := db\<lparr>FlatDb := set_row (FlatDb db) (nat (Index u)) (RowLen db) (NewData u), Version := Version db + 1\<rparr>\<rparr>) \<and>
    op_ok (NumRows db) (RowLen db) (FlatDb db) u \<and> Index u = is ! j"
proof -
  let ?n = "RowLen db" and ?k = "nat (is ! j)"
  have k: "is ! j = int ?k" "?k < NumRows db" using i by simp_all
  have e: "?k * ?n + ?n \<le> length (FlatDb db)" by (rule row_end [OF k(2) db(2)])
  have "rs ! 0 \<in> set rs" "rs ! j \<in> set rs" using j by (auto intro: nth_mem)
  then have l: "length (rs ! 0) = ?n" "length (rs ! j) = ?n" using rs by simp_all
  have row: "Row db (int ?k) = Some (row (FlatDb db) (?k * ?n) ?n)"
    using i e by (simp add: Row_def row_def add.commute)
  have r0: "rd rs 0 = Some (rs ! 0)" using j by (intro rd_in) linarith
  have old: "copy (zeros (length (rs ! 0))) (row (FlatDb db) (?k * ?n) ?n) = row (FlatDb db) (?k * ?n) ?n"
    using e l by (simp add: copy_def)
  note up = UpdateRow_eq [OF k(2) db(2) l(2)]
  let ?u = "\<lparr>Index = int ?k, OldData = row (FlatDb db) (?k * ?n) ?n, NewData = rs ! j\<rparr>"
  have "edit_step is rs j d = Some (d\<lparr>ops := ops d @ [?u],
      staticDb := db\<lparr>FlatDb := set_row (FlatDb db) ?k ?n (rs ! j), Version := Version db + 1\<rparr>\<rparr>)"
    using j row old up r0 k(1) db(1) by (simp add: edit_step_def rd_in)
  moreover have "op_ok (NumRows db) ?n (FlatDb db) ?u" using i l by (simp add: op_ok_def)
  moreover have "Index ?u = is ! j" using k(1) by simp
  ultimately show ?thesis by (intro exI [of _ ?u]) simp
qed

lemma replay_length:
  "replay rows n us flat = Some flat' \<Longrightarrow> rows * n \<le> length flat \<Longrightarrow> length flat' = length flat"
proof (induction us arbitrary: flat)
  case (Cons u us)
  then have u: "op_ok rows n flat u" and r: "replay rows n us (set_row flat (nat (Index u)) n (NewData u)) = Some flat'"
    by (simp_all add: replay_def split: if_splits)
  have "nat (Index u) < rows" using u by (auto simp: op_ok_def)
  from row_end [OF this Cons.prems(2)] have "length (set_row flat (nat (Index u)) n (NewData u)) = length flat"
    using u by (simp add: op_ok_def)
  with Cons.IH [OF r] Cons.prems(2) show ?case by simp
qed (simp add: replay_def)

lemma EditRows_eq:
  assumes l: "length rs = length is" and i: "\<forall>i \<in> set is. 0 \<le> i \<and> i < int (NumRows (staticDb d))"
    and rs: "\<forall>r \<in> set rs. length r = RowLen (staticDb d)"
    and db: "NumRows (staticDb d) * RowLen (staticDb d) \<le> length (FlatDb (staticDb d))"
  shows "\<exists>d' us. EditRows d is rs = Some (Inr d') \<and> ops d' = ops d @ us \<and> map Index us = is \<and>
    replay (NumRows (staticDb d)) (RowLen (staticDb d)) us (FlatDb (staticDb d)) = Some (FlatDb (staticDb d')) \<and>
    NumRows (staticDb d') = NumRows (staticDb d) \<and> RowLen (staticDb d') = RowLen (staticDb d) \<and>
    d_currVersion d' = d_currVersion d + int (length is) \<and> opInitVersion d' = opInitVersion d \<and>
    realSizeDB d' = realSizeDB d \<and> extendSize d' = extendSize d"
proof -
  let ?N = "NumRows (staticDb d)" and ?n = "RowLen (staticDb d)"
  define I where "I j d' \<longleftrightarrow> (\<exists>us. ops d' = ops d @ us \<and> map Index us = take j is \<and>
      replay ?N ?n us (FlatDb (staticDb d)) = Some (FlatDb (staticDb d')) \<and>
      NumRows (staticDb d') = ?N \<and> RowLen (staticDb d') = ?n \<and> d_currVersion d' = d_currVersion d \<and> opInitVersion d' = opInitVersion d \<and>
      realSizeDB d' = realSizeDB d \<and> extendSize d' = extendSize d)" for j and d' :: dynamic_db
  have "\<exists>d'. for_range 0 (length is) (edit_step is rs) d = Some d' \<and> I (length is) d'"
  proof (rule for_range_inv)
    show "I 0 d" by (simp add: I_def replay_def)
    fix j d1 assume j: "j < length is" and "I j d1"
    then obtain us where us: "ops d1 = ops d @ us" "map Index us = take j is" "replay ?N ?n us (FlatDb (staticDb d)) = Some (FlatDb (staticDb d1))"
        "NumRows (staticDb d1) = ?N" "RowLen (staticDb d1) = ?n" "d_currVersion d1 = d_currVersion d" "opInitVersion d1 = opInitVersion d"
        "realSizeDB d1 = realSizeDB d" "extendSize d1 = extendSize d"
      unfolding I_def by blast
    have "?N * ?n \<le> length (FlatDb (staticDb d1))" using replay_length [OF us(3) db] db by simp
    moreover have "0 \<le> is ! j \<and> is ! j < int ?N" using i j by simp
    ultimately obtain u where u: "edit_step is rs j d1 = Some (d1\<lparr>ops := ops d1 @ [u],
        staticDb := staticDb d1\<lparr>FlatDb := set_row (FlatDb (staticDb d1)) (nat (Index u)) ?n (NewData u), Version := Version (staticDb d1) + 1\<rparr>\<rparr>)"
        "op_ok ?N ?n (FlatDb (staticDb d1)) u" "Index u = is ! j"
      using edit_step_eq [OF j l, of "staticDb d1" d1] rs us(4,5) by auto
    have "replay ?N ?n (us @ [u]) (FlatDb (staticDb d)) = Some (set_row (FlatDb (staticDb d1)) (nat (Index u)) ?n (NewData u))"
      using us(3) u(2) by (simp add: replay_snoc) (simp add: replay_def)
    then show "\<exists>t. edit_step is rs j d1 = Some t \<and> I (Suc j) t"
      unfolding u(1) I_def using us u(3) j by (auto simp: take_Suc_conv_app_nth intro!: exI [of _ "us @ [u]"])
  qed simp
  then obtain d1 us where "for_range 0 (length is) (edit_step is rs) d = Some d1" "ops d1 = ops d @ us" "map Index us = is"
      "replay ?N ?n us (FlatDb (staticDb d)) = Some (FlatDb (staticDb d1))"
      "NumRows (staticDb d1) = ?N" "RowLen (staticDb d1) = ?n" "d_currVersion d1 = d_currVersion d" "opInitVersion d1 = opInitVersion d"
      "realSizeDB d1 = realSizeDB d" "extendSize d1 = extendSize d"
    unfolding I_def by auto
  then show ?thesis using l by (intro exI [of _ "d1\<lparr>d_currVersion := d_currVersion d1 + int (length is)\<rparr>"] exI [of _ us]) (simp add: EditRows_def)
qed

context xor_kernel
begin

lemma updates_eq:
  "client_ok flat n M c \<Longrightarrow> replay (c_nRows c) n us flat = Some flat' \<Longrightarrow>
   \<exists>c'. foldM (update_step into RAND) us (rng, c) = Some (rng, c') \<and> client_ok flat' n M c' \<and> setSize c' = setSize c"
proof (induction us arbitrary: flat c)
  case (Cons u us)
  then have u: "op_ok (c_nRows c) n flat u" and r: "replay (c_nRows c) n us (set_row flat (nat (Index u)) n (NewData u)) = Some flat'"
    by (simp_all add: replay_def split: if_splits)
  obtain c1 where c1: "update_step into RAND u (rng, c) = Some (rng, c1)"
      "client_ok (set_row flat (nat (Index u)) n (NewData u)) n M c1" "setSize c1 = setSize c"
    using update_hint_eq [OF Cons.prems(1) u, of RAND rng] by blast
  have "c_nRows c1 = c_nRows c" using c1(2,3) Cons.prems(1) by (simp add: client_ok_def)
  with Cons.IH [OF c1(2)] r c1 show ?case by auto
qed (simp add: replay_def)

end

section \<open>Sessions\<close>

text \<open>
  The states that a client and a server reach: they start with the offline phase of a fresh database;
  then, in any order, the client asks a query when it has the server's version, the server edits rows,
  and the client updates. The generator state \<open>rng\<close> is the server's in the offline phase and the
  client's in an update; both run the same C code.
\<close>

type_synonym kernels = "into_kernel \<times> rows_kernel \<times>
  (u8 list \<Rightarrow> nat \<Rightarrow> u32 list \<Rightarrow> nat \<Rightarrow> u32 \<Rightarrow> u8 list \<Rightarrow> u32 \<Rightarrow> u8 list option)"

inductive session :: "kernels \<Rightarrow> rand \<Rightarrow> (nat \<Rightarrow> nat \<Rightarrow> nat) \<Rightarrow> client \<Rightarrow> rng \<Rightarrow> dynamic_db \<Rightarrow> bool"
  for k :: kernels and RAND :: rand and Intn :: "nat \<Rightarrow> nat \<Rightarrow> nat" where
  start: "DynamicDBFromRows rows (length rows) = Some d \<Longrightarrow> sizes_ok (staticDb d) s M \<Longrightarrow> length (buf rng) = 4 \<Longrightarrow>
    s = (if req \<noteq> 0 then req else int_sqrt (length rows)) \<Longrightarrow>
    hint_process (snd (snd k)) RAND req seed (staticDb d) rng = Some (rng', resp) \<Longrightarrow>
    InitClient resp src = Some c \<Longrightarrow> length (buf rng'') = 4 \<Longrightarrow> session k RAND Intn c rng'' d"
| ask: "session k RAND Intn c rng d \<Longrightarrow> c_currVersion c = d_currVersion d \<Longrightarrow>
    query_round (fst k) (fst (snd k)) Intn (staticDb d) (staticDb d) c i = Some (c', Inr r) \<Longrightarrow> session k RAND Intn c' rng d"
| edit: "session k RAND Intn c rng d \<Longrightarrow> \<forall>i \<in> set is. 0 \<le> i \<and> i < int (NumRows (staticDb d)) \<Longrightarrow>
    \<forall>r \<in> set rs. length r = RowLen (staticDb d) \<Longrightarrow> EditRows d is rs = Some (Inr d') \<Longrightarrow> session k RAND Intn c rng d'"
| update: "session k RAND Intn c rng d \<Longrightarrow>
    update_round (fst k) RAND d (rng, c) = Some (rng', Inr c') \<Longrightarrow> session k RAND Intn c' rng' d"

text \<open>The invariant: the client is in step with the database of its own version, and the operations
  that the server has logged since lead to the present one.\<close>

definition in_step :: "nat \<Rightarrow> client \<Rightarrow> rng \<Rightarrow> dynamic_db \<Rightarrow> bool" where
  "in_step M c rng d \<longleftrightarrow>
     NumRows (staticDb d) = c_nRows c \<and> opInitVersion d = 0 \<and> d_currVersion d = int (length (ops d)) \<and> length (buf rng) = 4 \<and>
     (\<exists>flat v. c_currVersion c = int v \<and> v \<le> length (ops d) \<and> client_ok flat (RowLen (staticDb d)) M c \<and>
       replay (c_nRows c) (RowLen (staticDb d)) (drop v (ops d)) flat = Some (FlatDb (staticDb d)))"

lemma in_step_start:
  assumes ok: "client_ok (FlatDb (staticDb d)) (RowLen (staticDb d)) M c" "c_currVersion c = int (Version (staticDb d))"
    and d: "DynamicDBFromRows rows N = Some d" and n: "NumRows (staticDb d) = c_nRows c" "length (buf rng) = 4"
  shows "in_step M c rng d"
proof -
  have d: "opInitVersion d = 0" "d_currVersion d = 0" "ops d = []" "Version (staticDb d) = 0"
    using d by (auto simp: DynamicDBFromRows_def StaticDBFromRows_def split: if_splits Option.bind_splits)
  show ?thesis using ok n unfolding in_step_def d
    by (auto simp: replay_def intro!: exI [of _ "FlatDb (staticDb d)"] exI [of _ 0])
qed

lemma in_step_edit:
  assumes s: "in_step M c rng d" and i: "\<forall>i \<in> set is. 0 \<le> i \<and> i < int (NumRows (staticDb d))"
    and rs: "\<forall>r \<in> set rs. length r = RowLen (staticDb d)" and e: "EditRows d is rs = Some (Inr d')"
  shows "in_step M c rng d'"
proof -
  let ?n = "RowLen (staticDb d)"
  obtain flat v where d: "NumRows (staticDb d) = c_nRows c" "opInitVersion d = 0" "d_currVersion d = int (length (ops d))" "length (buf rng) = 4"
    and f: "c_currVersion c = int v" "v \<le> length (ops d)" "client_ok flat ?n M c" "replay (c_nRows c) ?n (drop v (ops d)) flat = Some (FlatDb (staticDb d))"
    using s unfolding in_step_def by blast
  have l: "length rs = length is" using e by (auto simp: EditRows_def split: if_splits)
  have "c_nRows c * ?n \<le> length flat" using f(3) by (simp add: client_ok_def)
  then have "NumRows (staticDb d) * ?n \<le> length (FlatDb (staticDb d))" using replay_length [OF f(4)] d(1) by simp
  from EditRows_eq [OF l i rs this] obtain us where us: "ops d' = ops d @ us" "map Index us = is"
      "replay (c_nRows c) ?n us (FlatDb (staticDb d)) = Some (FlatDb (staticDb d'))"
      "NumRows (staticDb d') = c_nRows c" "RowLen (staticDb d') = ?n" "d_currVersion d' = d_currVersion d + int (length is)" "opInitVersion d' = opInitVersion d"
    using e d(1) by auto
  have "replay (c_nRows c) ?n (drop v (ops d')) flat = Some (FlatDb (staticDb d'))"
    using f(2,4) us(1,3) by (simp add: replay_def foldM_append)
  moreover have "length us = length is" using us(2) by (metis length_map)
  ultimately show ?thesis using d f us unfolding in_step_def by auto
qed

context xor_kernel
begin

lemma in_step_ask:
  assumes s: "in_step M c rng d" and R: "Intn_ok Intn" and v: "c_currVersion c = d_currVersion d"
  shows "\<exists>c'. query_round into all_rows Intn (staticDb d) (staticDb d) c i = Some (c', Inr (row (FlatDb (staticDb d))
      (nat (i mod int (c_nRows c)) * RowLen (staticDb d)) (RowLen (staticDb d)))) \<and> in_step M c' rng d"
proof -
  let ?n = "RowLen (staticDb d)"
  obtain flat v where d: "NumRows (staticDb d) = c_nRows c" "opInitVersion d = 0" "d_currVersion d = int (length (ops d))" "length (buf rng) = 4"
    and f: "c_currVersion c = int v" "v \<le> length (ops d)" "client_ok flat ?n M c" "replay (c_nRows c) ?n (drop v (ops d)) flat = Some (FlatDb (staticDb d))"
    using s unfolding in_step_def by blast
  have vl: "v = length (ops d)" using v d(3) f(1) by simp
  then have flat: "flat = FlatDb (staticDb d)" using f(4) by (simp add: replay_def)
  obtain c' where c': "query_round into all_rows Intn (staticDb d) (staticDb d) c i =
      Some (c', Inr (row flat (nat (i mod int (c_nRows c)) * ?n) ?n))" "client_ok flat ?n M c'" "setSize c' = setSize c" "c_currVersion c' = c_currVersion c"
    using query_round_eq [OF _ R refl d(1), of M i] f(3) flat by blast
  have "c_nRows c' = c_nRows c" using c'(2,3) f(3) by (simp add: client_ok_def)
  then have "in_step M c' rng d"
    using d f(1) c' vl flat unfolding in_step_def by (auto simp: replay_def intro!: exI [of _ flat] exI [of _ v])
  with c'(1) flat show ?thesis by blast
qed

lemma in_step_update:
  assumes s: "in_step M c rng d"
  shows "if ops d = [] then update_round into RAND d (rng, c) = Some (rng, Inl InvalidResponseType)
    else \<exists>c'. update_round into RAND d (rng, c) = Some (rng, Inr c') \<and> in_step M c' rng d \<and> c_currVersion c' = d_currVersion d"
proof -
  let ?n = "RowLen (staticDb d)"
  obtain flat v where d: "NumRows (staticDb d) = c_nRows c" "opInitVersion d = 0" "d_currVersion d = int (length (ops d))" "length (buf rng) = 4"
    and f: "c_currVersion c = int v" "v \<le> length (ops d)" "client_ok flat ?n M c" "replay (c_nRows c) ?n (drop v (ops d)) flat = Some (FlatDb (staticDb d))"
    using s unfolding in_step_def by blast
  obtain c1 where c1: "foldM (update_step into RAND) (drop v (ops d)) (rng, c) = Some (rng, c1)"
      "client_ok (FlatDb (staticDb d)) ?n M c1" "setSize c1 = setSize c"
    using updates_eq [OF f(3,4), of RAND rng] by blast
  let ?c = "c1\<lparr>c_currVersion := d_currVersion d\<rparr>"
  have "c_nRows c1 = c_nRows c" using c1(2,3) f(3) by (simp add: client_ok_def)
  then have "in_step M ?c rng d"
    using d c1(2) unfolding in_step_def
    by (auto simp: replay_def client_ok_version intro!: exI [of _ "FlatDb (staticDb d)"] exI [of _ "length (ops d)"])
  then show ?thesis
    using d f(1,2) c1(1) by (auto simp: update_round_def GetUpdates_def update_closure_def updateState_def)
qed

end

definition builds :: "kernels set" where
  "builds = {(xor_into_sse, xor_all_rows_sse, xor_single_pass_sse), (xor_into_avx2, xor_all_rows_avx2, xor_single_pass_avx2)}"

lemma builds_in_step:
  assumes k: "k \<in> builds"
  shows "in_step M c rng d \<Longrightarrow> Intn_ok Intn \<Longrightarrow> c_currVersion c = d_currVersion d \<Longrightarrow>
      \<exists>c'. query_round (fst k) (fst (snd k)) Intn (staticDb d) (staticDb d) c i = Some (c', Inr (row (FlatDb (staticDb d))
        (nat (i mod int (c_nRows c)) * RowLen (staticDb d)) (RowLen (staticDb d)))) \<and> in_step M c' rng d"
    and "in_step M c rng d \<Longrightarrow> if ops d = [] then update_round (fst k) RAND d (rng, c) = Some (rng, Inl InvalidResponseType)
      else \<exists>c'. update_round (fst k) RAND d (rng, c) = Some (rng, Inr c') \<and> in_step M c' rng d \<and> c_currVersion c' = d_currVersion d"
proof -
  assume a: "in_step M c rng d" "Intn_ok Intn" "c_currVersion c = d_currVersion d"
  show "\<exists>c'. query_round (fst k) (fst (snd k)) Intn (staticDb d) (staticDb d) c i = Some (c', Inr (row (FlatDb (staticDb d))
        (nat (i mod int (c_nRows c)) * RowLen (staticDb d)) (RowLen (staticDb d)))) \<and> in_step M c' rng d"
    using k sse.in_step_ask [OF a] avx2.in_step_ask [OF a] by (auto simp: builds_def)
next
  assume a: "in_step M c rng d"
  show "if ops d = [] then update_round (fst k) RAND d (rng, c) = Some (rng, Inl InvalidResponseType)
      else \<exists>c'. update_round (fst k) RAND d (rng, c) = Some (rng, Inr c') \<and> in_step M c' rng d \<and> c_currVersion c' = d_currVersion d"
    using k sse.in_step_update [OF a, of RAND] avx2.in_step_update [OF a, of RAND] by (auto simp: builds_def)
qed

lemma session_in_step:
  assumes "session k RAND Intn c rng d" "k \<in> builds" "rand_ok RAND" "Intn_ok Intn"
  shows "\<exists>M. in_step M c rng d"
  using assms(1)
proof induction
  case (start rows d s M rng req seed rng' resp src c rng'')
  have db: "Version (staticDb d) = 0" "NumRows (staticDb d) = length rows"
    using start.hyps(1) by (auto simp: DynamicDBFromRows_def StaticDBFromRows_def split: if_splits Option.bind_splits)
  have sp: "snd (snd k) \<in> {xor_single_pass_sse, xor_single_pass_avx2}" using assms(2) by (auto simp: builds_def)
  have req: "s = (if req \<noteq> 0 then req else int_sqrt (NumRows (staticDb d)))" using start.hyps(4) db(2) by simp
  obtain rng1 resp1 where o: "hint_process (snd (snd k)) RAND req seed (staticDb d) rng = Some (rng1, resp1)"
    "if s dvd NumRows (staticDb d)
     then \<exists>c. InitClient resp1 src = Some c \<and> client_ok (FlatDb (staticDb d)) (RowLen (staticDb d)) M c \<and> setSize c = s \<and>
       c_currVersion c = int (Version (staticDb d))
     else InitClient resp1 src = None"
    using offline_step [OF sp assms(3) start.hyps(3,2) req, of seed src] by blast
  have "resp1 = resp" using o(1) start.hyps(5) by simp
  then have c: "s dvd NumRows (staticDb d)" "client_ok (FlatDb (staticDb d)) (RowLen (staticDb d)) M c" "setSize c = s" "c_currVersion c = int (Version (staticDb d))"
    using o(2) start.hyps(6) by (auto split: if_splits)
  have "M = NumRows (staticDb d) div s" using start.hyps(2) unfolding sizes_ok_def by blast
  then have "NumRows (staticDb d) = c_nRows c" using c(1-3) by (simp add: client_ok_def)
  from in_step_start [OF c(2,4) start.hyps(1) this start.hyps(7)] show ?case by blast
next
  case (ask c rng d i c' r)
  then obtain M where M: "in_step M c rng d" by blast
  from builds_in_step(1) [OF assms(2) M assms(4) ask.hyps(2), of i] ask.hyps(3) show ?case by auto
next
  case (edit c rng d idxs rs d')
  then show ?case using in_step_edit by blast
next
  case (update c rng d rng' c')
  then obtain M where M: "in_step M c rng d" by blast
  from builds_in_step(2) [OF assms(2) M, of RAND] update.hyps(2) show ?case by (auto split: if_splits)
qed

lemma in_step_version: "in_step M c rng d \<Longrightarrow> c_currVersion c \<le> d_currVersion d"
  by (auto simp: in_step_def)

text \<open>C1: in every state that a session reaches, in both builds: a client with the server's version gets
  from a query exactly the row of the present database, with any version it can update and has the
  server's version then; the one exception is a server that has logged no operation yet, whose
  answer the client rejects as being of the wrong type.\<close>

theorem session_correct:
  assumes "session k RAND Intn c rng d" "k \<in> builds" "rand_ok RAND" "Intn_ok Intn"
  shows "(if c_currVersion c = d_currVersion d
      then \<exists>c'. query_round (fst k) (fst (snd k)) Intn (staticDb d) (staticDb d) c i = Some (c', Inr (row (FlatDb (staticDb d))
        (nat (i mod int (NumRows (staticDb d))) * RowLen (staticDb d)) (RowLen (staticDb d)))) \<and> session k RAND Intn c' rng d
      else c_currVersion c < d_currVersion d) \<and>
    (if ops d = [] then update_round (fst k) RAND d (rng, c) = Some (rng, Inl InvalidResponseType)
     else \<exists>c'. update_round (fst k) RAND d (rng, c) = Some (rng, Inr c') \<and> session k RAND Intn c' rng d \<and> c_currVersion c' = d_currVersion d)"
proof -
  obtain M where M: "in_step M c rng d" using session_in_step [OF assms] by blast
  have N: "NumRows (staticDb d) = c_nRows c" using M by (simp add: in_step_def)
  show ?thesis
    using builds_in_step(1) [OF assms(2) M assms(4), of i] builds_in_step(2) [OF assms(2) M, of RAND] in_step_version [OF M]
      session.ask [OF assms(1), of i] session.update [OF assms(1)]
    unfolding N by (fastforce split: if_splits)
qed

theorem session_correct_witness:
  "\<exists>c rng d c'. session (xor_into_sse, xor_all_rows_sse, xor_single_pass_sse) (\<lambda>n b. [200, 1, 2, 3]) (\<lambda>k m. k mod m) c rng d \<and>
     query_round xor_into_sse xor_all_rows_sse (\<lambda>k m. k mod m) (staticDb d) (staticDb d) c 2 = Some (c', Inr [4])"
proof -
  let ?k = "(xor_into_sse, xor_all_rows_sse, xor_single_pass_sse)" and ?R = "\<lambda>n b. [200, 1, 2, 3]" and ?I = "\<lambda>k m. k mod m"
  let ?db = "\<lparr>NumRows = 4, RowLen = 1, Version = 0, FlatDb = [1, 2, 4, 8]\<rparr>"
  let ?rng = "\<lparr>calls = 0, buf = [0, 0, 0, 0]\<rparr>"
  let ?d = "\<lparr>staticDb = ?db, ops = [], d_currVersion = 0, opInitVersion = 0, realSizeDB = 4, extendSize = 2\<rparr>"
  have q: "int_sqrt 4 = 2" by (simp add: int_sqrt_def upt_rec)
  have q': "int_sqrt (Suc (Suc (Suc (Suc 0)))) = 2" using q by (simp add: numeral_eq_Suc)
  have d: "DynamicDBFromRows [[1], [2], [4], [8]] (length [[1], [2], [4], [8 :: u8]]) = Some ?d"
    by (simp add: DynamicDBFromRows_def StaticDBFromRows_def q')
  have R: "rand_ok ?R" "length (buf ?rng) = 4" by (simp_all add: rand_ok_def)
  have I: "Intn_ok ?I" by (simp add: Intn_ok_def)
  have sz: "sizes_ok ?db 2 2" by (simp add: sizes_ok_def)
  have req: "2 = (if 0 \<noteq> (0 :: nat) then 0 else int_sqrt (NumRows ?db))" by (simp add: q)
  have dv: "2 dvd NumRows ?db" by simp
  have sp: "xor_single_pass_sse \<in> {xor_single_pass_sse, xor_single_pass_avx2}" by simp
  obtain rng' resp c where c: "hint_process xor_single_pass_sse ?R 0 [7] ?db ?rng = Some (rng', resp)" "InitClient resp 0 = Some c"
      "client_ok (FlatDb ?db) (RowLen ?db) 2 c" "setSize c = 2" "c_currVersion c = int (Version ?db)"
    using offline_step [OF sp R sz req, of "[7]" 0, unfolded if_P [OF dv]] by blast
  have s: "session ?k ?R ?I c ?rng ?d"
    by (rule session.start [where s = 2 and M = 2 and rng = ?rng and req = 0 and seed = "[7]" and rng' = rng' and resp = resp and src = 0, OF d]) (use sz c R q' in \<open>simp_all\<close>)
  have "?k \<in> builds" by (simp add: builds_def)
  from session_correct [OF s this R(1) I, of 2] obtain c' where
    "query_round xor_into_sse xor_all_rows_sse ?I ?db ?db c 2 = Some (c', Inr (row [1, 2, 4, 8] (nat (2 mod int 4)) 1))"
    using c(5) by auto
  then have "query_round xor_into_sse xor_all_rows_sse ?I (staticDb ?d) (staticDb ?d) c 2 = Some (c', Inr [4])" by (simp add: row_def)
  with s show ?thesis by blast
qed

section \<open>Appended rows\<close>

lemma client_ok_append:
  assumes ok: "client_ok flat n M c"
  shows "client_ok (flat @ xs) n M c"
proof -
  let ?P = "idxToSetIdx c" and ?S = "setSize c"
  have S: "?S * M * n \<le> length flat" "length ?P = ?S" using ok by (simp_all add: client_ok_def)
  have "hint_of (flat @ xs) n M ?P k = hint_of flat n M ?P k" if k: "k < M" for k
  proof -
    have "unat (?P ! j ! k) < M" if "j < ?S" for j
      using ok k that inverse_pair_less [of M "?P ! j" "setIdxToIdx c ! j" k] by (auto simp: client_ok_def)
    then show ?thesis unfolding hint_of_def S(2)
      using chunk_row [of _ ?S _ M n "length flat"] S(1)
      by (intro arg_cong [of _ _ "xors n"] map_cong refl row_append) simp
  qed
  then show ?thesis using ok by (simp add: client_ok_def)
qed

lemma replay_fewer_rows:
  "replay rows' n us flat = Some flat' \<Longrightarrow> \<forall>i \<in> set (map Index us). i < int rows \<Longrightarrow> replay rows n us flat = Some flat'"
  by (induction us arbitrary: flat) (auto simp: replay_def op_ok_def split: if_splits)

text \<open>C11: the update of a client, in both builds: an operation on a row that it knows, or on a row of the
  chunk after its last one, keeps it in step; in the second case it first adds a chunk of zero rows
  with a new random permutation.\<close>

theorem update_follows_append:
  assumes "kern \<in> {xor_into_sse, xor_into_avx2}"
    and "client_ok flat n M c" "op_ok (c_nRows c + M) n (seen n M c flat op) op" "rand_ok RAND" "length (buf rng) = 4"
    and "length flat = setSize c * M * n" "setSize c + 1 < 2 ^ 31"
  shows "\<exists>rng' c'. update_step kern RAND op (rng, c) = Some (rng', c') \<and>
    client_ok (set_row (seen n M c flat op) (nat (Index op)) n (NewData op)) n M c' \<and>
    setSize c' = setSize c + (if int (c_nRows c) \<le> Index op then 1 else 0)"
  using assms(1) sse.update_step_eq [OF assms(2-5)] avx2.update_step_eq [OF assms(2-5)] assms(6,7)
  by (elim insertE emptyE) blast+

theorem update_follows_append_witness:
  "\<exists>rng' c'. update_step xor_into_avx2 (\<lambda>n b. [200, 1, 2, 3]) \<lparr>Index = 4, OldData = [0], NewData = [16]\<rparr> (\<lparr>calls = 0, buf = [0, 0, 0, 0]\<rparr>,
      \<lparr>c_nRows = 4, c_RowLen = 1, setSize = 2, hints = [[9], [6]], nHints = 2, randSource = 0,
        idxToSetIdx = [[0, 1], [1, 0]], setIdxToIdx = [[0, 1], [1, 0]], c_currVersion = 0\<rparr>) = Some (rng', c') \<and>
    client_ok [1, 2, 4, 8, 16, 0] 1 2 c' \<and> setSize c' = 3"
proof -
  let ?c = "\<lparr>c_nRows = 4, c_RowLen = 1, setSize = 2, hints = [[9], [6]], nHints = 2, randSource = 0,
    idxToSetIdx = [[0, 1], [1, 0]], setIdxToIdx = [[0, 1], [1, 0]], c_currVersion = 0\<rparr>"
  let ?op = "\<lparr>Index = 4, OldData = [0], NewData = [16]\<rparr>"
  have two: "(\<forall>j < (2 :: nat). Q j) \<longleftrightarrow> Q 0 \<and> Q 1" for Q by (auto simp: less_2_cases_iff)
  have "inverse_pair 2 [0, 1] [0, 1]" "inverse_pair 2 [1, 0] [1, 0]"
    unfolding inverse_pair_def two by (simp_all add: is_perm_def)
  then have ok: "client_ok [1, 2, 4, 8] 1 2 ?c"
    by (simp add: client_ok_def two hint_of_def xors_def row_def upt_rec)
  have sn: "seen 1 2 ?c [1, 2, 4, 8] ?op = [1, 2, 4, 8, 0, 0]" by (simp add: seen_def zeros_def numeral_2_eq_2)
  have op: "op_ok (c_nRows ?c + 2) 1 (seen 1 2 ?c [1, 2, 4, 8] ?op) ?op" unfolding sn by (simp add: op_ok_def row_def)
  show ?thesis
    using update_follows_append [OF _ ok op, of xor_into_avx2 "\<lambda>n b. [200, 1, 2, 3]" "\<lparr>calls = 0, buf = [0, 0, 0, 0]\<rparr>"]
    unfolding sn by (simp add: rand_ok_def set_row_def)
qed

context xor_kernel
begin

lemma append_eq:
  assumes s: "in_step M c rng d" and v: "c_currVersion c = d_currVersion d" and l: "length (FlatDb (staticDb d)) = c_nRows c * RowLen (staticDb d)"
    and r: "realSizeDB d + length rs = c_nRows c" "rs \<noteq> []" "\<forall>r \<in> set rs. length r = RowLen (staticDb d)"
    and e: "setSize c \<le> extendSize d" and vs: "length vs = setSize c" "\<forall>v \<in> set vs. unat v < M"
  shows "\<exists>d' c' K. AppendRows d rs = Some (Inr d') \<and> update_round into RAND d' (rng, c) = Some (rng, Inr c') \<and>
    c_currVersion c' = d_currVersion d' \<and> client_ok (FlatDb (staticDb d')) (RowLen (staticDb d')) M c' \<and> setSize c' = setSize c \<and>
    M < K \<and> query_process into \<lparr>PRSet = vs, SetSize = setSize c'\<rparr> (staticDb d') =
      Some (concat (map (\<lambda>j. chunk_at (FlatDb (staticDb d')) (RowLen (staticDb d')) K j (vs ! j)) [0..<setSize c]))"
proof -
  let ?n = "RowLen (staticDb d)" and ?N = "c_nRows c" and ?e = "extendSize d" and ?S = "setSize c"
  let ?d = "d\<lparr>staticDb := ExtendDb (staticDb d) ?e\<rparr>" and ?is = "map int [realSizeDB d..<realSizeDB d + length rs]"
  obtain flat w where d: "NumRows (staticDb d) = ?N" "opInitVersion d = 0" "d_currVersion d = int (length (ops d))"
    and f: "c_currVersion c = int w" "client_ok flat ?n M c" "replay ?N ?n (drop w (ops d)) flat = Some (FlatDb (staticDb d))"
    using s unfolding in_step_def by blast
  have w: "w = length (ops d)" using v d(3) f(1) by simp
  then have ok: "client_ok (FlatDb (staticDb d)) ?n M c" using f(2,3) by (simp add: replay_def)
  have n: "0 < ?n" "?n < 2 ^ 32" "0 < ?S" "?N = ?S * M" using ok by (simp_all add: client_ok_def)
  have flat: "FlatDb (staticDb ?d) = FlatDb (staticDb d) @ zeros (?e * ?n)" "NumRows (staticDb ?d) = ?N + ?e" "RowLen (staticDb ?d) = ?n"
    using d(1) by (simp_all add: ExtendDb_def)
  then have len: "length (FlatDb (staticDb ?d)) = (?N + ?e) * ?n" using l by (simp add: add_mult_distrib)
  have i: "\<forall>i \<in> set ?is. 0 \<le> i \<and> i < int (NumRows (staticDb ?d))" unfolding flat(2) using r(1) by auto
  obtain d2 us where d2: "EditRows ?d ?is rs = Some (Inr d2)" "ops d2 = ops d @ us" "map Index us = ?is"
      "replay (?N + ?e) ?n us (FlatDb (staticDb ?d)) = Some (FlatDb (staticDb d2))" "NumRows (staticDb d2) = ?N + ?e" "RowLen (staticDb d2) = ?n"
      "d_currVersion d2 = d_currVersion d + int (length rs)" "opInitVersion d2 = 0"
    using EditRows_eq [of rs ?is ?d, OF _ i] r(3) len flat(2,3) d(2) by auto
  let ?d' = "d2\<lparr>realSizeDB := realSizeDB d2 + length rs\<rparr>"
  have app: "AppendRows d rs = Some (Inr ?d')" using d2(1) r(1) d(1) by (simp add: AppendRows_def Let_def)
  have lu: "length us = length rs" using arg_cong [OF d2(3), of length] by simp
  then have ne: "us \<noteq> []" using r(2) by auto
  have "\<forall>i \<in> set (map Index us). i < int ?N" unfolding d2(3) using r(1) by auto
  then have rp: "replay ?N ?n us (FlatDb (staticDb d) @ zeros (?e * ?n)) = Some (FlatDb (staticDb d2))"
    using replay_fewer_rows [OF d2(4)] flat(1) by simp
  obtain c1 where c1: "foldM (update_step into RAND) us (rng, c) = Some (rng, c1)" "client_ok (FlatDb (staticDb d2)) ?n M c1" "setSize c1 = ?S"
    using updates_eq [OF client_ok_append [OF ok] rp, of RAND rng] by blast
  let ?c = "c1\<lparr>c_currVersion := d_currVersion d2\<rparr>"
  have up: "update_round into RAND ?d' (rng, c) = Some (rng, Inr ?c)"
    using d2(2,8) f(1) w ne c1(1) d2(7) by (simp add: update_round_def GetUpdates_def update_closure_def updateState_def)
  have K: "(?N + ?e) div ?S = M + ?e div ?S" using n(3,4) by (simp add: mult.commute)
  have "1 \<le> ?e div ?S" using e n(3) by (simp add: div_greater_zero_iff Suc_leI)
  then have lt: "M < (?N + ?e) div ?S" using K by linarith
  have "length (FlatDb (staticDb d2)) = (?N + ?e) * ?n" using replay_length [OF d2(4)] len by simp
  moreover have "?S * ((?N + ?e) div ?S) * ?n \<le> (?N + ?e) * ?n" by (intro mult_le_mono1) simp
  ultimately have "query_process into \<lparr>PRSet = vs, SetSize = ?S\<rparr> (staticDb d2) =
      Some (concat (map (\<lambda>j. chunk_at (FlatDb (staticDb d2)) ?n ((?N + ?e) div ?S) j (vs ! j)) [0..<?S]))"
    using vs lt n d2(5,6) by (intro query_process_eq) auto
  then show ?thesis
    using app up c1(2,3) lt d2(6) by (intro exI [of _ ?d'] exI [of _ ?c] exI [of _ "(?N + ?e) div ?S"]) (simp add: client_ok_version)
qed

end

text \<open>C31: \<open>AppendRows\<close> extends the database already when the new rows fill it exactly. The client, up to date
  and in step, still has its old number of chunks, but the server divides the larger number of rows
  by it: it answers every request with the rows of chunks of the wrong length.\<close>

theorem append_extends_early:
  assumes "kern \<in> {xor_into_sse, xor_into_avx2}"
    and "in_step M c rng d" "c_currVersion c = d_currVersion d" "length (FlatDb (staticDb d)) = c_nRows c * RowLen (staticDb d)"
    and "realSizeDB d + length rs = c_nRows c" "rs \<noteq> []" "\<forall>r \<in> set rs. length r = RowLen (staticDb d)"
    and "setSize c \<le> extendSize d" "length vs = setSize c" "\<forall>v \<in> set vs. unat v < M"
  shows "\<exists>d' c' K. AppendRows d rs = Some (Inr d') \<and> update_round kern RAND d' (rng, c) = Some (rng, Inr c') \<and>
    c_currVersion c' = d_currVersion d' \<and> client_ok (FlatDb (staticDb d')) (RowLen (staticDb d')) M c' \<and> setSize c' = setSize c \<and>
    M < K \<and> query_process kern \<lparr>PRSet = vs, SetSize = setSize c'\<rparr> (staticDb d') =
      Some (concat (map (\<lambda>j. chunk_at (FlatDb (staticDb d')) (RowLen (staticDb d')) K j (vs ! j)) [0..<setSize c]))"
  using assms(1) sse.append_eq [OF assms(2-10)] avx2.append_eq [OF assms(2-10)] by (elim insertE emptyE) simp_all

theorem append_extends_early_witness:
  "\<exists>d' (c' :: client) K. AppendRows \<lparr>staticDb = \<lparr>NumRows = 4, RowLen = 1, Version = 0, FlatDb = [1, 2, 4, 8]\<rparr>, ops = [], d_currVersion = 0,
      opInitVersion = 0, realSizeDB = 3, extendSize = 2\<rparr> [[16]] = Some (Inr d') \<and> setSize c' = 2 \<and> 2 < (K :: nat) \<and>
    query_process xor_into_sse \<lparr>PRSet = [0, 0], SetSize = setSize c'\<rparr> (staticDb d') =
      Some (concat (map (\<lambda>j. chunk_at (FlatDb (staticDb d')) (RowLen (staticDb d')) K j ([0, 0] ! j)) [0..<2]))"
proof -
  let ?c = "\<lparr>c_nRows = 4, c_RowLen = 1, setSize = 2, hints = [[9], [6]], nHints = 2, randSource = 0,
    idxToSetIdx = [[0, 1], [1, 0]], setIdxToIdx = [[0, 1], [1, 0]], c_currVersion = 0\<rparr>"
  let ?rng = "\<lparr>calls = 0, buf = [0, 0, 0, 0]\<rparr>"
  let ?d = "\<lparr>staticDb = \<lparr>NumRows = 4, RowLen = 1, Version = 0, FlatDb = [1, 2, 4, 8]\<rparr>, ops = [], d_currVersion = 0,
      opInitVersion = 0, realSizeDB = 3, extendSize = 2\<rparr>"
  have two: "(\<forall>j < (2 :: nat). Q j) \<longleftrightarrow> Q 0 \<and> Q 1" for Q by (auto simp: less_2_cases_iff)
  have "inverse_pair 2 [0, 1] [0, 1]" "inverse_pair 2 [1, 0] [1, 0]"
    unfolding inverse_pair_def two by (simp_all add: is_perm_def)
  then have "client_ok [1, 2, 4, 8] 1 2 ?c"
    by (simp add: client_ok_def two hint_of_def xors_def row_def upt_rec)
  then have st: "in_step 2 ?c ?rng ?d"
    unfolding in_step_def by (auto simp: replay_def intro!: exI [of _ "[1, 2, 4, 8]"] exI [of _ 0])
  have pr: "xor_into_sse \<in> {xor_into_sse, xor_into_avx2}" "c_currVersion ?c = d_currVersion ?d"
    "length (FlatDb (staticDb ?d)) = c_nRows ?c * RowLen (staticDb ?d)" "realSizeDB ?d + length [[16 :: u8]] = c_nRows ?c" "[[16 :: u8]] \<noteq> []"
    "\<forall>r \<in> set [[16 :: u8]]. length r = RowLen (staticDb ?d)" "setSize ?c \<le> extendSize ?d" "length [0, 0 :: u32] = setSize ?c"
    "\<forall>v \<in> set [0, 0 :: u32]. unat v < 2"
    by simp_all
  obtain d' K and c' :: client where "AppendRows ?d [[16]] = Some (Inr d')" "setSize c' = setSize ?c" "2 < K"
      "query_process xor_into_sse \<lparr>PRSet = [0, 0], SetSize = setSize c'\<rparr> (staticDb d') =
        Some (concat (map (\<lambda>j. chunk_at (FlatDb (staticDb d')) (RowLen (staticDb d')) K j ([0, 0] ! j)) [0..<setSize ?c]))"
    using append_extends_early [OF pr(1) st pr(2-9), of "\<lambda>n b. b"] by blast
  then show ?thesis by (intro exI [of _ d'] exI [of _ c'] exI [of _ K]) simp
qed

end
