(* ===== verification/PuncSet.thy ===== *)
theory PuncSet
  imports Protocol
begin

text \<open>
  \<open>pir/pset.go\<close>: the generator of pseudorandom sets of the puncturable-set protocol, over the calls of
  \<open>psetggm/pset_ggm_c.go\<close> into \<open>pset_ggm.cpp\<close>. A set is named by a counter and a shift: the counter is
  encrypted to the seed of a tree, whose leaves are the elements, and the shift is added to all of them
  modulo the universe. The interface \<open>BaseGenerator\<close> of the source is a record of functions over the
  state of the generator behind it; what the set generator relies on is the locale \<open>base_generator\<close>. An element
  (Go \<open>int\<close>) is an \<open>int\<close>; the C side reads and writes it as 64 bits. The \<open>cipher.Block\<close> of the source is
  AES-128 of the Go library, here the standard \<open>fips197_encrypt\<close>.
\<close>

section \<open>The C generator behind the interface\<close>

record 'g BaseGenerator =
  bg_Eval :: "'g \<Rightarrow> u8 list \<Rightarrow> int list \<Rightarrow> ('g \<times> int list) option"
  bg_Punc :: "'g \<Rightarrow> u8 list \<Rightarrow> nat \<Rightarrow> ('g \<times> m128 list) option"
  bg_EvalPunctured :: "'g \<Rightarrow> m128 list \<Rightarrow> nat \<Rightarrow> int list \<Rightarrow> ('g \<times> int list) option"
  bg_Distinct :: "'g \<Rightarrow> int list \<Rightarrow> ('g \<times> bool) option"

text \<open>
  The work space is a fresh zero slice of \<open>workspace_size\<close> bytes. A size that has wrapped around does not
  hold the two regions (theorem \<open>workspace_holds_tree\<close>): undefined.
\<close>

definition NewGGMSetGeneratorC :: "nat \<Rightarrow> nat \<Rightarrow> generator option" where
  "NewGGMSetGeneratorC univSize setSz = do {
     size \<leftarrow> workspace_size (of_nat univSize) (of_nat setSz);
     n \<leftarrow> shl1 (get_height (of_nat setSz));
     (if unat size = sizeof_generator + 2 * n * 16 + 32
      then pset_ggm_init (of_nat univSize) (of_nat setSz) (zeros n) (zeros n) else None)
   }"

definition ggm_Eval :: "generator \<Rightarrow> u8 list \<Rightarrow> int list \<Rightarrow> (generator \<times> int list) option" where
  "ggm_Eval cgen seed elems =
     (if seed = [] \<or> elems = [] then None
      else map_option (\<lambda>(cgen, es). (cgen, map sint es)) (pset_ggm_eval cgen seed (map word_of_int elems)))"

definition ggm_Punc :: "generator \<Rightarrow> u8 list \<Rightarrow> nat \<Rightarrow> (generator \<times> m128 list) option" where
  "ggm_Punc cgen seed pos =
     (if seed = [] then None
      else pset_ggm_punc cgen seed (of_nat pos) (zeros (pset_buffer_size cgen div 16)))"

definition ggm_EvalPunctured :: "generator \<Rightarrow> m128 list \<Rightarrow> nat \<Rightarrow> int list \<Rightarrow> (generator \<times> int list) option" where
  "ggm_EvalPunctured cgen pset hole elems =
     (if pset = [] \<or> elems = [] then None
      else map_option (\<lambda>(cgen, es). (cgen, map sint es)) (pset_ggm_eval_punc cgen pset (of_nat hole) (map word_of_int elems)))"

definition ggm_Distinct :: "generator \<Rightarrow> int list \<Rightarrow> (generator \<times> bool) option" where
  "ggm_Distinct cgen elems =
     (if elems = [] then None else distinct_elems cgen (map word_of_int elems) (of_nat (length elems)))"

definition ggmC :: "generator BaseGenerator" where
  "ggmC = \<lparr>bg_Eval = ggm_Eval, bg_Punc = ggm_Punc, bg_EvalPunctured = ggm_EvalPunctured, bg_Distinct = ggm_Distinct\<rparr>"

text \<open>The two calls of the server and the client into the XOR kernels.\<close>

type_synonym gather_kernel_fn = "u8 list \<Rightarrow> u32 \<Rightarrow> u64 list \<Rightarrow> u32 \<Rightarrow> u32 \<Rightarrow> u8 list \<Rightarrow> u8 list option"

definition XorBlocks :: "gather_kernel_fn \<Rightarrow> u8 list \<Rightarrow> int list \<Rightarrow> u8 list \<Rightarrow> u8 list option" where
  "XorBlocks gather db offsets out =
     (if db = [] \<or> offsets = [] \<or> out = [] then None
      else gather db (of_nat (length db)) (map word_of_int offsets) (of_nat (length offsets)) (of_nat (length out)) out)"

definition FastAnswer :: "gather_kernel_fn \<Rightarrow> scratch \<Rightarrow> m128 list \<Rightarrow> nat \<Rightarrow> nat \<Rightarrow> nat \<Rightarrow> nat \<Rightarrow> u8 list \<Rightarrow> nat \<Rightarrow>
    u8 list \<Rightarrow> u8 list option" where
  "FastAnswer gather ws pset hole univSize setSz shift db rowLen out =
     (if pset = [] \<or> db = [] \<or> out = [] then None
      else answer gather ws pset (of_nat hole) (of_nat univSize) (of_nat setSz) (of_nat shift)
        db (of_nat (length db)) (of_nat rowLen) (of_nat (length out)) out)"

section \<open>The set generator\<close>

record SetKey =
  sk_id :: u32
  sk_shift :: u32

record PuncturableSet =
  ps_key :: SetKey
  ps_univSize :: nat
  ps_setSize :: nat
  ps_seed :: "u8 list"
  ps_elems :: "int list"

record PuncturedSet =
  pu_UnivSize :: nat
  pu_SetSize :: nat
  pu_Keys :: "m128 list"
  pu_Hole :: nat
  pu_Shift :: u32

record 'g SetGenerator =
  baseGen :: 'g
  num :: u32
  idGen :: "u8 list"
  sg_univSize :: nat
  sg_setSize :: nat

text \<open>The zero value of \<open>PuncturableSet\<close>, from \<open>var pset PuncturableSet\<close>.\<close>

definition pset_var :: PuncturableSet where
  "pset_var = \<lparr>ps_key = \<lparr>sk_id = 0, sk_shift = 0\<rparr>, ps_univSize = 0, ps_setSize = 0, ps_seed = zeros 16, ps_elems = []\<rparr>"

definition NewSetGenerator :: "u8 list \<Rightarrow> u32 \<Rightarrow> nat \<Rightarrow> nat \<Rightarrow> generator SetGenerator option" where
  "NewSetGenerator masterKey startId univSize setSz = do {
     base \<leftarrow> NewGGMSetGeneratorC univSize setSz;
     Some \<lparr>baseGen = base, num = startId, idGen = masterKey, sg_univSize = univSize, sg_setSize = setSz\<rparr>
   }"

text \<open>A block with a tag and the little-endian counter, encrypted by the block cipher of the generator.\<close>

definition tagged_block :: "u8 \<Rightarrow> u32 \<Rightarrow> u8 list" where
  "tagged_block tag i = tag # lanes i @ replicate 11 0"

definition Encrypt :: "u8 list \<Rightarrow> u8 list \<Rightarrow> u8 list" where
  "Encrypt key block = fips197_encrypt key block"

definition fit_elems :: "nat \<Rightarrow> int list \<Rightarrow> int list" where
  "fit_elems n es = (if length es \<noteq> n then zeros n else es)"

text \<open>The loop of \<open>gen\<close>: it has no bound.\<close>

partial_function (option) sg_gen_loop :: "'g BaseGenerator \<Rightarrow> 'g SetGenerator \<Rightarrow> PuncturableSet \<Rightarrow>
    ('g SetGenerator \<times> PuncturableSet) option" where
  "sg_gen_loop B gen pset = do {
     let block = tagged_block 0xAA (num gen);
     let pset = pset\<lparr>ps_key := (ps_key pset)\<lparr>sk_id := num gen\<rparr>\<rparr>;
     let gen = gen\<lparr>num := num gen + 1\<rparr>;
     let pset = pset\<lparr>ps_seed := Encrypt (idGen gen) block\<rparr>;
     (bg, es) \<leftarrow> bg_Eval B (baseGen gen) (ps_seed pset) (ps_elems pset);
     let pset = pset\<lparr>ps_elems := es\<rparr>;
     (bg, d) \<leftarrow> bg_Distinct B bg (ps_elems pset);
     let gen = gen\<lparr>baseGen := bg\<rparr>;
     (if d then Some (gen, pset) else sg_gen_loop B gen pset)
   }"

definition sg_gen :: "'g BaseGenerator \<Rightarrow> 'g SetGenerator \<Rightarrow> PuncturableSet \<Rightarrow> ('g SetGenerator \<times> PuncturableSet) option" where
  "sg_gen B gen pset = sg_gen_loop B gen
     (pset\<lparr>ps_univSize := sg_univSize gen, ps_setSize := sg_setSize gen, ps_elems := fit_elems (sg_setSize gen) (ps_elems pset)\<rparr>)"

text \<open>\<open>int((uint32(elem) + shift) % uint32(univSize))\<close>, for every element.\<close>

definition shift_elem :: "nat \<Rightarrow> u32 \<Rightarrow> int \<Rightarrow> int option" where
  "shift_elem univSize shift e =
     (if (of_nat univSize :: u32) = 0 then None else Some (uint ((word_of_int e + shift) mod of_nat univSize)))"

definition shift_elems :: "nat \<Rightarrow> u32 \<Rightarrow> int list \<Rightarrow> int list option" where
  "shift_elems univSize shift es = those (map (shift_elem univSize shift) es)"

definition sg_Gen :: "'g BaseGenerator \<Rightarrow> 'g SetGenerator \<Rightarrow> PuncturableSet \<Rightarrow> ('g SetGenerator \<times> PuncturableSet) option" where
  "sg_Gen B gen pset = do {
     (gen, pset) \<leftarrow> sg_gen B gen pset;
     let out = Encrypt (idGen gen) (tagged_block 0xBB (sk_id (ps_key pset)));
     shift \<leftarrow> (if (of_nat (sg_setSize gen) :: u32) = 0 then None else Some (of_lanes (take 4 out) mod of_nat (sg_setSize gen)));
     let pset = pset\<lparr>ps_key := (ps_key pset)\<lparr>sk_shift := shift\<rparr>\<rparr>;
     es \<leftarrow> shift_elems (sg_univSize gen) shift (ps_elems pset);
     Some (gen, pset\<lparr>ps_elems := es\<rparr>)
   }"

definition sg_GenWith :: "'g BaseGenerator \<Rightarrow> 'g SetGenerator \<Rightarrow> int \<Rightarrow> ('g SetGenerator \<times> PuncturableSet) option" where
  "sg_GenWith B gen val = do {
     (gen, pset) \<leftarrow> sg_gen B gen pset_var;
     let seed = Encrypt (idGen gen) (tagged_block 0xBB (sk_id (ps_key pset)));
     pos \<leftarrow> (if (of_nat (sg_setSize gen) :: u64) = 0 then None else Some (of_lanes (take 8 seed) mod of_nat (sg_setSize gen) :: u64));
     e \<leftarrow> rd (ps_elems pset) (unat pos);
     shift \<leftarrow> MathMod (val - e) (int (sg_univSize gen));
     let pset = pset\<lparr>ps_key := (ps_key pset)\<lparr>sk_shift := word_of_int shift\<rparr>\<rparr>;
     es \<leftarrow> shift_elems (sg_univSize gen) (word_of_int shift) (ps_elems pset);
     Some (gen, pset\<lparr>ps_elems := es\<rparr>)
   }"

definition sg_EvalInPlace :: "'g BaseGenerator \<Rightarrow> 'g SetGenerator \<Rightarrow> SetKey \<Rightarrow> PuncturableSet \<Rightarrow>
    ('g SetGenerator \<times> PuncturableSet) option" where
  "sg_EvalInPlace B gen key pset = do {
     let pset = pset\<lparr>ps_key := key, ps_univSize := sg_univSize gen, ps_setSize := sg_setSize gen,
       ps_elems := fit_elems (sg_setSize gen) (ps_elems pset)\<rparr>;
     let pset = pset\<lparr>ps_seed := Encrypt (idGen gen) (tagged_block 0xAA (sk_id key))\<rparr>;
     (bg, es) \<leftarrow> bg_Eval B (baseGen gen) (ps_seed pset) (ps_elems pset);
     let gen = gen\<lparr>baseGen := bg\<rparr>;
     es \<leftarrow> (if sk_shift key = 0 then Some es else shift_elems (sg_univSize gen) (sk_shift key) es);
     Some (gen, pset\<lparr>ps_elems := es\<rparr>)
   }"

definition sg_Eval :: "'g BaseGenerator \<Rightarrow> 'g SetGenerator \<Rightarrow> SetKey \<Rightarrow> ('g SetGenerator \<times> PuncturableSet) option" where
  "sg_Eval B gen key = sg_EvalInPlace B gen key
     \<lparr>ps_key = key, ps_univSize = sg_univSize gen, ps_setSize = sg_setSize gen, ps_seed = zeros 16, ps_elems = zeros (sg_setSize gen)\<rparr>"

text \<open>Puncturing at the first place of the element; a panic when there is none.\<close>

definition position :: "int \<Rightarrow> int list \<Rightarrow> nat option" where
  "position idx es = (let pos = length (takeWhile (\<lambda>e. e \<noteq> idx) es) in if pos < length es then Some pos else None)"

definition sg_Punc :: "'g BaseGenerator \<Rightarrow> 'g SetGenerator \<Rightarrow> PuncturableSet \<Rightarrow> int \<Rightarrow> ('g SetGenerator \<times> PuncturedSet) option" where
  "sg_Punc B gen pset idx = do {
     pos \<leftarrow> position idx (ps_elems pset);
     (bg, keys) \<leftarrow> bg_Punc B (baseGen gen) (ps_seed pset) pos;
     Some (gen\<lparr>baseGen := bg\<rparr>, \<lparr>pu_UnivSize = ps_univSize pset, pu_SetSize = ps_setSize pset - 1, pu_Keys = keys,
       pu_Hole = pos, pu_Shift = sk_shift (ps_key pset)\<rparr>)
   }"

definition PuncturedSet_Eval :: "PuncturedSet \<Rightarrow> int list option" where
  "PuncturedSet_Eval pset = do {
     base \<leftarrow> NewGGMSetGeneratorC (pu_UnivSize pset) (pu_SetSize pset + 1);
     (_, es) \<leftarrow> bg_EvalPunctured ggmC base (pu_Keys pset) (pu_Hole pset) (zeros (pu_SetSize pset));
     shift_elems (pu_UnivSize pset) (pu_Shift pset) es
   }"

section \<open>Sets by their keys\<close>

text \<open>
  What a set key stands for, over the function \<open>members\<close> from a seed to the elements of the tree: the
  seed of a counter, the shifted elements, and the whole structure that the code builds.
\<close>

definition base_seed :: "u8 list \<Rightarrow> u32 \<Rightarrow> u8 list" where
  "base_seed key i = Encrypt key (tagged_block 0xAA i)"

definition set_of :: "(u8 list \<Rightarrow> int list) \<Rightarrow> nat \<Rightarrow> u8 list \<Rightarrow> SetKey \<Rightarrow> int list" where
  "set_of members U key k = map (\<lambda>e. (e + uint (sk_shift k)) mod int U) (members (base_seed key (sk_id k)))"

definition evaluated :: "(u8 list \<Rightarrow> int list) \<Rightarrow> nat \<Rightarrow> nat \<Rightarrow> u8 list \<Rightarrow> SetKey \<Rightarrow> PuncturableSet" where
  "evaluated members U S key k = \<lparr>ps_key = k, ps_univSize = U, ps_setSize = S,
     ps_seed = base_seed key (sk_id k), ps_elems = set_of members U key k\<rparr>"

text \<open>Counters are tried in order, modulo \<open>2 ^ 32\<close>, until a set has no element twice other than zero.\<close>

definition accepts :: "int list \<Rightarrow> bool" where
  "accepts es \<longleftrightarrow> distinct (filter (\<lambda>e. e \<noteq> 0) es)"

definition first_id :: "(u8 list \<Rightarrow> int list) \<Rightarrow> u8 list \<Rightarrow> u32 \<Rightarrow> u32 \<Rightarrow> bool" where
  "first_id members key n i \<longleftrightarrow> (\<exists>k. i = n + of_nat k \<and> accepts (members (base_seed key i)) \<and>
     (\<forall>j < k. \<not> accepts (members (base_seed key (n + of_nat j)))))"

definition key_ok :: "SetKey \<Rightarrow> bool" where
  "key_ok k \<longleftrightarrow> uint (sk_shift k) < 2 ^ 31"

definition sg_ok :: "('g \<Rightarrow> bool) \<Rightarrow> nat \<Rightarrow> nat \<Rightarrow> 'g SetGenerator \<Rightarrow> bool" where
  "sg_ok ok U S g \<longleftrightarrow> ok (baseGen g) \<and> sg_univSize g = U \<and> sg_setSize g = S \<and> length (idGen g) = 16"

lemma sg_ok_update [simp]: "sg_ok ok U S (g\<lparr>baseGen := b\<rparr>) \<longleftrightarrow> ok b \<and> sg_univSize g = U \<and> sg_setSize g = S \<and> length (idGen g) = 16"
  "sg_ok ok U S (g\<lparr>num := i\<rparr>) \<longleftrightarrow> sg_ok ok U S g"
  by (simp_all add: sg_ok_def)

lemma length_tagged_block [simp]: "length (tagged_block t i) = 16"
  by (simp add: tagged_block_def)

lemma length_Encrypt:
  assumes "length key = 16" "length b = 16"
  shows "length (Encrypt key b) = 16"
proof -
  have "lanes (of_lanes key :: m128) = key" "lanes (of_lanes b :: m128) = b" using assms by simp_all
  then have "Encrypt key b = lanes (encryptECB (setKey (of_lanes key)) (of_lanes b))"
    by (simp add: Encrypt_def lanes_encryptECB)
  then show ?thesis by simp
qed

lemma length_base_seed [simp]: "length key = 16 \<Longrightarrow> length (base_seed key i) = 16"
  by (simp add: base_seed_def length_Encrypt)

lemma those_map_Some: "(\<And>x. x \<in> set xs \<Longrightarrow> f x = Some (g x)) \<Longrightarrow> those (map f xs) = Some (map g xs)"
  by (induction xs) auto

lemma length_fit_elems [simp]: "length (fit_elems n es) = n"
  by (simp add: fit_elems_def)

lemma of_nat_nz: "0 < n \<Longrightarrow> n < 2 ^ LENGTH('a) \<Longrightarrow> (of_nat n :: 'a::len word) \<noteq> 0"
  by (metis not_less_zero unat_0 unat_of_nat_small)

lemma shift_elems_eq:
  assumes "0 < U" "U \<le> 2 ^ 31" "uint s < 2 ^ 31" "\<forall>e \<in> set es. 0 \<le> e \<and> e < int U"
  shows "shift_elems U s es = Some (map (\<lambda>e. (e + uint s) mod int U) es)"
  unfolding shift_elems_def
proof (rule those_map_Some)
  fix e assume "e \<in> set es"
  then have e: "0 \<le> e" "e < int U" using assms(4) by auto
  have U: "int U \<le> 2 ^ 31" using assms(2) by (simp add: of_nat_le_iff flip: of_nat_power)
  have "uint (of_nat U :: u32) = int U" using assms(2) by (simp add: uint_nat unat_of_nat_small)
  moreover have "uint (word_of_int e :: u32) = e"
    using e U by (simp add: unsigned_of_int take_bit_int_eq_self)
  moreover have "uint (word_of_int e + s) = e + uint s"
    using e U assms(3) calculation(2) by (simp add: uint_word_ariths)
  moreover have "(of_nat U :: u32) \<noteq> 0" using assms(1,2) by (intro of_nat_nz) simp_all
  ultimately show "shift_elem U s e = Some ((e + uint s) mod int U)"
    by (simp add: shift_elem_def uint_mod)
qed

lemma position_eq:
  assumes "idx \<in> set es"
  shows "\<exists>p. position idx es = Some p \<and> p < length es \<and> es ! p = idx"
proof -
  let ?p = "length (takeWhile (\<lambda>e. e \<noteq> idx) es)"
  have "?p < length es" using assms length_takeWhile_le [of "\<lambda>e. e \<noteq> idx" es]
    by (metis (mono_tags, lifting) le_neq_implies_less takeWhile_eq_all_conv takeWhile_eq_take take_all_iff le_refl)
  then show ?thesis using nth_length_takeWhile [of "\<lambda>e. e \<noteq> idx" es] by (simp add: position_def Let_def)
qed

section \<open>The interface of a base generator\<close>

text \<open>
  The contract of \<open>BaseGenerator\<close> for universe \<open>U\<close> and sets of \<open>S\<close> elements: evaluation gives the elements
  of the seed, whatever the scratch memory holds; \<open>Distinct\<close> answers whether the nonzero ones differ; a set
  punctured at a position evaluates to the other elements.
\<close>

locale base_generator =
  fixes B :: "'g BaseGenerator" and ok :: "'g \<Rightarrow> bool" and U S :: nat
    and members :: "u8 list \<Rightarrow> int list" and cut :: "u8 list \<Rightarrow> nat \<Rightarrow> m128 list"
  assumes sizes: "ok g \<Longrightarrow> 0 < U \<and> U \<le> 2 ^ 31 \<and> 0 < S \<and> S < 2 ^ 31"
    and members: "ok g \<Longrightarrow> length (members seed) = S \<and> (\<forall>e \<in> set (members seed). 0 \<le> e \<and> e < int U)"
    and Eval: "ok g \<Longrightarrow> length seed = 16 \<Longrightarrow> length es = S \<Longrightarrow>
      \<exists>g'. bg_Eval B g seed es = Some (g', members seed) \<and> ok g'"
    and Distinct: "ok g \<Longrightarrow> \<exists>g'. bg_Distinct B g (members seed) = Some (g', accepts (members seed)) \<and> ok g'"
    and Punc: "ok g \<Longrightarrow> length seed = 16 \<Longrightarrow> p < S \<Longrightarrow> \<exists>g'. bg_Punc B g seed p = Some (g', cut seed p) \<and> ok g'"
    and EvalPunctured: "ok g \<Longrightarrow> p < S \<Longrightarrow> 1 < S \<Longrightarrow> length es = S - 1 \<Longrightarrow>
      \<exists>g'. bg_EvalPunctured B g (cut seed p) p es = Some (g', without p (members seed)) \<and> ok g'"
begin

abbreviation "elems \<equiv> set_of members U"
abbreviation "the_set \<equiv> evaluated members U S"

lemma length_elems: "ok g \<Longrightarrow> length (elems key k) = S"
  using members by (simp add: set_of_def)

lemma elems_range: "ok g \<Longrightarrow> e \<in> set (elems key k) \<Longrightarrow> 0 \<le> e \<and> e < int U"
  using sizes by (auto simp: set_of_def)

lemma shift_members:
  assumes "ok g" "key_ok k"
  shows "shift_elems U (sk_shift k) (members (base_seed key (sk_id k))) = Some (elems key k)"
  unfolding set_of_def using shift_elems_eq [of U "sk_shift k"] sizes members assms by (simp add: key_ok_def)

lemma gen_loop_eq:
  assumes "first_id members (idGen g) (num g) i" "sg_ok ok U S g" "length (ps_elems p) = S"
  shows "\<exists>b. sg_gen_loop B g p = Some (g\<lparr>num := i + 1, baseGen := b\<rparr>,
      p\<lparr>ps_key := (ps_key p)\<lparr>sk_id := i\<rparr>, ps_seed := base_seed (idGen g) i, ps_elems := members (base_seed (idGen g) i)\<rparr>) \<and> ok b"
proof -
  obtain k where "i = num g + of_nat k" "accepts (members (base_seed (idGen g) i))"
    "\<forall>j < k. \<not> accepts (members (base_seed (idGen g) (num g + of_nat j)))"
    using assms(1) unfolding first_id_def by blast
  then show ?thesis using assms(2,3)
  proof (induction k arbitrary: g p)
    case (0 g p)
    let ?seed = "base_seed (idGen g) (num g)"
    have g: "ok (baseGen g)" "length ?seed = 16" using 0 by (simp_all add: sg_ok_def)
    obtain b where b: "bg_Eval B (baseGen g) ?seed (ps_elems p) = Some (b, members ?seed)" "ok b"
      using Eval [OF g 0(5)] by blast
    obtain b' where "bg_Distinct B b (members ?seed) = Some (b', accepts (members ?seed))" "ok b'"
      using Distinct [OF b(2)] by blast
    with 0 b show ?case
      by (intro exI [of _ b'], subst sg_gen_loop.simps) (simp add: Let_def flip: base_seed_def)
  next
    case (Suc k g p)
    let ?seed = "base_seed (idGen g) (num g)"
    have g: "ok (baseGen g)" "length ?seed = 16" using Suc by (simp_all add: sg_ok_def)
    obtain b where b: "bg_Eval B (baseGen g) ?seed (ps_elems p) = Some (b, members ?seed)" "ok b"
      using Eval [OF g Suc(6)] by blast
    obtain b' where b': "bg_Distinct B b (members ?seed) = Some (b', accepts (members ?seed))" "ok b'"
      using Distinct [OF b(2)] by blast
    have no: "\<not> accepts (members ?seed)" using spec [OF Suc(4), of 0] by simp
    let ?g = "g\<lparr>num := num g + 1, baseGen := b'\<rparr>"
    let ?p = "p\<lparr>ps_key := (ps_key p)\<lparr>sk_id := num g\<rparr>, ps_seed := ?seed, ps_elems := members ?seed\<rparr>"
    have "sg_gen_loop B g p = sg_gen_loop B ?g ?p"
      using b b' no by (subst sg_gen_loop.simps) (simp add: Let_def flip: base_seed_def)
    moreover have "\<exists>b. sg_gen_loop B ?g ?p = Some (?g\<lparr>num := i + 1, baseGen := b\<rparr>,
      ?p\<lparr>ps_key := (ps_key ?p)\<lparr>sk_id := i\<rparr>, ps_seed := base_seed (idGen ?g) i, ps_elems := members (base_seed (idGen ?g) i)\<rparr>) \<and> ok b"
    proof (rule Suc.IH)
      show "i = num ?g + of_nat k" using Suc.prems(1) by simp
      show "accepts (members (base_seed (idGen ?g) i))" using Suc.prems(2) by simp
      show "\<forall>j < k. \<not> accepts (members (base_seed (idGen ?g) (num ?g + of_nat j)))"
      proof (intro allI impI)
        fix j assume "j < k"
        then show "\<not> accepts (members (base_seed (idGen ?g) (num ?g + of_nat j)))"
          using spec [OF Suc.prems(3), of "Suc j"] by (simp add: add.assoc)
      qed
      show "sg_ok ok U S ?g" using Suc.prems(4) b'(2) by (simp add: sg_ok_def)
      show "length (ps_elems ?p) = S" using members [OF g(1)] by simp
    qed
    ultimately show ?case by simp
  qed
qed

lemma gen_eq:
  assumes "first_id members (idGen g) (num g) i" "sg_ok ok U S g"
  shows "\<exists>b. sg_gen B g p = Some (g\<lparr>num := i + 1, baseGen := b\<rparr>,
      \<lparr>ps_key = (ps_key p)\<lparr>sk_id := i\<rparr>, ps_univSize = U, ps_setSize = S, ps_seed = base_seed (idGen g) i,
       ps_elems = members (base_seed (idGen g) i)\<rparr>) \<and> ok b"
proof -
  let ?p = "p\<lparr>ps_univSize := U, ps_setSize := S, ps_elems := fit_elems S (ps_elems p)\<rparr>"
  have "sg_gen B g p = sg_gen_loop B g ?p" using assms(2) by (simp add: sg_gen_def sg_ok_def)
  then show ?thesis using gen_loop_eq [OF assms, of ?p] by auto
qed

text \<open>A new set is the set of its key, and the key is the first counter with an acceptable set.\<close>

lemma Gen_eq:
  assumes "first_id members (idGen g) (num g) i" "sg_ok ok U S g"
  shows "\<exists>b s. sg_Gen B g p = Some (g\<lparr>num := i + 1, baseGen := b\<rparr>, the_set (idGen g) \<lparr>sk_id = i, sk_shift = s\<rparr>) \<and>
    ok b \<and> key_ok \<lparr>sk_id = i, sk_shift = s\<rparr> \<and>
    s = of_lanes (take 4 (Encrypt (idGen g) (tagged_block 0xBB i))) mod of_nat S"
proof -
  define s :: u32 where "s = of_lanes (take 4 (Encrypt (idGen g) (tagged_block 0xBB i))) mod of_nat S"
  have ok: "ok (baseGen g)" "sg_univSize g = U" "sg_setSize g = S" using assms(2) by (simp_all add: sg_ok_def)
  have S: "(of_nat S :: u32) \<noteq> 0" "unat (of_nat S :: u32) = S" using sizes [OF ok(1)] by (simp_all add: of_nat_nz unat_of_nat_small)
  have "unat s < S" using S sizes [OF ok(1)] by (simp add: s_def unat_mod)
  then have "int (unat s) < int S" by (simp only: of_nat_less_iff)
  then have "uint s < int S" by simp
  moreover have "int S < 2 ^ 31" using sizes [OF ok(1)] by (simp add: of_nat_less_iff flip: of_nat_power)
  ultimately have k: "key_ok \<lparr>sk_id = i, sk_shift = s\<rparr>" by (simp add: key_ok_def)
  obtain b where "sg_gen B g p = Some (g\<lparr>num := i + 1, baseGen := b\<rparr>,
      \<lparr>ps_key = (ps_key p)\<lparr>sk_id := i\<rparr>, ps_univSize = U, ps_setSize = S, ps_seed = base_seed (idGen g) i,
       ps_elems = members (base_seed (idGen g) i)\<rparr>)" "ok b" using gen_eq [OF assms] by blast
  then show ?thesis
    using S(1) ok k shift_members [OF ok(1) k, of "idGen g"]
    by (intro exI [of _ b] exI [of _ s]) (simp add: sg_Gen_def evaluated_def flip: s_def)
qed

lemma GenWith_eq:
  assumes "first_id members (idGen g) (num g) i" "sg_ok ok U S g" "0 \<le> val" "val < int U"
  shows "\<exists>b s. sg_GenWith B g val = Some (g\<lparr>num := i + 1, baseGen := b\<rparr>, the_set (idGen g) \<lparr>sk_id = i, sk_shift = s\<rparr>) \<and>
    ok b \<and> key_ok \<lparr>sk_id = i, sk_shift = s\<rparr> \<and> val \<in> set (elems (idGen g) \<lparr>sk_id = i, sk_shift = s\<rparr>)"
proof -
  let ?base = "members (base_seed (idGen g) i)"
  have ok: "ok (baseGen g)" "sg_univSize g = U" "sg_setSize g = S" using assms(2) by (simp_all add: sg_ok_def)
  note sz = sizes [OF ok(1)]
  have S: "(of_nat S :: u64) \<noteq> 0" "unat (of_nat S :: u64) = S" using sz by (simp_all add: of_nat_nz unat_of_nat_small)
  define q where "q = unat (of_lanes (take 8 (Encrypt (idGen g) (tagged_block 0xBB i))) mod of_nat S :: u64)"
  have q: "q < S" using S sz by (simp add: q_def unat_mod)
  define v where "v = (val - ?base ! q) mod int U"
  have v: "0 \<le> v" "v < int U" using sz unfolding v_def by simp_all
  have U: "int U \<le> 2 ^ 31" using sz by (simp add: of_nat_le_iff flip: of_nat_power)
  define s :: u32 where "s = word_of_int v"
  have s: "uint s = v" using v U by (simp add: s_def unsigned_of_int take_bit_int_eq_self)
  then have k: "key_ok \<lparr>sk_id = i, sk_shift = s\<rparr>" using v U by (simp add: key_ok_def)
  have len: "length ?base = S" using members [OF ok(1)] by simp
  have "(?base ! q + v) mod int U = val" using assms(3,4) by (simp add: v_def mod_simps)
  then have "val \<in> set (elems (idGen g) \<lparr>sk_id = i, sk_shift = s\<rparr>)"
    using q len s by (force simp: set_of_def in_set_conv_nth)
  moreover from gen_eq [OF assms(1,2)] obtain b where "sg_gen B g pset_var = Some (g\<lparr>num := i + 1, baseGen := b\<rparr>,
      \<lparr>ps_key = (ps_key pset_var)\<lparr>sk_id := i\<rparr>, ps_univSize = U, ps_setSize = S, ps_seed = base_seed (idGen g) i,
       ps_elems = ?base\<rparr>)" "ok b" by blast
  moreover have "rd ?base q = Some (?base ! q)" using q len by (simp add: rd_in)
  moreover have "MathMod (val - ?base ! q) (int U) = Some v" using sz MathMod_eq [of "int U" "val - ?base ! q"] by (simp add: v_def)
  moreover have "shift_elems U s ?base = Some (elems (idGen g) \<lparr>sk_id = i, sk_shift = s\<rparr>)"
    using shift_members [OF ok(1) k, of "idGen g"] by simp
  ultimately show ?thesis
    using S(1) ok(2,3) k
    by (intro exI [of _ b] exI [of _ s]) (simp add: sg_GenWith_def evaluated_def pset_var_def flip: q_def s_def)
qed

lemma EvalInPlace_eq:
  assumes "sg_ok ok U S g" "key_ok k"
  shows "\<exists>b. sg_EvalInPlace B g k p = Some (g\<lparr>baseGen := b\<rparr>, the_set (idGen g) k) \<and> ok b"
proof -
  let ?seed = "base_seed (idGen g) (sk_id k)"
  have ok: "ok (baseGen g)" "sg_univSize g = U" "sg_setSize g = S" "length ?seed = 16"
    using assms(1) by (simp_all add: sg_ok_def)
  obtain b where b: "bg_Eval B (baseGen g) ?seed (fit_elems S (ps_elems p)) = Some (b, members ?seed)" "ok b"
    using Eval [OF ok(1,4) length_fit_elems] by blast
  have "(if sk_shift k = 0 then Some (members ?seed) else shift_elems U (sk_shift k) (members ?seed)) = Some (elems (idGen g) k)"
  proof (cases "sk_shift k = 0")
    case True
    then show ?thesis using members [OF ok(1)] by (auto simp: set_of_def intro: map_idI [symmetric])
  qed (simp add: shift_members [OF ok(1) assms(2)])
  with b ok(2,3) show ?thesis
    by (intro exI [of _ b], cases "sk_shift k = 0") (simp_all add: sg_EvalInPlace_def evaluated_def Let_def flip: base_seed_def)
qed

lemma Eval_eq: "sg_ok ok U S g \<Longrightarrow> key_ok k \<Longrightarrow> \<exists>b. sg_Eval B g k = Some (g\<lparr>baseGen := b\<rparr>, the_set (idGen g) k) \<and> ok b"
  by (simp add: sg_Eval_def EvalInPlace_eq)

lemma Punc_eq:
  assumes "sg_ok ok U S g" "length key = 16" "idx \<in> set (elems key k)"
  shows "\<exists>b p. sg_Punc B g (the_set key k) idx = Some (g\<lparr>baseGen := b\<rparr>, \<lparr>pu_UnivSize = U, pu_SetSize = S - 1,
      pu_Keys = cut (base_seed key (sk_id k)) p, pu_Hole = p, pu_Shift = sk_shift k\<rparr>) \<and> ok b \<and>
    p < S \<and> elems key k ! p = idx \<and> position idx (elems key k) = Some p"
proof -
  have ok: "ok (baseGen g)" using assms(1) by (simp add: sg_ok_def)
  obtain p where p: "position idx (elems key k) = Some p" "p < S" "elems key k ! p = idx"
    using position_eq [OF assms(3)] length_elems [OF ok] by auto
  obtain b where "bg_Punc B (baseGen g) (base_seed key (sk_id k)) p = Some (b, cut (base_seed key (sk_id k)) p)" "ok b"
    using Punc [OF ok length_base_seed [OF assms(2)] p(2)] by blast
  with p show ?thesis by (auto simp: sg_Punc_def evaluated_def)
qed

end

section \<open>The C generator keeps the contract\<close>

definition ggm_ok :: "nat \<Rightarrow> nat \<Rightarrow> generator \<Rightarrow> bool" where
  "ggm_ok U S g \<longleftrightarrow> 0 < U \<and> U \<le> 2 ^ 31 \<and> 0 < S \<and> S \<le> 2 ^ 26 \<and> gen_ok g \<and>
     univ_size g = of_nat U \<and> set_size g = of_nat S"

text \<open>The members of a seed and its punctured form, which do not depend on the scratch memory.\<close>

definition bare :: "nat \<Rightarrow> nat \<Rightarrow> generator" where
  "bare U S = \<lparr>univ_size = of_nat U, set_size = of_nat S, keys = [], tmp = []\<rparr>"

definition ggm_members :: "nat \<Rightarrow> nat \<Rightarrow> u8 list \<Rightarrow> int list" where
  "ggm_members U S seed = map uint (ggm_set (of_lanes seed) (bare U S))"

definition ggm_cut :: "nat \<Rightarrow> nat \<Rightarrow> u8 list \<Rightarrow> nat \<Rightarrow> m128 list" where
  "ggm_cut U S seed p = ggm_punctured (of_lanes seed) (bare U S) (of_nat p)"

lemma ggm_ok_bare:
  assumes "ggm_ok U S g"
  shows "ggm_set s g = ggm_set s (bare U S)" "ggm_punctured s g p = ggm_punctured s (bare U S) p"
    "unat (set_size g) = S" "unat (univ_size g) = U" "univ_size g \<noteq> 0" "gen_ok g"
  using assms of_nat_nz [of U, where 'a = 32]
  by (simp_all add: ggm_ok_def ggm_set_def ggm_punctured_def bare_def unat_of_nat_small)

lemma ggm_ok_same: "ggm_ok U S g \<Longrightarrow> gen_ok g' \<Longrightarrow> set_size g' = set_size g \<Longrightarrow> univ_size g' = univ_size g \<Longrightarrow> ggm_ok U S g'"
  by (simp add: ggm_ok_def)

lemma uint_unat_less: "unat (x :: u64) < n \<Longrightarrow> uint x < int n"
  by (metis of_nat_less_iff unat_eq_nat_uint int_nat_eq uint_ge_0)

lemma ggm_members_sint:
  assumes "ggm_ok U S g"
  shows "map sint (ggm_set s g) = map uint (ggm_set s g)"
proof (rule map_cong [OF refl])
  fix e assume "e \<in> set (ggm_set s g)"
  then have "unat e < U" using ggm_set_bound [of g s] ggm_ok_bare(4,5) [OF assms] by auto
  moreover have "U \<le> 2 ^ 31" using assms by (simp add: ggm_ok_def)
  ultimately have "unat e < 2 ^ 63" by simp
  then show "sint e = uint e" using sint_small [of e] by simp
qed

lemma ggm_Eval_eq:
  assumes "ggm_ok U S g" "length seed = 16" "length es = S"
  shows "\<exists>g'. ggm_Eval g seed es = Some (g', ggm_members U S seed) \<and> ggm_ok U S g'"
proof -
  note g = ggm_ok_bare [OF assms(1)]
  have "toBlock seed 0 = Some (of_lanes seed)" using assms(2) by (simp add: toBlock_eq loadv_in)
  moreover obtain g' where "tree_eval_all2 g (of_lanes seed) (map word_of_int es) = Some (g', ggm_set (of_lanes seed) g)"
      "ggm_ok U S g'"
    using tree_eval_all2_eq [OF g(6), of "map word_of_int es" "of_lanes seed"] g(3) assms(1,3) ggm_ok_same [OF assms(1)] by auto
  moreover have "seed \<noteq> []" "es \<noteq> []" using assms by (auto simp: ggm_ok_def)
  ultimately show ?thesis
    using ggm_members_sint [OF assms(1), of "of_lanes seed"] g(1)
    by (auto simp: ggm_Eval_def pset_ggm_eval_def ggm_members_def)
qed

lemma distinct_elems_frame:
  "distinct_elems g es n = Some (g', d) \<Longrightarrow> set_size g' = set_size g \<and> univ_size g' = univ_size g \<and> keys g' = keys g"
  by (auto simp: distinct_elems_def Let_def bind_eq_Some_conv split: if_splits)

lemma ggm_Distinct_eq:
  assumes "ggm_ok U S g"
  shows "\<exists>g'. ggm_Distinct g (ggm_members U S seed) = Some (g', accepts (ggm_members U S seed)) \<and> ggm_ok U S g'"
proof -
  let ?es = "ggm_set (of_lanes seed) g" and ?n = "of_nat S :: u32"
  note g = ggm_ok_bare [OF assms]
  have S: "0 < S" "S \<le> 2 ^ 26" "U \<le> 2 ^ 31" "unat ?n = S" using assms by (simp_all add: ggm_ok_def unat_of_nat_small)
  have len: "length ?es = S" using g(3) by simp
  have small: "e < 2 ^ 32" if "e \<in> set ?es" for e
  proof -
    have "unat e < U" using ggm_set_bound [OF g(5)] g(4) that by auto
    then have "unat e < unat (2 ^ 32 :: u64)" using S(3) by simp
    then show ?thesis by (simp add: word_less_nat_alt)
  qed
  have fits: "2 ^ k \<le> 4 * length (tmp g)" if "2 ^ k < 8 * S" for k
    using g(3) by (intro gen_ok_table_fits [OF g(6) _ that]) simp
  obtain g' where d: "distinct_elems g ?es ?n = Some (g', distinct (filter (\<lambda>e. e \<noteq> 0) ?es))" "length (tmp g') = length (tmp g)"
    using distinct_elems_eq [of ?n ?es g] S len small fits by auto
  have "accepts (map uint ?es) \<longleftrightarrow> distinct (filter (\<lambda>e. e \<noteq> 0) ?es)"
    by (auto simp: accepts_def filter_map o_def distinct_map inj_on_def uint_0_iff dest: unsigned_word_eqI)
  moreover have "map word_of_int (map uint ?es) = ?es" by (simp add: o_def)
  moreover have "ggm_ok U S g'"
    using g(6) d(2) distinct_elems_frame [OF d(1)] by (intro ggm_ok_same [OF assms]) (simp_all add: gen_ok_def)
  ultimately show ?thesis
    using d(1) S(1) len unfolding ggm_members_def g(1) [symmetric] by (cases ?es) (simp_all add: ggm_Distinct_def)
qed

lemma ggm_Punc_eq:
  assumes "ggm_ok U S g" "length seed = 16" "p < S"
  shows "\<exists>g'. ggm_Punc g seed p = Some (g', ggm_cut U S seed p) \<and> ggm_ok U S g'"
proof -
  note g = ggm_ok_bare [OF assms(1)]
  have t: "toBlock seed 0 = Some (of_lanes seed)" using assms(2) by (simp add: toBlock_eq loadv_in)
  have "S \<le> 2 ^ 26" using assms(1) by (simp add: ggm_ok_def)
  then have p: "unat (of_nat p :: u32) = p" using assms(3) by (simp add: unat_of_nat_small)
  then have lt: "of_nat p < set_size g" using assms(3) g(3) by (simp add: word_less_nat_alt)
  define l where "l = pset_buffer_size g div 16"
  have l: "pset_buffer_size g = 16 * l" "l = Suc (get_height (set_size g) - 2)"
    using gen_ok_height(2) [OF g(6)] by (auto simp: l_def pset_buffer_size_def Let_def)
  let ?c = "ggm_punctured (of_lanes seed) g (of_nat p)"
  have "length ?c = l" by (simp add: l(2) ggm_punctured_def Let_def)
  then show ?thesis
    using punc_eq [OF g(6) t lt, of "zeros l"] l(1) assms(2) g(2) ggm_ok_same [OF assms(1)]
    by (auto simp: ggm_Punc_def ggm_cut_def simp flip: l_def)
qed

lemma map_without: "map f (without p xs) = without p (map f xs)"
  by (simp add: without_def take_map drop_map)

lemma ggm_EvalPunctured_eq:
  assumes "ggm_ok U S g" "p < S" "1 < S" "length es = S - 1"
  shows "\<exists>g'. ggm_EvalPunctured g (ggm_cut U S seed p) p es = Some (g', without p (ggm_members U S seed)) \<and> ggm_ok U S g'"
proof -
  note g = ggm_ok_bare [OF assms(1)]
  have "S \<le> 2 ^ 26" using assms(1) by (simp add: ggm_ok_def)
  then have p: "unat (of_nat p :: u32) = p" using assms(2) by (simp add: unat_of_nat_small)
  then have lt: "of_nat p < set_size g" using assms(2) g(3) by (simp add: word_less_nat_alt)
  have "ggm_cut U S seed p \<noteq> []" by (simp add: ggm_cut_def ggm_punctured_def Let_def)
  moreover have "es \<noteq> []" using assms(3,4) by auto
  moreover obtain g' where "pset_ggm_eval_punc g (ggm_cut U S seed p) (of_nat p) (map word_of_int es) =
      Some (g', without p (ggm_set (of_lanes seed) g))" "ggm_ok U S g'"
    using eval_punc_eq [OF g(6) lt, of "map word_of_int es" "of_lanes seed" "[]"] assms(4) g(2,3) p ggm_ok_same [OF assms(1)]
    by (auto simp: ggm_cut_def without_def)
  moreover have "map sint (without p (ggm_set (of_lanes seed) g)) = without p (ggm_members U S seed)"
    by (simp only: map_without ggm_members_sint [OF assms(1)]) (simp only: ggm_members_def g(1))
  ultimately show ?thesis by (simp add: ggm_EvalPunctured_def)
qed

lemma ggm_members_range:
  assumes "ggm_ok U S g"
  shows "length (ggm_members U S seed) = S" "e \<in> set (ggm_members U S seed) \<Longrightarrow> 0 \<le> e \<and> e < int U"
proof -
  note g = ggm_ok_bare [OF assms]
  show "length (ggm_members U S seed) = S" by (simp add: ggm_members_def g(3) flip: g(1))
  assume "e \<in> set (ggm_members U S seed)"
  then obtain x where x: "x \<in> set (ggm_set (of_lanes seed) g)" "e = uint x" unfolding ggm_members_def g(1) by auto
  then have "unat x < U" using ggm_set_bound [OF g(5), of "of_lanes seed"] g(4) by auto
  then show "0 \<le> e \<and> e < int U" unfolding x(2) using uint_unat_less by blast
qed

interpretation ggm: base_generator ggmC "ggm_ok U S" U S "ggm_members U S" "ggm_cut U S" for U S
proof unfold_locales
  show "0 < U \<and> U \<le> 2 ^ 31 \<and> 0 < S \<and> S < 2 ^ 31" if "ggm_ok U S g" for g using that by (auto simp: ggm_ok_def)
  show "length (ggm_members U S seed) = S \<and> (\<forall>e \<in> set (ggm_members U S seed). 0 \<le> e \<and> e < int U)" if "ggm_ok U S g" for g seed
    using ggm_members_range [OF that] by blast
qed (simp_all add: ggmC_def ggm_Eval_eq ggm_Distinct_eq ggm_Punc_eq ggm_EvalPunctured_eq)

lemma NewGGMSetGeneratorC_eq:
  assumes "0 < U" "U \<le> 2 ^ 31" "0 < S" "S \<le> 2 ^ 26"
  shows "\<exists>g. NewGGMSetGeneratorC U S = Some g \<and> ggm_ok U S g"
proof -
  let ?h = "get_height (of_nat S)" and ?n = "of_nat S :: u32"
  have u: "unat ?n = S" "?n \<noteq> 0" using assms(3,4) by (simp_all add: unat_of_nat_small of_nat_nz)
  then have h: "?h \<le> 26" using assms(4) get_height_le [of ?n 26] by simp
  then have p: "(2 :: nat) ^ ?h \<le> 2 ^ 26" by (intro power_increasing) simp_all
  have sz: "unat (of_nat (sizeof_generator + 2 * 2 ^ ?h * 16 + 32) :: u32) = sizeof_generator + 2 * 2 ^ ?h * 16 + 32"
    by (rule unat_of_nat_small) (use p in \<open>simp add: sizeof_generator_def\<close>)
  have s: "shl1 ?h = Some (2 ^ ?h)" using h by (simp add: shl1_in)
  have "workspace_size (of_nat U) ?n = Some (of_nat (sizeof_generator + 2 * 2 ^ ?h * 16 + 32))"
    using p unfolding workspace_size_def s Option.bind.bind_lunit by simp
  then have "NewGGMSetGeneratorC U S =
      Some \<lparr>univ_size = of_nat U, set_size = ?n, keys = zeros (2 ^ ?h), tmp = zeros (2 ^ ?h)\<rparr>"
    unfolding NewGGMSetGeneratorC_def s Option.bind.bind_lunit by (simp only: sz Option.bind.bind_lunit) (simp add: pset_ggm_init_def s)
  then show ?thesis using assms u by (simp add: ggm_ok_def gen_ok_def)
qed

lemma NewSetGenerator_eq:
  assumes "0 < U" "U \<le> 2 ^ 31" "0 < S" "S \<le> 2 ^ 26" "length key = 16"
  shows "\<exists>b. NewSetGenerator key i U S = Some \<lparr>baseGen = b, num = i, idGen = key, sg_univSize = U, sg_setSize = S\<rparr> \<and> ggm_ok U S b"
  using NewGGMSetGeneratorC_eq [OF assms(1-4)] by (auto simp: NewSetGenerator_def)

text \<open>The punctured set that is sent evaluates, on the other side, to the set without the place.\<close>

lemma PuncturedSet_Eval_eq:
  assumes "0 < U" "U \<le> 2 ^ 31" "1 < S" "S \<le> 2 ^ 26" "p < S" "key_ok k"
  shows "PuncturedSet_Eval \<lparr>pu_UnivSize = U, pu_SetSize = S - 1, pu_Keys = ggm_cut U S (base_seed key (sk_id k)) p,
      pu_Hole = p, pu_Shift = sk_shift k\<rparr> = Some (without p (set_of (ggm_members U S) U key k))"
proof -
  let ?ms = "ggm_members U S (base_seed key (sk_id k))"
  obtain g where g: "NewGGMSetGeneratorC U S = Some g" "ggm_ok U S g" using NewGGMSetGeneratorC_eq [of U S] assms by auto
  obtain g' where "bg_EvalPunctured ggmC g (ggm_cut U S (base_seed key (sk_id k)) p) p (zeros (S - 1)) = Some (g', without p ?ms)"
    using ggm.EvalPunctured [OF g(2) assms(5,3), of "zeros (S - 1)"] by auto
  moreover have "shift_elems U (sk_shift k) (without p ?ms) = Some (map (\<lambda>e. (e + uint (sk_shift k)) mod int U) (without p ?ms))"
    using assms ggm_members_range(2) [OF g(2)] set_without [of p ?ms]
    by (intro shift_elems_eq) (auto simp: key_ok_def)
  ultimately show ?thesis
    using g(1) assms(3) by (simp add: PuncturedSet_Eval_def set_of_def without_def take_map drop_map)
qed

lemma remove1_position: "position idx es = Some p \<Longrightarrow> without p es = remove1 idx es"
proof -
  assume "position idx es = Some p"
  then have "p = length (takeWhile (\<lambda>e. e \<noteq> idx) es)" "p < length es"
    by (auto simp: position_def Let_def split: if_splits)
  then show ?thesis
  proof (induction es arbitrary: p)
    case (Cons e es)
    then show ?case by (cases "e = idx") (auto simp: without_def)
  qed simp
qed

section \<open>An example\<close>

text \<open>The sets of two elements in a universe of four for one key: counters 0 and 1 give the same element twice.\<close>

abbreviation demo_key :: "u8 list" where
  "demo_key \<equiv> [0, 1, 2, 3, 4, 5, 6, 7, 8, 9, 10, 11, 12, 13, 14, 15]"

lemma lanes_u32: "(lanes (v :: u32) :: u8 list) = [ucast v, ucast (drop_bit 8 v), ucast (drop_bit 16 v), ucast (drop_bit 24 v)]"
  by (simp add: lanes_def upt_rec)

lemmas encrypt_simps = fips_round_key_numeral fips_rcons fips_rcons(2) [simplified] next_round_key_def rot_word_def Let_def
  sub_byte_def SSE2NEON_sbox_def aes_round_def aes_final_round_def shift_rows_bytes_def shift_rows_idx_def mix_columns_def
  mix_column_def xtime_def bit_numeral_rec bit_1_iff replicate_numeral

lemma demo_seed_0: "base_seed demo_key 0 =
  [0x08, 0x69, 0xe8, 0x81, 0x8a, 0x81, 0x78, 0x9a, 0x72, 0x3d, 0x26, 0x16, 0x40, 0x0d, 0x31, 0xa9]"
  unfolding base_seed_def Encrypt_def tagged_block_def lanes_u32 fips197_encrypt_def Let_def rounds_unfold
  by (simp add: encrypt_simps)

lemma demo_seed_1: "base_seed demo_key 1 =
  [0x0a, 0xef, 0x37, 0xcc, 0xf8, 0xfd, 0xe5, 0xce, 0x5f, 0x2a, 0x48, 0x3a, 0xe8, 0xba, 0xc0, 0x2b]"
  unfolding base_seed_def Encrypt_def tagged_block_def lanes_u32 fips197_encrypt_def Let_def rounds_unfold
  by (simp add: encrypt_simps)

lemma demo_seed_2: "base_seed demo_key 2 =
  [0xfb, 0x06, 0x6f, 0x51, 0x33, 0xfe, 0xee, 0xf6, 0xe3, 0xf5, 0x68, 0xd2, 0x6d, 0x0b, 0xb9, 0xaf]"
  unfolding base_seed_def Encrypt_def tagged_block_def lanes_u32 fips197_encrypt_def Let_def rounds_unfold
  by (simp add: encrypt_simps)

lemma demo_seed_3: "base_seed demo_key 3 =
  [0xa2, 0xfe, 0xcb, 0xec, 0x03, 0x64, 0xba, 0x09, 0xac, 0xe3, 0xf0, 0xfc, 0x31, 0x50, 0x6c, 0x3d]"
  unfolding base_seed_def Encrypt_def tagged_block_def lanes_u32 fips197_encrypt_def Let_def rounds_unfold
  by (simp add: encrypt_simps)

lemma demo_members:
  "ggm_members 4 2 (base_seed demo_key 0) = [2, 2]"
  "ggm_members 4 2 (base_seed demo_key 1) = [3, 3]"
  "ggm_members 4 2 (base_seed demo_key 2) = [1, 3]"
  "ggm_members 4 2 (base_seed demo_key 3) = [3, 0]"
proof -
  have h: "get_height 2 = 1" by (simp add: get_height_def height_loop.simps)
  show "ggm_members 4 2 (base_seed demo_key 0) = [2, 2]"
    "ggm_members 4 2 (base_seed demo_key 1) = [3, 3]"
    "ggm_members 4 2 (base_seed demo_key 2) = [1, 3]"
    "ggm_members 4 2 (base_seed demo_key 3) = [3, 0]"
    by (simp_all add: demo_seed_0 demo_seed_1 demo_seed_2 demo_seed_3 ggm_members_def ggm_set_def bare_def h ggm_elem_def upt_rec
        of_lanes_Cons nth_lanes fast_range_def)
qed

lemma demo_first: "first_id (ggm_members 4 2) demo_key 0 2"
  unfolding first_id_def
  by (rule exI [of _ 2]) (auto simp: demo_members accepts_def less_2_cases_iff)

section \<open>Properties\<close>

text \<open>C12: the generator of sets: \<open>Gen\<close> and \<open>GenWith\<close> skip the counters whose set has a nonzero element twice, and
  return the set of the first other one; \<open>Eval\<close> computes the same set again from its key alone; all elements are in the universe, and
  \<open>GenWith\<close> puts the wanted one in.\<close>

theorem sets_follow_keys:
  assumes "0 < U" "U \<le> 2 ^ 31" "0 < S" "S \<le> 2 ^ 26" "length key = 16" "first_id (ggm_members U S) key n i" "0 \<le> val" "val < int U"
  shows "\<exists>g g1 s1 g1' g2 s2 g2'. NewSetGenerator key n U S = Some g \<and>
    sg_Gen ggmC g p = Some (g1, s1) \<and> sg_Eval ggmC g1 (ps_key s1) = Some (g1', s1) \<and> sk_id (ps_key s1) = i \<and> num g1 = i + 1 \<and>
    sg_GenWith ggmC g val = Some (g2, s2) \<and> sg_Eval ggmC g2 (ps_key s2) = Some (g2', s2) \<and> sk_id (ps_key s2) = i \<and> num g2 = i + 1 \<and>
    val \<in> set (ps_elems s2) \<and> length (ps_elems s1) = S \<and> length (ps_elems s2) = S \<and>
    (\<forall>e \<in> set (ps_elems s1) \<union> set (ps_elems s2). 0 \<le> e \<and> e < int U)"
proof -
  obtain b where b: "NewSetGenerator key n U S = Some \<lparr>baseGen = b, num = n, idGen = key, sg_univSize = U, sg_setSize = S\<rparr>" "ggm_ok U S b"
    using NewSetGenerator_eq [OF assms(1-5)] by blast
  let ?g = "\<lparr>baseGen = b, num = n, idGen = key, sg_univSize = U, sg_setSize = S\<rparr>"
  have g: "sg_ok (ggm_ok U S) U S ?g" "first_id (ggm_members U S) (idGen ?g) (num ?g) i" using b(2) assms(5,6) by (simp_all add: sg_ok_def)
  obtain b1 s1 where g1: "sg_Gen ggmC ?g p = Some (?g\<lparr>num := i + 1, baseGen := b1\<rparr>, ggm.the_set U S key \<lparr>sk_id = i, sk_shift = s1\<rparr>)"
    "ggm_ok U S b1" "key_ok \<lparr>sk_id = i, sk_shift = s1\<rparr>" using ggm.Gen_eq [OF g(2,1), of p] by auto
  obtain b2 s2 where g2: "sg_GenWith ggmC ?g val = Some (?g\<lparr>num := i + 1, baseGen := b2\<rparr>, ggm.the_set U S key \<lparr>sk_id = i, sk_shift = s2\<rparr>)"
    "ggm_ok U S b2" "key_ok \<lparr>sk_id = i, sk_shift = s2\<rparr>" "val \<in> set (ggm.elems U S key \<lparr>sk_id = i, sk_shift = s2\<rparr>)"
    using ggm.GenWith_eq [OF g(2,1) assms(7,8)] by auto
  have ev: "\<exists>g'. sg_Eval ggmC (?g\<lparr>num := i + 1, baseGen := c\<rparr>) k = Some (g', ggm.the_set U S key k)" if "ggm_ok U S c" "key_ok k" for c k
    using ggm.Eval_eq [of U S "?g\<lparr>num := i + 1, baseGen := c\<rparr>" k] that g(1) by (auto simp: sg_ok_def)
  show ?thesis
    using b(1) g1(1) g2(1,4) ev [OF g1(2,3)] ev [OF g2(2,3)] ggm.elems_range [OF b(2)] ggm.length_elems [OF b(2)]
    by (auto simp: evaluated_def)
qed

theorem sets_follow_keys_witness:
  "\<exists>g g2 s2. NewSetGenerator demo_key 0 4 2 = Some g \<and> sg_GenWith ggmC g 0 = Some (g2, s2) \<and> sk_id (ps_key s2) = 2 \<and> 0 \<in> set (ps_elems s2)"
  using sets_follow_keys [of 4 2 demo_key 0 2 0, OF _ _ _ _ _ demo_first] by fastforce

text \<open>C13: puncturing a set at an element and evaluating the result, as the other side of the network does with nothing but the
  punctured set, gives the set without that element.\<close>

theorem punctured_set_roundtrip:
  assumes "0 < U" "U \<le> 2 ^ 31" "1 < S" "S \<le> 2 ^ 26" "length key = 16" "key_ok k" "idx \<in> set (set_of (ggm_members U S) U key k)"
  shows "\<exists>g g1 s g2 ps. NewSetGenerator key n U S = Some g \<and> sg_Eval ggmC g k = Some (g1, s) \<and>
    ps_elems s = set_of (ggm_members U S) U key k \<and> sg_Punc ggmC g1 s idx = Some (g2, ps) \<and>
    PuncturedSet_Eval ps = Some (remove1 idx (ps_elems s))"
proof -
  have S: "0 < S" using assms(3) by simp
  obtain b where b: "NewSetGenerator key n U S = Some \<lparr>baseGen = b, num = n, idGen = key, sg_univSize = U, sg_setSize = S\<rparr>" "ggm_ok U S b"
    using NewSetGenerator_eq [OF assms(1,2) S assms(4,5)] by blast
  let ?g = "\<lparr>baseGen = b, num = n, idGen = key, sg_univSize = U, sg_setSize = S\<rparr>"
  have g: "sg_ok (ggm_ok U S) U S ?g" using b(2) assms(5) by (simp add: sg_ok_def)
  obtain b1 where b1: "sg_Eval ggmC ?g k = Some (?g\<lparr>baseGen := b1\<rparr>, ggm.the_set U S key k)" "ggm_ok U S b1"
    using ggm.Eval_eq [OF g assms(6)] by auto
  have g1: "sg_ok (ggm_ok U S) U S (?g\<lparr>baseGen := b1\<rparr>)" using g b1(2) by (simp add: sg_ok_def)
  obtain b2 p where "sg_Punc ggmC (?g\<lparr>baseGen := b1\<rparr>) (ggm.the_set U S key k) idx = Some (?g\<lparr>baseGen := b1, baseGen := b2\<rparr>,
      \<lparr>pu_UnivSize = U, pu_SetSize = S - 1, pu_Keys = ggm_cut U S (base_seed key (sk_id k)) p, pu_Hole = p, pu_Shift = sk_shift k\<rparr>)"
      "p < S" "position idx (ggm.elems U S key k) = Some p"
    using ggm.Punc_eq [OF g1 assms(5,7)] by blast
  with PuncturedSet_Eval_eq [OF assms(1-4) this(2) assms(6), of key] remove1_position [OF this(3)] b(1) b1(1) show ?thesis
    by (auto simp: evaluated_def)
qed

theorem punctured_set_roundtrip_witness:
  "\<exists>g1 s g2 ps. sg_Punc ggmC g1 s 3 = Some (g2, ps) \<and> PuncturedSet_Eval ps = Some [1]"
proof -
  have k: "key_ok \<lparr>sk_id = 2, sk_shift = 0\<rparr>" by (simp add: key_ok_def)
  have e: "set_of (ggm_members 4 2) 4 demo_key \<lparr>sk_id = 2, sk_shift = 0\<rparr> = [1, 3]" by (simp add: set_of_def demo_members)
  show ?thesis
    using punctured_set_roundtrip [of 4 2 demo_key "\<lparr>sk_id = 2, sk_shift = 0\<rparr>" 3 0, OF _ _ _ _ _ k] unfolding e by fastforce
qed

end
