(* ===== verification/Punc.thy ===== *)
theory Punc
  imports PuncSet
begin

text \<open>
  \<open>pir/pir_punc.go\<close>: the puncturable-set protocol. The client holds keys of pseudorandom sets with
  the parity of the rows of each; to read row \<open>i\<close> it takes a set with \<open>i\<close> in it and sends that set,
  punctured at \<open>i\<close>, to one server. The names of the client have the prefix \<open>pc_\<close>. An \<open>int32\<close> of the source is a
  word of 32 bits read by \<open>sint\<close>. \<open>rand.Intn\<close> is a function of the number of calls made, as in
  \<open>SinglePass\<close>; \<open>ReadKey\<close> gives the 16 bytes that \<open>io.ReadFull\<close> takes from the same source.
\<close>

section \<open>The offline phase\<close>

record punc_client =
  pc_nRows :: nat
  pc_RowLen :: nat
  pc_setSize :: nat
  pc_sets :: "SetKey list"
  pc_hints :: "u8 list list"
  pc_randSource :: nat
  pc_origSetGen :: "generator SetGenerator"
  pc_setGen :: "generator SetGenerator"
  pc_idxToSetIdx :: "u32 list"

record punc_hint_req =
  RandSeed :: "u8 list"
  NumHintsMultiplier :: nat

record punc_hint_resp =
  phr_NRows :: nat
  phr_RowLen :: nat
  phr_SetSize :: nat
  phr_SetGenKey :: "u8 list"
  phr_Hints :: "u8 list list"

text \<open>\<open>int(float64(SecParam) * math.Log(2))\<close> for the security parameter 128.\<close>

definition hints_multiplier :: nat where
  "hints_multiplier = 88"

definition NewPuncHintReq :: "(nat \<Rightarrow> u8 list) \<Rightarrow> nat \<Rightarrow> nat \<times> punc_hint_req" where
  "NewPuncHintReq ReadKey src = (Suc src, \<lparr>RandSeed = ReadKey src, NumHintsMultiplier = hints_multiplier\<rparr>)"

definition xorRowsFlatSlice :: "gather_kernel_fn \<Rightarrow> static_db \<Rightarrow> u8 list \<Rightarrow> int list \<Rightarrow> (int list \<times> u8 list) option" where
  "xorRowsFlatSlice gather db out indices = do {
     let indices = map (\<lambda>x. x * int (RowLen db)) indices;
     out \<leftarrow> XorBlocks gather (FlatDb db) indices out;
     Some (indices, out)
   }"

text \<open>\<open>int(math.Round(math.Pow(float64(n), 0.5)))\<close>: the root, rounded to the nearest integer.\<close>

definition round_sqrt :: "nat \<Rightarrow> nat" where
  "round_sqrt n = (let r = int_sqrt n in if r * r + r < n then r + 1 else r)"

definition punc_hint_step :: "gather_kernel_fn \<Rightarrow> static_db \<Rightarrow> nat \<Rightarrow> generator SetGenerator \<times> PuncturableSet \<times> u8 list list \<Rightarrow>
    (generator SetGenerator \<times> PuncturableSet \<times> u8 list list) option" where
  "punc_hint_step gather db i = (\<lambda>(gen, pset, hs). do {
     (gen, pset) \<leftarrow> sg_Gen ggmC gen pset;
     (indices, h) \<leftarrow> xorRowsFlatSlice gather db (zeros (RowLen db)) (ps_elems pset);
     hs \<leftarrow> wr hs i h;
     Some (gen, pset\<lparr>ps_elems := indices\<rparr>, hs)
   })"

definition punc_hint_process :: "gather_kernel_fn \<Rightarrow> punc_hint_req \<Rightarrow> static_db \<Rightarrow> punc_hint_resp option" where
  "punc_hint_process gather req db =
     (let s = round_sqrt (NumRows db)
      in if s = 0 then None
      else do {
        let n = NumHintsMultiplier req * NumRows db div s;
        gen \<leftarrow> NewSetGenerator (RandSeed req) 0 (NumRows db) s;
        (gen, pset, hs) \<leftarrow> for_range 0 n (punc_hint_step gather db) (gen, pset_var, replicate n []);
        Some \<lparr>phr_NRows = NumRows db, phr_RowLen = RowLen db, phr_SetSize = s, phr_SetGenKey = RandSeed req, phr_Hints = hs\<rparr>
      })"

text \<open>\<open>initSets\<close> generates the same sets and notes, for every index, a set that holds it.\<close>

fun point_at :: "u32 \<Rightarrow> int list \<Rightarrow> u32 list \<Rightarrow> u32 list option" where
  "point_at j [] ptrs = Some ptrs"
| "point_at j (x # xs) ptrs = Option.bind (put ptrs x j) (point_at j xs)"

definition initSets_step :: "nat \<Rightarrow> generator SetGenerator \<times> PuncturableSet \<times> SetKey list \<times> u32 list \<Rightarrow>
    (generator SetGenerator \<times> PuncturableSet \<times> SetKey list \<times> u32 list) option" where
  "initSets_step i = (\<lambda>(gen, pset, ks, ptrs). do {
     (gen, pset) \<leftarrow> sg_Gen ggmC gen pset;
     ks \<leftarrow> wr ks i (ps_key pset);
     ptrs \<leftarrow> point_at (of_nat i) (ps_elems pset) ptrs;
     Some (gen, pset, ks, ptrs)
   })"

definition initSets :: "(nat \<Rightarrow> u8 list) \<Rightarrow> punc_client \<Rightarrow> punc_client option" where
  "initSets ReadKey c = do {
     (gen, pset, ks, ptrs) \<leftarrow> for_range 0 (length (pc_hints c)) initSets_step
       (pc_origSetGen c, pset_var, replicate (length (pc_hints c)) \<lparr>sk_id = 0, sk_shift = 0\<rparr>, replicate (pc_nRows c) (- 1));
     let newSetGenKey = ReadKey (pc_randSource c);
     setGen \<leftarrow> NewSetGenerator newSetGenKey (num gen) (pc_nRows c) (pc_setSize c);
     Some (c\<lparr>pc_sets := ks, pc_randSource := Suc (pc_randSource c), pc_origSetGen := gen, pc_setGen := setGen, pc_idxToSetIdx := ptrs\<rparr>)
   }"

definition punc_InitClient :: "(nat \<Rightarrow> u8 list) \<Rightarrow> punc_hint_resp \<Rightarrow> nat \<Rightarrow> punc_client option" where
  "punc_InitClient ReadKey resp src = do {
     gen \<leftarrow> NewSetGenerator (phr_SetGenKey resp) 0 (phr_NRows resp) (phr_SetSize resp);
     initSets ReadKey \<lparr>pc_nRows = phr_NRows resp, pc_RowLen = phr_RowLen resp, pc_setSize = phr_SetSize resp, pc_sets = [],
       pc_hints = phr_Hints resp, pc_randSource = src, pc_origSetGen = gen, pc_setGen = gen, pc_idxToSetIdx = []\<rparr>
   }"

section \<open>Finding a set\<close>

text \<open>The generator of set \<open>j\<close>: the shared one for the sets of the offline phase, the private one after.\<close>

definition with_gen_for :: "punc_client \<Rightarrow> nat \<Rightarrow> (generator SetGenerator \<Rightarrow> (generator SetGenerator \<times> 'a) option) \<Rightarrow>
    (punc_client \<times> 'a) option" where
  "with_gen_for c j f = do {
     k \<leftarrow> rd (pc_sets c) j;
     (if sk_id k < num (pc_origSetGen c)
      then map_option (\<lambda>(g, x). (c\<lparr>pc_origSetGen := g\<rparr>, x)) (f (pc_origSetGen c))
      else map_option (\<lambda>(g, x). (c\<lparr>pc_setGen := g\<rparr>, x)) (f (pc_setGen c)))
   }"

definition pc_eval :: "punc_client \<Rightarrow> nat \<Rightarrow> (punc_client \<times> PuncturableSet) option" where
  "pc_eval c j = do {
     k \<leftarrow> rd (pc_sets c) j;
     with_gen_for c j (\<lambda>g. sg_Eval ggmC g k)
   }"

text \<open>
  The scan of one set for index \<open>i\<close>: \<open>True\<close> when it is found; every other index on the way gets a
  pointer to the set.
\<close>

fun scan_elems :: "nat \<Rightarrow> nat \<Rightarrow> u32 \<Rightarrow> int \<Rightarrow> u32 \<Rightarrow> int list \<Rightarrow> u32 list \<Rightarrow> (u32 list \<times> bool) option" where
  "scan_elems nRows univSize shift i j [] ptrs = Some (ptrs, False)"
| "scan_elems nRows univSize shift i j (v # vs) ptrs = do {
     x \<leftarrow> shift_elem univSize shift v;
     (if x = i then Some (ptrs, True)
      else do {
        ptrs \<leftarrow> (if x < int nRows then put ptrs x j else Some ptrs);
        scan_elems nRows univSize shift i j vs ptrs
      })
   }"

fun scan_sets :: "int \<Rightarrow> SetKey list \<Rightarrow> nat \<Rightarrow> PuncturableSet \<Rightarrow> punc_client \<Rightarrow> (punc_client \<times> int) option" where
  "scan_sets i [] j pset c = Some (c, -1)"
| "scan_sets i (k # ks) j pset c = do {
     (c, (univSize, pset)) \<leftarrow> with_gen_for c j (\<lambda>g. map_option (\<lambda>(g, p). (g, (sg_univSize g, p)))
       (sg_EvalInPlace ggmC g (k\<lparr>sk_shift := 0\<rparr>) pset));
     (ptrs, found) \<leftarrow> scan_elems (pc_nRows c) univSize (sk_shift k) i (of_nat j) (ps_elems pset) (pc_idxToSetIdx c);
     let c = c\<lparr>pc_idxToSetIdx := ptrs\<rparr>;
     (if found then Some (c, int j) else scan_sets i ks (Suc j) pset c)
   }"

definition pc_findIndex :: "punc_client \<Rightarrow> int \<Rightarrow> (punc_client \<times> int) option" where
  "pc_findIndex c i =
     (if int (pc_nRows c) \<le> i then Some (c, -1)
      else do {
        m \<leftarrow> MathMod i (int (pc_nRows c));
        s \<leftarrow> at (pc_idxToSetIdx c) m;
        (if 0 \<le> sint s then Some (c, sint s) else scan_sets i (pc_sets c) 0 pset_var c)
      })"

section \<open>A query\<close>

definition Intn_next :: "(nat \<Rightarrow> nat \<Rightarrow> nat) \<Rightarrow> nat \<Rightarrow> nat \<Rightarrow> (nat \<times> nat) option" where
  "Intn_next Intn src bound = (if bound = 0 then None else Some (Suc src, Intn src bound))"

definition bernoulli :: "(nat \<Rightarrow> nat \<Rightarrow> nat) \<Rightarrow> nat \<Rightarrow> nat \<Rightarrow> nat \<Rightarrow> (nat \<times> bool) option" where
  "bernoulli Intn src nHeads bound = map_option (\<lambda>(src, coin). (src, coin < nHeads)) (Intn_next Intn src bound)"

definition sample :: "(nat \<Rightarrow> nat \<Rightarrow> nat) \<Rightarrow> nat \<Rightarrow> nat \<Rightarrow> nat \<Rightarrow> nat \<Rightarrow> (nat \<times> nat) option" where
  "sample Intn src odd1 odd2 bound = map_option (\<lambda>(src, coin).
     (src, if coin < odd1 then 1 else if coin < odd1 + odd2 then 2 else 0)) (Intn_next Intn src bound)"

text \<open>Rejection sampling of a member other than \<open>idx\<close>: the loop has no bound.\<close>

partial_function (option) randomMemberExcept :: "(nat \<Rightarrow> nat \<Rightarrow> nat) \<Rightarrow> nat \<Rightarrow> int list \<Rightarrow> int \<Rightarrow> nat \<Rightarrow> (nat \<times> int) option" where
  "randomMemberExcept Intn s es idx src = do {
     (src, r) \<leftarrow> Intn_next Intn src s;
     val \<leftarrow> rd es r;
     (if val \<noteq> idx then Some (src, val) else randomMemberExcept Intn s es idx src)
   }"

record punc_query_req =
  pq_PuncturedSet :: PuncturedSet
  pq_ExtraElem :: int

record punc_query_resp =
  pq_Answer :: "u8 list"
  pq_Extra :: "u8 list"

record punc_ctx =
  randCase :: nat
  setIdx :: int

definition pc_replaceSet :: "punc_client \<Rightarrow> nat \<Rightarrow> PuncturableSet \<Rightarrow> punc_client option" where
  "pc_replaceSet c j newSet = do {
     (c, pset) \<leftarrow> pc_eval c j;
     ptrs \<leftarrow> foldM (\<lambda>idx ptrs.
       if idx < int (pc_nRows c) then do {
         s \<leftarrow> at ptrs idx;
         (if s = of_nat j then put ptrs idx (- 1) else Some ptrs)
       } else Some ptrs) (ps_elems pset) (pc_idxToSetIdx c);
     ks \<leftarrow> wr (pc_sets c) j (ps_key newSet);
     ptrs \<leftarrow> point_at (of_nat j) (ps_elems newSet) ptrs;
     Some (c\<lparr>pc_sets := ks, pc_idxToSetIdx := ptrs\<rparr>)
   }"

text \<open>A new set with \<open>i\<close>, a random other member, and a punctured set, as steps on the client.\<close>

definition pc_newSet :: "punc_client \<Rightarrow> int \<Rightarrow> (punc_client \<times> PuncturableSet) option" where
  "pc_newSet c i = map_option (\<lambda>(g, p). (c\<lparr>pc_setGen := g\<rparr>, p)) (sg_GenWith ggmC (pc_setGen c) i)"

definition pc_other :: "(nat \<Rightarrow> nat \<Rightarrow> nat) \<Rightarrow> punc_client \<Rightarrow> PuncturableSet \<Rightarrow> int \<Rightarrow> (punc_client \<times> int) option" where
  "pc_other Intn c pset i = map_option (\<lambda>(src, x). (c\<lparr>pc_randSource := src\<rparr>, x))
     (randomMemberExcept Intn (pc_setSize c) (ps_elems pset) i (pc_randSource c))"

definition pc_punc :: "punc_client \<Rightarrow> PuncturableSet \<Rightarrow> int \<Rightarrow> (punc_client \<times> PuncturedSet) option" where
  "pc_punc c pset i = map_option (\<lambda>(g, p). (c\<lparr>pc_setGen := g\<rparr>, p)) (sg_Punc ggmC (pc_setGen c) pset i)"

text \<open>The three cases of the switch: the left set and extra element, then the right ones.\<close>

definition pc_switch :: "(nat \<Rightarrow> nat \<Rightarrow> nat) \<Rightarrow> nat \<Rightarrow> nat \<Rightarrow> int \<Rightarrow> PuncturableSet \<Rightarrow> punc_client \<Rightarrow>
    (punc_client \<times> punc_query_req \<times> punc_query_req) option" where
  "pc_switch Intn rcase j i pset c = do {
     (c, newSet) \<leftarrow> pc_newSet c i;
     (c, puncSetL, extraL, puncSetR, extraR) \<leftarrow>
       (if rcase = 0 then do {
          (c, extraL) \<leftarrow> pc_other Intn c newSet i;
          (c, extraR) \<leftarrow> pc_other Intn c pset i;
          (c, puncSetL) \<leftarrow> pc_punc c newSet i;
          (c, puncSetR) \<leftarrow> pc_punc c pset i;
          c \<leftarrow> pc_replaceSet c j newSet;
          Some (c, puncSetL, extraL, puncSetR, extraR)
        } else if rcase = 1 then do {
          (c, extraR) \<leftarrow> pc_other Intn c newSet i;
          (c, extraL) \<leftarrow> pc_other Intn c newSet extraR;
          (c, puncSetL) \<leftarrow> pc_punc c newSet extraR;
          (c, puncSetR) \<leftarrow> pc_punc c newSet i;
          Some (c, puncSetL, extraL, puncSetR, extraR)
        } else do {
          (c, extraL) \<leftarrow> pc_other Intn c newSet i;
          (c, extraR) \<leftarrow> pc_other Intn c newSet extraL;
          (c, puncSetL) \<leftarrow> pc_punc c newSet i;
          (c, puncSetR) \<leftarrow> pc_punc c newSet extraL;
          Some (c, puncSetL, extraL, puncSetR, extraR)
        });
     Some (c, \<lparr>pq_PuncturedSet = puncSetL, pq_ExtraElem = extraL\<rparr>, \<lparr>pq_PuncturedSet = puncSetR, pq_ExtraElem = extraR\<rparr>)
   }"

text \<open>
  \<open>Query\<close>: \<open>None\<close> inside stands for the two nil results. The two requests go to the left and the right server.
\<close>

definition pc_Query :: "(nat \<Rightarrow> nat \<Rightarrow> nat) \<Rightarrow> punc_client \<Rightarrow> int \<Rightarrow>
    (punc_client \<times> (punc_query_req \<times> punc_query_req \<times> punc_ctx) option) option" where
  "pc_Query Intn c i =
     (if length (pc_hints c) < 1 then None
      else do {
        (c, j) \<leftarrow> pc_findIndex c i;
        (if j < 0 then Some (c, None)
         else do {
           i \<leftarrow> MathMod i (int (pc_nRows c));
           (c, pset) \<leftarrow> pc_eval c (nat j);
           (src, rcase) \<leftarrow> sample Intn (pc_randSource c) (pc_setSize c - 1) (pc_setSize c - 1) (pc_nRows c);
           (c, qL, qR) \<leftarrow> pc_switch Intn rcase (nat j) i pset (c\<lparr>pc_randSource := src\<rparr>);
           Some (c, Some (qL, qR, \<lparr>randCase = rcase, setIdx = j\<rparr>))
         })
      })"

definition pc_DummyQuery :: "(nat \<Rightarrow> nat \<Rightarrow> nat) \<Rightarrow> punc_client \<Rightarrow> (punc_client \<times> punc_query_req) option" where
  "pc_DummyQuery Intn c = do {
     (c, newSet) \<leftarrow> pc_newSet c 0;
     (c, extra) \<leftarrow> pc_other Intn c newSet 0;
     (c, puncSet) \<leftarrow> pc_punc c newSet 0;
     Some (c, \<lparr>pq_PuncturedSet = puncSet, pq_ExtraElem = extra\<rparr>)
   }"

section \<open>The server and the reconstruction\<close>

definition punc_query_process :: "gather_kernel_fn \<Rightarrow> scratch \<Rightarrow> punc_query_req \<Rightarrow> static_db \<Rightarrow> punc_query_resp option" where
  "punc_query_process gather ws q db = do {
     let p = pq_PuncturedSet q;
     ans \<leftarrow> FastAnswer gather ws (pu_Keys p) (pu_Hole p) (pu_UnivSize p) (pu_SetSize p) (unat (pu_Shift p))
       (FlatDb db) (RowLen db) (zeros (RowLen db));
     let lo = int (RowLen db) * pq_ExtraElem q;
     (if 0 \<le> lo \<and> lo + int (RowLen db) \<le> int (length (FlatDb db))
      then Some \<lparr>pq_Answer = ans, pq_Extra = take (RowLen db) (drop (nat lo) (FlatDb db))\<rparr> else None)
   }"

text \<open>\<open>xorInto\<close> of \<open>static_db.go\<close>: a panic when the lengths differ.\<close>

definition xorInto :: "u8 list \<Rightarrow> u8 list \<Rightarrow> u8 list option" where
  "xorInto a b = (if length a = length b then Some (map2 (XOR) a b) else None)"

datatype punc_error = PuncInvalidResponseType | PuncUnexpectedAnswers nat | ElementNotFound

definition pc_reconstruct :: "punc_client \<Rightarrow> punc_ctx \<Rightarrow> punc_query_resp list \<Rightarrow>
    (punc_client \<times> (punc_error + u8 list)) option" where
  "pc_reconstruct c ctx resp =
     (if length resp \<noteq> 2 then Some (c, Inl (PuncUnexpectedAnswers (length resp)))
      else do {
        h0 \<leftarrow> rd (pc_hints c) 0;
        let out = zeros (length h0);
        let left = resp ! 0;
        let right = resp ! 1;
        (if setIdx ctx < 0 then Some (c, Inl ElementNotFound)
         else if randCase ctx = 0 then do {
           hint \<leftarrow> at (pc_hints c) (setIdx ctx);
           out \<leftarrow> xorInto out hint;
           out \<leftarrow> xorInto out (pq_Answer right);
           hint \<leftarrow> xorInto hint hint;
           hint \<leftarrow> xorInto hint (pq_Answer left);
           hint \<leftarrow> xorInto hint out;
           hs \<leftarrow> put (pc_hints c) (setIdx ctx) hint;
           Some (c\<lparr>pc_hints := hs\<rparr>, Inr out)
         } else if randCase ctx = 1 then do {
           out \<leftarrow> xorInto out out;
           out \<leftarrow> xorInto out (pq_Answer left);
           out \<leftarrow> xorInto out (pq_Answer right);
           out \<leftarrow> xorInto out (pq_Extra right);
           Some (c, Inr out)
         } else if randCase ctx = 2 then do {
           out \<leftarrow> xorInto out out;
           out \<leftarrow> xorInto out (pq_Answer left);
           out \<leftarrow> xorInto out (pq_Answer right);
           out \<leftarrow> xorInto out (pq_Extra left);
           Some (c, Inr out)
         } else Some (c, Inr out))
      })"

datatype punc_response = PuncResp punc_query_resp | PuncOther

fun punc_answers :: "punc_response list \<Rightarrow> punc_query_resp list option" where
  "punc_answers [] = Some []"
| "punc_answers (PuncResp a # rs) = map_option ((#) a) (punc_answers rs)"
| "punc_answers (PuncOther # rs) = None"

definition pc_closure :: "punc_client \<Rightarrow> punc_ctx \<Rightarrow> punc_response list \<Rightarrow> (punc_client \<times> (punc_error + u8 list)) option" where
  "pc_closure c ctx resps =
     (case punc_answers resps of
       None \<Rightarrow> Some (c, Inl PuncInvalidResponseType)
     | Some as \<Rightarrow> pc_reconstruct c ctx as)"

text \<open>A query with its two answers, each from a server with its own memory; \<open>None\<close> inside when \<open>Query\<close> gives up.\<close>

definition punc_round :: "gather_kernel_fn \<Rightarrow> (nat \<Rightarrow> nat \<Rightarrow> nat) \<Rightarrow> scratch \<Rightarrow> scratch \<Rightarrow> static_db \<Rightarrow> static_db \<Rightarrow> punc_client \<Rightarrow> int \<Rightarrow>
    (punc_client \<times> (punc_error + u8 list) option) option" where
  "punc_round gather Intn wsL wsR dbL dbR c i = do {
     (c, q) \<leftarrow> pc_Query Intn c i;
     (case q of None \<Rightarrow> Some (c, None)
      | Some (qL, qR, ctx) \<Rightarrow> do {
          aL \<leftarrow> punc_query_process gather wsL qL dbL;
          aR \<leftarrow> punc_query_process gather wsR qR dbR;
          (c, r) \<leftarrow> pc_closure c ctx [PuncResp aL, PuncResp aR];
          Some (c, Some r)
        })
   }"

text \<open>\<open>NumCovered\<close>: how many indices the sets of the client hold.\<close>

definition pc_NumCovered :: "punc_client \<Rightarrow> (punc_client \<times> nat) option" where
  "pc_NumCovered c = do {
     (c, xs) \<leftarrow> for_range 0 (length (pc_sets c)) (\<lambda>j (c, xs). do {
       (c, pset) \<leftarrow> pc_eval c j;
       Some (c, xs @ ps_elems pset)
     }) (c, []);
     Some (c, card (set xs))
   }"

end
