(* ===== verification/PuncProtocol.thy ===== *)
theory PuncProtocol
  imports Punc
begin

text \<open>
  What the puncturable-set protocol promises: every hint is the parity of the set of its key, every
  pointer leads to a set that holds the index, and a query returns the row that it asks for and keeps both.
\<close>

section \<open>Parities of sets\<close>

definition parity_of :: "u8 list \<Rightarrow> nat \<Rightarrow> int list \<Rightarrow> u8 list" where
  "parity_of db n es = xors n (map (\<lambda>e. row db (nat e * n) n) es)"

definition in_db :: "u8 list \<Rightarrow> nat \<Rightarrow> int list \<Rightarrow> bool" where
  "in_db db n es \<longleftrightarrow> (\<forall>e \<in> set es. 0 \<le> e \<and> nat e * n + n \<le> length db)"

lemma in_db_range:
  assumes "\<forall>e \<in> set es. 0 \<le> e \<and> e < int U" "U * n \<le> length db"
  shows "in_db db n es"
  unfolding in_db_def
proof (intro ballI conjI)
  fix e assume "e \<in> set es"
  then have e: "0 \<le> e" "nat e < U" using assms(1) by auto
  then show "0 \<le> e" "nat e * n + n \<le> length db" using row_end [OF e(2) assms(2)] by simp_all
qed

lemma rows_length: "in_db db n es \<Longrightarrow> \<forall>r \<in> set (map (\<lambda>e. row db (nat e * n) n) es). length r = n"
  by (auto simp: in_db_def)

lemma length_parity_of: "in_db db n es \<Longrightarrow> length (parity_of db n es) = n"
  unfolding parity_of_def by (intro length_xors rows_length)

lemma in_db_without: "in_db db n es \<Longrightarrow> in_db db n (without p es)"
  using set_without [of p es] by (auto simp: in_db_def)

lemma parity_of_without:
  assumes "in_db db n es" "p < length es"
  shows "map2 (XOR) (parity_of db n es) (parity_of db n (without p es)) = row db (nat (es ! p) * n) n"
  using xors_without [OF rows_length [OF assms(1)], of p] assms(2) by (simp add: parity_of_def map_without)

text \<open>The sizes under which nothing wraps around in the C code, and the memory that \<open>answer\<close> allocates.\<close>

definition punc_sizes :: "u8 list \<Rightarrow> nat \<Rightarrow> nat \<Rightarrow> nat \<Rightarrow> bool" where
  "punc_sizes db n U S \<longleftrightarrow> 0 < U \<and> U \<le> 2 ^ 31 \<and> 0 < S \<and> S \<le> 2 ^ 26 \<and> 0 < n \<and> U * n \<le> length db \<and> length db < 2 ^ 32"

definition scratch_ok :: "nat \<Rightarrow> scratch \<Rightarrow> bool" where
  "scratch_ok S ws \<longleftrightarrow> length (ws_keys ws) = 2 ^ get_height (of_nat S) \<and>
     length (ws_tmp ws) = 2 ^ get_height (of_nat S) \<and> length (ws_elems ws) = S - 1"

text \<open>The alignment that the AVX2 build needs for rows of \<open>n\<close> bytes at address \<open>base\<close>.\<close>

definition rows_aligned :: "nat \<Rightarrow> nat \<Rightarrow> bool" where
  "rows_aligned base n \<longleftrightarrow> n mod 32 < 16 \<or> 16 dvd base \<and> 16 dvd n"

lemma punc_sizes_n: "punc_sizes db n U S \<Longrightarrow> n \<le> length db"
  unfolding punc_sizes_def by (metis le_trans mult_le_mono1 nat_mult_1 Suc_leI One_nat_def)

context gather_kernel
begin

lemma XorBlocks_parity:
  assumes sz: "punc_sizes db n U S" and es: "es \<noteq> []" "length es < 2 ^ 31" "\<forall>e \<in> set es. 0 \<le> e \<and> e < int U"
    and al: "\<And>e. n dvd unat e \<Longrightarrow> ok n e"
  shows "XorBlocks gather db (map (\<lambda>x. x * int n) es) (zeros n) = Some (parity_of db n es)"
proof -
  define offs where "offs = (map (\<lambda>x. word_of_int (x * int n)) es :: u64 list)"
  have conv: "map word_of_int (map (\<lambda>x. x * int n) es) = offs" by (simp add: offs_def o_def)
  have z: "0 < n" "U * n \<le> length db" "length db < 2 ^ 32" using sz by (simp_all add: punc_sizes_def)
  note n = punc_sizes_n [OF sz]
  have u: "unat (of_nat n :: u32) = n" "unat (of_nat (length db) :: u32) = length db" "unat (of_nat (length es) :: u32) = length es"
    using z n es(2) by (simp_all add: unat_of_nat_u32)
  have off: "unat (word_of_int (e * int n) :: u64) = nat e * n" "nat e * n + n \<le> length db" if "e \<in> set es" for e
  proof -
    have e: "0 \<le> e" "nat e < U" using that es(3) by auto
    show b: "nat e * n + n \<le> length db" by (rule row_end [OF e(2) z(2)])
    have "e * int n = int (nat e * n)" using e(1) by simp
    then have w: "(word_of_int (e * int n) :: u64) = of_nat (nat e * n)" by (metis of_int_of_nat_eq)
    have "nat e * n < 2 ^ 64" using b z(3) by simp
    then show "unat (word_of_int (e * int n) :: u64) = nat e * n" unfolding w by (intro unat_of_nat_small) simp
  qed
  have inside: "\<forall>e \<in> set offs. unat e + n \<le> length db" using off unfolding offs_def by auto
  then have "filter (\<lambda>e. unat e + n \<le> length db) offs = offs" by simp
  moreover have "map (\<lambda>e. row db (unat e) n) offs = map (\<lambda>e. row db (nat e * n) n) es"
    unfolding offs_def map_map using off by (intro map_cong) (simp_all add: o_def del: of_int_mult)
  ultimately have g: "gathered db (length db) n offs = map (\<lambda>e. row db (nat e * n) n) es" by (simp only: gathered_def)
  have "\<forall>e \<in> set offs. n dvd unat e" using off unfolding offs_def by auto
  then have "gather db (of_nat (length db)) offs (of_nat (length es)) (of_nat n) (zeros n) =
      Some (xors n (gathered db (length db) n offs) @ drop n (zeros n))"
    using gather [of "of_nat n" "of_nat (length db)" db "zeros n" "of_nat (length es)" offs] u n es(2) inside al
    by (simp add: clear_offset_def offs_def [THEN arg_cong [of _ _ length]])
  moreover have "db \<noteq> []" "(zeros n :: u8 list) \<noteq> []" using z(1) n by (auto simp: zeros_def)
  ultimately show ?thesis using es(1) z(1) by (simp add: XorBlocks_def conv g parity_of_def del: map_map)
qed

lemma FastAnswer_parity:
  assumes sz: "punc_sizes db n U S" and ws: "scratch_ok S ws" and p: "p < S" and al: "\<And>e. n dvd unat e \<Longrightarrow> ok n e"
  shows "FastAnswer gather ws (ggm_cut U S (base_seed key (sk_id k)) p) p U (S - 1) (unat (sk_shift k)) db n (zeros n) =
    Some (parity_of db n (without p (set_of (ggm_members U S) U key k)))"
proof -
  let ?s = "of_lanes (base_seed key (sk_id k)) :: m128" and ?us = "of_nat U :: u32"
  define ss :: u32 where "ss = of_nat (S - 1)"
  let ?gen = "\<lparr>univ_size = ?us, set_size = ss + 1, keys = ws_keys ws, tmp = ws_tmp ws\<rparr>"
  have z: "0 < U" "U \<le> 2 ^ 31" "0 < S" "S \<le> 2 ^ 26" "0 < n" "U * n \<le> length db" "length db < 2 ^ 32"
    using sz by (simp_all add: punc_sizes_def)
  note n = punc_sizes_n [OF sz]
  have u: "unat (of_nat n :: u32) = n" "unat (of_nat (length db) :: u32) = length db" "unat ?us = U"
    "unat (of_nat p :: u32) = p"
    using z n p by (simp_all add: unat_of_nat_u32)
  have ss: "unat ss = S - 1" unfolding ss_def by (rule unat_of_nat_u32) (use z in simp)
  have s1: "ss + 1 = of_nat S" using z(3) unfolding ss_def by (metis of_nat_1 of_nat_add Suc_pred' add.commute plus_1_eq_Suc)
  have "?us \<noteq> 0" using z by (intro of_nat_nz) simp_all
  moreover have "unat ss < 2 ^ 29" "of_nat p \<le> ss" unfolding word_le_nat_alt ss u(4) using z p by simp_all
  moreover have "ggm_punctured ?s ?gen (of_nat p) = ggm_cut U S (base_seed key (sk_id k)) p" "ggm_set ?s ?gen = ggm_set ?s (bare U S)"
    by (simp_all add: ggm_cut_def ggm_punctured_def ggm_set_def bare_def s1)
  moreover have "set_rows db n ?us (sk_shift k) (without p (ggm_set ?s (bare U S))) =
      map (\<lambda>e. row db (nat e * n) n) (without p (set_of (ggm_members U S) U key k))"
  proof -
    have "nat ((uint x + uint (sk_shift k)) mod int U) = shifted ?us (sk_shift k) x" for x :: u64
      unfolding shifted_def u(3) by (simp add: nat_mod_distrib nat_add_distrib)
    then show ?thesis by (simp add: set_rows_def set_of_def ggm_members_def map_without o_def)
  qed
  ultimately have "answer gather ws (ggm_cut U S (base_seed key (sk_id k)) p) (of_nat p) ?us ss (sk_shift k)
      db (of_nat (length db)) (of_nat n) (of_nat n) (zeros n) = Some (parity_of db n (without p (set_of (ggm_members U S) U key k)))"
    using answer_eq [of ss "of_nat p" ?us ?gen ws "of_nat n" "of_nat (length db)" db "zeros n" ?s "[]" "sk_shift k"] ws z n al u ss
    by (simp add: s1 scratch_ok_def parity_of_def)
  moreover have "ggm_cut U S (base_seed key (sk_id k)) p \<noteq> []" by (simp add: ggm_cut_def ggm_punctured_def Let_def)
  moreover have "db \<noteq> []" "(zeros n :: u8 list) \<noteq> []" using z(5) n by (auto simp: zeros_def)
  ultimately show ?thesis by (simp add: FastAnswer_def ss_def)
qed

end

section \<open>The state of the client\<close>

text \<open>The cipher key of a set, and the indices in set \<open>j\<close>.\<close>

definition cipher_of :: "punc_client \<Rightarrow> SetKey \<Rightarrow> u8 list" where
  "cipher_of c k = (if sk_id k < num (pc_origSetGen c) then idGen (pc_origSetGen c) else idGen (pc_setGen c))"

definition client_set :: "punc_client \<Rightarrow> nat \<Rightarrow> int list" where
  "client_set c j = set_of (ggm_members (pc_nRows c) (pc_setSize c)) (pc_nRows c) (cipher_of c (pc_sets c ! j)) (pc_sets c ! j)"

text \<open>Well-formed: sizes, generators, keys; a pointer that is not negative leads to a set with the index.\<close>

definition client_wf :: "u8 list \<Rightarrow> punc_client \<Rightarrow> bool" where
  "client_wf db c \<longleftrightarrow> punc_sizes db (pc_RowLen c) (pc_nRows c) (pc_setSize c) \<and>
     pc_hints c \<noteq> [] \<and> length (pc_hints c) < 2 ^ 31 \<and> length (pc_hints c) = length (pc_sets c) \<and>
     length (pc_idxToSetIdx c) = pc_nRows c \<and>
     sg_ok (ggm_ok (pc_nRows c) (pc_setSize c)) (pc_nRows c) (pc_setSize c) (pc_origSetGen c) \<and>
     sg_ok (ggm_ok (pc_nRows c) (pc_setSize c)) (pc_nRows c) (pc_setSize c) (pc_setGen c) \<and>
     num (pc_origSetGen c) \<le> num (pc_setGen c) \<and> (\<forall>k \<in> set (pc_sets c). key_ok k) \<and>
     (\<forall>x < pc_nRows c. sint (pc_idxToSetIdx c ! x) < 0 \<or>
       (\<exists>j < length (pc_sets c). pc_idxToSetIdx c ! x = of_nat j \<and> int x \<in> set (client_set c j)))"

definition hint_ok :: "u8 list \<Rightarrow> punc_client \<Rightarrow> nat \<Rightarrow> bool" where
  "hint_ok db c j \<longleftrightarrow> pc_hints c ! j = parity_of db (pc_RowLen c) (client_set c j)"

definition punc_ok :: "u8 list \<Rightarrow> punc_client \<Rightarrow> bool" where
  "punc_ok db c \<longleftrightarrow> client_wf db c \<and> (\<forall>j < length (pc_sets c). hint_ok db c j)"

text \<open>Two states of a client that agree on the sets and the hints.\<close>

definition alike :: "punc_client \<Rightarrow> punc_client \<Rightarrow> bool" where
  "alike c c' \<longleftrightarrow> pc_nRows c' = pc_nRows c \<and> pc_RowLen c' = pc_RowLen c \<and> pc_setSize c' = pc_setSize c \<and>
     pc_sets c' = pc_sets c \<and> pc_hints c' = pc_hints c \<and> num (pc_origSetGen c') = num (pc_origSetGen c) \<and>
     idGen (pc_origSetGen c') = idGen (pc_origSetGen c) \<and> idGen (pc_setGen c') = idGen (pc_setGen c)"

definition same_size :: "punc_client \<Rightarrow> punc_client \<Rightarrow> bool" where
  "same_size c c' \<longleftrightarrow> pc_nRows c' = pc_nRows c \<and> pc_RowLen c' = pc_RowLen c \<and> pc_setSize c' = pc_setSize c"

lemma alike_size: "alike c c' \<Longrightarrow> same_size c c'"
  by (simp add: alike_def same_size_def)

lemma alike_refl [simp]: "alike c c"
  by (simp add: alike_def)

lemma alike_trans [trans]: "alike c d \<Longrightarrow> alike d e \<Longrightarrow> alike c e"
  by (simp add: alike_def)

lemma alike_cipher: "alike c c' \<Longrightarrow> cipher_of c' = cipher_of c"
  by (simp add: alike_def cipher_of_def fun_eq_iff)

lemma alike_set: "alike c c' \<Longrightarrow> client_set c' j = client_set c j"
  by (simp add: alike_def client_set_def cipher_of_def)

lemma alike_hint: "alike c c' \<Longrightarrow> hint_ok db c' j = hint_ok db c j"
  using alike_set [of c c' j] by (simp add: hint_ok_def alike_def)

lemma client_set_hints [simp]: "client_set (c\<lparr>pc_hints := hs\<rparr>) = client_set c"
  by (simp add: fun_eq_iff client_set_def cipher_of_def)

lemma client_set_eq: "client_set c j = ggm.elems (pc_nRows c) (pc_setSize c) (cipher_of c (pc_sets c ! j)) (pc_sets c ! j)"
  by (simp add: client_set_def)

lemma sint_of_nat_u32: "j < 2 ^ 31 \<Longrightarrow> sint (of_nat j :: u32) = int j"
  using sint_small [of "of_nat j :: u32"] by (simp add: unat_of_nat_u32)

lemma wf_gens:
  assumes "client_wf db c"
  shows "sg_ok (ggm_ok (pc_nRows c) (pc_setSize c)) (pc_nRows c) (pc_setSize c) (pc_origSetGen c)"
  "sg_ok (ggm_ok (pc_nRows c) (pc_setSize c)) (pc_nRows c) (pc_setSize c) (pc_setGen c)"
  using assms by (simp_all add: client_wf_def)

lemma wf_base: "client_wf db c \<Longrightarrow> ggm_ok (pc_nRows c) (pc_setSize c) (baseGen (pc_setGen c))"
  using wf_gens(2) by (auto simp: sg_ok_def)

lemma wf_cipher: "client_wf db c \<Longrightarrow> length (cipher_of c k) = 16"
  using wf_gens [of db c] by (simp add: sg_ok_def cipher_of_def)

lemma client_set_range: "client_wf db c \<Longrightarrow> e \<in> set (client_set c j) \<Longrightarrow> 0 \<le> e \<and> e < int (pc_nRows c)"
  using ggm.elems_range [OF wf_base, of db c] by (simp add: client_set_eq)

lemma client_set_in_db:
  assumes "client_wf db c"
  shows "in_db db (pc_RowLen c) (client_set c j)"
  using client_set_range [OF assms] assms by (intro in_db_range [of _ "pc_nRows c"]) (auto simp: client_wf_def punc_sizes_def)

lemma length_client_set: "client_wf db c \<Longrightarrow> length (client_set c j) = pc_setSize c"
  using ggm.length_elems [OF wf_base, of db c] by (simp add: client_set_eq)

lemma wf_pointer:
  assumes wf: "client_wf db c" and "x < pc_nRows c" "0 \<le> sint (pc_idxToSetIdx c ! x)"
  shows "\<exists>j < length (pc_sets c). pc_idxToSetIdx c ! x = of_nat j \<and> sint (pc_idxToSetIdx c ! x) = int j \<and> int x \<in> set (client_set c j)"
proof -
  obtain j where j: "j < length (pc_sets c)" "pc_idxToSetIdx c ! x = of_nat j" "int x \<in> set (client_set c j)"
    using wf assms unfolding client_wf_def by (meson not_less)
  moreover have "j < 2 ^ 31" using wf j(1) by (simp add: client_wf_def)
  ultimately show ?thesis using sint_of_nat_u32 [of j] by metis
qed

text \<open>A step of the generator of set \<open>j\<close> that changes only its scratch memory.\<close>

lemma with_gen_for_eq:
  assumes wf: "client_wf db c" and "j < length (pc_sets c)"
    and f: "\<And>g. sg_ok (ggm_ok (pc_nRows c) (pc_setSize c)) (pc_nRows c) (pc_setSize c) g \<Longrightarrow>
      \<exists>b. f g = Some (g\<lparr>baseGen := b\<rparr>, r (idGen g)) \<and> ggm_ok (pc_nRows c) (pc_setSize c) b"
  shows "\<exists>c'. with_gen_for c j f = Some (c', r (cipher_of c (pc_sets c ! j))) \<and> client_wf db c' \<and> alike c c' \<and>
    pc_idxToSetIdx c' = pc_idxToSetIdx c \<and> pc_randSource c' = pc_randSource c \<and> num (pc_setGen c') = num (pc_setGen c)"
proof -
  obtain b1 where b1: "f (pc_origSetGen c) = Some ((pc_origSetGen c)\<lparr>baseGen := b1\<rparr>, r (idGen (pc_origSetGen c)))"
    "ggm_ok (pc_nRows c) (pc_setSize c) b1" using f [OF wf_gens(1) [OF wf]] by blast
  obtain b2 where b2: "f (pc_setGen c) = Some ((pc_setGen c)\<lparr>baseGen := b2\<rparr>, r (idGen (pc_setGen c)))"
    "ggm_ok (pc_nRows c) (pc_setSize c) b2" using f [OF wf_gens(2) [OF wf]] by blast
  let ?c1 = "c\<lparr>pc_origSetGen := (pc_origSetGen c)\<lparr>baseGen := b1\<rparr>\<rparr>" and ?c2 = "c\<lparr>pc_setGen := (pc_setGen c)\<lparr>baseGen := b2\<rparr>\<rparr>"
  have s: "client_set ?c1 = client_set c" "client_set ?c2 = client_set c"
    by (simp_all add: fun_eq_iff client_set_def cipher_of_def)
  have "client_wf db ?c1" "client_wf db ?c2"
    using wf b1(2) b2(2) by (simp_all add: client_wf_def s sg_ok_def)
  then show ?thesis
    using b1 b2 assms(2) by (auto simp: with_gen_for_def rd_in cipher_of_def alike_def)
qed

lemma pc_eval_eq:
  assumes wf: "client_wf db c" and "j < length (pc_sets c)"
  shows "\<exists>c'. pc_eval c j = Some (c', ggm.the_set (pc_nRows c) (pc_setSize c) (cipher_of c (pc_sets c ! j)) (pc_sets c ! j)) \<and>
    client_wf db c' \<and> alike c c' \<and> pc_idxToSetIdx c' = pc_idxToSetIdx c \<and> pc_randSource c' = pc_randSource c \<and>
    num (pc_setGen c') = num (pc_setGen c)"
proof -
  have "key_ok (pc_sets c ! j)" using assms by (simp add: client_wf_def)
  then show ?thesis
    using with_gen_for_eq [OF assms, of "\<lambda>g. sg_Eval ggmC g (pc_sets c ! j)"
        "\<lambda>key. ggm.the_set (pc_nRows c) (pc_setSize c) key (pc_sets c ! j)"] ggm.Eval_eq assms(2)
    by (simp add: pc_eval_def rd_in)
qed

section \<open>Finding a set\<close>

text \<open>Pointers that were set to \<open>j\<close> only at members of a set.\<close>

definition repointed :: "int list \<Rightarrow> u32 \<Rightarrow> u32 list \<Rightarrow> u32 list \<Rightarrow> bool" where
  "repointed es j ptrs ptrs' \<longleftrightarrow> length ptrs' = length ptrs \<and>
     (\<forall>x < length ptrs. ptrs' ! x = ptrs ! x \<or> ptrs' ! x = j \<and> int x \<in> set es)"

lemma repointed_trans: "repointed es j p q \<Longrightarrow> repointed es j q r \<Longrightarrow> repointed es j p r"
  unfolding repointed_def by metis

lemma put_int: "0 \<le> x \<Longrightarrow> x < int (length xs) \<Longrightarrow> put xs x v = Some (xs[nat x := v])"
  by (simp add: wr_in nat_less_iff)

lemma scan_elems_eq:
  assumes "\<forall>v \<in> set vs. shift_elem us sh v = Some (f v) \<and> 0 \<le> f v \<and> f v < int U" "length ptrs = U"
  shows "\<exists>ptrs'. scan_elems U us sh i j vs ptrs = Some (ptrs', i \<in> set (map f vs)) \<and> repointed (map f vs) j ptrs ptrs'"
  using assms
proof (induction vs arbitrary: ptrs)
  case (Cons v vs)
  have v: "shift_elem us sh v = Some (f v)" "0 \<le> f v" "f v < int U" using Cons.prems(1) by auto
  show ?case
  proof (cases "f v = i")
    case False
    let ?p = "ptrs[nat (f v) := j]"
    obtain ptrs' where p: "scan_elems U us sh i j vs ?p = Some (ptrs', i \<in> set (map f vs))" "repointed (map f vs) j ?p ptrs'"
      using Cons.IH [of ?p] Cons.prems by auto
    have "nat (f v) < length ptrs" using v Cons.prems(2) by (simp add: nat_less_iff)
    then have "repointed (map f (v # vs)) j ptrs ?p" using v by (auto simp: repointed_def nth_list_update)
    moreover have "repointed (map f (v # vs)) j ?p ptrs'" using p(2) by (auto simp: repointed_def)
    ultimately show ?thesis using p(1) v False Cons.prems(2) put_int [of "f v" ptrs j] repointed_trans by auto
  qed (use v in \<open>auto simp: repointed_def\<close>)
qed (auto simp: repointed_def)

lemma client_wf_repoint:
  assumes wf: "client_wf db c" and j: "j < length (pc_sets c)" and p: "repointed (client_set c j) (of_nat j) (pc_idxToSetIdx c) ptrs"
  shows "client_wf db (c\<lparr>pc_idxToSetIdx := ptrs\<rparr>)"
proof -
  have s: "client_set (c\<lparr>pc_idxToSetIdx := ptrs\<rparr>) = client_set c"
    by (simp add: fun_eq_iff client_set_def cipher_of_def)
  have "sint (ptrs ! x) < 0 \<or> (\<exists>j < length (pc_sets c). ptrs ! x = of_nat j \<and> int x \<in> set (client_set c j))"
    if "x < pc_nRows c" for x
  proof -
    have "x < length (pc_idxToSetIdx c)" using wf that by (simp add: client_wf_def)
    then consider "ptrs ! x = pc_idxToSetIdx c ! x" | "ptrs ! x = of_nat j" "int x \<in> set (client_set c j)"
      using p unfolding repointed_def by blast
    then show ?thesis
    proof cases
      case 1
      then show ?thesis using wf that by (simp add: client_wf_def)
    qed (use j in blast)
  qed
  then show ?thesis using wf p unfolding client_wf_def s by (simp add: repointed_def client_wf_def)
qed

lemma scan_sets_eq:
  assumes "client_wf db c" "ks = drop j (pc_sets c)"
  shows "\<exists>c' r. scan_sets i ks j p c = Some (c', r) \<and> client_wf db c' \<and> alike c c' \<and> pc_randSource c' = pc_randSource c \<and>
    num (pc_setGen c') = num (pc_setGen c) \<and>
    (r = -1 \<and> (\<forall>h. j \<le> h \<and> h < length (pc_sets c) \<longrightarrow> i \<notin> set (client_set c h)) \<or>
     (\<exists>h < length (pc_sets c). r = int h \<and> i \<in> set (client_set c h)))"
  using assms
proof (induction ks arbitrary: j p c)
  case Nil
  then show ?case by auto
next
  case (Cons k ks)
  let ?U = "pc_nRows c" and ?S = "pc_setSize c"
  have j: "j < length (pc_sets c)" using Cons.prems(2) by (metis drop_all list.distinct(1) not_le)
  then have k: "pc_sets c ! j = k" "ks = drop (Suc j) (pc_sets c)" using Cons.prems(2) by (simp_all add: Cons_nth_drop_Suc [symmetric])
  let ?k0 = "k\<lparr>sk_shift := 0\<rparr>" and ?key = "cipher_of c k"
  have k0: "key_ok ?k0" "key_ok k" using Cons.prems(1) j k(1) by (auto simp: client_wf_def key_ok_def)
  let ?f = "\<lambda>g. map_option (\<lambda>(g, p). (g, (sg_univSize g, p))) (sg_EvalInPlace ggmC g ?k0 p)"
  have "\<exists>b. ?f g = Some (g\<lparr>baseGen := b\<rparr>, (?U, ggm.the_set ?U ?S (idGen g) ?k0)) \<and> ggm_ok ?U ?S b"
    if g: "sg_ok (ggm_ok ?U ?S) ?U ?S g" for g
  proof -
    obtain b where "sg_EvalInPlace ggmC g ?k0 p = Some (g\<lparr>baseGen := b\<rparr>, ggm.the_set ?U ?S (idGen g) ?k0)" "ggm_ok ?U ?S b"
      using ggm.EvalInPlace_eq [OF g k0(1)] by blast
    then show ?thesis using g by (auto simp: sg_ok_def)
  qed
  from with_gen_for_eq [OF Cons.prems(1) j, of ?f "\<lambda>key. (?U, ggm.the_set ?U ?S key ?k0)", OF this] k(1)
  obtain c1 where c1: "with_gen_for c j ?f = Some (c1, ?U, ggm.the_set ?U ?S ?key ?k0)" "client_wf db c1" "alike c c1"
    "pc_idxToSetIdx c1 = pc_idxToSetIdx c" "pc_randSource c1 = pc_randSource c" "num (pc_setGen c1) = num (pc_setGen c)" by auto
  define ms where "ms = ggm_members ?U ?S (base_seed ?key (sk_id k))"
  have ms: "\<forall>v \<in> set ms. 0 \<le> v \<and> v < int ?U" using ggm_members_range [OF wf_base [OF Cons.prems(1)]] by (auto simp: ms_def)
  have e0: "ps_elems (ggm.the_set ?U ?S ?key ?k0) = ms"
    using ms by (auto simp: evaluated_def set_of_def ms_def intro: map_idI)
  have es: "client_set c j = map (\<lambda>v. (v + uint (sk_shift k)) mod int ?U) ms"
    by (simp add: client_set_def set_of_def ms_def k(1))
  have U: "0 < ?U" "?U \<le> 2 ^ 31" using Cons.prems(1) by (simp_all add: client_wf_def punc_sizes_def)
  have shifted: "\<forall>v \<in> set ms. shift_elem ?U (sk_shift k) v = Some ((v + uint (sk_shift k)) mod int ?U) \<and>
      0 \<le> (v + uint (sk_shift k)) mod int ?U \<and> (v + uint (sk_shift k)) mod int ?U < int ?U"
  proof
    fix v assume "v \<in> set ms"
    then have "shift_elems ?U (sk_shift k) [v] = Some [(v + uint (sk_shift k)) mod int ?U]"
      using shift_elems_eq [OF U, of "sk_shift k" "[v]"] ms k0(2) by (simp add: key_ok_def)
    then have "shift_elem ?U (sk_shift k) v = Some ((v + uint (sk_shift k)) mod int ?U)"
      by (simp add: shift_elems_def split: option.splits)
    then show "shift_elem ?U (sk_shift k) v = Some ((v + uint (sk_shift k)) mod int ?U) \<and>
      0 \<le> (v + uint (sk_shift k)) mod int ?U \<and> (v + uint (sk_shift k)) mod int ?U < int ?U" using U by simp
  qed
  have lp: "length (pc_idxToSetIdx c1) = ?U" using Cons.prems(1) c1(4) by (simp add: client_wf_def)
  obtain ptrs where ptrs: "scan_elems ?U ?U (sk_shift k) i (of_nat j) ms (pc_idxToSetIdx c1) = Some (ptrs, i \<in> set (client_set c j))"
    "repointed (client_set c j) (of_nat j) (pc_idxToSetIdx c1) ptrs"
    using scan_elems_eq [OF shifted lp, of i "of_nat j"] unfolding es by blast
  let ?c2 = "c1\<lparr>pc_idxToSetIdx := ptrs\<rparr>"
  have wf2: "client_wf db ?c2"
    using client_wf_repoint [OF c1(2), of j ptrs] ptrs(2) j c1(3) alike_set [OF c1(3)] by (simp add: alike_def)
  have al: "alike c ?c2" using c1(3) by (simp add: alike_def)
  have st: "scan_sets i (k # ks) j p c =
      (if i \<in> set (client_set c j) then Some (?c2, int j) else scan_sets i ks (Suc j) (ggm.the_set ?U ?S ?key ?k0) ?c2)"
    using c1(1,3) ptrs(1) e0 by (simp add: alike_def)
  show ?case
  proof (cases "i \<in> set (client_set c j)")
    case True
    with st wf2 al c1(5,6) j show ?thesis by auto
  next
    case False
    obtain c' r where c': "scan_sets i ks (Suc j) (ggm.the_set ?U ?S ?key ?k0) ?c2 = Some (c', r)" "client_wf db c'" "alike ?c2 c'"
      "pc_randSource c' = pc_randSource ?c2" "num (pc_setGen c') = num (pc_setGen ?c2)"
      "r = -1 \<and> (\<forall>h. Suc j \<le> h \<and> h < length (pc_sets ?c2) \<longrightarrow> i \<notin> set (client_set ?c2 h)) \<or>
        (\<exists>h < length (pc_sets ?c2). r = int h \<and> i \<in> set (client_set ?c2 h))"
      using Cons.IH [OF wf2, of "Suc j"] k(2) al by (fastforce simp: alike_def)
    have "r = -1 \<and> (\<forall>h. j \<le> h \<and> h < length (pc_sets c) \<longrightarrow> i \<notin> set (client_set c h)) \<or>
        (\<exists>h < length (pc_sets c). r = int h \<and> i \<in> set (client_set c h))"
      using c'(6) False alike_set [OF al] al unfolding alike_def by (metis le_antisym not_less_eq_eq)
    then show ?thesis
      using st False c'(1-5) c1(5,6) alike_trans [OF al c'(3)] by auto
  qed
qed

lemma pc_findIndex_eq:
  assumes "client_wf db c" "0 \<le> i" "i < int (pc_nRows c)"
  shows "\<exists>c' r. pc_findIndex c i = Some (c', r) \<and> client_wf db c' \<and> alike c c' \<and> pc_randSource c' = pc_randSource c \<and>
    num (pc_setGen c') = num (pc_setGen c) \<and>
    (r = -1 \<and> (\<forall>h < length (pc_sets c). i \<notin> set (client_set c h)) \<or>
     (\<exists>h < length (pc_sets c). r = int h \<and> i \<in> set (client_set c h)))"
proof -
  let ?x = "nat i"
  have x: "?x < pc_nRows c" "int ?x = i" "length (pc_idxToSetIdx c) = pc_nRows c" using assms by (auto simp: client_wf_def)
  have m: "MathMod i (int (pc_nRows c)) = Some i" using assms MathMod_eq [of "int (pc_nRows c)" i] by simp
  have s: "at (pc_idxToSetIdx c) i = Some (pc_idxToSetIdx c ! ?x)" using x assms(2) by (simp add: rd_in)
  show ?thesis
  proof (cases "0 \<le> sint (pc_idxToSetIdx c ! ?x)")
    case True
    with wf_pointer [OF assms(1) x(1) True, unfolded x(2)] assms m s show ?thesis
      unfolding pc_findIndex_def m s Option.bind.bind_lunit by auto
  next
    case False
    with scan_sets_eq [OF assms(1), of "pc_sets c" 0 i pset_var] assms m s show ?thesis
      by (simp add: pc_findIndex_def)
  qed
qed

section \<open>The steps of a query\<close>

text \<open>A random source that hits every member of a set sooner or later.\<close>

definition Intn_fair :: "(nat \<Rightarrow> nat \<Rightarrow> nat) \<Rightarrow> nat \<Rightarrow> bool" where
  "Intn_fair Intn s \<longleftrightarrow> (\<forall>k m. m < s \<longrightarrow> (\<exists>k' \<ge> k. Intn k' s = m))"

definition varied :: "int list \<Rightarrow> bool" where
  "varied es \<longleftrightarrow> (\<exists>x \<in> set es. \<exists>y \<in> set es. x \<noteq> y)"

lemma varied_other: "varied es \<Longrightarrow> \<exists>v \<in> set es. v \<noteq> x"
  by (metis varied_def)

lemma randomMemberExcept_eq:
  assumes R: "Intn_ok Intn" "Intn_fair Intn (length es)" and v: "v \<in> set es" "v \<noteq> idx"
  shows "\<exists>src' x. randomMemberExcept Intn (length es) es idx src = Some (src', x) \<and> x \<in> set es \<and> x \<noteq> idx"
proof -
  let ?s = "length es"
  have s: "0 < ?s" using v(1) by (cases es) auto
  obtain m where m: "m < ?s" "es ! m = v" using v(1) by (auto simp: in_set_conv_nth)
  then obtain k' where k': "src \<le> k'" "es ! Intn k' ?s \<noteq> idx" using R(2) v(2) unfolding Intn_fair_def by metis
  then show ?thesis
  proof (induction "k' - src" arbitrary: src)
    case 0
    then have k: "k' = src" by simp
    have "Intn src ?s < ?s" using R(1) s by (simp add: Intn_ok_def)
    then show ?case using 0(3) s unfolding k by (subst randomMemberExcept.simps) (simp add: Intn_next_def rd_in)
  next
    case (Suc n)
    have r: "Intn src ?s < ?s" using R(1) s by (simp add: Intn_ok_def)
    have st: "randomMemberExcept Intn ?s es idx src =
        (if es ! Intn src ?s \<noteq> idx then Some (Suc src, es ! Intn src ?s) else randomMemberExcept Intn ?s es idx (Suc src))"
      using r s by (subst randomMemberExcept.simps) (simp add: Intn_next_def rd_in)
    show ?case
    proof (cases "es ! Intn src ?s \<noteq> idx")
      case True
      then show ?thesis using st r by auto
    next
      case False
      have "\<exists>src' x. randomMemberExcept Intn ?s es idx (Suc src) = Some (src', x) \<and> x \<in> set es \<and> x \<noteq> idx"
        using Suc by (intro Suc.hyps(1)) simp_all
      with st False show ?thesis by simp
    qed
  qed
qed

text \<open>When all members are the index itself, the loop does not end.\<close>

lemma randomMemberExcept_loops:
  assumes "\<forall>v \<in> set es. v = idx"
  shows "randomMemberExcept Intn s es idx src = None"
proof -
  have "\<not> (\<forall>v \<in> set es. v = idx)" if r: "randomMemberExcept Intn s es idx src = Some y" for y
    by (rule randomMemberExcept.raw_induct [where P = "\<lambda>Intn s es idx src y. \<not> (\<forall>v \<in> set es. v = idx)", OF _ r])
      (auto simp: rd_def bind_eq_Some_conv split: if_splits)
  with assms show ?thesis by (cases "randomMemberExcept Intn s es idx src") auto
qed

definition punctured :: "nat \<Rightarrow> nat \<Rightarrow> u8 list \<Rightarrow> SetKey \<Rightarrow> nat \<Rightarrow> PuncturedSet" where
  "punctured U S key k p = \<lparr>pu_UnivSize = U, pu_SetSize = S - 1, pu_Keys = ggm_cut U S (base_seed key (sk_id k)) p,
     pu_Hole = p, pu_Shift = sk_shift k\<rparr>"

text \<open>The next set of the private generator exists, its counter does not wrap around, and it has two different members.\<close>

definition fresh_id :: "punc_client \<Rightarrow> u32 \<Rightarrow> bool" where
  "fresh_id c n \<longleftrightarrow> first_id (ggm_members (pc_nRows c) (pc_setSize c)) (idGen (pc_setGen c)) (num (pc_setGen c)) n \<and>
     num (pc_setGen c) \<le> n \<and> n \<noteq> - 1"

definition next_ok :: "punc_client \<Rightarrow> bool" where
  "next_ok c \<longleftrightarrow> (\<exists>n. fresh_id c n \<and>
     varied (ggm_members (pc_nRows c) (pc_setSize c) (base_seed (idGen (pc_setGen c)) n)))"

text \<open>What a step keeps: the state is alike, and the pointers are the same.\<close>

definition step_keeps :: "u8 list \<Rightarrow> punc_client \<Rightarrow> punc_client \<Rightarrow> bool" where
  "step_keeps db c c' \<longleftrightarrow> client_wf db c' \<and> alike c c' \<and> pc_idxToSetIdx c' = pc_idxToSetIdx c"

lemma step_keeps_trans [trans]: "step_keeps db c d \<Longrightarrow> step_keeps db d e \<Longrightarrow> step_keeps db c e"
  using alike_trans by (auto simp: step_keeps_def)

lemma client_wf_cong:
  assumes "client_wf db c" "alike c c'" "pc_idxToSetIdx c' = pc_idxToSetIdx c"
    and "sg_ok (ggm_ok (pc_nRows c) (pc_setSize c)) (pc_nRows c) (pc_setSize c) (pc_origSetGen c')"
    and "sg_ok (ggm_ok (pc_nRows c) (pc_setSize c)) (pc_nRows c) (pc_setSize c) (pc_setGen c')"
    and "num (pc_setGen c) \<le> num (pc_setGen c')"
  shows "step_keeps db c c'"
proof -
  have "num (pc_origSetGen c) \<le> num (pc_setGen c')" using assms(1,6) by (auto simp: client_wf_def)
  then show ?thesis using assms alike_set [OF assms(2)] by (simp add: step_keeps_def client_wf_def alike_def)
qed

lemma varied_set_of:
  assumes "ggm_ok U S g" "varied (ggm_members U S (base_seed key (sk_id k)))"
  shows "varied (set_of (ggm_members U S) U key k)"
proof -
  let ?ms = "ggm_members U S (base_seed key (sk_id k))" and ?f = "\<lambda>e. (e + uint (sk_shift k)) mod int U"
  obtain x y where xy: "x \<in> set ?ms" "y \<in> set ?ms" "x \<noteq> y" using assms(2) by (auto simp: varied_def)
  then have r: "0 \<le> x" "x < int U" "0 \<le> y" "y < int U" using ggm_members_range(2) [OF assms(1)] by blast+
  have "?f x \<noteq> ?f y"
  proof
    assume "?f x = ?f y"
    then have "(x + uint (sk_shift k) - uint (sk_shift k)) mod int U = (y + uint (sk_shift k) - uint (sk_shift k)) mod int U"
      by (rule mod_diff_cong) simp
    with r xy(3) show False by simp
  qed
  with xy show ?thesis unfolding varied_def set_of_def by auto
qed

lemma pc_newSet_eq:
  assumes wf: "client_wf db c" and nx: "fresh_id c n" and i: "0 \<le> i" "i < int (pc_nRows c)"
  shows "\<exists>c' k. pc_newSet c i = Some (c', ggm.the_set (pc_nRows c) (pc_setSize c) (cipher_of c k) k) \<and> step_keeps db c c' \<and>
    pc_randSource c' = pc_randSource c \<and> key_ok k \<and> cipher_of c k = idGen (pc_setGen c) \<and>
    i \<in> set (ggm.elems (pc_nRows c) (pc_setSize c) (cipher_of c k) k) \<and>
    (varied (ggm_members (pc_nRows c) (pc_setSize c) (base_seed (idGen (pc_setGen c)) n)) \<longrightarrow>
      varied (ggm.elems (pc_nRows c) (pc_setSize c) (cipher_of c k) k))"
proof -
  let ?U = "pc_nRows c" and ?S = "pc_setSize c" and ?g = "pc_setGen c"
  have n: "first_id (ggm_members ?U ?S) (idGen ?g) (num ?g) n" "num ?g \<le> n" "n \<noteq> - 1"
    using nx unfolding fresh_id_def by blast+
  obtain b s where g: "sg_GenWith ggmC ?g i = Some (?g\<lparr>num := n + 1, baseGen := b\<rparr>, ggm.the_set ?U ?S (idGen ?g) \<lparr>sk_id = n, sk_shift = s\<rparr>)"
      "ggm_ok ?U ?S b" "key_ok \<lparr>sk_id = n, sk_shift = s\<rparr>" "i \<in> set (ggm.elems ?U ?S (idGen ?g) \<lparr>sk_id = n, sk_shift = s\<rparr>)"
    using ggm.GenWith_eq [OF n(1) wf_gens(2) [OF wf] i] by blast
  let ?c = "c\<lparr>pc_setGen := ?g\<lparr>num := n + 1, baseGen := b\<rparr>\<rparr>" and ?k = "\<lparr>sk_id = n, sk_shift = s\<rparr>"
  have o: "num (pc_origSetGen c) \<le> n" using wf n(2) by (auto simp: client_wf_def)
  then have key: "cipher_of c ?k = idGen ?g" by (auto simp: cipher_of_def)
  have "1 + n \<noteq> 0" using n(3) by (metis add_eq_0_iff)
  then have "unat (n + 1) = Suc (unat n)" using unatSuc [of n] by (simp add: add.commute)
  then have "num ?g \<le> n + 1" using n(2) by (simp add: word_le_nat_alt)
  then have "step_keeps db c ?c"
    using wf_gens [OF wf] g(2) by (intro client_wf_cong [OF wf]) (simp_all add: alike_def sg_ok_def)
  moreover have "varied (ggm_members ?U ?S (base_seed (idGen ?g) n)) \<longrightarrow> varied (ggm.elems ?U ?S (idGen ?g) ?k)"
    using varied_set_of [OF g(2), of _ ?k] by simp
  ultimately show ?thesis
    using g(1,3,4) key by (intro exI [of _ ?c] exI [of _ ?k]) (simp add: pc_newSet_def)
qed

lemma pc_other_eq:
  assumes wf: "client_wf db c" and R: "Intn_ok Intn" "Intn_fair Intn (pc_setSize c)"
    and es: "length (ps_elems p) = pc_setSize c" "varied (ps_elems p)"
  shows "\<exists>c' x. pc_other Intn c p i = Some (c', x) \<and> step_keeps db c c' \<and> num (pc_setGen c') = num (pc_setGen c) \<and>
    x \<in> set (ps_elems p) \<and> x \<noteq> i"
proof -
  obtain v where v: "v \<in> set (ps_elems p)" "v \<noteq> i" using varied_other [OF es(2)] by blast
  have R2: "Intn_fair Intn (length (ps_elems p))" using R(2) es(1) by simp
  obtain src x where r: "randomMemberExcept Intn (pc_setSize c) (ps_elems p) i (pc_randSource c) = Some (src, x)"
    "x \<in> set (ps_elems p)" "x \<noteq> i"
    using randomMemberExcept_eq [OF R(1) R2 v, of "pc_randSource c"] es(1) by auto
  have "step_keeps db c (c\<lparr>pc_randSource := src\<rparr>)"
    using wf_gens [OF wf] by (intro client_wf_cong [OF wf]) (simp_all add: alike_def)
  with r show ?thesis by (auto simp: pc_other_def)
qed

lemma pc_punc_eq:
  assumes wf: "client_wf db c" and key: "length key = 16" and x: "x \<in> set (ggm.elems (pc_nRows c) (pc_setSize c) key k)"
  shows "\<exists>c' p. pc_punc c (ggm.the_set (pc_nRows c) (pc_setSize c) key k) x = Some (c', punctured (pc_nRows c) (pc_setSize c) key k p) \<and>
    step_keeps db c c' \<and> num (pc_setGen c') = num (pc_setGen c) \<and> pc_randSource c' = pc_randSource c \<and>
    p < pc_setSize c \<and> ggm.elems (pc_nRows c) (pc_setSize c) key k ! p = x"
proof -
  obtain b p where g: "sg_Punc ggmC (pc_setGen c) (ggm.the_set (pc_nRows c) (pc_setSize c) key k) x =
      Some ((pc_setGen c)\<lparr>baseGen := b\<rparr>, punctured (pc_nRows c) (pc_setSize c) key k p)" "ggm_ok (pc_nRows c) (pc_setSize c) b"
      "p < pc_setSize c" "ggm.elems (pc_nRows c) (pc_setSize c) key k ! p = x"
    using ggm.Punc_eq [OF wf_gens(2) [OF wf] key x] unfolding punctured_def by blast
  let ?c = "c\<lparr>pc_setGen := (pc_setGen c)\<lparr>baseGen := b\<rparr>\<rparr>"
  have "step_keeps db c ?c" using wf_gens [OF wf] g(2) by (intro client_wf_cong [OF wf]) (simp_all add: alike_def sg_ok_def)
  with g show ?thesis by (intro exI [of _ ?c] exI [of _ p]) (simp add: pc_punc_def)
qed

section \<open>Replacing a set\<close>

lemma unpoint_eq:
  assumes "\<forall>e \<in> set es. 0 \<le> e \<and> e < int U" "length ptrs = U"
  shows "\<exists>ptrs'. foldM (\<lambda>idx ptrs.
       if idx < int U then do {
         s \<leftarrow> at ptrs idx;
         (if s = j then put ptrs idx (- 1) else Some ptrs)
       } else Some ptrs) es ptrs = Some ptrs' \<and> length ptrs' = U \<and>
    (\<forall>x < U. ptrs' ! x = (if int x \<in> set es \<and> ptrs ! x = j then - 1 else ptrs ! x))"
  using assms
proof (induction es arbitrary: ptrs)
  case (Cons e es)
  have e: "0 \<le> e" "e < int U" "nat e < length ptrs" using Cons.prems by (simp_all add: nat_less_iff)
  let ?p = "if ptrs ! nat e = j then ptrs[nat e := - 1] else ptrs"
  let ?b = "\<lambda>idx ptrs.
         if idx < int U then do {
           s \<leftarrow> at ptrs idx;
           (if s = j then put ptrs idx (- 1) else Some ptrs)
         } else Some ptrs"
  have st: "?b e ptrs = Some ?p" using e by (simp add: rd_in wr_in)
  have "length ?p = U" using Cons.prems(2) by simp
  then obtain p' where p': "foldM ?b es ?p = Some p'" "length p' = U"
    "\<forall>x < U. p' ! x = (if int x \<in> set es \<and> ?p ! x = j then - 1 else ?p ! x)"
    using Cons.IH [of ?p] Cons.prems(1) by auto
  have "\<forall>x < U. p' ! x = (if int x \<in> set (e # es) \<and> ptrs ! x = j then - 1 else ptrs ! x)"
  proof (intro allI impI)
    fix x assume x: "x < U"
    show "p' ! x = (if int x \<in> set (e # es) \<and> ptrs ! x = j then - 1 else ptrs ! x)"
      using spec [OF p'(3), of x] x e Cons.prems(2) by (cases "x = nat e") (auto simp: nth_list_update)
  qed
  moreover have "foldM ?b (e # es) ptrs = Some p'" unfolding foldM.simps st using p'(1) by simp
  ultimately show ?case using p'(2) by blast
qed simp

lemma point_at_eq:
  assumes "\<forall>e \<in> set es. 0 \<le> e \<and> e < int U" "length ptrs = U"
  shows "\<exists>ptrs'. point_at j es ptrs = Some ptrs' \<and> length ptrs' = U \<and>
    (\<forall>x < U. ptrs' ! x = (if int x \<in> set es then j else ptrs ! x))"
  using assms
proof (induction es arbitrary: ptrs)
  case (Cons e es)
  have e: "0 \<le> e" "e < int U" "nat e < length ptrs" using Cons.prems by (simp_all add: nat_less_iff)
  obtain p' where p': "point_at j es (ptrs[nat e := j]) = Some p'" "length p' = U"
    "\<forall>x < U. p' ! x = (if int x \<in> set es then j else ptrs[nat e := j] ! x)"
    using Cons.IH [of "ptrs[nat e := j]"] Cons.prems by auto
  have "\<forall>x < U. p' ! x = (if int x \<in> set (e # es) then j else ptrs ! x)"
  proof (intro allI impI)
    fix x assume x: "x < U"
    show "p' ! x = (if int x \<in> set (e # es) then j else ptrs ! x)"
      using spec [OF p'(3), of x] x e Cons.prems(2) by (cases "x = nat e") (auto simp: nth_list_update)
  qed
  with p' e show ?case by (simp add: wr_in)
qed simp

lemma pc_replaceSet_eq:
  assumes wf: "client_wf db c" and j: "j < length (pc_sets c)" and k: "key_ok k"
  shows "\<exists>c'. pc_replaceSet c j (ggm.the_set (pc_nRows c) (pc_setSize c) (cipher_of c k) k) = Some c' \<and>
    client_wf db c' \<and> alike (c\<lparr>pc_sets := (pc_sets c)[j := k]\<rparr>) c' \<and>
    (\<forall>h < length (pc_sets c). client_set c' h = (if h = j then ggm.elems (pc_nRows c) (pc_setSize c) (cipher_of c k) k else client_set c h))"
proof -
  let ?U = "pc_nRows c" and ?new = "ggm.elems (pc_nRows c) (pc_setSize c) (cipher_of c k) k"
  obtain c1 where c1: "pc_eval c j = Some (c1, ggm.the_set ?U (pc_setSize c) (cipher_of c (pc_sets c ! j)) (pc_sets c ! j))"
    "client_wf db c1" "alike c c1" "pc_idxToSetIdx c1 = pc_idxToSetIdx c"
    using pc_eval_eq [OF wf j] by blast
  have old: "ps_elems (ggm.the_set ?U (pc_setSize c) (cipher_of c (pc_sets c ! j)) (pc_sets c ! j)) = client_set c j"
    by (simp add: evaluated_def client_set_eq)
  have new: "ps_elems (ggm.the_set ?U (pc_setSize c) (cipher_of c k) k) = ?new" by (simp add: evaluated_def)
  have r: "\<forall>e \<in> set (client_set c j). 0 \<le> e \<and> e < int ?U" "\<forall>e \<in> set ?new. 0 \<le> e \<and> e < int ?U"
    using client_set_range [OF wf] ggm.elems_range [OF wf_base [OF wf]] by blast+
  have l: "length (pc_idxToSetIdx c) = ?U" "length (pc_sets c) < 2 ^ 31" using wf by (simp_all add: client_wf_def)
  obtain p1 where p1: "foldM (\<lambda>idx ptrs.
       if idx < int ?U then do {
         s \<leftarrow> at ptrs idx;
         (if s = of_nat j then put ptrs idx (- 1) else Some ptrs)
       } else Some ptrs) (client_set c j) (pc_idxToSetIdx c) = Some p1" "length p1 = ?U"
    "\<forall>x < ?U. p1 ! x = (if int x \<in> set (client_set c j) \<and> pc_idxToSetIdx c ! x = of_nat j then - 1 else pc_idxToSetIdx c ! x)"
    using unpoint_eq [OF r(1) l(1), of "of_nat j"] by blast
  obtain p2 where p2: "point_at (of_nat j) ?new p1 = Some p2" "length p2 = ?U"
    "\<forall>x < ?U. p2 ! x = (if int x \<in> set ?new then of_nat j else p1 ! x)"
    using point_at_eq [OF r(2) p1(2), of "of_nat j"] by blast
  let ?c = "c1\<lparr>pc_sets := (pc_sets c)[j := k], pc_idxToSetIdx := p2\<rparr>"
  have a: "pc_nRows c1 = ?U" "pc_setSize c1 = pc_setSize c" "pc_sets c1 = pc_sets c"
    using c1(3) by (simp_all add: alike_def)
  have "cipher_of ?c = cipher_of c1" by (simp add: cipher_of_def fun_eq_iff)
  then have ciph: "cipher_of ?c = cipher_of c" using alike_cipher [OF c1(3)] by simp
  have sets: "client_set ?c h = (if h = j then ?new else client_set c h)" if "h < length (pc_sets c)" for h
    using that a(1,2) by (simp add: client_set_def ciph)
  have step: "pc_replaceSet c j (ggm.the_set ?U (pc_setSize c) (cipher_of c k) k) = Some ?c"
    using c1(1) p1(1) p2(1) a j unfolding pc_replaceSet_def by (simp add: old new c1(4) wr_in) (simp add: evaluated_def)
  have "sint (p2 ! x) < 0 \<or> (\<exists>h < length (pc_sets c). p2 ! x = of_nat h \<and> int x \<in> set (client_set ?c h))" if x: "x < ?U" for x
  proof (cases "int x \<in> set ?new")
    case True
    then show ?thesis using p2(3) x j sets [OF j] by auto
  next
    case no: False
    show ?thesis
    proof (cases "int x \<in> set (client_set c j) \<and> pc_idxToSetIdx c ! x = of_nat j")
      case True
      then show ?thesis using p1(3) p2(3) x no by simp
    next
      case False
      then have e: "p2 ! x = pc_idxToSetIdx c ! x" using p1(3) p2(3) x no by auto
      show ?thesis
      proof (cases "sint (pc_idxToSetIdx c ! x) < 0")
        case neg: False
        then obtain h where h: "h < length (pc_sets c)" "pc_idxToSetIdx c ! x = of_nat h" "int x \<in> set (client_set c h)"
          using wf_pointer [OF wf x] by auto
        then have "h \<noteq> j" using False by blast
        then show ?thesis using h e sets [OF h(1)] by auto
      qed (simp add: e)
    qed
  qed
  moreover have "\<forall>k' \<in> set ((pc_sets c)[j := k]). key_ok k'"
    using wf k set_update_subset_insert [of "pc_sets c" j k] by (auto simp: client_wf_def)
  ultimately have "client_wf db ?c"
    using c1(2) a(1-3) p2(2) by (simp add: client_wf_def)
  moreover have "alike (c\<lparr>pc_sets := (pc_sets c)[j := k]\<rparr>) ?c" using c1(3) by (simp add: alike_def)
  ultimately show ?thesis using step sets by blast
qed

section \<open>The three cases of a query\<close>

text \<open>What every query needs of the client and of its random source.\<close>

definition sets_varied :: "punc_client \<Rightarrow> bool" where
  "sets_varied c \<longleftrightarrow> (\<forall>j < length (pc_sets c). varied (client_set c j))"

lemma next_ok_alike: "next_ok c \<Longrightarrow> alike c c' \<Longrightarrow> num (pc_setGen c') = num (pc_setGen c) \<Longrightarrow> next_ok c'"
  by (simp add: next_ok_def fresh_id_def alike_def)

lemma the_set_simps: "ps_elems (evaluated ms U S key k) = set_of ms U key k" "ps_key (evaluated ms U S key k) = k"
  by (simp_all add: evaluated_def)

text \<open>The state that a step leaves, in terms of the state before.\<close>

lemma step_sizes: "step_keeps db c c' \<Longrightarrow> client_wf db c' \<and> alike c c' \<and> pc_nRows c' = pc_nRows c \<and> pc_setSize c' = pc_setSize c \<and>
    pc_sets c' = pc_sets c \<and> cipher_of c' = cipher_of c"
  using alike_cipher [of c c'] by (auto simp: step_keeps_def alike_def)

definition asks :: "nat \<Rightarrow> nat \<Rightarrow> punc_query_req \<Rightarrow> u8 list \<Rightarrow> SetKey \<Rightarrow> int \<Rightarrow> bool" where
  "asks U S q key k x \<longleftrightarrow> (\<exists>p. pq_PuncturedSet q = punctured U S key k p \<and> p < S \<and>
     set_of (ggm_members U S) U key k ! p = x) \<and> 0 \<le> pq_ExtraElem q \<and> pq_ExtraElem q < int U"

lemma pc_switch_eq:
  assumes wf: "client_wf db c" and j: "j < length (pc_sets c)" and i: "i \<in> set (client_set c j)" and v: "varied (client_set c j)"
    and nx: "next_ok c" and R: "Intn_ok Intn" "Intn_fair Intn (pc_setSize c)"
  shows "\<exists>c' k qL qR. pc_switch Intn rcase j i (ggm.the_set (pc_nRows c) (pc_setSize c) (cipher_of c (pc_sets c ! j)) (pc_sets c ! j)) c =
      Some (c', qL, qR) \<and> client_wf db c' \<and> varied (ggm.elems (pc_nRows c) (pc_setSize c) (cipher_of c k) k) \<and>
    (if rcase = 0
     then asks (pc_nRows c) (pc_setSize c) qL (cipher_of c k) k i \<and>
       asks (pc_nRows c) (pc_setSize c) qR (cipher_of c (pc_sets c ! j)) (pc_sets c ! j) i \<and>
       alike (c\<lparr>pc_sets := (pc_sets c)[j := k]\<rparr>) c' \<and>
       (\<forall>h < length (pc_sets c). client_set c' h = (if h = j then ggm.elems (pc_nRows c) (pc_setSize c) (cipher_of c k) k else client_set c h))
     else alike c c' \<and> (\<exists>x.
       (if rcase = 1 then asks (pc_nRows c) (pc_setSize c) qL (cipher_of c k) k x \<and> asks (pc_nRows c) (pc_setSize c) qR (cipher_of c k) k i \<and>
          pq_ExtraElem qR = x
        else asks (pc_nRows c) (pc_setSize c) qL (cipher_of c k) k i \<and> asks (pc_nRows c) (pc_setSize c) qR (cipher_of c k) k x \<and>
          pq_ExtraElem qL = x)))"
proof -
  let ?U = "pc_nRows c" and ?S = "pc_setSize c" and ?old = "pc_sets c ! j"
  let ?pset = "ggm.the_set ?U ?S (cipher_of c ?old) ?old"
  have i_range: "0 \<le> i" "i < int ?U" using client_set_range [OF wf i] by auto
  obtain c1 k where c1: "pc_newSet c i = Some (c1, ggm.the_set ?U ?S (cipher_of c k) k)" "step_keeps db c c1" "key_ok k"
    "i \<in> set (ggm.elems ?U ?S (cipher_of c k) k)" "varied (ggm.elems ?U ?S (cipher_of c k) k)"
    using nx pc_newSet_eq [OF wf _ i_range] unfolding next_ok_def by blast
  let ?es = "ggm.elems ?U ?S (cipher_of c k) k" and ?new = "ggm.the_set ?U ?S (cipher_of c k) k"
  note s1 = step_sizes [OF c1(2)]
  have R1: "Intn_fair Intn (pc_setSize c1)" using R(2) s1 by simp
  have len: "length ?es = ?S" "length (client_set c j) = ?S"
    using ggm.length_elems [OF wf_base [OF wf]] length_client_set [OF wf] by simp_all
  have rng: "x \<in> set ?es \<Longrightarrow> 0 \<le> x \<and> x < int ?U" "x \<in> set (client_set c j) \<Longrightarrow> 0 \<le> x \<and> x < int ?U" for x
    using ggm.elems_range [OF wf_base [OF wf]] client_set_range [OF wf] by blast+
  have other: "\<exists>d x. pc_other Intn b ?new y = Some (d, x) \<and> step_keeps db b d \<and> x \<in> set ?es \<and> x \<noteq> y" if b: "step_keeps db c1 b" for b y
  proof -
    note sb = step_sizes [OF b]
    show ?thesis using pc_other_eq [of db b Intn ?new y] sb s1 R R1 len(1) c1(5) by (auto simp: the_set_simps)
  qed
  have punc: "\<exists>d p. pc_punc b ?new x = Some (d, punctured ?U ?S (cipher_of c k) k p) \<and> step_keeps db b d \<and> p < ?S \<and> ?es ! p = x"
    if b: "step_keeps db c1 b" and x: "x \<in> set ?es" for b x
  proof -
    note sb = step_sizes [OF b]
    show ?thesis using pc_punc_eq [of db b "cipher_of c k" x k] sb s1 x wf_cipher [OF wf] by auto
  qed
  obtain c2 x where c2: "pc_other Intn c1 ?new i = Some (c2, x)" "step_keeps db c1 c2" "x \<in> set ?es" "x \<noteq> i"
    using other [of c1 i] s1 by (auto simp: step_keeps_def)
  consider "rcase = 0" | "rcase = 1" | "rcase \<noteq> 0" "rcase \<noteq> 1" by blast
  then show ?thesis
  proof cases
    case 1
    note s2 = step_sizes [OF c2(2)]
    obtain c3 y where c3: "pc_other Intn c2 ?pset i = Some (c3, y)" "step_keeps db c2 c3" "y \<in> set (client_set c j)"
      using pc_other_eq [of db c2 Intn ?pset i] s1 s2 R len(2) v by (auto simp: the_set_simps client_set_eq)
    have k3: "step_keeps db c1 c3" by (rule step_keeps_trans [OF c2(2) c3(2)])
    obtain c4 p where c4: "pc_punc c3 ?new i = Some (c4, punctured ?U ?S (cipher_of c k) k p)" "step_keeps db c3 c4" "p < ?S" "?es ! p = i"
      using punc [OF k3 c1(4)] by blast
    have k4: "step_keeps db c c4" using c1(2) k3 c4(2) step_keeps_trans by blast
    note s4 = step_sizes [OF k4]
    obtain c5 q where c5: "pc_punc c4 ?pset i = Some (c5, punctured ?U ?S (cipher_of c ?old) ?old q)" "step_keeps db c4 c5" "q < ?S" "client_set c j ! q = i"
      using pc_punc_eq [of db c4 "cipher_of c ?old" i ?old] s4 i wf_cipher [OF wf] by (auto simp: client_set_eq)
    have k5: "step_keeps db c c5" by (rule step_keeps_trans [OF k4 c5(2)])
    note s5 = step_sizes [OF k5]
    obtain c6 where c6: "pc_replaceSet c5 j ?new = Some c6" "client_wf db c6" "alike (c5\<lparr>pc_sets := (pc_sets c5)[j := k]\<rparr>) c6"
      "\<forall>h < length (pc_sets c5). client_set c6 h = (if h = j then ?es else client_set c5 h)"
      using pc_replaceSet_eq [of db c5 j k] s5 j c1(3) by auto
    have al: "alike (c\<lparr>pc_sets := (pc_sets c)[j := k]\<rparr>) c6" using c6(3) s5 by (simp add: alike_def)
    have "\<forall>h < length (pc_sets c). client_set c6 h = (if h = j then ?es else client_set c h)"
      using c6(4) s5 alike_set by metis
    then show ?thesis
      using 1 c1 c2 c3 c4 c5 c6 al rng by (intro exI [of _ c6] exI [of _ k] exI) (auto simp: pc_switch_def asks_def client_set_eq)
  next
    case 2
    obtain c3 y where c3: "pc_other Intn c2 ?new x = Some (c3, y)" "step_keeps db c2 c3" "y \<in> set ?es" using other [OF c2(2)] by blast
    have k3: "step_keeps db c1 c3" by (rule step_keeps_trans [OF c2(2) c3(2)])
    obtain c4 p where c4: "pc_punc c3 ?new x = Some (c4, punctured ?U ?S (cipher_of c k) k p)" "step_keeps db c3 c4" "p < ?S" "?es ! p = x"
      using punc [OF k3 c2(3)] by blast
    have k4: "step_keeps db c1 c4" by (rule step_keeps_trans [OF k3 c4(2)])
    obtain c5 q where c5: "pc_punc c4 ?new i = Some (c5, punctured ?U ?S (cipher_of c k) k q)" "step_keeps db c4 c5" "q < ?S" "?es ! q = i"
      using punc [OF k4 c1(4)] by blast
    have "step_keeps db c c5" using c1(2) k4 c5(2) step_keeps_trans by blast
    then show ?thesis
      using 2 c1 c2 c3 c4 c5 rng by (intro exI [of _ c5] exI [of _ k] exI) (auto simp: pc_switch_def asks_def step_keeps_def)
  next
    case 3
    obtain c3 y where c3: "pc_other Intn c2 ?new x = Some (c3, y)" "step_keeps db c2 c3" "y \<in> set ?es" using other [OF c2(2)] by blast
    have k3: "step_keeps db c1 c3" by (rule step_keeps_trans [OF c2(2) c3(2)])
    obtain c4 p where c4: "pc_punc c3 ?new i = Some (c4, punctured ?U ?S (cipher_of c k) k p)" "step_keeps db c3 c4" "p < ?S" "?es ! p = i"
      using punc [OF k3 c1(4)] by blast
    have k4: "step_keeps db c1 c4" by (rule step_keeps_trans [OF k3 c4(2)])
    obtain c5 q where c5: "pc_punc c4 ?new x = Some (c5, punctured ?U ?S (cipher_of c k) k q)" "step_keeps db c4 c5" "q < ?S" "?es ! q = x"
      using punc [OF k4 c2(3)] by blast
    have "step_keeps db c c5" using c1(2) k4 c5(2) step_keeps_trans by blast
    then show ?thesis
      using 3 c1 c2 c3 c4 c5 rng by (intro exI [of _ c5] exI [of _ k] exI) (auto simp: pc_switch_def asks_def step_keeps_def)
  qed
qed

section \<open>The answers and the reconstruction\<close>

text \<open>What a server answers to a request for the set of key \<open>k\<close> without index \<open>x\<close>: a parity, and a row.\<close>

definition answers_for :: "u8 list \<Rightarrow> nat \<Rightarrow> int list \<Rightarrow> int \<Rightarrow> int \<Rightarrow> punc_query_resp \<Rightarrow> bool" where
  "answers_for db n es x e r \<longleftrightarrow> length (pq_Answer r) = n \<and>
     map2 (XOR) (parity_of db n es) (pq_Answer r) = row db (nat x * n) n \<and> pq_Extra r = row db (nat e * n) n"

context gather_kernel
begin

lemma query_answered:
  assumes sz: "punc_sizes (FlatDb db) (RowLen db) U S" and ws: "scratch_ok S ws" and q: "asks U S q key k x" and g: "ggm_ok U S g"
    and al: "\<And>e. RowLen db dvd unat e \<Longrightarrow> ok (RowLen db) e"
  shows "\<exists>r. punc_query_process gather ws q db = Some r \<and>
    answers_for (FlatDb db) (RowLen db) (set_of (ggm_members U S) U key k) x (pq_ExtraElem q) r"
proof -
  let ?n = "RowLen db" and ?db = "FlatDb db" and ?es = "set_of (ggm_members U S) U key k" and ?e = "pq_ExtraElem q"
  obtain p where p: "pq_PuncturedSet q = punctured U S key k p" "p < S" "?es ! p = x" and e: "0 \<le> ?e" "?e < int U"
    using q unfolding asks_def by blast
  have es: "in_db ?db ?n ?es" "length ?es = S"
    using ggm.elems_range [OF g] ggm.length_elems [OF g] sz by (auto simp: punc_sizes_def intro: in_db_range)
  obtain m where m: "?e = int m" using nonneg_int_cases [OF e(1)] by blast
  then have "m < U" "U * ?n \<le> length ?db" using e sz by (auto simp: punc_sizes_def)
  from row_end [OF this] have b: "m * ?n + ?n \<le> length ?db" .
  have lo: "int ?n * ?e = int (m * ?n)" by (simp add: m)
  have a: "FastAnswer gather ws (ggm_cut U S (base_seed key (sk_id k)) p) p U (S - 1) (unat (sk_shift k)) ?db ?n (zeros ?n) =
      Some (parity_of ?db ?n (without p ?es))" by (rule FastAnswer_parity [OF sz ws p(2) al])
  have "int (m * ?n + ?n) \<le> int (length ?db)" using b by (simp only: of_nat_le_iff)
  then have "0 \<le> int ?n * ?e \<and> int ?n * ?e + int ?n \<le> int (length ?db)" "nat (int ?n * ?e) = nat ?e * ?n"
    unfolding lo by (simp_all only: of_nat_add) (simp_all add: m del: of_nat_mult)
  then have "punc_query_process gather ws q db =
      Some \<lparr>pq_Answer = parity_of ?db ?n (without p ?es), pq_Extra = row ?db (nat ?e * ?n) ?n\<rparr>"
    using a by (simp add: punc_query_process_def p(1) punctured_def row_def Let_def)
  moreover have "length (parity_of ?db ?n (without p ?es)) = ?n" by (intro length_parity_of in_db_without es)
  ultimately show ?thesis using parity_of_without [OF es(1), of p] es(2) p(2,3) by (simp add: answers_for_def)
qed

end

lemma xorInto_eq: "length a = length b \<Longrightarrow> xorInto a b = Some (map2 (XOR) a b)"
  by (simp add: xorInto_def)

text \<open>Case 0: the stored parity and the right answer give the row, the left answer and the row the new parity.\<close>

lemma pc_reconstruct_replace:
  assumes j: "j < length (pc_hints c)" and n: "length (pc_hints c ! 0) = n" and h: "pc_hints c ! j = parity_of db n old"
    and es: "in_db db n old" "in_db db n new"
    and a: "answers_for db n new i e aL" "answers_for db n old i e' aR"
  shows "pc_reconstruct c \<lparr>randCase = 0, setIdx = int j\<rparr> [aL, aR] =
    Some (c\<lparr>pc_hints := (pc_hints c)[j := parity_of db n new]\<rparr>, Inr (row db (nat i * n) n))"
proof -
  let ?h = "parity_of db n old" and ?h' = "parity_of db n new" and ?L = "pq_Answer aL" and ?R = "pq_Answer aR" and ?r = "row db (nat i * n) n"
  have l: "length ?h = n" "length ?h' = n" "length ?L = n" "length ?R = n"
    using a es by (simp_all add: answers_for_def length_parity_of)
  have r: "map2 (XOR) ?h ?R = ?r" "map2 (XOR) ?h' ?L = ?r" using a by (simp_all add: answers_for_def)
  have lr: "length ?r = n" unfolding r(1) [symmetric] using l by simp
  have "map2 (XOR) (map2 (XOR) (map2 (XOR) ?h ?h) ?L) ?r = ?h'"
    unfolding r(2) [symmetric] using l by (intro nth_equalityI) (simp_all add: xor.assoc xor.left_commute xor.commute)
  moreover have "map2 (XOR) (map2 (XOR) (zeros n) ?h) ?R = ?r"
    using l(1) r(1) by (simp add: zeros_def map2_xor_0)
  moreover have "0 < length (pc_hints c)" by (rule le_less_trans [OF le0 j])
  ultimately show ?thesis
    using j n h l lr by (simp add: pc_reconstruct_def rd_in wr_in xorInto_eq Let_def del: map_map)
qed

text \<open>Cases 1 and 2: both answers are about the new set, and the extra row is the one that they differ in.\<close>

lemma two_answers:
  assumes "in_db db n es" "answers_for db n es x e a" "answers_for db n es i e' b"
  shows "map2 (XOR) (map2 (XOR) (map2 (XOR) (map2 (XOR) (zeros n) (zeros n)) (pq_Answer a)) (pq_Answer b)) (row db (nat x * n) n) =
      row db (nat i * n) n"
    and "map2 (XOR) (map2 (XOR) (map2 (XOR) (map2 (XOR) (zeros n) (zeros n)) (pq_Answer b)) (pq_Answer a)) (row db (nat x * n) n) =
      row db (nat i * n) n"
    and "length (row db (nat x * n) n) = n"
proof -
  let ?h = "parity_of db n es"
  have l: "length ?h = n" "length (pq_Answer a) = n" "length (pq_Answer b) = n"
    using assms by (simp_all add: answers_for_def length_parity_of)
  have r: "row db (nat x * n) n = map2 (XOR) ?h (pq_Answer a)" "row db (nat i * n) n = map2 (XOR) ?h (pq_Answer b)"
    using assms by (simp_all add: answers_for_def)
  show "length (row db (nat x * n) n) = n" unfolding r(1) using l by simp
  have z: "map2 (XOR) (zeros n) (zeros n) = (zeros n :: u8 list)" by (simp add: zeros_def map2_xor_0)
  show "map2 (XOR) (map2 (XOR) (map2 (XOR) (map2 (XOR) (zeros n) (zeros n)) (pq_Answer a)) (pq_Answer b)) (row db (nat x * n) n) =
      row db (nat i * n) n"
    unfolding r z zeros_def using l by (intro nth_equalityI) (simp_all add: xor.assoc xor.left_commute xor.commute map2_xor_0)
  show "map2 (XOR) (map2 (XOR) (map2 (XOR) (map2 (XOR) (zeros n) (zeros n)) (pq_Answer b)) (pq_Answer a)) (row db (nat x * n) n) =
      row db (nat i * n) n"
    unfolding r z zeros_def using l by (intro nth_equalityI) (simp_all add: xor.assoc xor.left_commute xor.commute map2_xor_0)
qed

lemma pc_reconstruct_new:
  assumes c: "pc_hints c \<noteq> []" "length (pc_hints c ! 0) = n" and es: "in_db db n es"
    and a: "rcase = 1 \<and> answers_for db n es x e aL \<and> answers_for db n es i x aR \<or>
      rcase = 2 \<and> answers_for db n es i x aL \<and> answers_for db n es x e aR"
  shows "pc_reconstruct c \<lparr>randCase = rcase, setIdx = int j\<rparr> [aL, aR] = Some (c, Inr (row db (nat i * n) n))"
proof -
  have z: "length (zeros n :: u8 list) = n" by simp
  from a show ?thesis
  proof (elim disjE conjE)
    assume r: "rcase = 1" and L: "answers_for db n es x e aL" and R: "answers_for db n es i x aR"
    have "length (pq_Answer aL) = n" "length (pq_Answer aR) = n" "pq_Extra aR = row db (nat x * n) n"
      using L R by (simp_all add: answers_for_def)
    then show ?thesis
      using c two_answers [OF es L R] r by (simp add: pc_reconstruct_def rd_in xorInto_eq Let_def del: map_map)
  next
    assume r: "rcase = 2" and L: "answers_for db n es i x aL" and R: "answers_for db n es x e aR"
    have "length (pq_Answer aL) = n" "length (pq_Answer aR) = n" "pq_Extra aL = row db (nat x * n) n"
      using L R by (simp_all add: answers_for_def)
    then show ?thesis
      using c two_answers [OF es R L] r by (simp add: pc_reconstruct_def rd_in xorInto_eq Let_def del: map_map)
  qed
qed

section \<open>A query round\<close>

lemma punc_ok_alike:
  assumes "punc_ok db c" "client_wf db c'" "alike c c'"
  shows "punc_ok db c'" "sets_varied c \<Longrightarrow> sets_varied c'"
  using assms alike_set [OF assms(3)] alike_hint [OF assms(3)] by (simp_all add: punc_ok_def sets_varied_def alike_def)

lemma sample_eq: "0 < n \<Longrightarrow> \<exists>src' r. sample Intn src a b n = Some (src', r) \<and> (r = 0 \<or> r = 1 \<or> r = 2)"
  by (auto simp: sample_def Intn_next_def)

lemma client_wf_src: "client_wf db (c\<lparr>pc_randSource := s\<rparr>) \<longleftrightarrow> client_wf db c" "alike c (c\<lparr>pc_randSource := s\<rparr>)"
  "client_set (c\<lparr>pc_randSource := s\<rparr>) j = client_set c j" "next_ok (c\<lparr>pc_randSource := s\<rparr>) \<longleftrightarrow> next_ok c"
  "cipher_of (c\<lparr>pc_randSource := s\<rparr>) k = cipher_of c k"
  by (simp_all add: client_wf_def alike_def client_set_def cipher_of_def next_ok_def fresh_id_def)

text \<open>The two requests of a query for index \<open>i\<close>, and the client that waits for the answers.\<close>

definition query_shape :: "punc_client \<Rightarrow> int \<Rightarrow> punc_client \<Rightarrow> punc_query_req \<Rightarrow> punc_query_req \<Rightarrow> punc_ctx \<Rightarrow> bool" where
  "query_shape c i c' qL qR ctx \<longleftrightarrow> (\<exists>j k. j < length (pc_sets c) \<and> i \<in> set (client_set c j) \<and> setIdx ctx = int j \<and>
     varied (set_of (ggm_members (pc_nRows c) (pc_setSize c)) (pc_nRows c) (cipher_of c k) k) \<and>
     (randCase ctx = 0 \<and> asks (pc_nRows c) (pc_setSize c) qL (cipher_of c k) k i \<and>
        asks (pc_nRows c) (pc_setSize c) qR (cipher_of c (pc_sets c ! j)) (pc_sets c ! j) i \<and>
        pc_hints c' = pc_hints c \<and> pc_sets c' = (pc_sets c)[j := k] \<and> same_size c c' \<and>
        (\<forall>h < length (pc_sets c). client_set c' h =
          (if h = j then set_of (ggm_members (pc_nRows c) (pc_setSize c)) (pc_nRows c) (cipher_of c k) k else client_set c h)) \<or>
      alike c c' \<and> (\<exists>x.
        randCase ctx = 1 \<and> asks (pc_nRows c) (pc_setSize c) qL (cipher_of c k) k x \<and>
          asks (pc_nRows c) (pc_setSize c) qR (cipher_of c k) k i \<and> pq_ExtraElem qR = x \<or>
        randCase ctx = 2 \<and> asks (pc_nRows c) (pc_setSize c) qL (cipher_of c k) k i \<and>
          asks (pc_nRows c) (pc_setSize c) qR (cipher_of c k) k x \<and> pq_ExtraElem qL = x)))"

lemma pc_Query_eq:
  assumes wf: "client_wf db c" and v: "sets_varied c" and nx: "next_ok c"
    and R: "Intn_ok Intn" "Intn_fair Intn (pc_setSize c)" and i: "0 \<le> i" "i < int (pc_nRows c)"
  shows "\<exists>c' q. pc_Query Intn c i = Some (c', q) \<and> client_wf db c' \<and>
    (case q of None \<Rightarrow> alike c c' \<and> (\<forall>h < length (pc_sets c). i \<notin> set (client_set c h))
     | Some (qL, qR, ctx) \<Rightarrow> query_shape c i c' qL qR ctx)"
proof -
  let ?U = "pc_nRows c" and ?S = "pc_setSize c"
  have hs: "pc_hints c \<noteq> []" "0 < ?U" using wf by (auto simp: client_wf_def punc_sizes_def)
  obtain c1 t where c1: "pc_findIndex c i = Some (c1, t)" "client_wf db c1" "alike c c1" "num (pc_setGen c1) = num (pc_setGen c)"
    and t: "t = -1 \<and> (\<forall>h < length (pc_sets c). i \<notin> set (client_set c h)) \<or>
      (\<exists>h < length (pc_sets c). t = int h \<and> i \<in> set (client_set c h))"
    using pc_findIndex_eq [OF wf i] by blast
  show ?thesis
  proof (cases "t = -1")
    case True
    then show ?thesis using t hs(1) c1 by (auto simp: pc_Query_def)
  next
    case False
    then obtain j where j: "j < length (pc_sets c)" "t = int j" "i \<in> set (client_set c j)" using t by auto
    have e1: "pc_sets c1 = pc_sets c" "pc_nRows c1 = ?U" "pc_setSize c1 = ?S" using c1(3) by (simp_all add: alike_def)
    then obtain c2 where c2: "pc_eval c1 j = Some (c2, ggm.the_set ?U ?S (cipher_of c (pc_sets c ! j)) (pc_sets c ! j))"
      "client_wf db c2" "alike c1 c2" "num (pc_setGen c2) = num (pc_setGen c1)"
      using pc_eval_eq [OF c1(2), of j] j(1) alike_cipher [OF c1(3)] by auto
    obtain src rcase where sm: "sample Intn (pc_randSource c2) (?S - 1) (?S - 1) ?U = Some (src, rcase)" "rcase = 0 \<or> rcase = 1 \<or> rcase = 2"
      using sample_eq [OF hs(2)] by blast
    have a12: "alike c c2" by (rule alike_trans [OF c1(3) c2(3)])
    let ?c = "c2\<lparr>pc_randSource := src\<rparr>"
    have a: "alike c ?c" using a12 client_wf_src(2) alike_trans by blast
    have e2: "pc_sets ?c = pc_sets c" "pc_nRows ?c = ?U" "pc_setSize ?c = ?S" "cipher_of ?c = cipher_of c" "client_set ?c = client_set c"
      "pc_hints ?c = pc_hints c" "pc_RowLen ?c = pc_RowLen c"
      using a alike_cipher [OF a] alike_set [OF a] by (simp_all add: alike_def fun_eq_iff)
    have wf2: "client_wf db ?c" using c2(2) by (simp add: client_wf_src)
    have nx2: "next_ok ?c" using next_ok_alike [OF nx a12] c1(4) c2(4) by (simp add: client_wf_src)
    have vj: "varied (client_set c j)" using v j(1) by (simp add: sets_varied_def)
    obtain c' k qL qR where sw: "pc_switch Intn rcase j i (ggm.the_set ?U ?S (cipher_of c (pc_sets c ! j)) (pc_sets c ! j)) ?c =
        Some (c', qL, qR)" "client_wf db c'" "varied (ggm.elems ?U ?S (cipher_of c k) k)"
      and cases: "if rcase = 0
       then asks ?U ?S qL (cipher_of c k) k i \<and> asks ?U ?S qR (cipher_of c (pc_sets c ! j)) (pc_sets c ! j) i \<and>
         alike (?c\<lparr>pc_sets := (pc_sets c)[j := k]\<rparr>) c' \<and>
         (\<forall>h < length (pc_sets c). client_set c' h = (if h = j then ggm.elems ?U ?S (cipher_of c k) k else client_set c h))
       else alike ?c c' \<and> (\<exists>x.
         (if rcase = 1 then asks ?U ?S qL (cipher_of c k) k x \<and> asks ?U ?S qR (cipher_of c k) k i \<and> pq_ExtraElem qR = x
          else asks ?U ?S qL (cipher_of c k) k i \<and> asks ?U ?S qR (cipher_of c k) k x \<and> pq_ExtraElem qL = x))"
      using pc_switch_eq [OF wf2, of j i Intn rcase] j(1,3) vj nx2 R unfolding e2 by blast
    have Q: "pc_Query Intn c i = Some (c', Some (qL, qR, \<lparr>randCase = rcase, setIdx = int j\<rparr>))"
      using hs c1(1) j(2) i MathMod_eq [of "int ?U" i] e1 c2(1) sm(1) sw(1) e2 by (simp add: pc_Query_def Suc_le_eq)
    have "query_shape c i c' qL qR \<lparr>randCase = rcase, setIdx = int j\<rparr>"
      unfolding query_shape_def
    proof (intro exI conjI)
      show "randCase \<lparr>randCase = rcase, setIdx = int j\<rparr> = 0 \<and> asks ?U ?S qL (cipher_of c k) k i \<and>
          asks ?U ?S qR (cipher_of c (pc_sets c ! j)) (pc_sets c ! j) i \<and>
          pc_hints c' = pc_hints c \<and> pc_sets c' = (pc_sets c)[j := k] \<and> same_size c c' \<and>
          (\<forall>h < length (pc_sets c). client_set c' h = (if h = j then set_of (ggm_members ?U ?S) ?U (cipher_of c k) k else client_set c h)) \<or>
        alike c c' \<and> (\<exists>x.
          randCase \<lparr>randCase = rcase, setIdx = int j\<rparr> = 1 \<and> asks ?U ?S qL (cipher_of c k) k x \<and>
            asks ?U ?S qR (cipher_of c k) k i \<and> pq_ExtraElem qR = x \<or>
          randCase \<lparr>randCase = rcase, setIdx = int j\<rparr> = 2 \<and> asks ?U ?S qL (cipher_of c k) k i \<and>
            asks ?U ?S qR (cipher_of c k) k x \<and> pq_ExtraElem qL = x)"
        using cases sm(2) alike_trans [OF a] e2(2,3,6,7) by (cases "rcase = 0") (auto simp: alike_def same_size_def)
    qed (use j sw(3) in simp_all)
    then show ?thesis using Q sw(2) by simp
  qed
qed

context gather_kernel
begin

text \<open>The rest of the round, once the requests are known.\<close>

lemma punc_answered:
  assumes c: "punc_ok (FlatDb db) c" "RowLen db = pc_RowLen c" "sets_varied c" and c': "client_wf (FlatDb db) c'"
    and q: "query_shape c i c' qL qR ctx" and ws: "scratch_ok (pc_setSize c) wsL" "scratch_ok (pc_setSize c) wsR"
    and al: "\<And>e. RowLen db dvd unat e \<Longrightarrow> ok (RowLen db) e"
  shows "\<exists>aL aR d. punc_query_process gather wsL qL db = Some aL \<and> punc_query_process gather wsR qR db = Some aR \<and>
    pc_reconstruct c' ctx [aL, aR] = Some (d, Inr (row (FlatDb db) (nat i * RowLen db) (RowLen db))) \<and>
    punc_ok (FlatDb db) d \<and> sets_varied d \<and> same_size c d"
proof -
  let ?U = "pc_nRows c" and ?S = "pc_setSize c" and ?db = "FlatDb db" and ?n = "RowLen db"
  have wf: "client_wf ?db c" using c(1) by (simp add: punc_ok_def)
  have sz: "punc_sizes ?db ?n ?U ?S" using wf c(2) by (simp add: client_wf_def)
  have hs: "pc_hints c \<noteq> []" "length (pc_hints c) = length (pc_sets c)" using wf by (auto simp: client_wf_def)
  have g: "ggm_ok ?U ?S (baseGen (pc_setGen c))" by (rule wf_base [OF wf])
  have ans: "\<exists>r. punc_query_process gather ws q db = Some r \<and>
      answers_for ?db ?n (set_of (ggm_members ?U ?S) ?U key kk) x (pq_ExtraElem q) r"
    if "asks ?U ?S q key kk x" "scratch_ok ?S ws" for q key kk x ws
    by (rule query_answered [OF sz that(2,1) g al])
  obtain j k where j: "j < length (pc_sets c)" "setIdx ctx = int j" and v: "varied (ggm.elems ?U ?S (cipher_of c k) k)"
    and cases: "randCase ctx = 0 \<and> asks ?U ?S qL (cipher_of c k) k i \<and> asks ?U ?S qR (cipher_of c (pc_sets c ! j)) (pc_sets c ! j) i \<and>
        pc_hints c' = pc_hints c \<and> pc_sets c' = (pc_sets c)[j := k] \<and> same_size c c' \<and>
        (\<forall>h < length (pc_sets c). client_set c' h = (if h = j then ggm.elems ?U ?S (cipher_of c k) k else client_set c h)) \<or>
      alike c c' \<and> (\<exists>x.
        randCase ctx = 1 \<and> asks ?U ?S qL (cipher_of c k) k x \<and> asks ?U ?S qR (cipher_of c k) k i \<and> pq_ExtraElem qR = x \<or>
        randCase ctx = 2 \<and> asks ?U ?S qL (cipher_of c k) k i \<and> asks ?U ?S qR (cipher_of c k) k x \<and> pq_ExtraElem qL = x)"
    using q unfolding query_shape_def by blast
  let ?es = "ggm.elems ?U ?S (cipher_of c k) k" and ?old = "client_set c j"
  have dbs: "in_db ?db ?n ?es" "in_db ?db ?n ?old"
    using ggm.elems_range [OF g] sz client_set_in_db [OF wf, of j] c(2) by (auto simp: punc_sizes_def intro: in_db_range)
  have hint: "pc_hints c ! h = parity_of ?db ?n (client_set c h)" "length (pc_hints c ! h) = ?n" if "h < length (pc_sets c)" for h
    using c(1,2) that length_parity_of [OF client_set_in_db [OF wf, of h]] by (auto simp: punc_ok_def hint_ok_def)
  have l0: "length (pc_hints c ! 0) = ?n" using hint(2) [OF le_less_trans [OF le0 j(1)]] .
  have ctx: "ctx = \<lparr>randCase = randCase ctx, setIdx = int j\<rparr>" using j(2) by simp
  from cases show ?thesis
  proof (elim disjE conjE exE)
    assume r: "randCase ctx = 0" and A: "asks ?U ?S qL (cipher_of c k) k i" "asks ?U ?S qR (cipher_of c (pc_sets c ! j)) (pc_sets c ! j) i"
      and h': "pc_hints c' = pc_hints c" "pc_sets c' = (pc_sets c)[j := k]" "same_size c c'"
      and sets: "\<forall>h < length (pc_sets c). client_set c' h = (if h = j then ?es else client_set c h)"
    obtain aL where aL: "punc_query_process gather wsL qL db = Some aL" "answers_for ?db ?n ?es i (pq_ExtraElem qL) aL"
      using ans [OF A(1) ws(1)] by blast
    obtain aR where aR: "punc_query_process gather wsR qR db = Some aR" "answers_for ?db ?n ?old i (pq_ExtraElem qR) aR"
      using ans [OF A(2) ws(2)] unfolding client_set_eq by blast
    let ?d = "c'\<lparr>pc_hints := (pc_hints c')[j := parity_of ?db ?n ?es]\<rparr>"
    have rec: "pc_reconstruct c' ctx [aL, aR] = Some (?d, Inr (row ?db (nat i * ?n) ?n))"
      using pc_reconstruct_replace [OF _ _ _ dbs(2,1) aL(2) aR(2), of j c'] j(1) hs(2) l0 hint(1) [OF j(1)] h'(1) ctx r by simp
    have "client_wf ?db ?d" using c' unfolding client_wf_def client_set_hints by simp
    moreover have "hint_ok ?db ?d h" if "h < length (pc_sets c)" for h
      using that sets hint(1) [OF that] h' hs(2) c(2) by (simp add: hint_ok_def nth_list_update same_size_def)
    ultimately have "punc_ok ?db ?d" using h' by (simp add: punc_ok_def)
    moreover have "sets_varied ?d" using c(3) sets v h'(2) by (simp add: sets_varied_def)
    moreover have "same_size c ?d" using h'(3) by (simp add: same_size_def)
    ultimately show ?thesis using aL(1) aR(1) rec by blast
  next
    fix x
    assume a: "alike c c'" and A: "asks ?U ?S qL (cipher_of c k) k x" "asks ?U ?S qR (cipher_of c k) k i" "pq_ExtraElem qR = x"
      and r: "randCase ctx = 1"
    obtain aL where aL: "punc_query_process gather wsL qL db = Some aL" "answers_for ?db ?n ?es x (pq_ExtraElem qL) aL"
      using ans [OF A(1) ws(1)] by blast
    obtain aR where aR: "punc_query_process gather wsR qR db = Some aR" "answers_for ?db ?n ?es i x aR"
      using ans [OF A(2) ws(2)] A(3) by blast
    have "pc_hints c' \<noteq> []" "length (pc_hints c' ! 0) = ?n" using hs(1) l0 a by (simp_all add: alike_def)
    then have "pc_reconstruct c' ctx [aL, aR] = Some (c', Inr (row ?db (nat i * ?n) ?n))"
      by (subst ctx, intro pc_reconstruct_new [OF _ _ dbs(1)]) (use r aL(2) aR(2) in blast)+
    then show ?thesis using aL(1) aR(1) punc_ok_alike [OF c(1) c' a] alike_size [OF a] c(3) by blast
  next
    fix x
    assume a: "alike c c'" and A: "asks ?U ?S qL (cipher_of c k) k i" "asks ?U ?S qR (cipher_of c k) k x" "pq_ExtraElem qL = x"
      and r: "randCase ctx = 2"
    obtain aL where aL: "punc_query_process gather wsL qL db = Some aL" "answers_for ?db ?n ?es i x aL"
      using ans [OF A(1) ws(1)] A(3) by blast
    obtain aR where aR: "punc_query_process gather wsR qR db = Some aR" "answers_for ?db ?n ?es x (pq_ExtraElem qR) aR"
      using ans [OF A(2) ws(2)] by blast
    have "pc_hints c' \<noteq> []" "length (pc_hints c' ! 0) = ?n" using hs(1) l0 a by (simp_all add: alike_def)
    then have "pc_reconstruct c' ctx [aL, aR] = Some (c', Inr (row ?db (nat i * ?n) ?n))"
      by (subst ctx, intro pc_reconstruct_new [OF _ _ dbs(1)]) (use r aL(2) aR(2) in blast)+
    then show ?thesis using aL(1) aR(1) punc_ok_alike [OF c(1) c' a] alike_size [OF a] c(3) by blast
  qed
qed

lemma punc_round_eq:
  assumes c: "punc_ok (FlatDb db) c" "RowLen db = pc_RowLen c" "sets_varied c" "next_ok c"
    and R: "Intn_ok Intn" "Intn_fair Intn (pc_setSize c)" and i: "0 \<le> i" "i < int (pc_nRows c)"
    and ws: "scratch_ok (pc_setSize c) wsL" "scratch_ok (pc_setSize c) wsR"
    and al: "\<And>e. RowLen db dvd unat e \<Longrightarrow> ok (RowLen db) e"
  shows "\<exists>c' r. punc_round gather Intn wsL wsR db db c i = Some (c', r) \<and> punc_ok (FlatDb db) c' \<and> sets_varied c' \<and> same_size c c' \<and>
    r = (if \<exists>j < length (pc_sets c). i \<in> set (client_set c j) then Some (Inr (row (FlatDb db) (nat i * RowLen db) (RowLen db))) else None)"
proof -
  have wf: "client_wf (FlatDb db) c" using c(1) by (simp add: punc_ok_def)
  obtain c' q where Q: "pc_Query Intn c i = Some (c', q)" "client_wf (FlatDb db) c'"
    and q: "case q of None \<Rightarrow> alike c c' \<and> (\<forall>h < length (pc_sets c). i \<notin> set (client_set c h))
     | Some (qL, qR, ctx) \<Rightarrow> query_shape c i c' qL qR ctx"
    using pc_Query_eq [OF wf c(3,4) R i] by blast
  show ?thesis
  proof (cases q)
    case None
    then show ?thesis using q Q punc_ok_alike [OF c(1) Q(2)] alike_size c(3) by (auto simp: punc_round_def)
  next
    case (Some t)
    then obtain qL qR ctx where t: "q = Some (qL, qR, ctx)" "query_shape c i c' qL qR ctx" using q by (cases t) auto
    have "\<exists>j < length (pc_sets c). i \<in> set (client_set c j)" using t(2) by (auto simp: query_shape_def)
    then show ?thesis
      using Q(1) t(1) punc_answered [OF c(1-3) Q(2) t(2) ws al] by (auto simp: punc_round_def pc_closure_def)
  qed
qed

end

section \<open>Sessions\<close>

text \<open>A query round in both builds of the kernels.\<close>

lemma punc_round_builds:
  assumes "gather = xor_rows_sse \<or> gather = xor_rows_avx2 base \<and> rows_aligned base (RowLen db)"
    and "punc_ok (FlatDb db) c" "RowLen db = pc_RowLen c" "sets_varied c" "next_ok c"
    and "Intn_ok Intn" "Intn_fair Intn (pc_setSize c)" "0 \<le> i" "i < int (pc_nRows c)"
    and "scratch_ok (pc_setSize c) wsL" "scratch_ok (pc_setSize c) wsR"
  shows "\<exists>c' r. punc_round gather Intn wsL wsR db db c i = Some (c', r) \<and> punc_ok (FlatDb db) c' \<and> sets_varied c' \<and> same_size c c' \<and>
    r = (if \<exists>j < length (pc_sets c). i \<in> set (client_set c j) then Some (Inr (row (FlatDb db) (nat i * RowLen db) (RowLen db))) else None)"
  using assms(1)
proof (elim disjE conjE)
  assume "gather = xor_rows_sse"
  then show ?thesis using sse.punc_round_eq [OF assms(2-11)] by simp
next
  assume g: "gather = xor_rows_avx2 base" "rows_aligned base (RowLen db)"
  show ?thesis unfolding g(1)
    by (rule avx2.punc_round_eq [OF assms(2-11)]) (use aligned_rows g(2) in \<open>auto simp: rows_aligned_def\<close>)
qed

text \<open>
  The states of a client after any queries, each with any work space contents, on an unchanged database. A query needs a
  counter for its new set (\<open>next_ok\<close>): they run out after \<open>2 ^ 32\<close> sets.
\<close>

inductive punc_session :: "gather_kernel_fn \<Rightarrow> (nat \<Rightarrow> nat \<Rightarrow> nat) \<Rightarrow> static_db \<Rightarrow> punc_client \<Rightarrow> punc_client \<Rightarrow> bool"
  for gather Intn db c0 where
  start: "punc_session gather Intn db c0 c0"
| query: "punc_session gather Intn db c0 c \<Longrightarrow> next_ok c \<Longrightarrow> 0 \<le> i \<Longrightarrow> i < int (pc_nRows c) \<Longrightarrow>
    scratch_ok (pc_setSize c) wsL \<Longrightarrow> scratch_ok (pc_setSize c) wsR \<Longrightarrow>
    punc_round gather Intn wsL wsR db db c i = Some (c', r) \<Longrightarrow> punc_session gather Intn db c0 c'"

lemma punc_session_inv:
  assumes "punc_session gather Intn db c0 c"
    and "gather = xor_rows_sse \<or> gather = xor_rows_avx2 base \<and> rows_aligned base (RowLen db)"
    and "punc_ok (FlatDb db) c0" "RowLen db = pc_RowLen c0" "sets_varied c0" "Intn_ok Intn" "Intn_fair Intn (pc_setSize c0)"
  shows "punc_ok (FlatDb db) c \<and> sets_varied c \<and> same_size c0 c"
  using assms(1)
proof induction
  case start
  show ?case using assms by (simp add: same_size_def)
next
  case (query c i wsL wsR c' r)
  then have c: "punc_ok (FlatDb db) c" "RowLen db = pc_RowLen c" "sets_varied c" "Intn_fair Intn (pc_setSize c)" "same_size c0 c"
    using assms(4,7) by (simp_all add: same_size_def)
  obtain d r' where d: "punc_round gather Intn wsL wsR db db c i = Some (d, r')" "punc_ok (FlatDb db) d" "sets_varied d" "same_size c d"
    using punc_round_builds [OF assms(2) c(1-3) query.hyps(2) assms(6) c(4) query.hyps(3-6)] by blast
  then show ?case using query.hyps(7) c(5) by (simp add: same_size_def)
qed

section \<open>Sets with one member\<close>

lemma other_loops: "\<forall>v \<in> set (ps_elems p). v = i \<Longrightarrow> pc_other Intn c p i = None"
  by (simp add: pc_other_def randomMemberExcept_loops)

lemma one_member: "length es = 1 \<Longrightarrow> i \<in> set es \<Longrightarrow> \<forall>v \<in> set es. v = i"
  by (cases es) auto

text \<open>
  With sets of one member every coin gives case 0, and the search for another member of the new set never ends.
\<close>

lemma pc_Query_one:
  assumes wf: "client_wf db c" and S: "pc_setSize c = 1" and nx: "fresh_id c n" and i: "0 \<le> i" "i < int (pc_nRows c)"
    and j: "j < length (pc_sets c)" "i \<in> set (client_set c j)"
  shows "pc_Query Intn c i = None"
proof -
  have hs: "pc_hints c \<noteq> []" "0 < pc_nRows c" using wf by (auto simp: client_wf_def punc_sizes_def)
  obtain c1 h where c1: "pc_findIndex c i = Some (c1, int h)" "client_wf db c1" "alike c c1" "num (pc_setGen c1) = num (pc_setGen c)"
      "h < length (pc_sets c)"
    using pc_findIndex_eq [OF wf i] j by blast
  have e1: "pc_sets c1 = pc_sets c" "pc_nRows c1 = pc_nRows c" "pc_setSize c1 = 1" using c1(3) S by (simp_all add: alike_def)
  then obtain c2 p where c2: "pc_eval c1 h = Some (c2, p)" "client_wf db c2" "alike c1 c2" "num (pc_setGen c2) = num (pc_setGen c1)"
    using pc_eval_eq [OF c1(2), of h] c1(5) by auto
  have a: "alike c c2" by (rule alike_trans [OF c1(3) c2(3)])
  have e2: "pc_nRows c2 = pc_nRows c" "pc_setSize c2 = 1" using a S by (simp_all add: alike_def)
  let ?c = "c2\<lparr>pc_randSource := Suc (pc_randSource c2)\<rparr>"
  have nx2: "fresh_id ?c n" using nx a c1(4) c2(4) by (simp add: fresh_id_def alike_def)
  have wf2: "client_wf db ?c" using c2(2) by (simp add: client_wf_src)
  obtain c3 k where c3: "pc_newSet ?c i = Some (c3, ggm.the_set (pc_nRows ?c) (pc_setSize ?c) (cipher_of ?c k) k)"
      "i \<in> set (ggm.elems (pc_nRows ?c) (pc_setSize ?c) (cipher_of ?c k) k)"
    using pc_newSet_eq [OF wf2 nx2 i(1)] i(2) e2(1) by auto
  have "length (ggm.elems (pc_nRows ?c) (pc_setSize ?c) (cipher_of ?c k) k) = 1"
    using ggm.length_elems [OF wf_base [OF wf2]] e2(2) by simp
  then have "pc_other Intn c3 (ggm.the_set (pc_nRows ?c) (pc_setSize ?c) (cipher_of ?c k) k) i = None"
    using one_member c3(2) by (intro other_loops) (simp add: the_set_simps)
  then have "pc_switch Intn 0 h i p ?c = None" using c3(1) by (simp add: pc_switch_def)
  then show ?thesis
    using hs c1(1) i MathMod_eq [of "int (pc_nRows c)" i] e1 e2 c2(1) by (simp add: pc_Query_def Suc_le_eq sample_def Intn_next_def)
qed

section \<open>An example\<close>

text \<open>A client of four rows of one byte with one hint: the parity of rows 1 and 3.\<close>

definition demo_client :: punc_client where
  "demo_client = (let b = \<lparr>univ_size = 4, set_size = 2, keys = [0, 0], tmp = [0, 0]\<rparr>;
     g = \<lparr>baseGen = b, num = 3, idGen = demo_key, sg_univSize = 4, sg_setSize = 2\<rparr>
   in \<lparr>pc_nRows = 4, pc_RowLen = 1, pc_setSize = 2, pc_sets = [\<lparr>sk_id = 2, sk_shift = 0\<rparr>], pc_hints = [[10]], pc_randSource = 0,
     pc_origSetGen = g, pc_setGen = g, pc_idxToSetIdx = [- 1, 0, - 1, - 1]\<rparr>)"

lemma all_less_4: "(\<forall>x < (4 :: nat). P x) \<longleftrightarrow> P 0 \<and> P 1 \<and> P 2 \<and> P 3"
  by (auto simp: numeral_eq_Suc less_Suc_eq)

lemma demo_client:
  "client_set demo_client 0 = [1, 3]" "punc_ok [1, 2, 4, 8] demo_client" "sets_varied demo_client" "next_ok demo_client"
proof -
  show s: "client_set demo_client 0 = [1, 3]"
    by (simp add: client_set_def demo_client_def Let_def cipher_of_def set_of_def demo_members)
  have h: "get_height 2 = 1" by (simp add: get_height_def height_loop.simps)
  have "client_wf [1, 2, 4, 8] demo_client"
    unfolding client_wf_def
  proof (intro conjI allI impI ballI)
    fix x assume "x < pc_nRows demo_client"
    then show "sint (pc_idxToSetIdx demo_client ! x) < 0 \<or>
        (\<exists>j < length (pc_sets demo_client). pc_idxToSetIdx demo_client ! x = of_nat j \<and> int x \<in> set (client_set demo_client j))"
      using s by (auto simp: demo_client_def Let_def numeral_eq_Suc less_Suc_eq)
  qed (simp_all add: demo_client_def Let_def punc_sizes_def sg_ok_def ggm_ok_def gen_ok_def h key_ok_def)
  moreover have "hint_ok [1, 2, 4, 8] demo_client 0"
    unfolding hint_ok_def s by (simp add: demo_client_def Let_def parity_of_def xors_def row_def)
  ultimately show "punc_ok [1, 2, 4, 8] demo_client" by (simp add: punc_ok_def demo_client_def Let_def)
  show "sets_varied demo_client" using s by (auto simp: sets_varied_def varied_def demo_client_def Let_def)
  have "first_id (ggm_members 4 2) demo_key 3 3"
    unfolding first_id_def by (rule exI [of _ 0]) (simp add: demo_members accepts_def)
  then show "next_ok demo_client"
    unfolding next_ok_def fresh_id_def by (intro exI [of _ 3]) (auto simp: demo_client_def Let_def demo_members varied_def)
qed

lemma mod_fair: "Intn_ok (\<lambda>k m. k mod m)" "Intn_fair (\<lambda>k m. k mod m) s"
proof -
  show "Intn_fair (\<lambda>k m. k mod m) s"
    unfolding Intn_fair_def
  proof (intro allI impI)
    fix k m assume m: "m < s"
    have "k \<le> s * k + m" using m by (metis le_add1 le_trans less_nat_zero_code mult_le_mono1 nat_mult_1 not_less_eq_eq le_zero_eq One_nat_def)
    moreover have "(s * k + m) mod s = m" using m by simp
    ultimately show "\<exists>k' \<ge> k. k' mod s = m" by blast
  qed
qed (simp add: Intn_ok_def)

text \<open>A client of two rows of one byte: the rounded square root of 2 is 1, so its only set has one member.\<close>

definition singleton_client :: punc_client where
  "singleton_client = (let b = \<lparr>univ_size = 2, set_size = 1, keys = [0, 0], tmp = [0, 0]\<rparr>;
     g = \<lparr>baseGen = b, num = 1, idGen = demo_key, sg_univSize = 2, sg_setSize = 1\<rparr>
   in \<lparr>pc_nRows = 2, pc_RowLen = 1, pc_setSize = 1, pc_sets = [\<lparr>sk_id = 0, sk_shift = 0\<rparr>], pc_hints = [[2]], pc_randSource = 0,
     pc_origSetGen = g, pc_setGen = g, pc_idxToSetIdx = [- 1, - 1]\<rparr>)"

lemma singleton_client:
  "client_set singleton_client 0 = [1]" "client_wf [1, 2] singleton_client" "fresh_id singleton_client 1"
proof -
  have h: "get_height 1 = 1" by (simp add: get_height_def height_loop.simps)
  have b: "ggm_ok 2 1 \<lparr>univ_size = 2, set_size = 1, keys = [0, 0], tmp = [0, 0]\<rparr>" by (simp add: ggm_ok_def gen_ok_def h)
  have m: "ggm_members 2 1 (base_seed demo_key 0) = [1]"
    by (simp add: demo_seed_0 ggm_members_def ggm_set_def bare_def h ggm_elem_def upt_rec of_lanes_Cons nth_lanes fast_range_def)
  show "client_set singleton_client 0 = [1]"
    using m by (simp add: client_set_def cipher_of_def set_of_def singleton_client_def Let_def)
  show "client_wf [1, 2] singleton_client"
    unfolding client_wf_def
  proof (intro conjI allI impI ballI)
    fix x assume "x < pc_nRows singleton_client"
    then show "sint (pc_idxToSetIdx singleton_client ! x) < 0 \<or> (\<exists>j < length (pc_sets singleton_client).
        pc_idxToSetIdx singleton_client ! x = of_nat j \<and> int x \<in> set (client_set singleton_client j))"
      by (auto simp: singleton_client_def Let_def numeral_eq_Suc less_Suc_eq)
  qed (simp_all add: singleton_client_def Let_def punc_sizes_def sg_ok_def ggm_ok_def gen_ok_def h key_ok_def)
  have "length (ggm_members 2 1 (base_seed demo_key 1)) = 1" by (rule ggm_members_range(1) [OF b])
  then have "accepts (ggm_members 2 1 (base_seed demo_key 1))"
    by (cases "ggm_members 2 1 (base_seed demo_key 1)") (auto simp: accepts_def)
  then have "first_id (ggm_members 2 1) demo_key 1 1" unfolding first_id_def by (intro exI [of _ 0]) simp
  then show "fresh_id singleton_client 1" by (simp add: fresh_id_def singleton_client_def Let_def)
qed

section \<open>Properties\<close>

text \<open>C8: a session of the puncturable-set protocol, in both builds: after any queries of a client that is in step with the
  database, a query for a row that one of its sets holds returns that row, whatever the coins and the random members are, and one
  for another row gives up; every hint is again the parity of its set and every pointer leads to a set with the index.\<close>

theorem punc_session_correct:
  assumes "gather = xor_rows_sse \<or> gather = xor_rows_avx2 base \<and> rows_aligned base (RowLen db)"
    and "punc_ok (FlatDb db) c0" "RowLen db = pc_RowLen c0" "sets_varied c0" "Intn_ok Intn" "Intn_fair Intn (pc_setSize c0)"
    and "punc_session gather Intn db c0 c" "next_ok c" "0 \<le> i" "i < int (pc_nRows c0)"
    and "scratch_ok (pc_setSize c0) wsL" "scratch_ok (pc_setSize c0) wsR"
  shows "\<exists>c' r. punc_round gather Intn wsL wsR db db c i = Some (c', r) \<and> punc_ok (FlatDb db) c' \<and> sets_varied c' \<and> same_size c0 c' \<and>
    r = (if \<exists>j < length (pc_sets c). i \<in> set (client_set c j) then Some (Inr (row (FlatDb db) (nat i * RowLen db) (RowLen db))) else None)"
proof -
  have "punc_ok (FlatDb db) c \<and> sets_varied c \<and> same_size c0 c" by (rule punc_session_inv [OF assms(7,1-6)])
  then have c: "punc_ok (FlatDb db) c" "RowLen db = pc_RowLen c" "sets_varied c" "Intn_fair Intn (pc_setSize c)" "i < int (pc_nRows c)"
    "scratch_ok (pc_setSize c) wsL" "scratch_ok (pc_setSize c) wsR" "\<And>d. same_size c d \<longleftrightarrow> same_size c0 d"
    using assms(3,6,10-12) by (simp_all add: same_size_def)
  show ?thesis using punc_round_builds [OF assms(1) c(1-3) assms(8,5) c(4) assms(9) c(5-7)] unfolding c(8) by blast
qed

theorem punc_session_correct_witness:
  "\<exists>c'. punc_round (xor_rows_avx2 0) (\<lambda>k m. k mod m) \<lparr>ws_keys = [5, 6], ws_tmp = [7, 8], ws_elems = [9]\<rparr>
      \<lparr>ws_keys = [0, 1], ws_tmp = [2, 3], ws_elems = [4]\<rparr> \<lparr>NumRows = 4, RowLen = 1, Version = 0, FlatDb = [1, 2, 4, 8]\<rparr>
      \<lparr>NumRows = 4, RowLen = 1, Version = 0, FlatDb = [1, 2, 4, 8]\<rparr> demo_client 3 = Some (c', Some (Inr [8])) \<and> punc_ok [1, 2, 4, 8] c'"
proof -
  let ?db = "\<lparr>NumRows = 4, RowLen = 1, Version = 0, FlatDb = [1, 2, 4, 8]\<rparr>"
  have h: "get_height 2 = 1" by (simp add: get_height_def height_loop.simps)
  have d: "pc_setSize demo_client = 2" "pc_nRows demo_client = 4" "pc_RowLen demo_client = 1" "length (pc_sets demo_client) = 1"
    by (simp_all add: demo_client_def Let_def)
  have "\<exists>j < length (pc_sets demo_client). 3 \<in> set (client_set demo_client j)"
    using demo_client(1) d(4) by (intro exI [of _ 0]) simp
  then show ?thesis
    using punc_session_correct [of "xor_rows_avx2 0" 0 ?db demo_client "\<lambda>k m. k mod m" demo_client 3
        "\<lparr>ws_keys = [5, 6], ws_tmp = [7, 8], ws_elems = [9]\<rparr>" "\<lparr>ws_keys = [0, 1], ws_tmp = [2, 3], ws_elems = [4]\<rparr>"]
      demo_client(2-4) mod_fair d punc_session.start
    by (simp add: scratch_ok_def h rows_aligned_def row_def) blast
qed

text \<open>C14: every query leaves a well-formed client, whether it finds a set or not: sizes, generators, keys and
  pointers; when it sends requests the remembered set holds the index and the case is one of the three.\<close>

theorem query_keeps_client_wf:
  assumes "client_wf db c" "sets_varied c" "next_ok c" "Intn_ok Intn" "Intn_fair Intn (pc_setSize c)" "0 \<le> i" "i < int (pc_nRows c)"
  shows "\<exists>c' q. pc_Query Intn c i = Some (c', q) \<and> client_wf db c' \<and> length (pc_sets c') = length (pc_sets c) \<and>
    (q = None \<longleftrightarrow> (\<forall>j < length (pc_sets c). i \<notin> set (client_set c j))) \<and>
    (\<forall>qL qR ctx. q = Some (qL, qR, ctx) \<longrightarrow> randCase ctx \<le> 2 \<and> 0 \<le> setIdx ctx \<and> nat (setIdx ctx) < length (pc_sets c) \<and>
      i \<in> set (client_set c (nat (setIdx ctx))))"
proof -
  obtain c' q where Q: "pc_Query Intn c i = Some (c', q)" "client_wf db c'"
    and q: "case q of None \<Rightarrow> alike c c' \<and> (\<forall>h < length (pc_sets c). i \<notin> set (client_set c h))
     | Some (qL, qR, ctx) \<Rightarrow> query_shape c i c' qL qR ctx"
    using pc_Query_eq [OF assms] by blast
  show ?thesis
  proof (cases q)
    case None
    with Q q show ?thesis by (auto simp: alike_def)
  next
    case (Some t)
    then obtain qL qR ctx where t: "q = Some (qL, qR, ctx)" "query_shape c i c' qL qR ctx" using q by (cases t) auto
    then have "length (pc_sets c') = length (pc_sets c) \<and> (\<exists>j < length (pc_sets c). i \<in> set (client_set c j)) \<and> randCase ctx \<le> 2 \<and>
        0 \<le> setIdx ctx \<and> nat (setIdx ctx) < length (pc_sets c) \<and> i \<in> set (client_set c (nat (setIdx ctx)))"
      by (auto simp: query_shape_def alike_def)
    with Q t(1) show ?thesis by auto
  qed
qed

theorem query_keeps_client_wf_witness:
  "\<exists>c'. pc_Query (\<lambda>k m. k mod m) demo_client 0 = Some (c', None) \<and> client_wf [1, 2, 4, 8] c'"
proof -
  have d: "pc_nRows demo_client = 4" "length (pc_sets demo_client) = 1" by (simp_all add: demo_client_def Let_def)
  have wf: "client_wf [1, 2, 4, 8] demo_client" using demo_client(2) by (simp add: punc_ok_def)
  have "\<forall>j < length (pc_sets demo_client). 0 \<notin> set (client_set demo_client j)" using demo_client(1) d(2) by simp
  then show ?thesis
    using query_keeps_client_wf [OF wf demo_client(3,4) mod_fair, of 0] d(1) by auto
qed

text \<open>C29: the rejection sampling of \<open>randomMemberExcept\<close> ends exactly when the set has another member, for a random
  source that hits every member sooner or later, and it returns such a member.\<close>

theorem randomMemberExcept_ends:
  assumes "Intn_ok Intn" "Intn_fair Intn (length es)"
  shows "if \<exists>v \<in> set es. v \<noteq> idx
    then \<exists>src' x. randomMemberExcept Intn (length es) es idx src = Some (src', x) \<and> x \<in> set es \<and> x \<noteq> idx
    else randomMemberExcept Intn (length es) es idx src = None"
  using randomMemberExcept_eq [OF assms] randomMemberExcept_loops [of es idx] by auto

theorem randomMemberExcept_ends_witness:
  "\<exists>src'. randomMemberExcept (\<lambda>k m. k mod m) 3 [7, 7, 9] 7 5 = Some (src', 9)"
  using randomMemberExcept_ends [OF mod_fair, of "[7, 7, 9]" 7 5] by (auto simp: numeral_3_eq_3)

text \<open>C30: with sets of one member, which is what the server chooses for databases of one and of two rows, no query for
  a row of a set ever returns, whatever the random source gives: the new set for the query has no other member to pick.\<close>

theorem query_of_singletons_hangs:
  assumes "client_wf db c" "pc_setSize c = 1" "fresh_id c n" "0 \<le> i" "i < int (pc_nRows c)"
    and "j < length (pc_sets c)" "i \<in> set (client_set c j)"
  shows "pc_Query Intn c i = None \<and> round_sqrt 1 = 1 \<and> round_sqrt 2 = 1"
  using pc_Query_one [OF assms] by (simp add: round_sqrt_def int_sqrt_def upt_rec)

theorem query_of_singletons_hangs_witness:
  "pc_Query (\<lambda>k m. k mod m) singleton_client 1 = None \<and> pc_nRows singleton_client = 2 \<and> round_sqrt 2 = 1"
proof -
  have s: "client_set singleton_client 0 = [1]" and wf: "client_wf [1, 2] singleton_client" and f: "fresh_id singleton_client 1"
    by (rule singleton_client)+
  have "pc_Query (\<lambda>k m. k mod m) singleton_client 1 = None \<and> round_sqrt 1 = 1 \<and> round_sqrt 2 = 1"
    by (rule query_of_singletons_hangs [OF wf _ f, of 1 0]) (use s in \<open>simp_all add: singleton_client_def Let_def\<close>)
  then show ?thesis by (simp add: singleton_client_def Let_def)
qed

end
