(* ===== verification/PuncOffline.thy ===== *)
theory PuncOffline
  imports PuncProtocol
begin

text \<open>
  The offline phase of the puncturable-set protocol: server and client run the same generator from counter
  0, so the sets that the server adds up are the sets whose keys the client stores.
\<close>

section \<open>The rounded root\<close>

lemma int_sqrt: "int_sqrt n * int_sqrt n \<le> n" "n < Suc (int_sqrt n) * Suc (int_sqrt n)"
proof -
  let ?P = "\<lambda>k. k * k \<le> n" and ?xs = "[1..<Suc n]"
  have r: "int_sqrt n = length (takeWhile ?P ?xs)" by (simp add: int_sqrt_def)
  then have le: "int_sqrt n \<le> n" using length_takeWhile_le [of ?P ?xs] by (simp del: upt_Suc)
  show "int_sqrt n * int_sqrt n \<le> n"
  proof (cases "int_sqrt n")
    case (Suc m)
    then have m: "m < length (takeWhile ?P ?xs)" using r by simp
    then have "takeWhile ?P ?xs ! m \<in> set (takeWhile ?P ?xs)" by (rule nth_mem)
    from set_takeWhileD [OF this] have "?P (takeWhile ?P ?xs ! m)" by blast
    moreover have "takeWhile ?P ?xs ! m = ?xs ! m" by (rule takeWhile_nth [OF m])
    moreover have "?xs ! m = Suc m" using Suc le by (simp del: upt_Suc)
    ultimately show ?thesis using Suc by simp
  qed simp
  show "n < Suc (int_sqrt n) * Suc (int_sqrt n)"
  proof (cases "int_sqrt n < n")
    case True
    then have "length (takeWhile ?P ?xs) < length ?xs" using r by (simp del: upt_Suc)
    from nth_length_takeWhile [OF this] True r show ?thesis by (simp del: upt_Suc)
  next
    case False
    then have "int_sqrt n = n" using le by simp
    then show ?thesis by simp
  qed
qed

lemma round_sqrt:
  assumes "0 < n"
  shows "round_sqrt n * round_sqrt n < n + round_sqrt n" "n \<le> round_sqrt n * round_sqrt n + round_sqrt n" "0 < round_sqrt n"
proof -
  let ?r = "int_sqrt n"
  have r: "?r * ?r \<le> n" "n < ?r * ?r + 2 * ?r + 1" using int_sqrt [of n] by simp_all
  have "0 < ?r"
  proof (rule ccontr)
    assume "\<not> 0 < ?r"
    then have "?r = 0" by simp
    with r(2) assms show False by simp
  qed
  then show "round_sqrt n * round_sqrt n < n + round_sqrt n" "n \<le> round_sqrt n * round_sqrt n + round_sqrt n" "0 < round_sqrt n"
    using r by (auto simp: round_sqrt_def Let_def)
qed

lemma round_sqrt_le:
  assumes "0 < n" "n \<le> 2 ^ 31"
  shows "round_sqrt n \<le> 2 ^ 26"
proof (rule ccontr)
  assume "\<not> round_sqrt n \<le> 2 ^ 26"
  then have r: "67108865 \<le> round_sqrt n" by simp
  then have "67108865 * round_sqrt n \<le> round_sqrt n * round_sqrt n" by (rule mult_le_mono1)
  moreover have "n \<le> 2147483648" using assms(2) by simp
  ultimately show False using round_sqrt(1) [OF assms(1)] r by linarith
qed

section \<open>The counters of the offline phase\<close>

text \<open>The counter that a generator accepts next, and its counter after \<open>m\<close> sets.\<close>

definition next_id :: "(u8 list \<Rightarrow> int list) \<Rightarrow> u8 list \<Rightarrow> u32 \<Rightarrow> u32" where
  "next_id ms key n = n + of_nat (LEAST k. accepts (ms (base_seed key (n + of_nat k))))"

primrec counter :: "(u8 list \<Rightarrow> int list) \<Rightarrow> u8 list \<Rightarrow> nat \<Rightarrow> u32" where
  "counter ms key 0 = 0"
| "counter ms key (Suc m) = next_id ms key (counter ms key m) + 1"

definition nth_key :: "(u8 list \<Rightarrow> int list) \<Rightarrow> nat \<Rightarrow> u8 list \<Rightarrow> nat \<Rightarrow> SetKey" where
  "nth_key ms S key m = (let i = next_id ms key (counter ms key m)
     in \<lparr>sk_id = i, sk_shift = of_lanes (take 4 (Encrypt key (tagged_block 0xBB i))) mod of_nat S\<rparr>)"

text \<open>There are \<open>n\<close> acceptable counters below \<open>2 ^ 32 - 1\<close>.\<close>

definition enough_ids :: "(u8 list \<Rightarrow> int list) \<Rightarrow> u8 list \<Rightarrow> nat \<Rightarrow> bool" where
  "enough_ids ms key n \<longleftrightarrow> (\<exists>is. length is = n \<and> sorted_wrt (<) is \<and> (\<forall>i \<in> set is. i \<noteq> - 1 \<and> accepts (ms (base_seed key i))))"

lemma next_id_bounds:
  assumes "n \<le> i" "accepts (ms (base_seed key i))"
  shows "first_id ms key n (next_id ms key n)" "n \<le> next_id ms key n" "next_id ms key n \<le> i"
proof -
  let ?P = "\<lambda>k. accepts (ms (base_seed key (n + of_nat k)))" and ?d = "unat i - unat n"
  have le: "unat n \<le> unat i" using assms(1) by (simp add: word_le_nat_alt)
  have "n + of_nat ?d = i" using le by (simp add: of_nat_diff)
  then have P: "?P ?d" using assms(2) by simp
  have L: "?P (Least ?P)" "Least ?P \<le> ?d" by (rule LeastI [of ?P, OF P], rule Least_le [of ?P, OF P])
  have "unat n + Least ?P < 2 ^ 32" using L(2) le u32_bound [of i] by linarith
  then have u: "unat (n + of_nat (Least ?P)) = unat n + Least ?P"
    by (simp add: unat_word_ariths unat_of_nat)
  then show "n \<le> next_id ms key n" "next_id ms key n \<le> i"
    unfolding next_id_def word_le_nat_alt using L(2) le by linarith+
  show "first_id ms key n (next_id ms key n)"
    unfolding first_id_def next_id_def using L(1) not_less_Least [of _ ?P] by blast
qed

lemma word_Suc: "i \<noteq> (- 1 :: u32) \<Longrightarrow> unat (i + 1) = Suc (unat i)"
  using unatSuc [of i] by (metis add.commute add_eq_0_iff)

lemma counters:
  assumes "length is = n" "sorted_wrt (<) is" "\<forall>i \<in> set is. i \<noteq> - 1 \<and> accepts (ms (base_seed key i))" "m < n"
  shows "counter ms key m \<le> is ! m"
  using assms(4)
proof (induction m)
  case (Suc m)
  have i: "is ! m \<in> set is" "is ! m < is ! Suc m" using Suc.prems assms(1,2) by (auto intro: sorted_wrt_nth_less)
  then have "next_id ms key (counter ms key m) \<le> is ! m"
    using next_id_bounds(3) [of "counter ms key m" "is ! m" ms key] Suc assms(3) by simp
  moreover have "unat (is ! m + 1) = Suc (unat (is ! m))" using assms(3) i(1) by (intro word_Suc) blast
  ultimately have "next_id ms key (counter ms key m) < is ! Suc m" using i(2) by simp
  moreover from this have "next_id ms key (counter ms key m) \<noteq> - 1" by (metis word_order.extremum_strict)
  ultimately show ?case using word_Suc [of "next_id ms key (counter ms key m)"] by (simp add: word_le_nat_alt word_less_nat_alt)
qed simp

lemma enough_ids_steps:
  assumes "enough_ids ms key n" "m < n"
  shows "first_id ms key (counter ms key m) (next_id ms key (counter ms key m))"
    "next_id ms key (counter ms key m) < counter ms key (Suc m)" "counter ms key m < counter ms key (Suc m)"
proof -
  obtain ids where i: "length ids = n" "sorted_wrt (<) ids" "\<forall>i \<in> set ids. i \<noteq> - 1 \<and> accepts (ms (base_seed key i))"
    using assms(1) unfolding enough_ids_def by blast
  have le: "counter ms key m \<le> ids ! m" by (rule counters [OF i assms(2)])
  have mem: "ids ! m \<in> set ids" using i(1) assms(2) by simp
  then have acc: "accepts (ms (base_seed key (ids ! m)))" "ids ! m \<noteq> - 1" using i(3) by blast+
  note b = next_id_bounds [of _ _ ms key, OF le acc(1)]
  show "first_id ms key (counter ms key m) (next_id ms key (counter ms key m))" by (rule b(1))
  have "next_id ms key (counter ms key m) \<noteq> - 1" using b(3) acc(2) by (metis word_order.extremum_unique)
  then have "unat (next_id ms key (counter ms key m) + 1) = Suc (unat (next_id ms key (counter ms key m)))" by (rule word_Suc)
  then show "next_id ms key (counter ms key m) < counter ms key (Suc m)" "counter ms key m < counter ms key (Suc m)"
    using b(2) by (simp_all add: word_less_nat_alt word_le_nat_alt)
qed

lemma counter_mono:
  assumes "enough_ids ms key n" "m \<le> m'" "m' \<le> n"
  shows "counter ms key m \<le> counter ms key m'"
  using assms(2,3)
proof (induction m' rule: dec_induct)
  case (step k)
  then show ?case using enough_ids_steps(3) [OF assms(1), of k] by simp
qed simp

lemma nth_key_id:
  assumes "enough_ids ms key n" "m < n"
  shows "sk_id (nth_key ms S key m) < counter ms key n"
proof -
  have "sk_id (nth_key ms S key m) < counter ms key (Suc m)" using enough_ids_steps(2) [OF assms] by (simp add: nth_key_def Let_def)
  also have "\<dots> \<le> counter ms key n" using assms(2) by (intro counter_mono [OF assms(1)]) simp_all
  finally show ?thesis .
qed

text \<open>The \<open>m\<close>th set of a generator.\<close>

lemma Gen_nth:
  assumes e: "enough_ids (ggm_members U S) key n" "m < n"
    and g: "sg_ok (ggm_ok U S) U S g" "idGen g = key" "num g = counter (ggm_members U S) key m"
  shows "\<exists>g'. sg_Gen ggmC g p = Some (g', ggm.the_set U S key (nth_key (ggm_members U S) S key m)) \<and>
    sg_ok (ggm_ok U S) U S g' \<and> idGen g' = key \<and> num g' = counter (ggm_members U S) key (Suc m) \<and>
    key_ok (nth_key (ggm_members U S) S key m)"
proof -
  let ?i = "next_id (ggm_members U S) key (counter (ggm_members U S) key m)"
  have "first_id (ggm_members U S) (idGen g) (num g) ?i" using enough_ids_steps(1) [OF e] g by simp
  from ggm.Gen_eq [OF this g(1)] obtain b s where "sg_Gen ggmC g p = Some (g\<lparr>num := ?i + 1, baseGen := b\<rparr>,
      ggm.the_set U S key \<lparr>sk_id = ?i, sk_shift = s\<rparr>)" "ggm_ok U S b" "key_ok \<lparr>sk_id = ?i, sk_shift = s\<rparr>"
      "s = of_lanes (take 4 (Encrypt key (tagged_block 0xBB ?i))) mod of_nat S" unfolding g(2) by blast
  then show ?thesis using g by (auto simp: nth_key_def Let_def sg_ok_def)
qed

section \<open>The offline phase\<close>

context gather_kernel
begin

lemma punc_hint_process_eq:
  assumes sz: "punc_sizes (FlatDb db) (RowLen db) (NumRows db) S" and S: "S = round_sqrt (NumRows db)"
    and key: "length (RandSeed req) = 16" and n: "n = NumHintsMultiplier req * NumRows db div S"
    and e: "enough_ids (ggm_members (NumRows db) S) (RandSeed req) n"
    and al: "\<And>e. RowLen db dvd unat e \<Longrightarrow> ok (RowLen db) e"
  shows "punc_hint_process gather req db = Some \<lparr>phr_NRows = NumRows db, phr_RowLen = RowLen db, phr_SetSize = S,
    phr_SetGenKey = RandSeed req, phr_Hints = map (\<lambda>m. parity_of (FlatDb db) (RowLen db)
      (ggm.elems (NumRows db) S (RandSeed req) (nth_key (ggm_members (NumRows db) S) S (RandSeed req) m))) [0..<n]\<rparr>"
proof -
  let ?U = "NumRows db" and ?key = "RandSeed req" and ?ms = "ggm_members (NumRows db) S"
  let ?h = "\<lambda>m. parity_of (FlatDb db) (RowLen db) (ggm.elems ?U S ?key (nth_key ?ms S ?key m))"
  let ?z = "replicate n [] :: u8 list list"
  have z: "0 < ?U" "?U \<le> 2 ^ 31" "0 < S" "S \<le> 2 ^ 26" using sz by (simp_all add: punc_sizes_def)
  obtain b where b: "NewSetGenerator ?key 0 ?U S = Some \<lparr>baseGen = b, num = 0, idGen = ?key, sg_univSize = ?U, sg_setSize = S\<rparr>" "ggm_ok ?U S b"
    using NewSetGenerator_eq [OF z key] by blast
  define P where "P m s \<longleftrightarrow> sg_ok (ggm_ok ?U S) ?U S (fst s) \<and> idGen (fst s) = ?key \<and> num (fst s) = counter ?ms ?key m \<and>
    snd (snd s) = filled ?h ?z m" for m and s :: "generator SetGenerator \<times> PuncturableSet \<times> u8 list list"
  have "\<exists>t. for_range 0 n (punc_hint_step gather db)
      (\<lparr>baseGen = b, num = 0, idGen = ?key, sg_univSize = ?U, sg_setSize = S\<rparr>, pset_var, ?z) = Some t \<and> P n t"
  proof (rule for_range_inv)
    show "P 0 (\<lparr>baseGen = b, num = 0, idGen = ?key, sg_univSize = ?U, sg_setSize = S\<rparr>, pset_var, ?z)"
      using b(2) key by (simp add: P_def sg_ok_def filled_0)
    fix m s assume m: "m < n" and P: "P m s"
    obtain g p hs where s: "s = (g, p, hs)" by (cases s)
    have g: "sg_ok (ggm_ok ?U S) ?U S g" "idGen g = ?key" "num g = counter ?ms ?key m" and hs: "hs = filled ?h ?z m"
      using P by (simp_all add: P_def s)
    let ?k = "nth_key ?ms S ?key m"
    obtain g' where g': "sg_Gen ggmC g p = Some (g', ggm.the_set ?U S ?key ?k)" "sg_ok (ggm_ok ?U S) ?U S g'" "idGen g' = ?key"
      "num g' = counter ?ms ?key (Suc m)" using Gen_nth [OF e m g] by blast
    let ?es = "ggm.elems ?U S ?key ?k"
    have ok: "ggm_ok ?U S b" by (rule b(2))
    have es: "length ?es = S" "\<forall>e \<in> set ?es. 0 \<le> e \<and> e < int ?U" using ggm.length_elems [OF ok] ggm.elems_range [OF ok] by blast+
    then have "?es \<noteq> []" "length ?es < 2 ^ 31" using z by auto
    then have x: "XorBlocks gather (FlatDb db) (map (\<lambda>x. x * int (RowLen db)) ?es) (zeros (RowLen db)) = Some (?h m)"
      using XorBlocks_parity [OF sz _ _ es(2) al] by blast
    have "wr hs m (?h m) = Some (filled ?h ?z (Suc m))" unfolding hs using wr_filled [of m ?z ?h] m by simp
    then have "punc_hint_step gather db m s = Some (g', (ggm.the_set ?U S ?key ?k)\<lparr>ps_elems := map (\<lambda>x. x * int (RowLen db)) ?es\<rparr>,
        filled ?h ?z (Suc m))"
      using g'(1) x by (simp add: punc_hint_step_def s xorRowsFlatSlice_def the_set_simps)
    then show "\<exists>t. punc_hint_step gather db m s = Some t \<and> P (Suc m) t"
      using g' by (auto simp: P_def)
  qed simp
  then obtain g p hs where r: "for_range 0 n (punc_hint_step gather db)
      (\<lparr>baseGen = b, num = 0, idGen = ?key, sg_univSize = ?U, sg_setSize = S\<rparr>, pset_var, ?z) = Some (g, p, hs)" "hs = filled ?h ?z n"
    unfolding P_def by (metis prod.collapse)
  have "filled ?h ?z n = map ?h [0..<n]" by (simp add: filled_def)
  then show ?thesis
    using b(1) r z(3) unfolding punc_hint_process_def S [symmetric] Let_def n [symmetric] by simp
qed

end

lemma punc_InitClient_eq:
  assumes sz: "punc_sizes db L U S" and key: "length key = 16" "length (ReadKey src) = 16"
    and n: "0 < n" "n < 2 ^ 31" and e: "enough_ids (ggm_members U S) key n"
  shows "\<exists>c. punc_InitClient ReadKey \<lparr>phr_NRows = U, phr_RowLen = L, phr_SetSize = S, phr_SetGenKey = key,
      phr_Hints = map (\<lambda>m. parity_of db L (ggm.elems U S key (nth_key (ggm_members U S) S key m))) [0..<n]\<rparr> src = Some c \<and>
    punc_ok db c \<and> pc_nRows c = U \<and> pc_RowLen c = L \<and> pc_setSize c = S \<and> length (pc_sets c) = n \<and> pc_randSource c = Suc src \<and>
    (\<forall>m < n. client_set c m = ggm.elems U S key (nth_key (ggm_members U S) S key m))"
proof -
  let ?ms = "ggm_members U S"
  let ?k = "nth_key ?ms S key" and ?h = "\<lambda>m. parity_of db L (ggm.elems U S key (nth_key ?ms S key m))"
  let ?z = "replicate n \<lparr>sk_id = 0, sk_shift = 0\<rparr>" and ?p = "replicate U (- 1) :: u32 list"
  have z: "0 < U" "U \<le> 2 ^ 31" "0 < S" "S \<le> 2 ^ 26" using sz by (simp_all add: punc_sizes_def)
  obtain b where b: "NewSetGenerator key 0 U S = Some \<lparr>baseGen = b, num = 0, idGen = key, sg_univSize = U, sg_setSize = S\<rparr>" "ggm_ok U S b"
    using NewSetGenerator_eq [OF z key(1)] by blast
  let ?g = "\<lparr>baseGen = b, num = 0, idGen = key, sg_univSize = U, sg_setSize = S\<rparr>"
  define P where "P m s \<longleftrightarrow> (\<exists>g p ptrs. s = (g, p, filled ?k ?z m, ptrs) \<and> sg_ok (ggm_ok U S) U S g \<and> idGen g = key \<and>
    num g = counter ?ms key m \<and> length ptrs = U \<and>
    (\<forall>x < U. ptrs ! x = - 1 \<or> (\<exists>j < m. ptrs ! x = of_nat j \<and> int x \<in> set (ggm.elems U S key (?k j)))) \<and> (\<forall>j < m. key_ok (?k j)))"
    for m and s :: "generator SetGenerator \<times> PuncturableSet \<times> SetKey list \<times> u32 list"
  have "\<exists>t. for_range 0 n initSets_step (?g, pset_var, ?z, ?p) = Some t \<and> P n t"
  proof (rule for_range_inv)
    show "P 0 (?g, pset_var, ?z, ?p)" using b(2) key(1) by (simp add: P_def sg_ok_def filled_0)
    fix m s assume m: "m < n" and "P m s"
    then obtain g p ptrs where s: "s = (g, p, filled ?k ?z m, ptrs)" and g: "sg_ok (ggm_ok U S) U S g" "idGen g = key"
      "num g = counter ?ms key m" and ptrs: "length ptrs = U"
      "\<forall>x < U. ptrs ! x = - 1 \<or> (\<exists>j < m. ptrs ! x = of_nat j \<and> int x \<in> set (ggm.elems U S key (?k j)))" and k: "\<forall>j < m. key_ok (?k j)"
      unfolding P_def by blast
    obtain g' where g': "sg_Gen ggmC g p = Some (g', ggm.the_set U S key (?k m))" "sg_ok (ggm_ok U S) U S g'" "idGen g' = key"
      "num g' = counter ?ms key (Suc m)" "key_ok (?k m)" using Gen_nth [OF e m g] by blast
    let ?es = "ggm.elems U S key (?k m)"
    have es: "\<forall>e \<in> set ?es. 0 \<le> e \<and> e < int U" using ggm.elems_range [OF b(2)] by blast
    obtain q where q: "point_at (of_nat m) ?es ptrs = Some q" "length q = U" "\<forall>x < U. q ! x = (if int x \<in> set ?es then of_nat m else ptrs ! x)"
      using point_at_eq [OF es ptrs(1)] by blast
    have "wr (filled ?k ?z m) m (?k m) = Some (filled ?k ?z (Suc m))" using wr_filled [of m ?z ?k] m by simp
    then have "initSets_step m s = Some (g', ggm.the_set U S key (?k m), filled ?k ?z (Suc m), q)"
      using g'(1) q(1) by (simp add: initSets_step_def s the_set_simps)
    moreover have "q ! x = - 1 \<or> (\<exists>j < Suc m. q ! x = of_nat j \<and> int x \<in> set (ggm.elems U S key (?k j)))" if "x < U" for x
      using spec [OF q(3), of x] spec [OF ptrs(2), of x] that by (cases "int x \<in> set ?es") (auto intro: less_SucI)
    ultimately show "\<exists>t. initSets_step m s = Some t \<and> P (Suc m) t"
      unfolding P_def using g' q(2) k by (intro exI conjI) (auto simp: less_Suc_eq)
  qed simp
  then obtain g p ptrs where L: "for_range 0 n initSets_step (?g, pset_var, ?z, ?p) = Some (g, p, filled ?k ?z n, ptrs)"
    and g: "sg_ok (ggm_ok U S) U S g" "idGen g = key" "num g = counter ?ms key n" and ptrs: "length ptrs = U"
      "\<forall>x < U. ptrs ! x = - 1 \<or> (\<exists>j < n. ptrs ! x = of_nat j \<and> int x \<in> set (ggm.elems U S key (?k j)))" and k: "\<forall>j < n. key_ok (?k j)"
    unfolding P_def by blast
  obtain b' where b': "NewSetGenerator (ReadKey src) (num g) U S =
      Some \<lparr>baseGen = b', num = num g, idGen = ReadKey src, sg_univSize = U, sg_setSize = S\<rparr>" "ggm_ok U S b'"
    using NewSetGenerator_eq [OF z key(2)] by blast
  have ks: "filled ?k ?z n = map ?k [0..<n]" by (simp add: filled_def)
  let ?c = "\<lparr>pc_nRows = U, pc_RowLen = L, pc_setSize = S, pc_sets = map ?k [0..<n], pc_hints = map ?h [0..<n], pc_randSource = Suc src,
    pc_origSetGen = g, pc_setGen = \<lparr>baseGen = b', num = num g, idGen = ReadKey src, sg_univSize = U, sg_setSize = S\<rparr>, pc_idxToSetIdx = ptrs\<rparr>"
  have set: "client_set ?c j = ggm.elems U S key (?k j)" if "j < n" for j
    using that nth_key_id [OF e that, of S] g(2,3) by (simp add: client_set_def cipher_of_def)
  have "client_wf db ?c"
    unfolding client_wf_def
  proof (intro conjI allI impI ballI)
    fix x assume "x < pc_nRows ?c"
    then show "sint (pc_idxToSetIdx ?c ! x) < 0 \<or>
        (\<exists>j < length (pc_sets ?c). pc_idxToSetIdx ?c ! x = of_nat j \<and> int x \<in> set (client_set ?c j))"
      using ptrs(2) set by auto
  qed (use sz n ptrs(1) g b'(2) key(2) k in \<open>auto simp: sg_ok_def\<close>)
  moreover have "hint_ok db ?c j" if "j < n" for j using that set [OF that] by (simp add: hint_ok_def)
  ultimately have "punc_ok db ?c" by (simp add: punc_ok_def)
  then show ?thesis
    using b(1) L b'(1) set by (intro exI [of _ ?c]) (simp add: punc_InitClient_def initSets_def ks)
qed

lemma sizes_ok:
  assumes "0 < NumRows db" "NumRows db \<le> 2 ^ 31" "0 < RowLen db" "NumRows db * RowLen db \<le> length (FlatDb db)" "length (FlatDb db) < 2 ^ 32"
  shows "punc_sizes (FlatDb db) (RowLen db) (NumRows db) (round_sqrt (NumRows db))"
  using assms round_sqrt(3) [OF assms(1)] round_sqrt_le [OF assms(1,2)] by (simp add: punc_sizes_def)

section \<open>The other operations of the client\<close>

lemma pc_NumCovered_eq:
  assumes wf: "client_wf db c"
  shows "\<exists>c'. pc_NumCovered c = Some (c', card (\<Union>j < length (pc_sets c). set (client_set c j))) \<and> client_wf db c' \<and> alike c c'"
proof -
  define P where "P m s \<longleftrightarrow> client_wf db (fst s) \<and> alike c (fst s) \<and> set (snd s) = (\<Union>j < m. set (client_set c j))"
    for m and s :: "punc_client \<times> int list"
  have "\<exists>t. for_range 0 (length (pc_sets c)) (\<lambda>j (c, xs). do {
       (c, pset) \<leftarrow> pc_eval c j;
       Some (c, xs @ ps_elems pset)
     }) (c, []) = Some t \<and> P (length (pc_sets c)) t"
  proof (rule for_range_inv)
    show "P 0 (c, [])" using wf by (simp add: P_def)
    fix m s assume m: "m < length (pc_sets c)" and P: "P m s"
    obtain d xs where s: "s = (d, xs)" by (cases s)
    have d: "client_wf db d" "alike c d" "set xs = (\<Union>j < m. set (client_set c j))" using P by (simp_all add: P_def s)
    then have "m < length (pc_sets d)" using m by (simp add: alike_def)
    then obtain e where e: "pc_eval d m = Some (e, ggm.the_set (pc_nRows d) (pc_setSize d) (cipher_of d (pc_sets d ! m)) (pc_sets d ! m))"
      "client_wf db e" "alike d e" using pc_eval_eq [OF d(1)] by blast
    have "ggm.elems (pc_nRows d) (pc_setSize d) (cipher_of d (pc_sets d ! m)) (pc_sets d ! m) = client_set c m"
      using alike_set [OF d(2), of m] by (simp add: client_set_def)
    then show "\<exists>t. (case s of (c, xs) \<Rightarrow> do {
       (c, pset) \<leftarrow> pc_eval c m;
       Some (c, xs @ ps_elems pset)
     }) = Some t \<and> P (Suc m) t"
      using e d alike_trans [OF d(2) e(3)] by (auto simp: s P_def the_set_simps lessThan_Suc)
  qed simp
  then show ?thesis by (auto simp: pc_NumCovered_def P_def)
qed

section \<open>Properties\<close>

text \<open>C9: the offline phase of the puncturable-set protocol, in both builds: the server answers a hint request on any database
  that fits, with sets of the rounded root of its rows, and the client made from the answer is in step with the database: every hint is the
  parity of the set that its key stands for, every pointer leads to a set with the index, and the sets are those of the key that
  the server has used.\<close>

theorem punc_offline_phase:
  assumes "gather = xor_rows_sse \<or> gather = xor_rows_avx2 base \<and> rows_aligned base (RowLen db)"
    and "0 < NumRows db" "NumRows db \<le> 2 ^ 31" "0 < RowLen db" "NumRows db * RowLen db \<le> length (FlatDb db)" "length (FlatDb db) < 2 ^ 32"
    and "length (RandSeed req) = 16" "length (ReadKey src) = 16" "S = round_sqrt (NumRows db)"
    and "n = NumHintsMultiplier req * NumRows db div S" "0 < n" "n < 2 ^ 31" "enough_ids (ggm_members (NumRows db) S) (RandSeed req) n"
  shows "\<exists>resp c. punc_hint_process gather req db = Some resp \<and> punc_InitClient ReadKey resp src = Some c \<and> punc_ok (FlatDb db) c \<and>
    pc_nRows c = NumRows db \<and> pc_RowLen c = RowLen db \<and> pc_setSize c = S \<and> length (pc_sets c) = n \<and> pc_randSource c = Suc src \<and>
    (\<forall>m < n. client_set c m =
      set_of (ggm_members (NumRows db) S) (NumRows db) (RandSeed req) (nth_key (ggm_members (NumRows db) S) S (RandSeed req) m))"
proof -
  have sz: "punc_sizes (FlatDb db) (RowLen db) (NumRows db) S" using sizes_ok [OF assms(2-6)] assms(9) by simp
  let ?r = "\<lparr>phr_NRows = NumRows db, phr_RowLen = RowLen db, phr_SetSize = S, phr_SetGenKey = RandSeed req,
    phr_Hints = map (\<lambda>m. parity_of (FlatDb db) (RowLen db)
      (ggm.elems (NumRows db) S (RandSeed req) (nth_key (ggm_members (NumRows db) S) S (RandSeed req) m))) [0..<n]\<rparr>"
  have "punc_hint_process gather req db = Some ?r"
    using assms(1)
  proof (elim disjE conjE)
    assume "gather = xor_rows_sse"
    then show ?thesis using sse.punc_hint_process_eq [OF sz assms(9,7,10,13)] by simp
  next
    assume g: "gather = xor_rows_avx2 base" "rows_aligned base (RowLen db)"
    show ?thesis unfolding g(1)
      by (rule avx2.punc_hint_process_eq [OF sz assms(9,7,10,13)]) (use aligned_rows g(2) in \<open>auto simp: rows_aligned_def\<close>)
  qed
  then show ?thesis using punc_InitClient_eq [where ReadKey = ReadKey and src = src, OF sz assms(7,8,11-13)] by blast
qed

theorem punc_offline_phase_witness:
  "\<exists>resp c. punc_hint_process (xor_rows_avx2 0) \<lparr>RandSeed = demo_key, NumHintsMultiplier = 1\<rparr>
      \<lparr>NumRows = 4, RowLen = 1, Version = 0, FlatDb = [1, 2, 4, 8]\<rparr> = Some resp \<and>
    punc_InitClient (\<lambda>k. replicate 16 (of_nat k)) resp 7 = Some c \<and> punc_ok [1, 2, 4, 8] c \<and> length (pc_sets c) = 2"
proof -
  have r: "round_sqrt 4 = 2" by (simp add: round_sqrt_def int_sqrt_def upt_rec)
  have e: "enough_ids (ggm_members 4 2) demo_key 2"
    unfolding enough_ids_def by (intro exI [of _ "[2, 3]"]) (simp add: demo_members accepts_def)
  let ?db = "\<lparr>NumRows = 4, RowLen = 1, Version = 0, FlatDb = [1, 2, 4, 8]\<rparr>"
  have "\<exists>resp c. punc_hint_process (xor_rows_avx2 0) \<lparr>RandSeed = demo_key, NumHintsMultiplier = 1\<rparr> ?db = Some resp \<and>
    punc_InitClient (\<lambda>k. replicate 16 (of_nat k)) resp 7 = Some c \<and> punc_ok (FlatDb ?db) c \<and>
    pc_nRows c = NumRows ?db \<and> pc_RowLen c = RowLen ?db \<and> pc_setSize c = 2 \<and> length (pc_sets c) = 2 \<and> pc_randSource c = Suc 7 \<and>
    (\<forall>m < 2. client_set c m = set_of (ggm_members (NumRows ?db) 2) (NumRows ?db) (RandSeed \<lparr>RandSeed = demo_key, NumHintsMultiplier = 1\<rparr>)
      (nth_key (ggm_members (NumRows ?db) 2) 2 (RandSeed \<lparr>RandSeed = demo_key, NumHintsMultiplier = 1\<rparr>) m))"
    by (rule punc_offline_phase [where base = 0]) (use r e in \<open>simp_all add: rows_aligned_def\<close>)
  then show ?thesis by auto
qed

end
