(* ===== verification/MatrixPir.thy ===== *)
theory MatrixPir
  imports Punc
begin

text \<open>
  \<open>pir/pir_matrix.go\<close> and \<open>pir/pir_non_private.go\<close>: the protocol that reads the database as a matrix and asks both servers for
  sums of its lines, and the one that asks for a row in the clear.
\<close>

section \<open>The matrix\<close>

text \<open>
  \<open>int(math.Ceil(math.Sqrt(float64(nRows*rowLen)) / float64(rowLen)))\<close> is the least \<open>w\<close> with \<open>nRows \<le> w * w * rowLen\<close> (the
  rounded root and quotient of doubles have the same ceiling below \<open>2 ^ 50\<close>). For \<open>rowLen = 0\<close> it converts a NaN, whose
  result the language leaves open, and for \<open>nRows = 0\<close> the code divides by zero: both \<open>None\<close>.
\<close>

definition getHeightWidth :: "nat \<Rightarrow> nat \<Rightarrow> (nat \<times> nat) option" where
  "getHeightWidth nRows rowLen =
     (let width = length (takeWhile (\<lambda>w. w * w * rowLen < nRows) [0..<Suc nRows])
      in if rowLen = 0 \<or> width = 0 then None else Some (width, (nRows - 1) div width + 1))"

definition Slice :: "static_db \<Rightarrow> nat \<Rightarrow> nat \<Rightarrow> u8 list option" where
  "Slice db first_row end_row =
     (if first_row \<le> end_row \<and> end_row * RowLen db \<le> length (FlatDb db)
      then Some (take ((end_row - first_row) * RowLen db) (drop (first_row * RowLen db) (FlatDb db))) else None)"

text \<open>One line of the matrix; the last one may be shorter. A slice of negative length panics.\<close>

definition mat_step :: "nat \<Rightarrow> u8 list \<Rightarrow> bool list \<Rightarrow> nat \<Rightarrow> u8 list \<Rightarrow> u8 list option" where
  "mat_step tableWidth flatDb bitVector j out = do {
     b \<leftarrow> rd bitVector j;
     (if b then
        let start = tableWidth * j
        in if length flatDb < start then None
        else let len = (if start + tableWidth \<ge> length flatDb then length flatDb - start else tableWidth)
        in do {
          x \<leftarrow> xorInto (take len out) (take len (drop start flatDb));
          Some (x @ drop len out)
        }
      else Some out)
   }"

definition matBoolVecProduct :: "static_db \<Rightarrow> bool list \<Rightarrow> u8 list option" where
  "matBoolVecProduct db bitVector = do {
     (width, height) \<leftarrow> getHeightWidth (NumRows db) (RowLen db);
     flatDb \<leftarrow> Slice db 0 (NumRows db);
     for_range 0 height (mat_step (RowLen db * width) flatDb bitVector) (zeros (width * RowLen db))
   }"

section \<open>The client of the matrix protocol\<close>

record matrix_client =
  mx_nRows :: nat
  mx_height :: nat
  mx_width :: nat
  mx_rowLen :: nat
  mx_randSource :: nat

text \<open>The hint is the size of the database: rows and row length.\<close>

definition matrix_hint_process :: "static_db \<Rightarrow> nat \<times> nat" where
  "matrix_hint_process db = (NumRows db, RowLen db)"

definition matrix_InitClient :: "nat \<times> nat \<Rightarrow> nat \<Rightarrow> matrix_client option" where
  "matrix_InitClient resp src = do {
     (w, h) \<leftarrow> getHeightWidth (fst resp) (snd resp);
     Some \<lparr>mx_nRows = fst resp, mx_height = h, mx_width = w, mx_rowLen = snd resp, mx_randSource = src\<rparr>
   }"

text \<open>\<open>U64 k\<close> is the draw number \<open>k\<close> of \<open>randSource.Uint64\<close>. The result has the two requests and the column for the closure.\<close>

definition matrix_Query :: "(nat \<Rightarrow> u64) \<Rightarrow> matrix_client \<Rightarrow> int \<Rightarrow> (matrix_client \<times> bool list \<times> bool list \<times> int) option" where
  "matrix_Query U64 c idx =
     (if mx_width c = 0 then None
      else
        let rowNum = idx sdiv int (mx_width c);
          colNum = idx smod int (mx_width c);
          qL = map (\<lambda>i. U64 (mx_randSource c + i) AND 1 = 0) [0..<mx_height c];
          qR = map (\<lambda>i. qL ! i \<noteq> (int i = rowNum)) [0..<mx_height c]
        in Some (c\<lparr>mx_randSource := mx_randSource c + mx_height c\<rparr>, qL, qR, colNum))"

definition matrix_reconstruct :: "matrix_client \<Rightarrow> int \<Rightarrow> u8 list list \<Rightarrow> u8 list option" where
  "matrix_reconstruct c colNum resp = do {
     l \<leftarrow> rd resp 0;
     out \<leftarrow> xorInto (zeros (length l)) l;
     r \<leftarrow> rd resp 1;
     out \<leftarrow> xorInto out r;
     let lo = int (mx_rowLen c) * colNum;
     let hi = int (mx_rowLen c) * (colNum + 1);
     (if 0 \<le> lo \<and> lo \<le> hi \<and> hi \<le> int (length out) then Some (take (nat (hi - lo)) (drop (nat lo) out)) else None)
   }"

definition matrix_closure :: "matrix_client \<Rightarrow> int \<Rightarrow> response list \<Rightarrow> (go_error + u8 list) option" where
  "matrix_closure c colNum resps =
     (case answers resps of
       None \<Rightarrow> Some (Inl InvalidResponseType)
     | Some as \<Rightarrow> map_option Inr (matrix_reconstruct c colNum as))"

definition matrix_DummyQuery :: "(nat \<Rightarrow> u64) \<Rightarrow> matrix_client \<Rightarrow> (matrix_client \<times> bool list \<times> bool list) option" where
  "matrix_DummyQuery U64 c = map_option (\<lambda>(c, qL, qR, _). (c, qL, qR)) (matrix_Query U64 c 0)"

text \<open>A query with its two answers.\<close>

definition matrix_round :: "(nat \<Rightarrow> u64) \<Rightarrow> static_db \<Rightarrow> static_db \<Rightarrow> matrix_client \<Rightarrow> int \<Rightarrow> (matrix_client \<times> (go_error + u8 list)) option" where
  "matrix_round U64 dbL dbR c idx = do {
     (c, qL, qR, colNum) \<leftarrow> matrix_Query U64 c idx;
     aL \<leftarrow> matBoolVecProduct dbL qL;
     aR \<leftarrow> matBoolVecProduct dbR qR;
     r \<leftarrow> matrix_closure c colNum [QueryResp aL, QueryResp aR];
     Some (c, r)
   }"

section \<open>The protocol without privacy\<close>

definition nonprivate_process :: "int \<Rightarrow> static_db \<Rightarrow> u8 list option" where
  "nonprivate_process idx db =
     (if 0 \<le> idx \<and> (nat idx + 1) * RowLen db \<le> length (FlatDb db)
      then Some (take (RowLen db) (drop (nat idx * RowLen db) (FlatDb db))) else None)"

text \<open>The closure takes the first response and panics when it is of another type.\<close>

fun nonprivate_closure :: "response list \<Rightarrow> u8 list option" where
  "nonprivate_closure (QueryResp a # _) = Some a"
| "nonprivate_closure _ = None"

definition nonprivate_round :: "static_db \<Rightarrow> static_db \<Rightarrow> int \<Rightarrow> u8 list option" where
  "nonprivate_round dbL dbR idx = do {
     aL \<leftarrow> nonprivate_process idx dbL;
     aR \<leftarrow> nonprivate_process idx dbR;
     nonprivate_closure [QueryResp aL, QueryResp aR]
   }"

section \<open>The size of the matrix\<close>

lemma getHeightWidth:
  assumes "0 < N" "0 < R"
  shows "\<exists>w. getHeightWidth N R = Some (w, (N - 1) div w + 1) \<and> 0 < w \<and> N \<le> w * w * R \<and> (\<forall>v < w. v * v * R < N)"
proof -
  let ?P = "\<lambda>w. w * w * R < N" and ?xs = "[0..<Suc N]"
  let ?w = "length (takeWhile ?P ?xs)"
  have all: "?P v" if "v < ?w" for v
  proof -
    have "takeWhile ?P ?xs ! v \<in> set (takeWhile ?P ?xs)" using that by (rule nth_mem)
    then have P: "?P (takeWhile ?P ?xs ! v)" using set_takeWhileD by fast
    have "v < length ?xs" using that length_takeWhile_le [of ?P ?xs] by (rule less_le_trans)
    then have "takeWhile ?P ?xs ! v = v" using takeWhile_nth [OF that] by (simp del: upt_Suc)
    with P show ?thesis by (simp only:)
  qed
  have "?w < Suc N"
  proof (rule ccontr)
    assume "\<not> ?w < Suc N"
    then have "N < ?w" by (simp only: not_less Suc_le_eq)
    from all [OF this] have "N * N * R < N" .
    moreover have "0 < N * R" using assms by simp
    then have "N * 1 \<le> N * (N * R)" by (intro mult_le_mono2) linarith
    ultimately show False unfolding mult.assoc mult_1_right by linarith
  qed
  then have l: "?w < length ?xs" by (simp del: upt_Suc)
  then have "\<not> ?P (?xs ! ?w)" by (rule nth_length_takeWhile)
  then have "N \<le> ?w * ?w * R" using l by (simp del: upt_Suc)
  moreover from this have "0 < ?w" using assms(1) by (cases ?w) auto
  ultimately show ?thesis using all assms(2) by (intro exI [of _ ?w]) (simp add: getHeightWidth_def Let_def del: upt_Suc)
qed

lemma matrix_cell:
  assumes "0 < w" "i < (N :: nat)"
  shows "i div w < (N - 1) div w + 1" "i div w * w + i mod w = i" "i mod w < w"
proof -
  have "i \<le> N - 1" using assms(2) by simp
  then have "i div w \<le> (N - 1) div w" by (rule div_le_mono)
  then show "i div w < (N - 1) div w + 1" by simp
qed (use assms in simp_all)

lemma cell_bytes: "r * w + m = k \<Longrightarrow> R * w * r + (R * m + p) = k * R + (p :: nat)"
  by (auto simp: algebra_simps)

section \<open>Sums of lines\<close>

text \<open>Byte \<open>p\<close> of the sum of the chosen lines below \<open>m\<close>, where the last line may be short.\<close>

primrec line_sum :: "bool list \<Rightarrow> u8 list \<Rightarrow> nat \<Rightarrow> nat \<Rightarrow> nat \<Rightarrow> u8" where
  "line_sum bits flat tw p 0 = 0"
| "line_sum bits flat tw p (Suc m) =
     line_sum bits flat tw p m XOR (if bits ! m \<and> tw * m + p < length flat then flat ! (tw * m + p) else 0)"

lemma line_sum_differ:
  assumes "\<forall>j < m. bits' ! j = (bits ! j \<noteq> (j = r))"
  shows "line_sum bits flat tw p m XOR line_sum bits' flat tw p m =
    (if r < m \<and> tw * r + p < length flat then flat ! (tw * r + p) else 0)"
  using assms
proof (induction m)
  case (Suc m)
  have "line_sum bits flat tw p (Suc m) XOR line_sum bits' flat tw p (Suc m) =
    (line_sum bits flat tw p m XOR line_sum bits' flat tw p m) XOR
    ((if bits ! m \<and> tw * m + p < length flat then flat ! (tw * m + p) else 0) XOR
     (if bits' ! m \<and> tw * m + p < length flat then flat ! (tw * m + p) else 0))"
    by (simp only: line_sum.simps ac_simps)
  also have "\<dots> = (if r < Suc m \<and> tw * r + p < length flat then flat ! (tw * r + p) else 0)"
    using Suc by (auto simp: less_Suc_eq)
  finally show ?case .
qed simp

lemma mat_step_eq:
  assumes "j < length bits" "tw * j \<le> length flat" "length out = tw" "\<forall>p < tw. out ! p = line_sum bits flat tw p j"
  shows "\<exists>t. mat_step tw flat bits j out = Some t \<and> length t = tw \<and> (\<forall>p < tw. t ! p = line_sum bits flat tw p (Suc j))"
proof (cases "bits ! j")
  case True
  let ?len = "if tw * j + tw \<ge> length flat then length flat - tw * j else tw"
  let ?x = "map2 (XOR) (take ?len out) (take ?len (drop (tw * j) flat))"
  have l: "?len \<le> tw" "length (take ?len out) = ?len" "length (take ?len (drop (tw * j) flat)) = ?len" using assms(2,3) by auto
  then have lx: "length ?x = ?len" by simp
  have "mat_step tw flat bits j out = Some (?x @ drop ?len out)"
    using True assms(1,2) l by (simp add: mat_step_def rd_in Let_def xorInto_def)
  moreover have "length (?x @ drop ?len out) = tw" using lx l(1) assms(3) by simp
  moreover have "(?x @ drop ?len out) ! p = line_sum bits flat tw p (Suc j)" if p: "p < tw" for p
  proof (cases "p < ?len")
    case inside: True
    then have "tw * j + p < length flat" using assms(2) by (simp split: if_splits)
    then show ?thesis using inside lx True p assms l by (simp add: nth_append)
  next
    case False
    then have "\<not> tw * j + p < length flat" using p by (simp split: if_splits)
    then show ?thesis using False lx p assms l(1) by (simp add: nth_append)
  qed
  ultimately show ?thesis by blast
next
  case False
  then show ?thesis using assms by (simp add: mat_step_def rd_in)
qed

lemma matBoolVecProduct_eq:
  assumes "0 < NumRows db" "0 < RowLen db" "NumRows db * RowLen db \<le> length (FlatDb db)"
    and w: "getHeightWidth (NumRows db) (RowLen db) = Some (w, h)" "h = (NumRows db - 1) div w + 1" "0 < w" and l: "length bits = h"
  shows "\<exists>out. matBoolVecProduct db bits = Some out \<and> length out = RowLen db * w \<and>
    (\<forall>p < RowLen db * w. out ! p = line_sum bits (take (NumRows db * RowLen db) (FlatDb db)) (RowLen db * w) p h)"
proof -
  let ?flat = "take (NumRows db * RowLen db) (FlatDb db)" and ?tw = "RowLen db * w"
  define P where "P j out \<longleftrightarrow> length out = ?tw \<and> (\<forall>p < ?tw. out ! p = line_sum bits ?flat ?tw p j)" for j and out :: "u8 list"
  have lf: "length ?flat = NumRows db * RowLen db" using assms(3) by simp
  have "\<exists>t. for_range 0 h (mat_step ?tw ?flat bits) (zeros ?tw) = Some t \<and> P h t"
  proof (rule for_range_inv)
    show "P 0 (zeros ?tw)" by (simp add: P_def zeros_def)
    fix j out assume j: "j < h" and "P j out"
    then have out: "length out = ?tw" "\<forall>p < ?tw. out ! p = line_sum bits ?flat ?tw p j" by (simp_all add: P_def)
    have "j \<le> (NumRows db - 1) div w" using j w(2) by simp
    then have "j * w \<le> NumRows db - 1" using w(3) by (simp add: less_eq_div_iff_mult_less_eq)
    then have "w * j \<le> NumRows db" by (simp add: mult.commute)
    then have "RowLen db * (w * j) \<le> RowLen db * NumRows db" by (rule mult_le_mono2)
    then have "?tw * j \<le> length ?flat" unfolding lf by (simp add: ac_simps)
    then show "\<exists>t. mat_step ?tw ?flat bits j out = Some t \<and> P (Suc j) t"
      unfolding P_def using mat_step_eq [OF _ _ out] j l by simp
  qed simp
  then show ?thesis
    using assms(3) w(1) by (simp add: matBoolVecProduct_def Slice_def P_def mult.commute)
qed

section \<open>A query round\<close>

definition matrix_ok :: "static_db \<Rightarrow> matrix_client \<Rightarrow> bool" where
  "matrix_ok db c \<longleftrightarrow> 0 < NumRows db \<and> 0 < RowLen db \<and> NumRows db * RowLen db \<le> length (FlatDb db) \<and>
     mx_nRows c = NumRows db \<and> mx_rowLen c = RowLen db \<and>
     getHeightWidth (NumRows db) (RowLen db) = Some (mx_width c, mx_height c) \<and>
     0 < mx_width c \<and> mx_height c = (NumRows db - 1) div mx_width c + 1"

lemma matrix_InitClient_eq:
  assumes "0 < NumRows db" "0 < RowLen db" "NumRows db * RowLen db \<le> length (FlatDb db)"
  shows "\<exists>c. matrix_InitClient (matrix_hint_process db) src = Some c \<and> matrix_ok db c \<and> mx_randSource c = src \<and>
    NumRows db \<le> mx_width c * mx_width c * RowLen db \<and> (\<forall>v < mx_width c. v * v * RowLen db < NumRows db)"
  using getHeightWidth [OF assms(1,2)] assms by (auto simp: matrix_InitClient_def matrix_hint_process_def matrix_ok_def)

lemma sdiv_smod_nat: "int k sdiv int w = int (k div w)" "int k smod int w = int (k mod w)"
  by (auto simp: signed_divide_int_def signed_modulo_int_def zdiv_int zmod_int sgn_if)

definition coin_bits :: "(nat \<Rightarrow> u64) \<Rightarrow> nat \<Rightarrow> nat \<Rightarrow> bool list" where
  "coin_bits U64 src h = map (\<lambda>i. U64 (src + i) AND 1 = 0) [0..<h]"

definition flip_at :: "nat \<Rightarrow> bool list \<Rightarrow> bool list" where
  "flip_at r bs = map (\<lambda>i. bs ! i \<noteq> (i = r)) [0..<length bs]"

lemma length_coin_bits [simp]: "length (coin_bits U64 src h) = h" "length (flip_at r bs) = length bs"
  by (simp_all add: coin_bits_def flip_at_def)

lemma flip_at_flip_at [simp]: "flip_at r (flip_at r bs) = bs"
  by (rule nth_equalityI) (auto simp: flip_at_def)

text \<open>A source that draws the bits of a list.\<close>

definition bit_source :: "bool list \<Rightarrow> nat \<Rightarrow> u64" where
  "bit_source bs k = (if k < length bs \<and> bs ! k then 0 else 1)"

lemma coin_bits_source: "length bs = h \<Longrightarrow> coin_bits (bit_source bs) 0 h = bs"
  by (rule nth_equalityI) (auto simp: coin_bits_def bit_source_def)

lemma matrix_Query_eq:
  assumes "matrix_ok db c"
  shows "matrix_Query U64 c (int k) = Some (c\<lparr>mx_randSource := mx_randSource c + mx_height c\<rparr>,
    coin_bits U64 (mx_randSource c) (mx_height c),
    flip_at (k div mx_width c) (coin_bits U64 (mx_randSource c) (mx_height c)), int (k mod mx_width c))"
  using assms by (simp add: matrix_Query_def matrix_ok_def Let_def sdiv_smod_nat coin_bits_def flip_at_def)

lemma matrix_reconstruct_eq:
  assumes "mx_rowLen c = R" "length l = length r" "R * (col + 1) \<le> length l"
  shows "matrix_reconstruct c (int col) [l, r] = Some (take R (drop (R * col) (map2 (XOR) l r)))"
proof -
  have "int R * int col = int (R * col)" "int R * (int col + 1) = int (R * col + R)" by (simp_all add: algebra_simps)
  moreover have "nat (int (R * col + R) - int (R * col)) = R" by (simp only: of_nat_add add_diff_cancel_left' nat_int)
  moreover have "R * col + R \<le> length l" using assms(3) by simp
  moreover have "xorInto (zeros (length l)) l = Some l" "xorInto l r = Some (map2 (XOR) l r)"
    using assms(2) by (simp_all add: xorInto_def zeros_def map2_xor_0)
  ultimately show ?thesis using assms(1,2) by (simp add: matrix_reconstruct_def rd_in Let_def del: of_nat_mult of_nat_add)
qed

lemma matrix_round_eq:
  assumes ok: "matrix_ok db c" and k: "k < NumRows db"
  shows "\<exists>c'. matrix_round U64 db db c (int k) = Some (c', Inr (row (FlatDb db) (k * RowLen db) (RowLen db))) \<and> matrix_ok db c'"
proof -
  let ?R = "RowLen db" and ?w = "mx_width c" and ?h = "mx_height c" and ?flat = "take (NumRows db * RowLen db) (FlatDb db)"
  let ?r = "k div mx_width c" and ?col = "k mod mx_width c"
  let ?L = "coin_bits U64 (mx_randSource c) ?h"
  have z: "0 < NumRows db" "0 < ?R" "NumRows db * ?R \<le> length (FlatDb db)"
    and w: "getHeightWidth (NumRows db) ?R = Some (?w, ?h)" "?h = (NumRows db - 1) div ?w + 1" "0 < ?w" and c: "mx_rowLen c = ?R"
    using ok by (simp_all add: matrix_ok_def)
  obtain oL where oL: "matBoolVecProduct db ?L = Some oL" "length oL = ?R * ?w" "\<forall>p < ?R * ?w. oL ! p = line_sum ?L ?flat (?R * ?w) p ?h"
    using matBoolVecProduct_eq [OF z w, of ?L] by auto
  obtain oR where oR: "matBoolVecProduct db (flip_at ?r ?L) = Some oR" "length oR = ?R * ?w"
      "\<forall>p < ?R * ?w. oR ! p = line_sum (flip_at ?r ?L) ?flat (?R * ?w) p ?h"
    using matBoolVecProduct_eq [OF z w, of "flip_at ?r ?L"] by auto
  let ?out = "map2 (XOR) oL oR"
  note cell = matrix_cell [OF w(3) k]
  have r: "?r < ?h" using cell(1) w(2) by simp
  have out: "?out ! p = (if ?R * ?w * ?r + p < length ?flat then ?flat ! (?R * ?w * ?r + p) else 0)" if "p < ?R * ?w" for p
    using line_sum_differ [of ?h "flip_at ?r ?L" ?L ?r ?flat "?R * ?w" p] that oL(2,3) oR(2,3) r by (simp add: flip_at_def)
  have e: "?R * (?col + 1) \<le> ?R * ?w" using cell(3) by (intro mult_le_mono2) simp
  have lo: "length ?out = ?R * ?w" using oL(2) oR(2) by simp
  have lf: "length ?flat = NumRows db * ?R" using z(3) by simp
  have slice: "take ?R (drop (?R * ?col) ?out) = row (FlatDb db) (k * ?R) ?R"
  proof (rule nth_equalityI)
    have ke: "k * ?R + ?R \<le> NumRows db * ?R" using row_end [OF k order_refl] .
    show "length (take ?R (drop (?R * ?col) ?out)) = length (row (FlatDb db) (k * ?R) ?R)"
      using e lo ke z(3) by (simp add: row_def)
    fix p assume "p < length (take ?R (drop (?R * ?col) ?out))"
    then have p: "p < ?R" by simp
    have i: "?R * ?col + p < ?R * ?w" using e p by simp
    have a: "?R * ?w * ?r + (?R * ?col + p) = k * ?R + p" by (rule cell_bytes [OF cell(2)])
    have "k * ?R + p < length ?flat" using ke p lf by linarith
    then have "?out ! (?R * ?col + p) = ?flat ! (k * ?R + p)" using out [OF i] unfolding a by (simp only: if_True)
    also have "\<dots> = FlatDb db ! (k * ?R + p)" using ke p by simp
    finally have "?out ! (?R * ?col + p) = FlatDb db ! (k * ?R + p)" .
    moreover have "drop (?R * ?col) ?out ! p = ?out ! (?R * ?col + p)" using cell(3) by (intro nth_drop) (simp add: lo less_imp_le del: length_map length_zip)
    ultimately show "take ?R (drop (?R * ?col) ?out) ! p = row (FlatDb db) (k * ?R) ?R ! p"
      using p ke z(3) by (simp add: row_def del: nth_map nth_zip)
  qed
  have "matrix_reconstruct c' (int ?col) [oL, oR] = Some (row (FlatDb db) (k * ?R) ?R)" if "mx_rowLen c' = ?R" for c'
    using matrix_reconstruct_eq [OF that, of oL oR ?col] oL(2) oR(2) e slice by simp
  then show ?thesis
    using matrix_Query_eq [OF ok, of U64 k] oL(1) oR(1) c ok
    by (simp add: matrix_round_def matrix_closure_def matrix_ok_def)
qed

lemma nonprivate_round_eq:
  assumes "k < NumRows db" "NumRows db * RowLen db \<le> length (FlatDb db)"
  shows "nonprivate_round db db (int k) = Some (row (FlatDb db) (k * RowLen db) (RowLen db))"
  using row_end [OF assms] by (simp add: nonprivate_round_def nonprivate_process_def row_def add.commute)

section \<open>Properties\<close>

text \<open>C20: the matrix protocol: the client made from the hint asks for lines of the smallest width whose square holds the database, and every
  query returns the row it asks for, whatever the random source draws; the client stays as it is, so the next query works as well.\<close>

theorem matrix_round_correct:
  assumes "0 < NumRows db" "0 < RowLen db" "NumRows db * RowLen db \<le> length (FlatDb db)" "0 \<le> i" "i < int (NumRows db)"
  shows "\<exists>c c'. matrix_InitClient (matrix_hint_process db) src = Some c \<and>
    NumRows db \<le> mx_width c * mx_width c * RowLen db \<and> (\<forall>v < mx_width c. v * v * RowLen db < NumRows db) \<and>
    matrix_round U64 db db c i = Some (c', Inr (row (FlatDb db) (nat i * RowLen db) (RowLen db))) \<and> matrix_ok db c'"
proof -
  obtain k where k: "i = int k" "k < NumRows db" using assms(4,5) by (metis nonneg_int_cases of_nat_less_iff)
  obtain c where c: "matrix_InitClient (matrix_hint_process db) src = Some c" "matrix_ok db c"
    "NumRows db \<le> mx_width c * mx_width c * RowLen db" "\<forall>v < mx_width c. v * v * RowLen db < NumRows db"
    using matrix_InitClient_eq [OF assms(1-3)] by blast
  then show ?thesis using matrix_round_eq [OF c(2) k(2), of U64] k(1) by auto
qed

theorem matrix_round_correct_witness:
  "\<exists>c c'. matrix_InitClient (matrix_hint_process \<lparr>NumRows = 3, RowLen = 1, Version = 0, FlatDb = [5, 6, 7]\<rparr>) 0 = Some c \<and>
    matrix_round of_nat \<lparr>NumRows = 3, RowLen = 1, Version = 0, FlatDb = [5, 6, 7]\<rparr>
      \<lparr>NumRows = 3, RowLen = 1, Version = 0, FlatDb = [5, 6, 7]\<rparr> c 2 = Some (c', Inr [7])"
  using matrix_round_correct [of "\<lparr>NumRows = 3, RowLen = 1, Version = 0, FlatDb = [5, 6, 7]\<rparr>" 2 0 of_nat] by (auto simp: row_def)

text \<open>C21: neither server of the matrix protocol learns anything: whatever row is asked for, every request that the left server can receive comes
  from exactly one choice of the random bits, and so does every request that the right one can receive.\<close>

theorem matrix_servers_learn_nothing:
  assumes "matrix_ok db c" "mx_randSource c = 0" "0 \<le> i" "i < int (NumRows db)" "length v = mx_height c"
  shows "(\<exists>!bs. length bs = mx_height c \<and> (\<exists>c' qR col. matrix_Query (bit_source bs) c i = Some (c', v, qR, col))) \<and>
    (\<exists>!bs. length bs = mx_height c \<and> (\<exists>c' qL col. matrix_Query (bit_source bs) c i = Some (c', qL, v, col)))"
proof -
  obtain k where k: "i = int k" using assms(3) by (metis nonneg_int_cases)
  have q: "matrix_Query (bit_source bs) c i = Some (c\<lparr>mx_randSource := mx_height c\<rparr>, bs, flip_at (k div mx_width c) bs, int (k mod mx_width c))"
    if "length bs = mx_height c" for bs
    using matrix_Query_eq [OF assms(1), of "bit_source bs" k] k assms(2) coin_bits_source [OF that] by simp
  have L: "length bs = mx_height c \<and> (\<exists>c' qR col. matrix_Query (bit_source bs) c i = Some (c', v, qR, col)) \<longleftrightarrow> bs = v"
    and R: "length bs = mx_height c \<and> (\<exists>c' qL col. matrix_Query (bit_source bs) c i = Some (c', qL, v, col)) \<longleftrightarrow>
      bs = flip_at (k div mx_width c) v" for bs
    using q [of bs] assms(5) by auto
  show ?thesis unfolding L R by simp
qed

theorem matrix_servers_learn_nothing_witness:
  "\<exists>c. matrix_InitClient (3, 1) 0 = Some c \<and> mx_height c = 2 \<and>
    (\<exists>!bs. length bs = 2 \<and> (\<exists>c' qL col. matrix_Query (bit_source bs) c 2 = Some (c', qL, [True, False], col)))"
proof -
  let ?db = "\<lparr>NumRows = 3, RowLen = 1, Version = 0, FlatDb = [5, 6, 7]\<rparr>"
  obtain c where c: "matrix_InitClient (matrix_hint_process ?db) 0 = Some c" "matrix_ok ?db c" "mx_randSource c = 0"
    using matrix_InitClient_eq [of ?db 0] by auto
  have "mx_height c = 2" using c(2) by (auto simp: matrix_ok_def getHeightWidth_def upt_rec Let_def split: if_splits dest!: sym [of _ "mx_width c"] simp flip: numeral_2_eq_2)
  then show ?thesis
    using matrix_servers_learn_nothing [OF c(2,3), of 2 "[True, False]"] c(1) by (simp add: matrix_hint_process_def)
qed

end
