(* ===== verification/Reader.thy ===== *)
theory Reader
  imports Dynamic PuncOffline MatrixPir
begin

text \<open>
  \<open>pir/pir_reader.go\<close>: the reader that an application uses. It holds a client of any of the protocols behind the interface
  \<open>Client\<close> of \<open>pir.go\<close>, here a record of functions, and two servers. What a reader needs of a protocol is the locale
  \<open>pir_client\<close>, interpreted on the single-pass, the puncturable-set, the matrix and the trivial protocol.
\<close>

section \<open>The interface\<close>

text \<open>A query gives two requests and what its closure remembers, or two nil results; the closure takes the two responses.\<close>

record ('c, 'q, 'p, 'a, 'e) Client =
  cl_Query :: "'c \<Rightarrow> int \<Rightarrow> ('c \<times> ('q \<times> 'q \<times> 'p) option) option"
  cl_closure :: "'c \<Rightarrow> 'p \<Rightarrow> 'a list \<Rightarrow> ('c \<times> ('e + u8 list)) option"

datatype 'e read_error = InitForgotten | FailedToQuery int | AnswerError 'e | ClosureError 'e

text \<open>\<open>Read\<close>: \<open>None\<close> as the client stands for a nil \<open>impl\<close>; the errors of the servers and of the closure are passed on.\<close>

definition reader_Read :: "('c, 'q, 'p, 'a, 'e) Client \<Rightarrow> ('q \<Rightarrow> ('e + 'a) option) \<Rightarrow> ('q \<Rightarrow> ('e + 'a) option) \<Rightarrow> 'c option \<Rightarrow> int \<Rightarrow>
    ('c option \<times> ('e read_error + u8 list)) option" where
  "reader_Read cl answerL answerR impl i =
     (case impl of
       None \<Rightarrow> Some (None, Inl InitForgotten)
     | Some c \<Rightarrow> do {
         (c, q) \<leftarrow> cl_Query cl c i;
         (case q of
           None \<Rightarrow> Some (Some c, Inl (FailedToQuery i))
         | Some (qL, qR, p) \<Rightarrow> do {
             rL \<leftarrow> answerL qL;
             (case rL of
               Inl e \<Rightarrow> Some (Some c, Inl (AnswerError e))
             | Inr aL \<Rightarrow> do {
                 rR \<leftarrow> answerR qR;
                 (case rR of
                   Inl e \<Rightarrow> Some (Some c, Inl (AnswerError e))
                 | Inr aR \<Rightarrow> map_option (\<lambda>(c, r). (Some c, map_sum ClosureError id r)) (cl_closure cl c p [aL, aR]))
               })
           })
       })"

text \<open>\<open>Answer\<close> of a static database: \<open>Process\<close> of the request, which returns no error.\<close>

definition StaticDB_Answer :: "('q \<Rightarrow> static_db \<Rightarrow> 'a option) \<Rightarrow> static_db \<Rightarrow> 'q \<Rightarrow> ('e + 'a) option" where
  "StaticDB_Answer process db q = map_option Inr (process q db)"

text \<open>\<open>Update\<close> of the reader, which holds a single-pass client or another one. The result of the update closure is dropped.\<close>

datatype update_error = NoInit | OnlySinglePass | ServerError go_error

definition reader_Update :: "into_kernel \<Rightarrow> rand \<Rightarrow> dynamic_db \<Rightarrow> rng \<Rightarrow> (client + 'o) option \<Rightarrow>
    (rng \<times> (client + 'o) option \<times> update_error option) option" where
  "reader_Update into RAND ddb rng impl =
     (case impl of
       None \<Rightarrow> Some (rng, impl, Some NoInit)
     | Some (Inr _) \<Rightarrow> Some (rng, impl, Some OnlySinglePass)
     | Some (Inl c) \<Rightarrow> do {
         r \<leftarrow> GetUpdates (c_currVersion c) ddb;
         (case r of
           Inl e \<Rightarrow> Some (rng, impl, Some (ServerError e))
         | Inr resp \<Rightarrow> do {
             (rng, x) \<leftarrow> update_closure into RAND resp (rng, c);
             Some (rng, (case x of Inl _ \<Rightarrow> impl | Inr c \<Rightarrow> Some (Inl c)), None)
           })
       })"

section \<open>The four protocols behind the interface\<close>

definition single_pass_client :: "into_kernel \<Rightarrow> rows_kernel \<Rightarrow> (nat \<Rightarrow> nat \<Rightarrow> nat) \<Rightarrow> (client, query_req, pending, response, go_error) Client" where
  "single_pass_client into all_rows Intn =
     \<lparr>cl_Query = \<lambda>c i. map_option (\<lambda>(c, q0, q1, p). (c, Some (q0, q1, p))) (Query Intn c i),
      cl_closure = reconstruct_closure into all_rows\<rparr>"

definition punc_pir_client :: "(nat \<Rightarrow> nat \<Rightarrow> nat) \<Rightarrow> (punc_client, punc_query_req, punc_ctx, punc_response, punc_error) Client" where
  "punc_pir_client Intn = \<lparr>cl_Query = pc_Query Intn, cl_closure = pc_closure\<rparr>"

definition matrix_pir_client :: "(nat \<Rightarrow> u64) \<Rightarrow> (matrix_client, bool list, int, response, go_error) Client" where
  "matrix_pir_client U64 =
     \<lparr>cl_Query = \<lambda>c i. map_option (\<lambda>(c, qL, qR, col). (c, Some (qL, qR, col))) (matrix_Query U64 c i),
      cl_closure = \<lambda>c col as. map_option (Pair c) (matrix_closure c col as)\<rparr>"

definition nonprivate_pir_client :: "(unit, int, unit, response, go_error) Client" where
  "nonprivate_pir_client =
     \<lparr>cl_Query = \<lambda>c i. Some (c, Some (i, i, ())), cl_closure = \<lambda>c _ as. map_option (\<lambda>r. (c, Inr r)) (nonprivate_closure as)\<rparr>"

definition single_pass_Answer :: "into_kernel \<Rightarrow> static_db \<Rightarrow> query_req \<Rightarrow> (go_error + response) option" where
  "single_pass_Answer into = StaticDB_Answer (\<lambda>q db. map_option QueryResp (query_process into q db))"

definition punc_Answer :: "gather_kernel_fn \<Rightarrow> scratch \<Rightarrow> static_db \<Rightarrow> punc_query_req \<Rightarrow> (punc_error + punc_response) option" where
  "punc_Answer gather ws = StaticDB_Answer (\<lambda>q db. map_option PuncResp (punc_query_process gather ws q db))"

definition matrix_Answer :: "static_db \<Rightarrow> bool list \<Rightarrow> (go_error + response) option" where
  "matrix_Answer = StaticDB_Answer (\<lambda>q db. map_option QueryResp (matBoolVecProduct db q))"

definition nonprivate_Answer :: "static_db \<Rightarrow> int \<Rightarrow> (go_error + response) option" where
  "nonprivate_Answer = StaticDB_Answer (\<lambda>q db. map_option QueryResp (nonprivate_process q db))"

text \<open>A read is a query round.\<close>

lemmas reader_simps = reader_Read_def StaticDB_Answer_def

lemma read_single_pass:
  "reader_Read (single_pass_client into all_rows Intn) (single_pass_Answer into db0) (single_pass_Answer into db1) (Some c) i =
   map_option (\<lambda>(c, r). (Some c, map_sum ClosureError id r)) (query_round into all_rows Intn db0 db1 c i)"
  by (simp add: reader_simps single_pass_client_def single_pass_Answer_def query_round_def option.map_comp o_def split: Option.bind_split prod.splits)

lemma read_punc:
  "reader_Read (punc_pir_client Intn) (punc_Answer gather wsL dbL) (punc_Answer gather wsR dbR) (Some c) i =
   map_option (\<lambda>(c, r). (Some c, case r of None \<Rightarrow> Inl (FailedToQuery i) | Some r \<Rightarrow> map_sum ClosureError id r))
     (punc_round gather Intn wsL wsR dbL dbR c i)"
  by (auto simp: reader_simps punc_pir_client_def punc_Answer_def punc_round_def split: option.split Option.bind_split)

lemma read_matrix:
  "reader_Read (matrix_pir_client U64) (matrix_Answer dbL) (matrix_Answer dbR) (Some c) i =
   map_option (\<lambda>(c, r). (Some c, map_sum ClosureError id r)) (matrix_round U64 dbL dbR c i)"
  by (auto simp: reader_simps matrix_pir_client_def matrix_Answer_def matrix_round_def option.map_comp o_def split: Option.bind_split)

lemma read_nonprivate:
  "reader_Read nonprivate_pir_client (nonprivate_Answer dbL) (nonprivate_Answer dbR) (Some ()) i =
   map_option (\<lambda>r. (Some (), Inr r)) (nonprivate_round dbL dbR i)"
  by (auto simp: reader_simps nonprivate_pir_client_def nonprivate_Answer_def nonprivate_round_def split: Option.bind_split)

section \<open>What a reader needs\<close>

abbreviation row_at :: "static_db \<Rightarrow> int \<Rightarrow> u8 list" where
  "row_at db i \<equiv> row (FlatDb db) (nat i * RowLen db) (RowLen db)"

text \<open>
  A protocol keeps an invariant with the database, and in a state that is ready it reads every row that it holds; for any other row \<open>Query\<close>
  gives up. The single-pass, the matrix and the trivial protocol are always ready and hold all rows.
\<close>

locale pir_client =
  fixes cl :: "('c, 'q, 'p, 'a, 'e) Client" and answerL answerR :: "'q \<Rightarrow> ('e + 'a) option"
    and db :: static_db and inv ready :: "'c \<Rightarrow> bool" and held :: "'c \<Rightarrow> int \<Rightarrow> bool"
  assumes read: "inv c \<Longrightarrow> ready c \<Longrightarrow> 0 \<le> i \<Longrightarrow> i < int (NumRows db) \<Longrightarrow>
    \<exists>c'. inv c' \<and> reader_Read cl answerL answerR (Some c) i =
      Some (Some c', if held c i then Inr (row_at db i) else Inl (FailedToQuery i))"

text \<open>The clients after some reads.\<close>

inductive reads :: "('c, 'q, 'p, 'a, 'e) Client \<Rightarrow> ('q \<Rightarrow> ('e + 'a) option) \<Rightarrow> ('q \<Rightarrow> ('e + 'a) option) \<Rightarrow> nat \<Rightarrow> ('c \<Rightarrow> bool) \<Rightarrow> 'c \<Rightarrow> 'c \<Rightarrow> bool"
  for cl answerL answerR n ready where
  no_read: "reads cl answerL answerR n ready c c"
| one_read: "reads cl answerL answerR n ready c d \<Longrightarrow> ready d \<Longrightarrow> 0 \<le> i \<Longrightarrow> i < int n \<Longrightarrow>
    reader_Read cl answerL answerR (Some d) i = Some (Some e, r) \<Longrightarrow> reads cl answerL answerR n ready c e"

context pir_client
begin

lemma reads_inv: "reads cl answerL answerR (NumRows db) ready c d \<Longrightarrow> inv c \<Longrightarrow> inv d"
proof (induction rule: reads.induct)
  case (one_read c d i e r)
  obtain c' where c': "inv c'" "reader_Read cl answerL answerR (Some d) i =
      Some (Some c', if held d i then Inr (row_at db i) else Inl (FailedToQuery i))"
    using read [OF one_read.IH [OF one_read.prems] one_read.hyps(2-4)] by blast
  then have "e = c'" using one_read.hyps(5) by simp
  then show ?case using c'(1) by simp
qed

lemma read_after:
  assumes "inv c" "reads cl answerL answerR (NumRows db) ready c d" "ready d" "0 \<le> i" "i < int (NumRows db)"
  shows "\<exists>d'. reader_Read cl answerL answerR (Some d) i =
    Some (Some d', if held d i then Inr (row_at db i) else Inl (FailedToQuery i))"
  using read [OF reads_inv [OF assms(2,1)] assms(3-5)] by blast

end

section \<open>The protocols meet it\<close>

definition single_pass_inv :: "(nat \<Rightarrow> nat \<Rightarrow> nat) \<Rightarrow> static_db \<Rightarrow> client \<Rightarrow> bool" where
  "single_pass_inv Intn db c \<longleftrightarrow> Intn_ok Intn \<and> client_ok (FlatDb db) (RowLen db) (nHints c) c \<and> NumRows db = c_nRows c"

lemma single_pass_read:
  assumes k: "k \<in> {(xor_into_sse, xor_all_rows_sse), (xor_into_avx2, xor_all_rows_avx2)}"
    and c: "single_pass_inv Intn db c" and i: "0 \<le> i" "i < int (NumRows db)"
  shows "\<exists>c'. single_pass_inv Intn db c' \<and>
    reader_Read (single_pass_client (fst k) (snd k) Intn) (single_pass_Answer (fst k) db) (single_pass_Answer (fst k) db) (Some c) i =
      Some (Some c', Inr (row_at db i))"
proof -
  have ok: "client_ok (FlatDb db) (RowLen db) (nHints c) c" "Intn_ok Intn" "NumRows db = c_nRows c" using c by (simp_all add: single_pass_inv_def)
  have "\<exists>c'. query_round (fst k) (snd k) Intn db db c i =
      Some (c', Inr (row (FlatDb db) (nat (i mod int (c_nRows c)) * RowLen db) (RowLen db))) \<and>
    client_ok (FlatDb db) (RowLen db) (nHints c) c' \<and> setSize c' = setSize c"
    using k sse.query_round_eq [OF ok(1,2) refl ok(3), of i] avx2.query_round_eq [OF ok(1,2) refl ok(3), of i] by auto
  then obtain c' where c': "query_round (fst k) (snd k) Intn db db c i =
      Some (c', Inr (row (FlatDb db) (nat (i mod int (c_nRows c)) * RowLen db) (RowLen db)))"
    "client_ok (FlatDb db) (RowLen db) (nHints c) c'" "setSize c' = setSize c" by blast
  have "i mod int (c_nRows c) = i" using i ok(3) by simp
  moreover have "single_pass_inv Intn db c'" using c' ok by (simp add: single_pass_inv_def client_ok_def)
  ultimately show ?thesis using c'(1) by (simp add: read_single_pass)
qed

interpretation sp_sse: pir_client "single_pass_client xor_into_sse xor_all_rows_sse Intn" "single_pass_Answer xor_into_sse db"
  "single_pass_Answer xor_into_sse db" db "single_pass_inv Intn db" "\<lambda>_. True" "\<lambda>_ _. True" for Intn db
  using single_pass_read [of "(xor_into_sse, xor_all_rows_sse)"] by unfold_locales simp

interpretation sp_avx2: pir_client "single_pass_client xor_into_avx2 xor_all_rows_avx2 Intn" "single_pass_Answer xor_into_avx2 db"
  "single_pass_Answer xor_into_avx2 db" db "single_pass_inv Intn db" "\<lambda>_. True" "\<lambda>_ _. True" for Intn db
  using single_pass_read [of "(xor_into_avx2, xor_all_rows_avx2)"] by unfold_locales simp

definition punc_inv :: "gather_kernel_fn \<Rightarrow> (nat \<Rightarrow> nat \<Rightarrow> nat) \<Rightarrow> scratch \<Rightarrow> scratch \<Rightarrow> static_db \<Rightarrow> punc_client \<Rightarrow> bool" where
  "punc_inv gather Intn wsL wsR db c \<longleftrightarrow> (gather = xor_rows_sse \<or> (\<exists>base. gather = xor_rows_avx2 base \<and> rows_aligned base (RowLen db))) \<and>
     Intn_ok Intn \<and> Intn_fair Intn (pc_setSize c) \<and> scratch_ok (pc_setSize c) wsL \<and> scratch_ok (pc_setSize c) wsR \<and>
     punc_ok (FlatDb db) c \<and> sets_varied c \<and> RowLen db = pc_RowLen c \<and> NumRows db = pc_nRows c"

interpretation pu: pir_client "punc_pir_client Intn" "punc_Answer gather wsL db" "punc_Answer gather wsR db" db
  "punc_inv gather Intn wsL wsR db" next_ok "\<lambda>c i. \<exists>j < length (pc_sets c). i \<in> set (client_set c j)" for gather Intn wsL wsR db
proof unfold_locales
  fix c i
  assume c: "punc_inv gather Intn wsL wsR db c" and n: "next_ok c" and i: "0 \<le> i" "i < int (NumRows db)"
  obtain base where g: "gather = xor_rows_sse \<or> gather = xor_rows_avx2 base \<and> rows_aligned base (RowLen db)"
    using c unfolding punc_inv_def by blast
  note d = c [unfolded punc_inv_def]
  obtain c' r where r: "punc_round gather Intn wsL wsR db db c i = Some (c', r)" "punc_ok (FlatDb db) c'" "sets_varied c'" "same_size c c'"
    "r = (if \<exists>j < length (pc_sets c). i \<in> set (client_set c j) then Some (Inr (row_at db i)) else None)"
    using punc_round_builds [OF g, of c Intn i wsL wsR] d n i by auto
  have "punc_inv gather Intn wsL wsR db c'" using d r(2-4) by (auto simp: punc_inv_def same_size_def)
  then show "\<exists>c'. punc_inv gather Intn wsL wsR db c' \<and> reader_Read (punc_pir_client Intn) (punc_Answer gather wsL db) (punc_Answer gather wsR db) (Some c) i =
      Some (Some c', if \<exists>j < length (pc_sets c). i \<in> set (client_set c j) then Inr (row_at db i)
        else Inl (FailedToQuery i))"
    using r(1) by (intro exI [of _ c']) (simp add: read_punc r(5))
qed

interpretation mx: pir_client "matrix_pir_client U64" "matrix_Answer db" "matrix_Answer db" db "matrix_ok db" "\<lambda>_. True" "\<lambda>_ _. True" for U64 db
proof unfold_locales
  fix c i
  assume c: "matrix_ok db c" and i: "0 \<le> i" "i < int (NumRows db)"
  obtain k where k: "i = int k" "k < NumRows db" using i by (metis nonneg_int_cases of_nat_less_iff)
  then show "\<exists>c'. matrix_ok db c' \<and> reader_Read (matrix_pir_client U64) (matrix_Answer db) (matrix_Answer db) (Some c) i =
      Some (Some c', if True then Inr (row_at db i) else Inl (FailedToQuery i))"
    using matrix_round_eq [OF c k(2), of U64] by (auto simp: read_matrix)
qed

interpretation np: pir_client nonprivate_pir_client "nonprivate_Answer db" "nonprivate_Answer db" db
  "\<lambda>_. NumRows db * RowLen db \<le> length (FlatDb db)" "\<lambda>_. True" "\<lambda>_ _. True" for db
proof unfold_locales
  fix c :: unit and i
  assume c: "NumRows db * RowLen db \<le> length (FlatDb db)" and i: "0 \<le> i" "i < int (NumRows db)"
  obtain k where k: "i = int k" "k < NumRows db" using i by (metis nonneg_int_cases of_nat_less_iff)
  then show "\<exists>c'. NumRows db * RowLen db \<le> length (FlatDb db) \<and> reader_Read nonprivate_pir_client (nonprivate_Answer db) (nonprivate_Answer db) (Some c) i =
      Some (Some c', if True then Inr (row_at db i) else Inl (FailedToQuery i))"
    using nonprivate_round_eq [OF k(2) c] c by (simp add: read_nonprivate)
qed

section \<open>Updates\<close>

text \<open>With an empty log the update closure fails on the wrong response type, and the reader reports success.\<close>

lemma reader_Update_empty:
  assumes "ops ddb = []" "opInitVersion ddb \<le> c_currVersion c"
  shows "reader_Update into RAND ddb rng (Some (Inl c)) = Some (rng, Some (Inl c), None)"
    and "update_round into RAND ddb (rng, c) = Some (rng, Inl InvalidResponseType)"
  using assms by (simp_all add: reader_Update_def update_round_def GetUpdates_def update_closure_def)

section \<open>Properties\<close>

text \<open>C10: a reader over any of the four protocols: after any reads it reads every row that its client holds, all rows for the single-pass and
  the matrix protocol, and reports a failed query for the others; the single-pass and the puncturable-set protocol in both builds.\<close>

theorem reader_reads_rows:
  assumes "0 \<le> i" "i < int (NumRows db)"
  shows "(kern \<in> {(xor_into_sse, xor_all_rows_sse), (xor_into_avx2, xor_all_rows_avx2)} \<longrightarrow> single_pass_inv Intn db c \<longrightarrow>
      reads (single_pass_client (fst kern) (snd kern) Intn) (single_pass_Answer (fst kern) db) (single_pass_Answer (fst kern) db)
        (NumRows db) (\<lambda>_. True) c d \<longrightarrow>
      (\<exists>d'. reader_Read (single_pass_client (fst kern) (snd kern) Intn) (single_pass_Answer (fst kern) db) (single_pass_Answer (fst kern) db)
        (Some d) i = Some (Some d', Inr (row_at db i)))) \<and>
    (matrix_ok db m \<longrightarrow> reads (matrix_pir_client U64) (matrix_Answer db) (matrix_Answer db) (NumRows db) (\<lambda>_. True) m m' \<longrightarrow>
      (\<exists>m''. reader_Read (matrix_pir_client U64) (matrix_Answer db) (matrix_Answer db) (Some m') i = Some (Some m'', Inr (row_at db i)))) \<and>
    (NumRows db * RowLen db \<le> length (FlatDb db) \<longrightarrow>
      reader_Read nonprivate_pir_client (nonprivate_Answer db) (nonprivate_Answer db) (Some ()) i = Some (Some (), Inr (row_at db i))) \<and>
    (punc_inv gather Intn wsL wsR db p \<longrightarrow>
      reads (punc_pir_client Intn) (punc_Answer gather wsL db) (punc_Answer gather wsR db) (NumRows db) next_ok p q \<longrightarrow> next_ok q \<longrightarrow>
      (\<exists>q'. reader_Read (punc_pir_client Intn) (punc_Answer gather wsL db) (punc_Answer gather wsR db) (Some q) i =
        Some (Some q', if \<exists>j < length (pc_sets q). i \<in> set (client_set q j)
          then Inr (row_at db i) else Inl (FailedToQuery i))))"
proof (intro conjI impI)
  assume k: "kern \<in> {(xor_into_sse, xor_all_rows_sse), (xor_into_avx2, xor_all_rows_avx2)}" and c: "single_pass_inv Intn db c"
    and "reads (single_pass_client (fst kern) (snd kern) Intn) (single_pass_Answer (fst kern) db) (single_pass_Answer (fst kern) db)
        (NumRows db) (\<lambda>_. True) c d"
  then show "\<exists>d'. reader_Read (single_pass_client (fst kern) (snd kern) Intn) (single_pass_Answer (fst kern) db)
      (single_pass_Answer (fst kern) db) (Some d) i = Some (Some d', Inr (row_at db i))"
    using sp_sse.read_after [OF c _ _ assms(1,2)] sp_avx2.read_after [OF c _ _ assms(1,2)] by auto
next
  assume "matrix_ok db m" and "reads (matrix_pir_client U64) (matrix_Answer db) (matrix_Answer db) (NumRows db) (\<lambda>_. True) m m'"
  from mx.read_after [OF this _ assms(1,2)] show "\<exists>m''. reader_Read (matrix_pir_client U64) (matrix_Answer db) (matrix_Answer db) (Some m') i =
      Some (Some m'', Inr (row_at db i))" by simp
next
  assume "NumRows db * RowLen db \<le> length (FlatDb db)"
  from np.read_after [OF this reads.no_read _ assms(1,2)] show "reader_Read nonprivate_pir_client (nonprivate_Answer db) (nonprivate_Answer db) (Some ()) i =
      Some (Some (), Inr (row_at db i))" by simp
next
  assume "punc_inv gather Intn wsL wsR db p" "next_ok q"
    and "reads (punc_pir_client Intn) (punc_Answer gather wsL db) (punc_Answer gather wsR db) (NumRows db) next_ok p q"
  then show "\<exists>q'. reader_Read (punc_pir_client Intn) (punc_Answer gather wsL db) (punc_Answer gather wsR db) (Some q) i =
      Some (Some q', if \<exists>j < length (pc_sets q). i \<in> set (client_set q j)
        then Inr (row_at db i) else Inl (FailedToQuery i))"
    using pu.read_after assms(1,2) by blast
qed

theorem reader_reads_rows_witness:
  "\<exists>db c d' m m'' q'. FlatDb db = [1, 2, 4, 8] \<and>
    reader_Read (single_pass_client xor_into_sse xor_all_rows_sse (\<lambda>k m. k mod m)) (single_pass_Answer xor_into_sse db)
      (single_pass_Answer xor_into_sse db) (Some c) 3 = Some (Some d', Inr [8]) \<and>
    reader_Read (matrix_pir_client of_nat) (matrix_Answer db) (matrix_Answer db) (Some m) 3 = Some (Some m'', Inr [8]) \<and>
    reader_Read nonprivate_pir_client (nonprivate_Answer db) (nonprivate_Answer db) (Some ()) 3 = Some (Some (), Inr [8]) \<and>
    reader_Read (punc_pir_client (\<lambda>k m. k mod m)) (punc_Answer xor_rows_sse \<lparr>ws_keys = [5, 6], ws_tmp = [7, 8], ws_elems = [9]\<rparr> db)
      (punc_Answer xor_rows_sse \<lparr>ws_keys = [0, 1], ws_tmp = [2, 3], ws_elems = [4]\<rparr> db) (Some demo_client) 3 = Some (Some q', Inr [8])"
proof -
  let ?db = "\<lparr>NumRows = 4, RowLen = 1, Version = 0, FlatDb = [1, 2, 4, 8]\<rparr>"
  let ?c = "\<lparr>c_nRows = 4, c_RowLen = 1, setSize = 2, hints = [[9], [6]], nHints = 2, randSource = 0,
    idxToSetIdx = [[0, 1], [1, 0]], setIdxToIdx = [[0, 1], [1, 0]], c_currVersion = 0\<rparr>"
  let ?wsL = "\<lparr>ws_keys = [5, 6], ws_tmp = [7, 8], ws_elems = [9]\<rparr>" and ?wsR = "\<lparr>ws_keys = [0, 1], ws_tmp = [2, 3], ws_elems = [4]\<rparr>"
  let ?I = "\<lambda>k m. k mod m :: nat"
  have two: "(\<forall>j < (2 :: nat). Q j) \<longleftrightarrow> Q 0 \<and> Q 1" for Q by (auto simp: less_2_cases_iff)
  have "inverse_pair 2 [0, 1] [0, 1]" "inverse_pair 2 [1, 0] [1, 0]"
    unfolding inverse_pair_def two by (simp_all add: is_perm_def)
  then have c: "single_pass_inv ?I ?db ?c"
    by (simp add: single_pass_inv_def mod_fair client_ok_def two hint_of_def xors_def row_def upt_rec)
  obtain m where m: "matrix_ok ?db m" using matrix_InitClient_eq [of ?db 0] by auto
  have h: "get_height 2 = 1" by (simp add: get_height_def height_loop.simps)
  have d: "pc_setSize demo_client = 2" "pc_nRows demo_client = 4" "pc_RowLen demo_client = 1" "length (pc_sets demo_client) = 1"
    by (simp_all add: demo_client_def Let_def)
  have p: "punc_inv xor_rows_sse ?I ?wsL ?wsR ?db demo_client"
    using demo_client(2,3) mod_fair d by (simp add: punc_inv_def scratch_ok_def h)
  have held: "\<exists>j < length (pc_sets demo_client). 3 \<in> set (client_set demo_client j)"
    using demo_client(1) d(4) by (intro exI [of _ 0]) simp
  have k: "(xor_into_sse, xor_all_rows_sse) \<in> {(xor_into_sse, xor_all_rows_sse), (xor_into_avx2, xor_all_rows_avx2)}" by simp
  have i: "(0 :: int) \<le> 3" "3 < int (NumRows ?db)" by simp_all
  note R = reader_reads_rows [OF i]
  have a1: "\<exists>d'. reader_Read (single_pass_client xor_into_sse xor_all_rows_sse ?I) (single_pass_Answer xor_into_sse ?db)
      (single_pass_Answer xor_into_sse ?db) (Some ?c) 3 = Some (Some d', Inr [8])"
    using conjunct1 [OF R, of "(xor_into_sse, xor_all_rows_sse)" ?I ?c ?c] c by (simp add: row_def reads.no_read)
  have a2: "\<exists>m''. reader_Read (matrix_pir_client of_nat) (matrix_Answer ?db) (matrix_Answer ?db) (Some m) 3 = Some (Some m'', Inr [8])"
    using conjunct1 [OF conjunct2 [OF R], of m of_nat m] m by (simp add: row_def reads.no_read)
  have a3: "reader_Read nonprivate_pir_client (nonprivate_Answer ?db) (nonprivate_Answer ?db) (Some ()) 3 = Some (Some (), Inr [8])"
    using conjunct1 [OF conjunct2 [OF conjunct2 [OF R]]] by (simp add: row_def)
  have a4: "\<exists>q'. reader_Read (punc_pir_client ?I) (punc_Answer xor_rows_sse ?wsL ?db) (punc_Answer xor_rows_sse ?wsR ?db) (Some demo_client) 3 =
      Some (Some q', Inr [8])"
    using conjunct2 [OF conjunct2 [OF conjunct2 [OF R]], of xor_rows_sse ?I ?wsL ?wsR demo_client demo_client] p demo_client(4) held
    by (simp add: row_def reads.no_read)
  from a1 a2 a3 a4 show ?thesis by (intro exI [of _ ?db]) auto
qed

end
