(* ===== verification/Privacy.thy ===== *)
theory Privacy
  imports Protocol
begin

text \<open>
  What the two servers of the single-pass protocol see. A query swaps two places of every permutation of the client, after one
  of the two values was shown to a server. For permutations and draws that are uniform and independent, the views of each
  server are uniform and independent too, whatever rows are asked for: stated by counting, over the code of \<open>Query\<close> and
  \<open>reconstruct\<close>.
\<close>

section \<open>The choices\<close>

text \<open>Lists of \<open>S\<close> numbers below \<open>M\<close>, tuples of \<open>S\<close> permutations of them, and sequences over a set.\<close>

definition views :: "nat \<Rightarrow> nat \<Rightarrow> u32 list set" where
  "views S M = {v. length v = S \<and> (\<forall>x \<in> set v. unat x < M)}"

definition perm_tuples :: "nat \<Rightarrow> nat \<Rightarrow> u32 list list set" where
  "perm_tuples S M = {ps. length ps = S \<and> (\<forall>p \<in> set ps. is_perm p \<and> length p = M)}"

definition sequences :: "nat \<Rightarrow> 'a set \<Rightarrow> 'a list set" where
  "sequences n A = {xs. length xs = n \<and> set xs \<subseteq> A}"

lemma bij_onto: "bij_betw f A B \<Longrightarrow> y \<in> B \<Longrightarrow> \<exists>x \<in> A. f x = y"
  by (auto simp: bij_betw_def)

lemma bij_onto_pair:
  assumes "bij_betw (\<lambda>(x, y). (f x y, g x y)) (A \<times> B) C" "(u, w) \<in> C"
  shows "\<exists>x \<in> A. \<exists>y \<in> B. f x y = u \<and> g x y = w"
  using bij_onto [OF assms] by auto

lemma sequences_simps: "sequences 0 A = {[]}" "x # xs \<in> sequences (Suc n) A \<longleftrightarrow> x \<in> A \<and> xs \<in> sequences n A"
  by (auto simp: sequences_def)

lemma sequences_SucE:
  assumes "xs \<in> sequences (Suc n) A"
  obtains y ys where "xs = y # ys" "y \<in> A" "ys \<in> sequences n A"
  using assms by (cases xs) (auto simp: sequences_def)

lemma viewsI: "length v = S \<Longrightarrow> (\<And>j. j < S \<Longrightarrow> unat (v ! j) < M) \<Longrightarrow> v \<in> views S M"
  by (auto simp: views_def in_set_conv_nth)

lemma viewsD: "v \<in> views S M \<Longrightarrow> length v = S" "v \<in> views S M \<Longrightarrow> j < S \<Longrightarrow> unat (v ! j) < M"
  by (auto simp: views_def)

lemma perm_tuplesI: "length ps = S \<Longrightarrow> (\<And>j. j < S \<Longrightarrow> is_perm (ps ! j) \<and> length (ps ! j) = M) \<Longrightarrow> ps \<in> perm_tuples S M"
  by (auto simp: perm_tuples_def in_set_conv_nth)

lemma perm_tuplesD: "ps \<in> perm_tuples S M \<Longrightarrow> length ps = S"
  "ps \<in> perm_tuples S M \<Longrightarrow> j < S \<Longrightarrow> is_perm (ps ! j)" "ps \<in> perm_tuples S M \<Longrightarrow> j < S \<Longrightarrow> length (ps ! j) = M"
  by (auto simp: perm_tuples_def)

section \<open>One chunk\<close>

text \<open>The place of a value in a permutation.\<close>

definition place :: "u32 list \<Rightarrow> u32 \<Rightarrow> nat" where
  "place p x = length (takeWhile (\<lambda>v. v \<noteq> x) p)"

lemma place_nth:
  assumes "is_perm p" "a < length p"
  shows "place p (p ! a) = a"
proof -
  have "takeWhile (\<lambda>v. v \<noteq> p ! a) p = take a p"
    using assms by (intro takeWhile_eq_take_P_nth) (auto simp: is_perm_def nth_eq_iff_index_eq)
  then show ?thesis using assms(2) by (simp add: place_def)
qed

lemma unat_small: "n < M \<Longrightarrow> M < 2 ^ 32 \<Longrightarrow> unat (of_nat n :: u32) = n"
  by (rule unat_of_nat_u32) (rule less_trans)

lemma nth_place:
  assumes "is_perm p" "unat x < length p" "length p < 2 ^ 32"
  shows "place p x < length p" "p ! place p x = x"
proof -
  obtain a where a: "a < length p" "unat (p ! a) = unat x" using is_perm_onto [OF assms(1,2) less_imp_le [OF assms(3)]] by blast
  then have "p ! a = x" by (simp add: word_unat_eq_iff)
  then show "place p x < length p" "p ! place p x = x" using place_nth [OF assms(1) a(1)] a(1) by auto
qed

lemma swapped_places:
  assumes "is_perm p" "a < length p" "r < length p"
  shows "swapped a r p ! a = p ! r" "swapped a r p ! r = p ! a" "swapped a r (swapped a r p) = p"
    "place (swapped a r p) (p ! a) = r" "place (swapped a r p) (p ! r) = a"
proof -
  let ?q = "swapped a r p"
  show q: "?q ! a = p ! r" "?q ! r = p ! a" using assms by (simp_all add: nth_swapped)
  show "swapped a r ?q = p" using assms by (intro nth_equalityI) (simp_all add: nth_swapped)
  show "place ?q (p ! a) = r" "place ?q (p ! r) = a"
    using place_nth [OF is_perm_swapped [OF assms], of r] place_nth [OF is_perm_swapped [OF assms], of a] q assms(2,3) by simp_all
qed

section \<open>One query\<close>

text \<open>A query for place \<open>x\<close> of chunk \<open>i\<close>: its place in the hint table, what the two servers see, and the permutations afterwards.\<close>

definition asked :: "u32 list list \<Rightarrow> nat \<times> u32 \<Rightarrow> nat" where
  "asked ps k = place (ps ! fst k) (snd k)"

definition left_view :: "u32 list list \<Rightarrow> u32 list \<Rightarrow> u32 list" where
  "left_view ps rs = map (\<lambda>j. ps ! j ! unat (rs ! j)) [0..<length ps]"

definition right_view :: "u32 list list \<Rightarrow> u32 list \<Rightarrow> nat \<times> u32 \<Rightarrow> u32 list" where
  "right_view ps rs k = (map (\<lambda>j. ps ! j ! asked ps k) [0..<length ps])[fst k := ps ! fst k ! unat (rs ! fst k)]"

definition shown :: "u32 list list \<Rightarrow> u32 list \<Rightarrow> nat \<times> u32 \<Rightarrow> u32 list list" where
  "shown ps rs k = map (\<lambda>j. swapped (asked ps k) (unat (rs ! j)) (ps ! j)) [0..<length ps]"

definition chunk_index :: "nat \<Rightarrow> nat \<Rightarrow> nat \<times> u32 \<Rightarrow> bool" where
  "chunk_index S M k \<longleftrightarrow> fst k < S \<and> unat (snd k) < M"

lemma asked:
  assumes "ps \<in> perm_tuples S M" "M < 2 ^ 32" "chunk_index S M k"
  shows "asked ps k < M" "ps ! fst k ! asked ps k = snd k"
  using nth_place [of "ps ! fst k" "snd k"] perm_tuplesD(2,3) [OF assms(1), of "fst k"] assms(2,3)
  by (simp_all add: asked_def chunk_index_def)

lemma perm_value_less:
  assumes "ps \<in> perm_tuples S M" "j < S" "a < M"
  shows "unat (ps ! j ! a) < M"
  using perm_tuplesD [OF assms(1)] assms(2,3) by (auto simp: is_perm_def)

lemma left_view_range: "ps \<in> perm_tuples S M \<Longrightarrow> rs \<in> views S M \<Longrightarrow> left_view ps rs \<in> views S M"
  using perm_tuplesD(1) [of ps S M] by (intro viewsI) (auto simp: left_view_def intro!: perm_value_less dest: viewsD)

lemma right_view_range:
  assumes "ps \<in> perm_tuples S M" "rs \<in> views S M" "M < 2 ^ 32" "chunk_index S M k"
  shows "right_view ps rs k \<in> views S M"
proof (rule viewsI)
  have l: "length ps = S" by (rule perm_tuplesD(1) [OF assms(1)])
  then show "length (right_view ps rs k) = S" by (simp add: right_view_def)
  fix j assume j: "j < S"
  show "unat (right_view ps rs k ! j) < M"
    using perm_value_less [OF assms(1) j asked(1) [OF assms(1,3,4)]] perm_value_less [OF assms(1) j viewsD(2) [OF assms(2) j]] l j
    by (cases "j = fst k") (simp_all add: right_view_def)
qed

lemma shown_range:
  assumes "ps \<in> perm_tuples S M" "rs \<in> views S M" "M < 2 ^ 32" "chunk_index S M k"
  shows "shown ps rs k \<in> perm_tuples S M"
  using perm_tuplesD [OF assms(1)] asked(1) [OF assms(1,3,4)] viewsD(2) [OF assms(2)]
  by (intro perm_tuplesI) (simp_all add: shown_def is_perm_swapped)

text \<open>For given permutations every left view comes from exactly one choice of draws.\<close>

lemma left_view_bij:
  assumes "ps \<in> perm_tuples S M" "M < 2 ^ 32"
  shows "bij_betw (left_view ps) (views S M) (views S M)"
proof (rule bij_betw_byWitness [where f' = "\<lambda>v. map (\<lambda>j. of_nat (place (ps ! j) (v ! j))) [0..<S]"])
  note p = perm_tuplesD [OF assms(1)]
  show "\<forall>rs \<in> views S M. map (\<lambda>j. of_nat (place (ps ! j) (left_view ps rs ! j))) [0..<S] = rs"
    using p viewsD by (auto simp: left_view_def place_nth intro!: nth_equalityI)
  show "\<forall>v \<in> views S M. left_view ps (map (\<lambda>j. of_nat (place (ps ! j) (v ! j))) [0..<S]) = v"
  proof
    fix v assume v: "v \<in> views S M"
    have "ps ! j ! unat (of_nat (place (ps ! j) (v ! j)) :: u32) = v ! j" if "j < S" for j
      using nth_place [of "ps ! j" "v ! j"] p that viewsD(2) [OF v that] assms(2) by (simp add: unat_small)
    then show "left_view ps (map (\<lambda>j. of_nat (place (ps ! j) (v ! j))) [0..<S]) = v"
      using p(1) viewsD(1) [OF v] by (auto simp: left_view_def intro!: nth_equalityI)
  qed
  show "left_view ps ` views S M \<subseteq> views S M" using left_view_range [OF assms(1)] by blast
  show "(\<lambda>v. map (\<lambda>j. of_nat (place (ps ! j) (v ! j))) [0..<S]) ` views S M \<subseteq> views S M"
  proof (intro image_subsetI viewsI)
    fix v j assume v: "v \<in> views S M" and j: "j < S"
    have "place (ps ! j) (v ! j) < M" using nth_place(1) [of "ps ! j" "v ! j"] p j viewsD(2) [OF v j] assms(2) by simp
    then show "unat (map (\<lambda>j. of_nat (place (ps ! j) (v ! j)) :: u32) [0..<S] ! j) < M"
      using j unat_small [OF _ assms(2), of "place (ps ! j) (v ! j)"] by simp
  qed simp
qed

text \<open>
  The right view and the new permutations determine the old ones and the draws, and can be any: given the view, nothing is known of the
  new permutations.
\<close>

definition unshown_draws :: "u32 list \<Rightarrow> u32 list list \<Rightarrow> nat \<times> u32 \<Rightarrow> u32 list" where
  "unshown_draws v ps k = map (\<lambda>j. of_nat (place (ps ! j) (if j = fst k then snd k else v ! j))) [0..<length ps]"

definition unshown :: "u32 list \<Rightarrow> u32 list list \<Rightarrow> nat \<times> u32 \<Rightarrow> u32 list list" where
  "unshown v ps k = (let a = place (ps ! fst k) (v ! fst k)
     in map (\<lambda>j. swapped a (unat (unshown_draws v ps k ! j)) (ps ! j)) [0..<length ps])"

lemma unshown_shown:
  assumes "ps \<in> perm_tuples S M" "rs \<in> views S M" "M < 2 ^ 32" "chunk_index S M k"
  shows "unshown_draws (right_view ps rs k) (shown ps rs k) k = rs" "unshown (right_view ps rs k) (shown ps rs k) k = ps"
proof -
  let ?a = "asked ps k" and ?v = "right_view ps rs k" and ?q = "shown ps rs k"
  note p = perm_tuplesD [OF assms(1)] and r = viewsD [OF assms(2)] and a = asked [OF assms(1,3,4)]
  have k: "fst k < S" using assms(4) by (simp add: chunk_index_def)
  have l: "length ?q = S" "\<And>j. j < S \<Longrightarrow> ?q ! j = swapped ?a (unat (rs ! j)) (ps ! j)" using p(1) by (simp_all add: shown_def)
  have v: "?v ! j = (if j = fst k then ps ! j ! unat (rs ! j) else ps ! j ! ?a)" if "j < S" for j
    using that p(1) by (auto simp: right_view_def nth_list_update)
  have d: "unshown_draws ?v ?q k ! j = rs ! j" if j: "j < S" for j
    using swapped_places(4) [OF p(2) [OF j], of ?a "unat (rs ! j)"] p(3) [OF j] a r(2) [OF j] l j v [OF j]
    by (cases "j = fst k") (simp_all add: unshown_draws_def)
  then show "unshown_draws ?v ?q k = rs" using l(1) r(1) by (intro nth_equalityI) (simp_all add: unshown_draws_def)
  have "place (?q ! fst k) (?v ! fst k) = ?a"
    using swapped_places(5) [OF p(2) [OF k], of ?a "unat (rs ! fst k)"] p(3) [OF k] a(1) r(2) [OF k] l(2) [OF k] v [OF k] by simp
  then show "unshown ?v ?q k = ps"
    using d l p(1) swapped_places(3) [OF p(2), of _ ?a] p(3) a(1) r(2)
    by (intro nth_equalityI) (simp_all add: unshown_def Let_def)
qed

lemma shown_unshown:
  assumes "ps \<in> perm_tuples S M" "v \<in> views S M" "M < 2 ^ 32" "chunk_index S M k"
  shows "unshown v ps k \<in> perm_tuples S M" "unshown_draws v ps k \<in> views S M"
    "right_view (unshown v ps k) (unshown_draws v ps k) k = v" "shown (unshown v ps k) (unshown_draws v ps k) k = ps"
proof -
  let ?a = "place (ps ! fst k) (v ! fst k)" and ?rs = "unshown_draws v ps k" and ?o = "unshown v ps k"
  let ?w = "\<lambda>j. if j = fst k then snd k else v ! j"
  note p = perm_tuplesD [OF assms(1)] and vs = viewsD [OF assms(2)]
  have k: "fst k < S" "unat (snd k) < M" using assms(4) by (simp_all add: chunk_index_def)
  have a: "?a < M" "ps ! fst k ! ?a = v ! fst k" using nth_place [of "ps ! fst k" "v ! fst k"] p k vs(2) assms(3) by simp_all
  have pl: "place (ps ! j) (?w j) < M" "ps ! j ! place (ps ! j) (?w j) = ?w j" if "j < S" for j
    using nth_place [of "ps ! j" "?w j"] p that vs(2) k assms(3) by simp_all
  have r: "unat (?rs ! j) = place (ps ! j) (?w j)" if "j < S" for j
    using that p(1) unat_small [OF pl(1) [OF that] assms(3)] by (cases "j = fst k") (simp_all add: unshown_draws_def)
  show rs: "?rs \<in> views S M" using r pl(1) p(1) by (intro viewsI) (simp_all add: unshown_draws_def)
  have l: "length ?o = S" "\<And>j. j < S \<Longrightarrow> ?o ! j = swapped ?a (unat (?rs ! j)) (ps ! j)" using p(1) by (simp_all add: unshown_def Let_def)
  show o: "?o \<in> perm_tuples S M"
    using l p a(1) pl(1) r by (intro perm_tuplesI) (simp_all add: is_perm_swapped)
  have sw: "?o ! j ! ?a = ?w j" "?o ! j ! unat (?rs ! j) = ps ! j ! ?a" "swapped ?a (unat (?rs ! j)) (?o ! j) = ps ! j" if "j < S" for j
    using swapped_places(1-3) [OF p(2) [OF that], of ?a "unat (?rs ! j)"] p(3) [OF that] a(1) pl [OF that] r [OF that] l(2) [OF that] by simp_all
  have as: "asked ?o k = ?a"
    using place_nth [OF perm_tuplesD(2) [OF o k(1)], of ?a] perm_tuplesD(3) [OF o k(1)] a(1) sw(1) [OF k(1)] by (simp add: asked_def)
  show "right_view ?o ?rs k = v"
    using l(1) vs(1) as sw(1,2) a(2) k(1) by (intro nth_equalityI) (auto simp: right_view_def nth_list_update)
  show "shown ?o ?rs k = ps"
    using l(1) p(1) as sw(3) by (intro nth_equalityI) (simp_all add: shown_def)
qed

lemma right_view_bij:
  assumes "M < 2 ^ 32" "chunk_index S M k"
  shows "bij_betw (\<lambda>(ps, rs). (right_view ps rs k, shown ps rs k)) (perm_tuples S M \<times> views S M) (views S M \<times> perm_tuples S M)"
  by (rule bij_betw_byWitness [where f' = "\<lambda>(v, ps). (unshown v ps k, unshown_draws v ps k)"])
    (use unshown_shown [OF _ _ assms] shown_unshown [OF _ _ assms] right_view_range [OF _ _ assms] shown_range [OF _ _ assms] in auto)

section \<open>Sequences of queries\<close>

fun left_views :: "u32 list list \<Rightarrow> u32 list list \<Rightarrow> (nat \<times> u32) list \<Rightarrow> u32 list list" where
  "left_views ps (rs # rss) (k # ks) = left_view ps rs # left_views (shown ps rs k) rss ks"
| "left_views ps _ _ = []"

fun right_views :: "u32 list list \<Rightarrow> u32 list list \<Rightarrow> (nat \<times> u32) list \<Rightarrow> u32 list list" where
  "right_views ps (rs # rss) (k # ks) = right_view ps rs k # right_views (shown ps rs k) rss ks"
| "right_views ps _ _ = []"

fun last_perms :: "u32 list list \<Rightarrow> u32 list list \<Rightarrow> (nat \<times> u32) list \<Rightarrow> u32 list list" where
  "last_perms ps (rs # rss) (k # ks) = last_perms (shown ps rs k) rss ks"
| "last_perms ps _ _ = ps"

lemma length_left_views: "length rss = length ks \<Longrightarrow> length (left_views ps rss ks) = length ks"
  by (induction ps rss ks rule: left_views.induct) simp_all

lemma length_right_views: "length rss = length ks \<Longrightarrow> length (right_views ps rss ks) = length ks"
  by (induction ps rss ks rule: right_views.induct) simp_all

lemma left_views_bij:
  assumes "M < 2 ^ 32" "ps \<in> perm_tuples S M" "\<forall>k \<in> set ks. chunk_index S M k"
  shows "bij_betw (\<lambda>rss. left_views ps rss ks) (sequences (length ks) (views S M)) (sequences (length ks) (views S M))"
  using assms(2,3)
proof (induction ks arbitrary: ps)
  case (Cons k ks)
  let ?V = "views S M" and ?W = "sequences (length ks) (views S M)"
  have k: "chunk_index S M k" "\<forall>k \<in> set ks. chunk_index S M k" using Cons.prems(2) by simp_all
  have sh: "shown ps rs k \<in> perm_tuples S M" if "rs \<in> ?V" for rs by (rule shown_range [OF Cons.prems(1) that assms(1) k(1)])
  note one = left_view_bij [OF Cons.prems(1) assms(1)] and rest = Cons.IH [OF sh k(2)]
  show ?case
    unfolding bij_betw_def
  proof (intro conjI inj_onI set_eqI iffI)
    fix xs ys
    assume xs: "xs \<in> sequences (length (k # ks)) ?V" and ys: "ys \<in> sequences (length (k # ks)) ?V"
      and eq: "left_views ps xs (k # ks) = left_views ps ys (k # ks)"
    obtain x xs' where x: "xs = x # xs'" "x \<in> ?V" "xs' \<in> ?W" using xs by (auto elim: sequences_SucE)
    obtain y ys' where y: "ys = y # ys'" "y \<in> ?V" "ys' \<in> ?W" using ys by (auto elim: sequences_SucE)
    have e: "left_view ps x = left_view ps y" "left_views (shown ps x k) xs' ks = left_views (shown ps y k) ys' ks"
      using eq by (simp_all add: x(1) y(1))
    have xy: "x = y" by (rule inj_onD [OF bij_betw_imp_inj_on [OF one] e(1) x(2) y(2)])
    have "xs' = ys'" by (rule inj_onD [OF bij_betw_imp_inj_on [OF rest [OF x(2)]] _ x(3) y(3)]) (use e(2) xy in simp)
    then show "xs = ys" by (simp add: x(1) y(1) xy)
  next
    fix V assume "V \<in> (\<lambda>rss. left_views ps rss (k # ks)) ` sequences (length (k # ks)) ?V"
    then obtain xs where "V = left_views ps xs (k # ks)" "xs \<in> sequences (Suc (length ks)) ?V" by auto
    then obtain rs rss where r: "rs \<in> ?V" "rss \<in> ?W" "V = left_view ps rs # left_views (shown ps rs k) rss ks"
      by (auto elim!: sequences_SucE)
    then show "V \<in> sequences (length (k # ks)) ?V"
      using bij_betw_apply [OF one r(1)] bij_betw_apply [OF rest [OF r(1)] r(2)] by (simp add: sequences_simps)
  next
    fix V assume "V \<in> sequences (length (k # ks)) ?V"
    then obtain v vs where v: "V = v # vs" "v \<in> ?V" "vs \<in> ?W" by (auto elim: sequences_SucE)
    obtain rs where rs: "rs \<in> ?V" "left_view ps rs = v" using bij_onto [OF one v(2)] by blast
    obtain rss where rss: "rss \<in> ?W" "left_views (shown ps rs k) rss ks = vs" using bij_onto [OF rest [OF rs(1)] v(3)] by blast
    have "rs # rss \<in> sequences (length (k # ks)) ?V" using rs rss by (simp add: sequences_simps)
    moreover have "left_views ps (rs # rss) (k # ks) = V" using rs rss v by simp
    ultimately show "V \<in> (\<lambda>rss. left_views ps rss (k # ks)) ` sequences (length (k # ks)) ?V" by blast
  qed
qed (simp add: sequences_simps bij_betw_def)

lemma right_views_bij:
  assumes "M < 2 ^ 32" "\<forall>k \<in> set ks. chunk_index S M k"
  shows "bij_betw (\<lambda>(ps, rss). (right_views ps rss ks, last_perms ps rss ks))
    (perm_tuples S M \<times> sequences (length ks) (views S M)) (sequences (length ks) (views S M) \<times> perm_tuples S M)"
  using assms(2)
proof (induction ks)
  case (Cons k ks)
  let ?V = "views S M" and ?P = "perm_tuples S M" and ?W = "sequences (length ks) (views S M)"
  let ?f = "\<lambda>(ps, rss). (right_views ps rss (k # ks), last_perms ps rss (k # ks))"
  have k: "chunk_index S M k" using Cons.prems by simp
  note one = right_view_bij [OF assms(1) k] and rest = Cons.IH [OF ballI]
  have rest: "bij_betw (\<lambda>(ps, rss). (right_views ps rss ks, last_perms ps rss ks)) (?P \<times> ?W) (?W \<times> ?P)" using Cons by simp
  have sh: "shown ps rs k \<in> ?P" if "ps \<in> ?P" "rs \<in> ?V" for ps rs by (rule shown_range [OF that assms(1) k])
  show ?case
    unfolding bij_betw_def
  proof (intro conjI inj_onI set_eqI iffI)
    fix a b
    assume a: "a \<in> ?P \<times> sequences (length (k # ks)) ?V" and b: "b \<in> ?P \<times> sequences (length (k # ks)) ?V" and eq: "?f a = ?f b"
    obtain p x xs where x: "a = (p, x # xs)" "p \<in> ?P" "x \<in> ?V" "xs \<in> ?W" using a by (auto elim: sequences_SucE)
    obtain q y ys where y: "b = (q, y # ys)" "q \<in> ?P" "y \<in> ?V" "ys \<in> ?W" using b by (auto elim: sequences_SucE)
    have e: "right_view p x k = right_view q y k" "right_views (shown p x k) xs ks = right_views (shown q y k) ys ks"
      "last_perms (shown p x k) xs ks = last_perms (shown q y k) ys ks" using eq by (simp_all add: x(1) y(1))
    have r: "(shown p x k, xs) = (shown q y k, ys)"
      by (rule inj_onD [OF bij_betw_imp_inj_on [OF rest]]) (simp_all add: e x(2-4) y(2-4) sh)
    have "(p, x) = (q, y)"
      by (rule inj_onD [OF bij_betw_imp_inj_on [OF one]]) (use e(1) r x(2-4) y(2-4) in simp_all)
    then show "a = b" using r by (simp add: x(1) y(1))
  next
    fix V assume "V \<in> ?f ` (?P \<times> sequences (length (k # ks)) ?V)"
    then obtain p zs where "p \<in> ?P" "zs \<in> sequences (Suc (length ks)) ?V" "V = ?f (p, zs)" by auto
    then obtain x xs where x: "p \<in> ?P" "x \<in> ?V" "xs \<in> ?W" "V = ?f (p, x # xs)" by (auto elim!: sequences_SucE)
    have "right_view p x k \<in> ?V" using right_view_range [OF x(1,2) assms(1) k] .
    moreover have "(right_views (shown p x k) xs ks, last_perms (shown p x k) xs ks) \<in> ?W \<times> ?P"
      using bij_betw_apply [OF rest, of "(shown p x k, xs)"] x sh by simp
    ultimately show "V \<in> sequences (length (k # ks)) ?V \<times> ?P" using x(4) by (simp add: sequences_simps)
  next
    fix V assume "V \<in> sequences (length (k # ks)) ?V \<times> ?P"
    then obtain v vs q where v: "V = (v # vs, q)" "v \<in> ?V" "vs \<in> ?W" "q \<in> ?P" by (auto elim: sequences_SucE)
    obtain p1 xs where p1: "p1 \<in> ?P" "xs \<in> ?W" "right_views p1 xs ks = vs" "last_perms p1 xs ks = q"
      using bij_onto_pair [OF rest, of vs q] v(3,4) by auto
    obtain p x where p: "p \<in> ?P" "x \<in> ?V" "right_view p x k = v" "shown p x k = p1"
      using bij_onto_pair [OF one, of v p1] v(2) p1(1) by auto
    have "(p, x # xs) \<in> ?P \<times> sequences (length (k # ks)) ?V" using p p1 by (simp add: sequences_simps)
    moreover have "?f (p, x # xs) = V" using p p1 v by simp
    ultimately show "V \<in> ?f ` (?P \<times> sequences (length (k # ks)) ?V)" by force
  qed
qed (auto simp: sequences_simps bij_betw_def inj_on_def)

section \<open>The code\<close>

text \<open>The draws of \<open>rand.Intn\<close> from a list of \<open>S\<close> numbers for every query.\<close>

definition coin_source :: "nat \<Rightarrow> u32 list list \<Rightarrow> nat \<Rightarrow> nat \<Rightarrow> nat" where
  "coin_source S rss k m = (if k div S < length rss then unat (rss ! (k div S) ! (k mod S)) else 0) mod m"

text \<open>What the left and the right server receive while a client asks for some rows; \<open>None\<close> when a query does not return.\<close>

fun transcript :: "into_kernel \<Rightarrow> rows_kernel \<Rightarrow> (nat \<Rightarrow> nat \<Rightarrow> nat) \<Rightarrow> static_db \<Rightarrow> client \<Rightarrow> int list \<Rightarrow>
    (u32 list \<times> u32 list) list option" where
  "transcript into all_rows Intn db c [] = Some []"
| "transcript into all_rows Intn db c (i # is) = do {
     (_, q0, q1, _) \<leftarrow> Query Intn c i;
     (c', _) \<leftarrow> query_round into all_rows Intn db db c i;
     vs \<leftarrow> transcript into all_rows Intn db c' is;
     Some ((PRSet q0, PRSet q1) # vs)
   }"

definition chunk_of :: "nat \<Rightarrow> nat \<Rightarrow> int \<Rightarrow> nat \<times> u32" where
  "chunk_of S M i = (let k = nat (i mod int (S * M)) in (k div M, of_nat (k mod M)))"

lemma client_perms:
  assumes "client_ok db n M c"
  shows "idxToSetIdx c \<in> perm_tuples (setSize c) M"
  using assms by (intro perm_tuplesI) (simp_all add: client_ok_def inverse_pair_def)

lemma coin_source_ok: "Intn_ok (coin_source S rss)"
  by (simp add: Intn_ok_def coin_source_def)

lemma draws_coins:
  assumes "client_ok db n M c" "setSize c = S" "randSource c = t * S" "t < length rss" "rss ! t \<in> views S M"
  shows "draws (coin_source S rss) c = rss ! t"
proof (rule nth_equalityI)
  have c: "nHints c = M" "M < 2 ^ 32" "0 < S" using assms(1,2) by (simp_all add: client_ok_def)
  show l: "length (draws (coin_source S rss) c) = length (rss ! t)" using assms(2) viewsD(1) [OF assms(5)] by (simp add: draws_def)
  fix j assume "j < length (draws (coin_source S rss) c)"
  then have j: "j < S" by (simp add: draws_def assms(2))
  then have "(t * S + j) div S = t" "(t * S + j) mod S = j" using c(3) by simp_all
  then show "draws (coin_source S rss) c ! j = rss ! t ! j"
    using j c viewsD(2) [OF assms(5) j] assms(2-4) by (simp add: draws_def coin_source_def)
qed

context xor_kernel
begin

lemma query_seen:
  assumes ok: "client_ok (FlatDb db) (RowLen db) M c" and db: "NumRows db = S * M" and c: "setSize c = S" "randSource c = t * S"
    and r: "t < length rss" "rss ! t \<in> views S M" and k: "k = chunk_of S M i"
  shows "\<exists>c1 pend c' x. Query (coin_source S rss) c i = Some (c1, \<lparr>PRSet = left_view (idxToSetIdx c) (rss ! t), SetSize = S\<rparr>,
      \<lparr>PRSet = right_view (idxToSetIdx c) (rss ! t) k, SetSize = S\<rparr>, pend) \<and>
    query_round into all_rows (coin_source S rss) db db c i = Some (c', x) \<and> client_ok (FlatDb db) (RowLen db) M c' \<and>
    setSize c' = S \<and> randSource c' = Suc t * S \<and> idxToSetIdx c' = shown (idxToSetIdx c) (rss ! t) k \<and> chunk_index S M k"
proof -
  let ?I = "coin_source S rss" and ?ps = "idxToSetIdx c" and ?rs = "rss ! t"
  define m where "m = nat (i mod int (c_nRows c))"
  define i0 where "i0 = m div M"
  define pos where "pos = unat (setIdxToIdx c ! i0 ! (m mod M))"
  note Q = Query_eq [OF ok coin_source_ok m_def i0_def pos_def]
  have z: "c_nRows c = S * M" "0 < M" "M < 2 ^ 32" "length ?ps = S" using ok c(1) by (simp_all add: client_ok_def)
  have km: "k = (i0, of_nat (m mod M))" by (simp add: k chunk_of_def Let_def m_def i0_def z(1))
  then have fk: "fst k = i0" by simp
  have P: "?ps \<in> perm_tuples S M" using client_perms [OF ok] c(1) by simp
  have d: "draws ?I c = ?rs" by (rule draws_coins [OF ok c r])
  have i0: "i0 < S" using Q(3) c(1) by simp
  have a: "asked ?ps k = pos"
    using place_nth [OF perm_tuplesD(2) [OF P i0], of pos] perm_tuplesD(3) [OF P i0] Q(4,5) by (simp add: asked_def km)
  have left: "offline_set c (draws ?I c) = left_view ?ps ?rs" by (simp add: offline_set_def left_view_def d c(1) z(4))
  have right: "(online_set c pos)[i0 := offline_set c (draws ?I c) ! i0] = right_view ?ps ?rs k"
    using i0 by (simp add: online_set_def right_view_def left left_view_def a fk c(1) z(4))
  have new: "perms_upto c pos (draws ?I c) S = shown ?ps ?rs k"
    by (simp add: perms_upto_def filled_def shown_def d a z(4))
  obtain c' x where c': "query_round into all_rows ?I db db c i = Some (c', x)" "client_ok (FlatDb db) (RowLen db) M c'"
    "setSize c' = S" "randSource c' = Suc t * S" "idxToSetIdx c' = shown ?ps ?rs k"
    using query_round_state [OF ok coin_source_ok [of S rss] refl _ m_def i0_def pos_def] db z(1) c new
    by (auto simp: add.commute)
  have "chunk_index S M k" using i0 z(2,3) less_trans [OF mod_less_divisor [OF z(2)] z(3)] by (simp add: chunk_index_def km unat_of_nat_u32)
  with Q(1) c' left right c(1) show ?thesis by auto
qed

lemma transcript_eq:
  assumes "client_ok (FlatDb db) (RowLen db) M c" "NumRows db = S * M" "setSize c = S" "randSource c = t * S"
    and "length rss = t + length is" "\<forall>rs \<in> set rss. rs \<in> views S M"
  shows "transcript into all_rows (coin_source S rss) db c is = Some (zip
      (left_views (idxToSetIdx c) (drop t rss) (map (chunk_of S M) is)) (right_views (idxToSetIdx c) (drop t rss) (map (chunk_of S M) is)))"
  using assms
proof (induction "is" arbitrary: c t)
  case (Cons i "is")
  have t: "t < length rss" "drop t rss = rss ! t # drop (Suc t) rss" using Cons.prems(5) by (simp_all add: Cons_nth_drop_Suc)
  then have "rss ! t \<in> views S M" using Cons.prems(6) by simp
  from query_seen [OF Cons.prems(1-4) t(1) this refl, of i] obtain c1 pend c' x where
    q: "Query (coin_source S rss) c i = Some (c1, \<lparr>PRSet = left_view (idxToSetIdx c) (rss ! t), SetSize = S\<rparr>,
      \<lparr>PRSet = right_view (idxToSetIdx c) (rss ! t) (chunk_of S M i), SetSize = S\<rparr>, pend)"
    "query_round into all_rows (coin_source S rss) db db c i = Some (c', x)" "client_ok (FlatDb db) (RowLen db) M c'"
    "setSize c' = S" "randSource c' = Suc t * S" "idxToSetIdx c' = shown (idxToSetIdx c) (rss ! t) (chunk_of S M i)" by blast
  show ?case using q(1,2) Cons.IH [OF q(3) Cons.prems(2) q(4,5)] Cons.prems(5,6) t(2) q(6) by simp
qed simp

end

section \<open>Counting\<close>

lemma card_fibre:
  assumes "bij_betw (\<lambda>(x, y). (f x y, g x y)) (A \<times> B) (C \<times> D)" "v \<in> C"
  shows "card {(x, y). x \<in> A \<and> y \<in> B \<and> f x y = v} = card D"
proof (rule bij_betw_same_card [of "\<lambda>(x, y). g x y"])
  show "bij_betw (\<lambda>(x, y). g x y) {(x, y). x \<in> A \<and> y \<in> B \<and> f x y = v} D"
    unfolding bij_betw_def
  proof (intro conjI inj_onI set_eqI iffI)
    fix a b assume "a \<in> {(x, y). x \<in> A \<and> y \<in> B \<and> f x y = v}" "b \<in> {(x, y). x \<in> A \<and> y \<in> B \<and> f x y = v}"
      and "(\<lambda>(x, y). g x y) a = (\<lambda>(x, y). g x y) b"
    then show "a = b" by (intro inj_onD [OF bij_betw_imp_inj_on [OF assms(1)]]) auto
  next
    fix w assume "w \<in> (\<lambda>(x, y). g x y) ` {(x, y). x \<in> A \<and> y \<in> B \<and> f x y = v}"
    then obtain x y where "x \<in> A" "y \<in> B" "w = g x y" by auto
    then show "w \<in> D" using bij_betw_apply [OF assms(1), of "(x, y)"] by simp
  next
    fix w assume "w \<in> D"
    then obtain x y where "x \<in> A" "y \<in> B" "f x y = v" "g x y = w" using bij_onto_pair [OF assms(1), of v w] assms(2) by auto
    then show "w \<in> (\<lambda>(x, y). g x y) ` {(x, y). x \<in> A \<and> y \<in> B \<and> f x y = v}" by force
  qed
qed

lemma card_perm_tuples:
  assumes "M < 2 ^ 32"
  shows "card (perm_tuples S M) = fact M ^ S"
proof -
  let ?A = "{x :: u32. unat x < M}" and ?P = "{p. is_perm p \<and> length p = M}"
  have "?A = of_nat ` {..< M}"
  proof (intro set_eqI iffI)
    fix x assume "x \<in> ?A"
    then show "x \<in> of_nat ` {..< M}" by (intro image_eqI [of _ _ "unat x"]) simp_all
  qed (auto simp: unat_small [OF _ assms])
  moreover have "inj_on (of_nat :: nat \<Rightarrow> u32) {..< M}" using unat_small [OF _ assms] by (intro inj_on_inverseI [of _ unat]) simp
  ultimately have A: "card ?A = M" by (simp add: card_image)
  have "?P = {p. length p = M \<and> distinct p \<and> set p \<subseteq> ?A}" by (auto simp: is_perm_def)
  moreover have "card {p. length p = M \<and> distinct p \<and> set p \<subseteq> ?A} = fact M"
    using card_lists_distinct_length_eq [of ?A M] A by (simp add: fact_prod)
  ultimately have P: "card ?P = fact M" by simp
  then have "finite ?P" by (metis card.infinite fact_nonzero)
  moreover have "perm_tuples S M = {ps. set ps \<subseteq> ?P \<and> length ps = S}" by (auto simp: perm_tuples_def)
  ultimately show ?thesis using card_lists_length_eq [of ?P S] P by simp
qed

lemma views_in_step:
  assumes "kern \<in> {(xor_into_sse, xor_all_rows_sse), (xor_into_avx2, xor_all_rows_avx2)}"
    and "client_ok (FlatDb db) (RowLen db) M c" "setSize c = S" "randSource c = 0" "NumRows db = S * M"
    and "rss \<in> sequences (length is) (views S M)"
  shows "map_option (map fst) (transcript (fst kern) (snd kern) (coin_source S rss) db c is) =
      Some (left_views (idxToSetIdx c) rss (map (chunk_of S M) is))"
    and "map_option (map snd) (transcript (fst kern) (snd kern) (coin_source S rss) db c is) =
      Some (right_views (idxToSetIdx c) rss (map (chunk_of S M) is))"
proof -
  have r: "length rss = 0 + length is" "\<forall>rs \<in> set rss. rs \<in> views S M" using assms(6) by (auto simp: sequences_def)
  have s: "randSource c = 0 * S" using assms(4) by simp
  let ?l = "left_views (idxToSetIdx c) rss (map (chunk_of S M) is)" and ?r = "right_views (idxToSetIdx c) rss (map (chunk_of S M) is)"
  have "transcript (fst kern) (snd kern) (coin_source S rss) db c is = Some (zip ?l ?r)"
    using assms(1) sse.transcript_eq [OF assms(2,5,3) s r] avx2.transcript_eq [OF assms(2,5,3) s r] by auto
  moreover have "length ?l = length is" "length ?r = length is" using r(1) by (simp_all add: length_left_views length_right_views)
  ultimately show "map_option (map fst) (transcript (fst kern) (snd kern) (coin_source S rss) db c is) = Some ?l"
    "map_option (map snd) (transcript (fst kern) (snd kern) (coin_source S rss) db c is) = Some ?r" by simp_all
qed

lemma chunk_of_index:
  assumes "0 < S" "0 < M" "M < 2 ^ 32"
  shows "chunk_index S M (chunk_of S M i)"
proof -
  have "i mod int (S * M) < int (S * M)" using assms by (intro pos_mod_bound) simp
  moreover have "0 \<le> i mod int (S * M)" using assms by (intro pos_mod_sign) simp
  ultimately have "nat (i mod int (S * M)) < S * M" by linarith
  then have "nat (i mod int (S * M)) div M < S" by (simp add: less_mult_imp_div_less)
  moreover have "nat (i mod int (S * M)) mod M < M" using assms(2) by simp
  ultimately show ?thesis using assms(3) by (simp add: chunk_index_def chunk_of_def Let_def unat_small)
qed

section \<open>Properties\<close>

text \<open>C3: the right server learns nothing: whatever rows a client asks for, every sequence of requests that the right server can
  receive comes from the same number of choices of initial permutations and draws (the number of tuples of permutations), so for uniform choices
  the requests are uniform and independent of the rows. \<open>C ps\<close> is a client that starts with the permutations \<open>ps\<close>.\<close>

theorem right_server_learns_nothing:
  assumes "kern \<in> {(xor_into_sse, xor_all_rows_sse), (xor_into_avx2, xor_all_rows_avx2)}"
    and "\<forall>ps \<in> perm_tuples S M. client_ok (FlatDb db) (RowLen db) M (C ps) \<and> idxToSetIdx (C ps) = ps \<and> setSize (C ps) = S \<and> randSource (C ps) = 0"
    and "NumRows db = S * M" "0 < S" "0 < M" "M < 2 ^ 32" "V \<in> sequences (length is) (views S M)"
  shows "card {(ps, rss). ps \<in> perm_tuples S M \<and> rss \<in> sequences (length is) (views S M) \<and>
      map_option (map snd) (transcript (fst kern) (snd kern) (coin_source S rss) db (C ps) is) = Some V} = fact M ^ S"
proof -
  let ?ks = "map (chunk_of S M) is"
  have "map_option (map snd) (transcript (fst kern) (snd kern) (coin_source S rss) db (C ps) is) = Some V \<longleftrightarrow> right_views ps rss ?ks = V"
    if "ps \<in> perm_tuples S M" "rss \<in> sequences (length is) (views S M)" for ps rss
    using views_in_step(2) [OF assms(1) _ _ _ assms(3) that(2), of "C ps"] assms(2) that(1) by (simp del: map_option_eq_Some)
  then have "{(ps, rss). ps \<in> perm_tuples S M \<and> rss \<in> sequences (length is) (views S M) \<and>
      map_option (map snd) (transcript (fst kern) (snd kern) (coin_source S rss) db (C ps) is) = Some V} =
    {(ps, rss). ps \<in> perm_tuples S M \<and> rss \<in> sequences (length ?ks) (views S M) \<and> right_views ps rss ?ks = V}"
    by (auto simp del: map_option_eq_Some)
  moreover have "card \<dots> = card (perm_tuples S M)"
    by (rule card_fibre [OF right_views_bij [OF assms(6)]]) (use assms(7) chunk_of_index [OF assms(4-6)] in auto)
  ultimately show ?thesis using card_perm_tuples [OF assms(6)] by simp
qed

text \<open>C4: the left server, which has made the permutations, learns nothing either: for any permutations and whatever rows a client asks for, every
  sequence of requests that the left server can receive comes from exactly one choice of draws.\<close>

theorem left_server_learns_nothing:
  assumes "kern \<in> {(xor_into_sse, xor_all_rows_sse), (xor_into_avx2, xor_all_rows_avx2)}"
    and "client_ok (FlatDb db) (RowLen db) M c" "setSize c = S" "randSource c = 0" "NumRows db = S * M"
    and "V \<in> sequences (length is) (views S M)"
  shows "\<exists>!rss. rss \<in> sequences (length is) (views S M) \<and>
    map_option (map fst) (transcript (fst kern) (snd kern) (coin_source S rss) db c is) = Some V"
proof -
  let ?ks = "map (chunk_of S M) is" and ?W = "sequences (length is) (views S M)"
  have z: "0 < S" "0 < M" "M < 2 ^ 32" using assms(2,3) by (simp_all add: client_ok_def)
  have P: "idxToSetIdx c \<in> perm_tuples S M" using client_perms [OF assms(2)] assms(3) by simp
  have b: "bij_betw (\<lambda>rss. left_views (idxToSetIdx c) rss ?ks) ?W ?W"
    using left_views_bij [OF z(3) P, of ?ks] chunk_of_index [OF z] by simp
  obtain rss where r: "rss \<in> ?W" "left_views (idxToSetIdx c) rss ?ks = V" using bij_onto [OF b assms(6)] by blast
  show ?thesis
  proof (intro ex1I [of _ rss] conjI r(1))
    show "map_option (map fst) (transcript (fst kern) (snd kern) (coin_source S rss) db c is) = Some V"
      using views_in_step(1) [OF assms(1-5) r(1)] r(2) by simp
    fix xs assume x: "xs \<in> ?W \<and> map_option (map fst) (transcript (fst kern) (snd kern) (coin_source S xs) db c is) = Some V"
    then have "left_views (idxToSetIdx c) xs ?ks = V" using views_in_step(1) [OF assms(1-5), of xs "is"] by (simp del: map_option_eq_Some)
    then show "xs = rss" using inj_onD [OF bij_betw_imp_inj_on [OF b], of xs rss] r x by simp
  qed
qed

text \<open>One chunk of two rows: each of the two permutations is its own inverse.\<close>

definition pair_client :: "u32 list list \<Rightarrow> client" where
  "pair_client ps = \<lparr>c_nRows = 2, c_RowLen = 1, setSize = 1, hints = map (hint_of [5, 6] 1 2 ps) [0..<2], nHints = 2, randSource = 0,
     idxToSetIdx = ps, setIdxToIdx = ps, c_currVersion = 0\<rparr>"

lemma pair_client:
  assumes "ps \<in> perm_tuples 1 2"
  shows "client_ok [5, 6] 1 2 (pair_client ps) \<and> idxToSetIdx (pair_client ps) = ps \<and> setSize (pair_client ps) = 1 \<and>
    randSource (pair_client ps) = 0"
proof -
  note p = perm_tuplesD [OF assms]
  obtain q where q: "ps = [q]" using p(1) by (cases ps) auto
  have "is_perm q" "length q = 2" using p(2,3) [of 0] q by simp_all
  moreover from this obtain x y where xy: "q = [x, y]" by (auto simp: numeral_2_eq_2 length_Suc_conv)
  ultimately have d: "unat x < 2" "unat y < 2" "x \<noteq> y" by (auto simp: is_perm_def)
  then have "unat x = 0 \<and> unat y = 1 \<or> unat x = 1 \<and> unat y = 0" by (auto simp: word_unat_eq_iff)
  then have "q = [0, 1] \<or> q = [1, 0]" unfolding xy by (auto simp: word_unat_eq_iff)
  moreover have "inverse_pair 2 [0, 1] [0, 1]" "inverse_pair 2 [1, 0] [1, 0]"
    by (simp_all add: inverse_pair_def is_perm_def numeral_2_eq_2 less_Suc_eq)
  ultimately have "inverse_pair 2 q q" by auto
  then show ?thesis by (simp add: pair_client_def client_ok_def q)
qed

lemma two_queries: "length [1 :: int, 0] = 2"
  by simp

theorem right_server_learns_nothing_witness:
  "card {(ps, rss). ps \<in> perm_tuples 1 2 \<and> rss \<in> sequences 2 (views 1 2) \<and>
    map_option (map snd) (transcript xor_into_sse xor_all_rows_sse (coin_source 1 rss)
      \<lparr>NumRows = 2, RowLen = 1, Version = 0, FlatDb = [5, 6]\<rparr> (pair_client ps) [1, 0]) = Some [[0], [0]]} = 2"
  using right_server_learns_nothing [of "(xor_into_sse, xor_all_rows_sse)" 1 2 "\<lparr>NumRows = 2, RowLen = 1, Version = 0, FlatDb = [5, 6]\<rparr>"
      pair_client "[[0], [0]]" "[1, 0]", unfolded two_queries] pair_client
  by (simp add: sequences_def views_def del: map_option_eq_Some transcript.simps One_nat_def)

theorem left_server_learns_nothing_witness:
  "\<exists>!rss. rss \<in> sequences 2 (views 1 2) \<and>
    map_option (map fst) (transcript xor_into_avx2 xor_all_rows_avx2 (coin_source 1 rss)
      \<lparr>NumRows = 2, RowLen = 1, Version = 0, FlatDb = [5, 6]\<rparr> (pair_client [[1, 0]]) [1, 0]) = Some [[1], [0]]"
proof -
  have "[[1, 0]] \<in> perm_tuples 1 2" by (simp add: perm_tuples_def is_perm_def)
  then show ?thesis
    using left_server_learns_nothing [of "(xor_into_avx2, xor_all_rows_avx2)" "\<lparr>NumRows = 2, RowLen = 1, Version = 0, FlatDb = [5, 6]\<rparr>" 2
        "pair_client [[1, 0]]" 1 "[[1], [0]]" "[1, 0]", unfolded two_queries] pair_client [of "[[1, 0]]"]
    by (simp add: sequences_def views_def del: map_option_eq_Some transcript.simps One_nat_def)
qed

end
