(* ===== verification/Neon_Arith.thy ===== *)
theory Neon_Arith
  imports Neon
begin

text \<open>
  The rest of the vector language of \<open>sse2neon.h\<close>: saturating, widening, narrowing, by_pairs and
  interleaving instructions of \<open>arm_neon.h\<close>, with the lanes of each result. As in theory
  \<open>Neon\<close> one definition stands for the 64-bit and the 128-bit form, and the lane width is an
  argument.
\<close>

section \<open>Saturation\<close>

text \<open>The nearest value of the signed or unsigned range of the lane.\<close>

definition sat_s :: "int \<Rightarrow> 'a::len word" where
  "sat_s i = word_of_int (max (- (2 ^ (LENGTH('a) - 1))) (min (2 ^ (LENGTH('a) - 1) - 1) i))"

definition sat_u :: "int \<Rightarrow> 'a::len word" where
  "sat_u i = word_of_int (max 0 (min (2 ^ LENGTH('a) - 1) i))"

lemma sint_sat_s: "sint (sat_s i :: 'a::len word) = max (- (2 ^ (LENGTH('a) - 1))) (min (2 ^ (LENGTH('a) - 1) - 1) i)"
proof -
  have "(0 :: int) < 2 ^ (LENGTH('a) - 1)" by simp
  then have "- (2 ^ (LENGTH('a) - 1)) \<le> max (- (2 ^ (LENGTH('a) - 1))) (min (2 ^ (LENGTH('a) - 1) - 1) i)"
    and "max (- (2 ^ (LENGTH('a) - 1))) (min (2 ^ (LENGTH('a) - 1) - 1) i) < (2 ^ (LENGTH('a) - 1) :: int)"
    by linarith+
  then show ?thesis unfolding sat_s_def by (simp add: signed_of_int signed_take_bit_int_eq_self)
qed

lemma uint_sat_u: "uint (sat_u i :: 'a::len word) = max 0 (min (2 ^ LENGTH('a) - 1) i)"
proof -
  have "(0 :: int) < 2 ^ LENGTH('a)" by simp
  then have "0 \<le> max 0 (min (2 ^ LENGTH('a) - 1) i)"
    and "max 0 (min (2 ^ LENGTH('a) - 1) i) < (2 ^ LENGTH('a) :: int)"
    by linarith+
  then show ?thesis unfolding sat_u_def by (simp add: take_bit_int_eq_self unsigned_of_int)
qed

lemma sint_range:
  "- (2 ^ (LENGTH('a) - 1)) \<le> sint (x :: 'a::len word)" "sint x < 2 ^ (LENGTH('a) - 1)"
  by (rule sint_ge, rule sint_lt)

lemma sat_s_id [simp]: "sat_s (sint (x :: 'a::len word)) = x"
proof -
  have "max (- (2 ^ (LENGTH('a) - 1))) (min (2 ^ (LENGTH('a) - 1) - 1) (sint x)) = sint x"
    using sint_range [of x] by linarith
  then show ?thesis by (simp add: sat_s_def)
qed

definition vqadd_s :: "'a::len itself \<Rightarrow> 'v::len word \<Rightarrow> 'v word \<Rightarrow> 'v word" where
  "vqadd_s t a b = vmap2 (\<lambda>x y :: 'a word. sat_s (sint x + sint y) :: 'a word) a b"

definition vqsub_s :: "'a::len itself \<Rightarrow> 'v::len word \<Rightarrow> 'v word \<Rightarrow> 'v word" where
  "vqsub_s t a b = vmap2 (\<lambda>x y :: 'a word. sat_s (sint x - sint y) :: 'a word) a b"

definition vqadd_u :: "'a::len itself \<Rightarrow> 'v::len word \<Rightarrow> 'v word \<Rightarrow> 'v word" where
  "vqadd_u t a b = vmap2 (\<lambda>x y :: 'a word. sat_u (uint x + uint y) :: 'a word) a b"

definition vqsub_u :: "'a::len itself \<Rightarrow> 'v::len word \<Rightarrow> 'v word \<Rightarrow> 'v word" where
  "vqsub_u t a b = vmap2 (\<lambda>x y :: 'a word. sat_u (uint x - uint y) :: 'a word) a b"

section \<open>Lane-wise operations\<close>

text \<open>\<open>vabs\<close> and \<open>vneg\<close> wrap on the least signed value.\<close>

definition vabs :: "'a::len itself \<Rightarrow> 'v::len word \<Rightarrow> 'v word" where
  "vabs t a = vmap (\<lambda>x :: 'a word. if sint x < 0 then - x else x) a"

definition vneg :: "'a::len itself \<Rightarrow> 'v::len word \<Rightarrow> 'v word" where
  "vneg t a = vmap (uminus :: 'a word \<Rightarrow> 'a word) a"

definition vrhadd_u :: "'a::len itself \<Rightarrow> 'v::len word \<Rightarrow> 'v word \<Rightarrow> 'v word" where
  "vrhadd_u t a b = vmap2 (\<lambda>x y :: 'a word. word_of_int ((uint x + uint y + 1) div 2) :: 'a word) a b"

definition vmax_s :: "'a::len itself \<Rightarrow> 'v::len word \<Rightarrow> 'v word \<Rightarrow> 'v word" where
  "vmax_s t a b = vmap2 (\<lambda>x y :: 'a word. if sint x < sint y then y else x) a b"

definition vmin_s :: "'a::len itself \<Rightarrow> 'v::len word \<Rightarrow> 'v word \<Rightarrow> 'v word" where
  "vmin_s t a b = vmap2 (\<lambda>x y :: 'a word. if sint y < sint x then y else x) a b"

definition vmax_u :: "'a::len itself \<Rightarrow> 'v::len word \<Rightarrow> 'v word \<Rightarrow> 'v word" where
  "vmax_u t a b = vmap2 (max :: 'a word \<Rightarrow> 'a word \<Rightarrow> 'a word) a b"

definition vmin_u :: "'a::len itself \<Rightarrow> 'v::len word \<Rightarrow> 'v word \<Rightarrow> 'v word" where
  "vmin_u t a b = vmap2 (min :: 'a word \<Rightarrow> 'a word \<Rightarrow> 'a word) a b"

definition vabd_u :: "'a::len itself \<Rightarrow> 'v::len word \<Rightarrow> 'v word \<Rightarrow> 'v word" where
  "vabd_u t a b = vmap2 (\<lambda>x y :: 'a word. if x < y then y - x else x - y) a b"

text \<open>Comparisons give all ones or zero.\<close>

definition vceq :: "'a::len itself \<Rightarrow> 'v::len word \<Rightarrow> 'v word \<Rightarrow> 'v word" where
  "vceq t a b = vmap2 (\<lambda>x y :: 'a word. if x = y then NOT 0 else 0 :: 'a word) a b"

definition vcgt_s :: "'a::len itself \<Rightarrow> 'v::len word \<Rightarrow> 'v word \<Rightarrow> 'v word" where
  "vcgt_s t a b = vmap2 (\<lambda>x y :: 'a word. if sint y < sint x then NOT 0 else 0 :: 'a word) a b"

definition vclt_s :: "'a::len itself \<Rightarrow> 'v::len word \<Rightarrow> 'v word \<Rightarrow> 'v word" where
  "vclt_s t a b = vmap2 (\<lambda>x y :: 'a word. if sint x < sint y then NOT 0 else 0 :: 'a word) a b"

text \<open>Bit select, and clearing the bits of the second operand.\<close>

definition vbsl :: "'v::len word \<Rightarrow> 'v word \<Rightarrow> 'v word \<Rightarrow> 'v word" where
  "vbsl m a b = (m AND a) OR (NOT m AND b)"

definition vbicv :: "'v::len word \<Rightarrow> 'v word \<Rightarrow> 'v word" where
  "vbicv a b = a AND NOT b"

definition pop :: "'a::len word \<Rightarrow> nat" where
  "pop x = length (filter (bit x) [0..<LENGTH('a)])"

definition vcnt :: "'v::len word \<Rightarrow> 'v word" where
  "vcnt a = vmap (\<lambda>x :: u8. of_nat (pop x) :: u8) a"

section \<open>Widening and narrowing\<close>

definition vmovl_u :: "'a::len itself \<Rightarrow> 'b::len itself \<Rightarrow> 'h::len word \<Rightarrow> 'v::len word" where
  "vmovl_u t u a = vmap (ucast :: 'a word \<Rightarrow> 'b word) a"

definition vmovl_s :: "'a::len itself \<Rightarrow> 'b::len itself \<Rightarrow> 'h::len word \<Rightarrow> 'v::len word" where
  "vmovl_s t u a = vmap (scast :: 'a word \<Rightarrow> 'b word) a"

definition vmull_u :: "'a::len itself \<Rightarrow> 'b::len itself \<Rightarrow> 'h::len word \<Rightarrow> 'h word \<Rightarrow> 'v::len word" where
  "vmull_u t u a b = vmap2 (\<lambda>x y :: 'a word. ucast x * ucast y :: 'b word) a b"

definition vmull_s :: "'a::len itself \<Rightarrow> 'b::len itself \<Rightarrow> 'h::len word \<Rightarrow> 'h word \<Rightarrow> 'v::len word" where
  "vmull_s t u a b = vmap2 (\<lambda>x y :: 'a word. scast x * scast y :: 'b word) a b"

definition vmovn :: "'b::len itself \<Rightarrow> 'a::len itself \<Rightarrow> 'v::len word \<Rightarrow> 'h::len word" where
  "vmovn u t a = vmap (ucast :: 'b word \<Rightarrow> 'a word) a"

definition vqmovn_s :: "'b::len itself \<Rightarrow> 'a::len itself \<Rightarrow> 'v::len word \<Rightarrow> 'h::len word" where
  "vqmovn_s u t a = vmap (\<lambda>x :: 'b word. sat_s (sint x) :: 'a word) a"

definition vqmovun :: "'b::len itself \<Rightarrow> 'a::len itself \<Rightarrow> 'v::len word \<Rightarrow> 'h::len word" where
  "vqmovun u t a = vmap (\<lambda>x :: 'b word. sat_u (sint x) :: 'a word) a"

definition vshrn_n :: "'b::len itself \<Rightarrow> 'a::len itself \<Rightarrow> 'v::len word \<Rightarrow> nat \<Rightarrow> 'h::len word" where
  "vshrn_n u t a n = vmap (\<lambda>x :: 'b word. ucast (drop_bit n x) :: 'a word) a"

text \<open>The rounding shift of signed lanes adds half before the shift, without overflow.\<close>

definition vrshrn_n_s :: "'b::len itself \<Rightarrow> 'a::len itself \<Rightarrow> 'v::len word \<Rightarrow> nat \<Rightarrow> 'h::len word" where
  "vrshrn_n_s u t a n = vmap (\<lambda>x :: 'b word. word_of_int ((sint x + 2 ^ (n - 1)) div 2 ^ n) :: 'a word) a"

section \<open>Pairs and interleaving\<close>

fun by_pairs :: "('a \<Rightarrow> 'a \<Rightarrow> 'b) \<Rightarrow> 'a list \<Rightarrow> 'b list" where
  "by_pairs f (x # y # zs) = f x y # by_pairs f zs"
| "by_pairs f _ = []"

fun interleave :: "'a list \<Rightarrow> 'a list \<Rightarrow> 'a list" where
  "interleave (x # xs) (y # ys) = x # y # interleave xs ys"
| "interleave _ _ = []"

definition vpadd :: "'a::len itself \<Rightarrow> 'v::len word \<Rightarrow> 'v word \<Rightarrow> 'v word" where
  "vpadd t a b = of_lanes (by_pairs (+) (lanes a @ (lanes b :: 'a word list)))"

definition vpmin_u :: "'a::len itself \<Rightarrow> 'v::len word \<Rightarrow> 'v word \<Rightarrow> 'v word" where
  "vpmin_u t a b = of_lanes (by_pairs min (lanes a @ (lanes b :: 'a word list)))"

definition vpaddl_u :: "'a::len itself \<Rightarrow> 'b::len itself \<Rightarrow> 'v::len word \<Rightarrow> 'v word" where
  "vpaddl_u t u a = of_lanes (by_pairs (\<lambda>x y. ucast x + ucast y :: 'b word) (lanes a :: 'a word list))"

definition vzip1 :: "'a::len itself \<Rightarrow> 'v::len word \<Rightarrow> 'v word \<Rightarrow> 'v word" where
  "vzip1 t a b = of_lanes (take (LENGTH('v) div LENGTH('a)) (interleave (lanes a :: 'a word list) (lanes b :: 'a word list)))"

definition vzip2 :: "'a::len itself \<Rightarrow> 'v::len word \<Rightarrow> 'v word \<Rightarrow> 'v word" where
  "vzip2 t a b = of_lanes (drop (LENGTH('v) div LENGTH('a)) (interleave (lanes a :: 'a word list) (lanes b :: 'a word list)))"

definition vuzp1 :: "'a::len itself \<Rightarrow> 'v::len word \<Rightarrow> 'v word \<Rightarrow> 'v word" where
  "vuzp1 t a b = of_lanes (by_pairs (\<lambda>x y. x) (lanes a @ (lanes b :: 'a word list)))"

definition vuzp2 :: "'a::len itself \<Rightarrow> 'v::len word \<Rightarrow> 'v word \<Rightarrow> 'v word" where
  "vuzp2 t a b = of_lanes (by_pairs (\<lambda>x y. y) (lanes a @ (lanes b :: 'a word list)))"

text \<open>Reductions over all lanes.\<close>

definition vminv_u :: "'a::len itself \<Rightarrow> 'v::len word \<Rightarrow> 'a word" where
  "vminv_u t a = (let xs = lanes a :: 'a word list in foldl min (hd xs) (tl xs))"

definition vaddlv_u8 :: "m64 \<Rightarrow> u16" where
  "vaddlv_u8 a = sum_list (map ucast (lanes a :: u8 list))"

section \<open>Facts\<close>

lemma length_by_pairs [simp]: "length (by_pairs f xs) = length xs div 2"
  by (induction f xs rule: by_pairs.induct) simp_all

lemma nth_by_pairs: "i < length xs div 2 \<Longrightarrow> by_pairs f xs ! i = f (xs ! (2 * i)) (xs ! Suc (2 * i))"
proof (induction f xs arbitrary: i rule: by_pairs.induct)
  case (1 f x y zs)
  then show ?case by (cases i) simp_all
qed simp_all

lemma by_pairs_append: "even (length xs) \<Longrightarrow> by_pairs f (xs @ ys) = by_pairs f xs @ by_pairs f ys"
  by (induction f xs rule: by_pairs.induct) simp_all

lemma length_interleave [simp]: "length (interleave xs ys) = 2 * min (length xs) (length ys)"
  by (induction xs ys rule: interleave.induct) simp_all

lemma by_pairs_interleave:
  "length xs = length ys \<Longrightarrow> by_pairs f (interleave xs ys) = map2 f xs ys"
  by (induction xs ys rule: list_induct2) simp_all

lemma interleave_append:
  "length xs = length ys \<Longrightarrow> interleave (xs @ xs') (ys @ ys') = interleave xs ys @ interleave xs' ys'"
  by (induction xs ys rule: list_induct2) simp_all

lemma nth_interleave_even: "i < length xs \<Longrightarrow> i < length ys \<Longrightarrow> interleave xs ys ! (2 * i) = xs ! i"
proof (induction xs ys arbitrary: i rule: interleave.induct)
  case (1 x xs y ys)
  then show ?case by (cases i) simp_all
qed simp_all

lemma nth_interleave_odd: "i < length xs \<Longrightarrow> i < length ys \<Longrightarrow> interleave xs ys ! Suc (2 * i) = ys ! i"
proof (induction xs ys arbitrary: i rule: interleave.induct)
  case (1 x xs y ys)
  then show ?case by (cases i) simp_all
qed simp_all

lemma take_interleave:
  "length xs = length ys \<Longrightarrow> take (2 * k) (interleave xs ys) = interleave (take k xs) (take k ys)"
proof (induction xs ys arbitrary: k rule: list_induct2)
  case (Cons x xs y ys)
  then show ?case by (cases k) simp_all
qed simp

lemma drop_interleave:
  "length xs = length ys \<Longrightarrow> drop (2 * k) (interleave xs ys) = interleave (drop k xs) (drop k ys)"
proof (induction xs ys arbitrary: k rule: list_induct2)
  case (Cons x xs y ys)
  then show ?case by (cases k) simp_all
qed simp

text \<open>The lanes of lane-wise results.\<close>

lemma lanes_vqadd_s [lane_simps]:
  "LENGTH('a) dvd LENGTH('v) \<Longrightarrow> (lanes (vqadd_s TYPE('a::len) a (b :: 'v::len word)) :: 'a word list) =
    map2 (\<lambda>x y. sat_s (sint x + sint y)) (lanes a :: 'a word list) (lanes b :: 'a word list)"
  by (simp add: vqadd_s_def lanes_vmap2)

lemma lanes_vqsub_s [lane_simps]:
  "LENGTH('a) dvd LENGTH('v) \<Longrightarrow> (lanes (vqsub_s TYPE('a::len) a (b :: 'v::len word)) :: 'a word list) =
    map2 (\<lambda>x y. sat_s (sint x - sint y)) (lanes a :: 'a word list) (lanes b :: 'a word list)"
  by (simp add: vqsub_s_def lanes_vmap2)

lemma lanes_vmul [lane_simps]:
  "LENGTH('a) dvd LENGTH('v) \<Longrightarrow> (lanes (vmul TYPE('a::len) a (b :: 'v::len word)) :: 'a word list) =
    map2 (*) (lanes a :: 'a word list) (lanes b :: 'a word list)"
  by (simp add: vmul_def lanes_vmap2)

lemma lanes_vneg [lane_simps]:
  "LENGTH('a) dvd LENGTH('v) \<Longrightarrow> (lanes (vneg TYPE('a::len) (a :: 'v::len word)) :: 'a word list) = map uminus (lanes a)"
  by (simp add: vneg_def lanes_vmap)

lemma lanes_vabd_u [lane_simps]:
  "LENGTH('a) dvd LENGTH('v) \<Longrightarrow> (lanes (vabd_u TYPE('a::len) a (b :: 'v::len word)) :: 'a word list) =
    map2 (\<lambda>x y. if x < y then y - x else x - y) (lanes a :: 'a word list) (lanes b :: 'a word list)"
  by (simp add: vabd_u_def lanes_vmap2)

lemma lanes_vmin_u [lane_simps]:
  "LENGTH('a) dvd LENGTH('v) \<Longrightarrow> (lanes (vmin_u TYPE('a::len) a (b :: 'v::len word)) :: 'a word list) =
    map2 min (lanes a :: 'a word list) (lanes b :: 'a word list)"
  by (simp add: vmin_u_def lanes_vmap2)

lemma lanes_vceq [lane_simps]:
  "LENGTH('a) dvd LENGTH('v) \<Longrightarrow> (lanes (vceq TYPE('a::len) a (b :: 'v::len word)) :: 'a word list) =
    map2 (\<lambda>x y. if x = y then NOT 0 else 0) (lanes a :: 'a word list) (lanes b :: 'a word list)"
  by (simp add: vceq_def lanes_vmap2)

lemma lanes_vcgt_s [lane_simps]:
  "LENGTH('a) dvd LENGTH('v) \<Longrightarrow> (lanes (vcgt_s TYPE('a::len) a (b :: 'v::len word)) :: 'a word list) =
    map2 (\<lambda>x y. if sint y < sint x then NOT 0 else 0) (lanes a :: 'a word list) (lanes b :: 'a word list)"
  by (simp add: vcgt_s_def lanes_vmap2)

lemma lanes_vclt_s [lane_simps]:
  "LENGTH('a) dvd LENGTH('v) \<Longrightarrow> (lanes (vclt_s TYPE('a::len) a (b :: 'v::len word)) :: 'a word list) =
    map2 (\<lambda>x y. if sint x < sint y then NOT 0 else 0) (lanes a :: 'a word list) (lanes b :: 'a word list)"
  by (simp add: vclt_s_def lanes_vmap2)

lemma lanes_not [lane_simps]:
  fixes v :: "'v::len word"
  assumes "LENGTH('a::len) dvd LENGTH('v)"
  shows "(lanes (NOT v) :: 'a word list) = map NOT (lanes v)"
proof -
  have "(lanes (NOT v) :: 'a word list) = map2 (\<lambda>x y. NOT x) (lanes v) (lanes v :: 'a word list)"
    using assms by (rule lanes_bitwise [where F = "\<lambda>p q. \<not> p" and g = "\<lambda>x y. NOT x"]) (simp_all add: bit_simps)
  then show ?thesis by (simp add: zip_same_conv_map)
qed

lemma lanes_vbicv [lane_simps]:
  fixes a b :: "'v::len word"
  assumes "LENGTH('a::len) dvd LENGTH('v)"
  shows "(lanes (vbicv a b) :: 'a word list) = map2 vbicv (lanes a) (lanes b)"
  using assms unfolding vbicv_def
  by (rule lanes_bitwise [where F = "\<lambda>p q. p \<and> \<not> q"]) (simp_all add: bit_simps)

lemma lanes_vbsl:
  fixes m a b :: "'v::len word"
  assumes "LENGTH('a::len) dvd LENGTH('v)"
  shows "(lanes (vbsl m a b) :: 'a word list) =
    map2 (OR) (map2 (AND) (lanes m) (lanes a)) (map2 (AND) (map NOT (lanes m)) (lanes b))"
  using assms by (simp add: vbsl_def lane_simps)


text \<open>Halves of a register, and a lane as two lanes of half its width.\<close>

lemma lanes_vget_low [lane_simps]:
  fixes v :: "'v::len word"
  assumes "LENGTH('a::len) dvd LENGTH('h::len)" "LENGTH('h) \<le> LENGTH('v)"
  shows "(lanes (vget_low v :: 'h word) :: 'a word list) = take (LENGTH('h) div LENGTH('a)) (lanes v)"
proof (rule nth_equalityI)
  have le: "LENGTH('h) div LENGTH('a) \<le> LENGTH('v) div LENGTH('a)" using assms(2) by (rule div_le_mono)
  then show "length (lanes (vget_low v :: 'h word) :: 'a word list) = length (take (LENGTH('h) div LENGTH('a)) (lanes v :: 'a word list))"
    by simp
  fix i assume i: "i < length (lanes (vget_low v :: 'h word) :: 'a word list)"
  show "(lanes (vget_low v :: 'h word) :: 'a word list) ! i = take (LENGTH('h) div LENGTH('a)) (lanes v) ! i"
  proof (rule bit_word_eqI)
    fix n assume n: "n < LENGTH('a)"
    obtain k where k: "LENGTH('h) = LENGTH('a) * k" using assms(1) by (elim dvdE)
    have "Suc i \<le> k" using i k by simp
    then have "LENGTH('a) * Suc i \<le> LENGTH('a) * k" by (rule mult_le_mono2)
    then have "LENGTH('a) * i + n < LENGTH('h)" using n k by simp
    then show "bit ((lanes (vget_low v :: 'h word) :: 'a word list) ! i) n = bit ((take (LENGTH('h) div LENGTH('a)) (lanes v) :: 'a word list) ! i) n"
      using i n le by (simp add: bit_nth_lanes vget_low_def bit_simps)
  qed
qed

lemma lanes_vget_high [lane_simps]:
  fixes v :: "'v::len word"
  assumes "LENGTH('a::len) dvd LENGTH('h::len)" "LENGTH('v) = 2 * LENGTH('h)"
  shows "(lanes (vget_high v :: 'h word) :: 'a word list) = drop (LENGTH('h) div LENGTH('a)) (lanes v)"
proof (rule nth_equalityI)
  obtain k where k: "LENGTH('h) = LENGTH('a) * k" using assms(1) by (elim dvdE)
  have v: "LENGTH('v) div LENGTH('a) = 2 * k" using assms(2) k by (simp add: mult.left_commute)
  then show "length (lanes (vget_high v :: 'h word) :: 'a word list) = length (drop (LENGTH('h) div LENGTH('a)) (lanes v :: 'a word list))"
    using k by simp
  fix i assume i: "i < length (lanes (vget_high v :: 'h word) :: 'a word list)"
  show "(lanes (vget_high v :: 'h word) :: 'a word list) ! i = drop (LENGTH('h) div LENGTH('a)) (lanes v) ! i"
  proof (rule bit_word_eqI)
    fix n assume n: "n < LENGTH('a)"
    have "Suc i \<le> k" using i k by simp
    then have "LENGTH('a) * Suc i \<le> LENGTH('a) * k" by (rule mult_le_mono2)
    then have "LENGTH('a) * i + n < LENGTH('h)" using n k by simp
    moreover have "LENGTH('a) * (k + i) + n = LENGTH('h) + (LENGTH('a) * i + n)" using k by (simp add: algebra_simps)
    ultimately show "bit ((lanes (vget_high v :: 'h word) :: 'a word list) ! i) n = bit ((drop (LENGTH('h) div LENGTH('a)) (lanes v) :: 'a word list) ! i) n"
      using i n v k by (simp add: bit_nth_lanes vget_high_def bit_simps add.assoc)
  qed
qed

lemma vcombine_halves:
  fixes v :: "'v::len word"
  assumes "LENGTH('v) = 2 * LENGTH('h)"
  shows "vcombine (vget_low v :: 'h::len word) (vget_high v) = v"
  using assms by (intro bit_word_eqI) (auto simp: bit_vcombine vget_low_def vget_high_def bit_simps)

lemma lanes_halves:
  fixes w :: "'b::len word"
  assumes "LENGTH('b) = 2 * LENGTH('a::len)"
  shows "(lanes w :: 'a word list) = [ucast w, ucast (drop_bit LENGTH('a) w)]"
proof (rule nth_equalityI)
  show "length (lanes w :: 'a word list) = length [ucast w, ucast (drop_bit LENGTH('a) w) :: 'a word]"
    using assms by simp
  fix i assume "i < length (lanes w :: 'a word list)"
  then have "i = 0 \<or> i = 1" using assms by auto
  then show "(lanes w :: 'a word list) ! i = [ucast w, ucast (drop_bit LENGTH('a) w)] ! i"
    using assms by (intro bit_word_eqI) (auto simp: bit_nth_lanes bit_simps)
qed

lemma by_pairs_concat_pairs: "by_pairs f (concat (map (\<lambda>w. [g w, h w]) ws)) = map (\<lambda>w. f (g w) (h w)) ws"
  by (induction ws) simp_all

text \<open>Pairs of narrow lanes are wide lanes.\<close>

lemma lanes_pairs:
  fixes v :: "'v::len word"
  assumes "LENGTH('b::len) = 2 * LENGTH('a::len)" "LENGTH('b) dvd LENGTH('v)"
  shows "(lanes v :: 'a word list) = concat (map (\<lambda>w. [ucast w, ucast (drop_bit LENGTH('a) w)]) (lanes v :: 'b word list))"
proof -
  have "LENGTH('a) dvd LENGTH('b)" using assms(1) by simp
  moreover have l: "(lanes :: 'b word \<Rightarrow> 'a word list) = (\<lambda>w. [ucast w, ucast (drop_bit LENGTH('a) w)])"
    by (rule ext) (rule lanes_halves [OF assms(1)])
  ultimately show ?thesis
    using lanes_concat [OF _ assms(2), where 'a = 'a] by (metis l)
qed

lemma by_pairs_lanes:
  fixes v :: "'v::len word"
  assumes "LENGTH('b::len) = 2 * LENGTH('a::len)" "LENGTH('b) dvd LENGTH('v)"
  shows "by_pairs f (lanes v :: 'a word list) =
    map (\<lambda>w. f (ucast w) (ucast (drop_bit LENGTH('a) w))) (lanes v :: 'b word list)"
  unfolding lanes_pairs [OF assms] by (rule by_pairs_concat_pairs)

lemma by_pairs_map2_concat:
  "length ws = length vs \<Longrightarrow>
   by_pairs f (map2 k (concat (map (\<lambda>w. [g w, h w]) ws)) (concat (map (\<lambda>w. [g w, h w]) vs))) =
   map2 (\<lambda>w v. f (k (g w) (g v)) (k (h w) (h v))) ws vs"
  by (induction ws vs rule: list_induct2) simp_all

lemma by_pairs_map2_lanes:
  fixes a b :: "'v::len word"
  assumes "LENGTH('b::len) = 2 * LENGTH('a::len)" "LENGTH('b) dvd LENGTH('v)"
  shows "by_pairs f (map2 k (lanes a :: 'a word list) (lanes b :: 'a word list)) =
    map2 (\<lambda>w v. f (k (ucast w) (ucast v)) (k (ucast (drop_bit LENGTH('a) w)) (ucast (drop_bit LENGTH('a) v))))
      (lanes a :: 'b word list) (lanes b :: 'b word list)"
  unfolding lanes_pairs [OF assms]
  by (rule by_pairs_map2_concat) simp

lemma map2_maps: "map2 f (map g xs) (map h ys) = map2 (\<lambda>x y. f (g x) (h y)) xs ys"
  by (simp add: zip_map_map case_prod_unfold)

lemma comp_case_prod: "h \<circ> (\<lambda>(x, y). f x y) = (\<lambda>(x, y). h (f x y))"
  by auto

lemma map2_map2: "map2 f (map2 g xs ys) (map2 h xs ys) = map2 (\<lambda>x y. f (g x y) (h x y)) xs ys"
  by (simp add: zip_map_map zip_same_conv_map case_prod_unfold)

lemma map2_take_drop: "map2 f (take n xs) (take n ys) @ map2 f (drop n xs) (drop n ys) = map2 f xs ys"
  by (simp flip: map_append take_zip drop_zip)

lemma map2_replicate: "length xs = n \<Longrightarrow> map2 f xs (replicate n c) = map (\<lambda>x. f x c) xs"
  by (induction n arbitrary: xs) (auto simp: length_Suc_conv)

text \<open>The lanes of widening, narrowing and pairing results.\<close>

lemma lanes_vmovl_u [lane_simps]:
  "LENGTH('h) div LENGTH('a) * LENGTH('b) = LENGTH('v) \<Longrightarrow>
   (lanes (vmovl_u TYPE('a::len) TYPE('b::len) (a :: 'h::len word) :: 'v::len word) :: 'b word list) =
    map ucast (lanes a :: 'a word list)"
  by (simp add: vmovl_u_def lanes_vmap)

lemma lanes_vmovl_s [lane_simps]:
  "LENGTH('h) div LENGTH('a) * LENGTH('b) = LENGTH('v) \<Longrightarrow>
   (lanes (vmovl_s TYPE('a::len) TYPE('b::len) (a :: 'h::len word) :: 'v::len word) :: 'b word list) =
    map scast (lanes a :: 'a word list)"
  by (simp add: vmovl_s_def lanes_vmap)

lemma lanes_vmull_u [lane_simps]:
  "LENGTH('h) div LENGTH('a) * LENGTH('b) = LENGTH('v) \<Longrightarrow>
   (lanes (vmull_u TYPE('a::len) TYPE('b::len) (a :: 'h::len word) b :: 'v::len word) :: 'b word list) =
    map2 (\<lambda>x y. ucast x * ucast y) (lanes a :: 'a word list) (lanes b :: 'a word list)"
  by (simp add: vmull_u_def lanes_vmap2)

lemma lanes_vmull_s [lane_simps]:
  "LENGTH('h) div LENGTH('a) * LENGTH('b) = LENGTH('v) \<Longrightarrow>
   (lanes (vmull_s TYPE('a::len) TYPE('b::len) (a :: 'h::len word) b :: 'v::len word) :: 'b word list) =
    map2 (\<lambda>x y. scast x * scast y) (lanes a :: 'a word list) (lanes b :: 'a word list)"
  by (simp add: vmull_s_def lanes_vmap2)

lemma lanes_vmovn [lane_simps]:
  "LENGTH('v) div LENGTH('b) * LENGTH('a) = LENGTH('h) \<Longrightarrow>
   (lanes (vmovn TYPE('b::len) TYPE('a::len) (a :: 'v::len word) :: 'h::len word) :: 'a word list) =
    map ucast (lanes a :: 'b word list)"
  by (simp add: vmovn_def lanes_vmap)

lemma lanes_vshrn_n [lane_simps]:
  "LENGTH('v) div LENGTH('b) * LENGTH('a) = LENGTH('h) \<Longrightarrow>
   (lanes (vshrn_n TYPE('b::len) TYPE('a::len) (a :: 'v::len word) n :: 'h::len word) :: 'a word list) =
    map (\<lambda>x. ucast (drop_bit n x)) (lanes a :: 'b word list)"
  by (simp add: vshrn_n_def lanes_vmap)

lemma lanes_vrshrn_n_s [lane_simps]:
  "LENGTH('v) div LENGTH('b) * LENGTH('a) = LENGTH('h) \<Longrightarrow>
   (lanes (vrshrn_n_s TYPE('b::len) TYPE('a::len) (a :: 'v::len word) n :: 'h::len word) :: 'a word list) =
    map (\<lambda>x. word_of_int ((sint x + 2 ^ (n - 1)) div 2 ^ n)) (lanes a :: 'b word list)"
  by (simp add: vrshrn_n_s_def lanes_vmap)

lemma lanes_vqmovn_s [lane_simps]:
  "LENGTH('v) div LENGTH('b) * LENGTH('a) = LENGTH('h) \<Longrightarrow>
   (lanes (vqmovn_s TYPE('b::len) TYPE('a::len) (a :: 'v::len word) :: 'h::len word) :: 'a word list) =
    map (\<lambda>x. sat_s (sint x)) (lanes a :: 'b word list)"
  by (simp add: vqmovn_s_def lanes_vmap)

lemma lanes_vqmovun [lane_simps]:
  "LENGTH('v) div LENGTH('b) * LENGTH('a) = LENGTH('h) \<Longrightarrow>
   (lanes (vqmovun TYPE('b::len) TYPE('a::len) (a :: 'v::len word) :: 'h::len word) :: 'a word list) =
    map (\<lambda>x. sat_u (sint x)) (lanes a :: 'b word list)"
  by (simp add: vqmovun_def lanes_vmap)

lemma lanes_vpadd [lane_simps]:
  "LENGTH('a) dvd LENGTH('v) \<Longrightarrow> (lanes (vpadd TYPE('a::len) a (b :: 'v::len word)) :: 'a word list) =
    by_pairs (+) (lanes a @ (lanes b :: 'a word list))"
  unfolding vpadd_def by (intro lanes_of_lanes) simp

lemma lanes_vuzp1 [lane_simps]:
  "LENGTH('a) dvd LENGTH('v) \<Longrightarrow> (lanes (vuzp1 TYPE('a::len) a (b :: 'v::len word)) :: 'a word list) =
    by_pairs (\<lambda>x y. x) (lanes a @ (lanes b :: 'a word list))"
  unfolding vuzp1_def by (intro lanes_of_lanes) simp

lemma lanes_vuzp2 [lane_simps]:
  "LENGTH('a) dvd LENGTH('v) \<Longrightarrow> (lanes (vuzp2 TYPE('a::len) a (b :: 'v::len word)) :: 'a word list) =
    by_pairs (\<lambda>x y. y) (lanes a @ (lanes b :: 'a word list))"
  unfolding vuzp2_def by (intro lanes_of_lanes) simp

lemma lanes_vzip1 [lane_simps]:
  "LENGTH('a) dvd LENGTH('v) \<Longrightarrow> (lanes (vzip1 TYPE('a::len) a (b :: 'v::len word)) :: 'a word list) =
    take (LENGTH('v) div LENGTH('a)) (interleave (lanes a) (lanes b))"
  unfolding vzip1_def by (intro lanes_of_lanes) simp

lemma lanes_vzip2 [lane_simps]:
  "LENGTH('a) dvd LENGTH('v) \<Longrightarrow> (lanes (vzip2 TYPE('a::len) a (b :: 'v::len word)) :: 'a word list) =
    drop (LENGTH('v) div LENGTH('a)) (interleave (lanes a) (lanes b))"
  unfolding vzip2_def by (intro lanes_of_lanes) simp

lemma lanes_vpaddl_u [lane_simps]:
  "LENGTH('a) dvd LENGTH('v) \<Longrightarrow> LENGTH('v) div LENGTH('a) div 2 * LENGTH('b) = LENGTH('v) \<Longrightarrow>
   (lanes (vpaddl_u TYPE('a::len) TYPE('b::len) (a :: 'v::len word)) :: 'b word list) =
    by_pairs (\<lambda>x y. ucast x + ucast y) (lanes a :: 'a word list)"
  unfolding vpaddl_u_def by (intro lanes_of_lanes) simp

lemma lanes_vcnt [lane_simps]:
  "8 dvd LENGTH('v) \<Longrightarrow> (lanes (vcnt (a :: 'v::len word)) :: u8 list) = map (\<lambda>x. of_nat (pop x)) (lanes a :: u8 list)"
  by (simp add: vcnt_def lanes_vmap)

text \<open>Joining the two halves of a pairing.\<close>

lemma map2_by_pairs:
  "map2 g (by_pairs (\<lambda>x y. x) xs) (by_pairs (\<lambda>x y. y) xs) = by_pairs g xs"
  by (induction g xs rule: by_pairs.induct) simp_all

lemma by_pairs_map: "by_pairs f (map g xs) = by_pairs (\<lambda>x y. f (g x) (g y)) xs"
  by (induction "\<lambda>x y. f (g x) (g y)" xs rule: by_pairs.induct) simp_all

lemma map_by_pairs: "map h (by_pairs f xs) = by_pairs (\<lambda>x y. h (f x y)) xs"
  by (induction f xs rule: by_pairs.induct) simp_all

text \<open>The arithmetic shift by the width less one is the sign mask.\<close>

lemma signed_drop_bit_mask:
  "signed_drop_bit (LENGTH('a) - 1) (x :: 'a::len word) = (if sint x < 0 then NOT 0 else 0)"
proof (rule bit_word_eqI)
  fix n assume "n < LENGTH('a)"
  then show "bit (signed_drop_bit (LENGTH('a) - 1) x) n = bit (if sint x < 0 then NOT 0 else (0 :: 'a word)) n"
    by (cases n) (auto simp: bit_signed_drop_bit_iff bit_simps bit_last_iff [symmetric] sint_uint)
qed

end
