(* ===== verification/Sse_Arith.thy ===== *)
theory Sse_Arith
  imports Neon_Arith Sse_Bits
begin

text \<open>
  \<open>psetggm/sse2neon.h\<close>: integer arithmetic and comparison intrinsics, each with the NEON
  instructions of its body. A name ending in \<open>_v7\<close> is the ARMv7 text of an intrinsic that has
  two. Lanes are read by the instruction, so one operation on words serves the signed and the
  unsigned form where the code uses the same instruction.
\<close>

section \<open>Absolute value, sums and differences\<close>

definition mm_abs_epi32 :: "m128 \<Rightarrow> m128" where
  "mm_abs_epi32 a = vabs TYPE(32) a"

definition mm_abs_epi16 :: "m128 \<Rightarrow> m128" where
  "mm_abs_epi16 a = vabs TYPE(16) a"

definition mm_abs_epi8 :: "m128 \<Rightarrow> m128" where
  "mm_abs_epi8 a = vabs TYPE(8) a"

definition mm_abs_pi32 :: "m64 \<Rightarrow> m64" where
  "mm_abs_pi32 a = vabs TYPE(32) a"

definition mm_abs_pi16 :: "m64 \<Rightarrow> m64" where
  "mm_abs_pi16 a = vabs TYPE(16) a"

definition mm_abs_pi8 :: "m64 \<Rightarrow> m64" where
  "mm_abs_pi8 a = vabs TYPE(8) a"

definition mm_sub_epi64 :: "m128 \<Rightarrow> m128 \<Rightarrow> m128" where
  "mm_sub_epi64 a b = vsub TYPE(64) a b"

definition mm_sub_epi32 :: "m128 \<Rightarrow> m128 \<Rightarrow> m128" where
  "mm_sub_epi32 a b = vsub TYPE(32) a b"

definition mm_sub_epi16 :: "m128 \<Rightarrow> m128 \<Rightarrow> m128" where
  "mm_sub_epi16 a b = vsub TYPE(16) a b"

definition mm_sub_epi8 :: "m128 \<Rightarrow> m128 \<Rightarrow> m128" where
  "mm_sub_epi8 a b = vsub TYPE(8) a b"

definition mm_sub_si64 :: "m64 \<Rightarrow> m64 \<Rightarrow> m64" where
  "mm_sub_si64 a b = vsub TYPE(64) a b"

definition mm_add_epi64 :: "m128 \<Rightarrow> m128 \<Rightarrow> m128" where
  "mm_add_epi64 a b = vadd TYPE(64) a b"

definition mm_add_epi32 :: "m128 \<Rightarrow> m128 \<Rightarrow> m128" where
  "mm_add_epi32 a b = vadd TYPE(32) a b"

definition mm_add_epi16 :: "m128 \<Rightarrow> m128 \<Rightarrow> m128" where
  "mm_add_epi16 a b = vadd TYPE(16) a b"

definition mm_add_epi8 :: "m128 \<Rightarrow> m128 \<Rightarrow> m128" where
  "mm_add_epi8 a b = vadd TYPE(8) a b"

definition mm_add_si64 :: "m64 \<Rightarrow> m64 \<Rightarrow> m64" where
  "mm_add_si64 a b = vadd TYPE(64) a b"

definition mm_subs_epu16 :: "m128 \<Rightarrow> m128 \<Rightarrow> m128" where
  "mm_subs_epu16 a b = vqsub_u TYPE(16) a b"

definition mm_subs_epu8 :: "m128 \<Rightarrow> m128 \<Rightarrow> m128" where
  "mm_subs_epu8 a b = vqsub_u TYPE(8) a b"

definition mm_subs_epi8 :: "m128 \<Rightarrow> m128 \<Rightarrow> m128" where
  "mm_subs_epi8 a b = vqsub_s TYPE(8) a b"

definition mm_subs_epi16 :: "m128 \<Rightarrow> m128 \<Rightarrow> m128" where
  "mm_subs_epi16 a b = vqsub_s TYPE(16) a b"

definition mm_adds_epu16 :: "m128 \<Rightarrow> m128 \<Rightarrow> m128" where
  "mm_adds_epu16 a b = vqadd_u TYPE(16) a b"

definition mm_adds_epu8 :: "m128 \<Rightarrow> m128 \<Rightarrow> m128" where
  "mm_adds_epu8 a b = vqadd_u TYPE(8) a b"

definition mm_adds_epi16 :: "m128 \<Rightarrow> m128 \<Rightarrow> m128" where
  "mm_adds_epi16 a b = vqadd_s TYPE(16) a b"

definition mm_adds_epi8 :: "m128 \<Rightarrow> m128 \<Rightarrow> m128" where
  "mm_adds_epi8 a b = vqadd_s TYPE(8) a b"

text \<open>\<open>vceqz b\<close> and \<open>vceq b 0\<close>, the only difference of the two texts, are one instruction here.\<close>

definition mm_sign_epi8 :: "m128 \<Rightarrow> m128 \<Rightarrow> m128" where
  "mm_sign_epi8 a b =
     (let ltMask = vshr_s TYPE(8) b 7;
          zeroMask = vceq TYPE(8) b (vdup (0 :: u8));
          masked = vbsl ltMask (vneg TYPE(8) a) a
      in vbicv masked zeroMask)"

definition mm_sign_pi8 :: "m64 \<Rightarrow> m64 \<Rightarrow> m64" where
  "mm_sign_pi8 a b =
     (let ltMask = vshr_s TYPE(8) b 7;
          zeroMask = vceq TYPE(8) b (vdup (0 :: u8));
          masked = vbsl ltMask (vneg TYPE(8) a) a
      in vbicv masked zeroMask)"

definition mm_sign_epi16 :: "m128 \<Rightarrow> m128 \<Rightarrow> m128" where
  "mm_sign_epi16 a b =
     (let ltMask = vshr_s TYPE(16) b 15;
          zeroMask = vceq TYPE(16) b (vdup (0 :: u16));
          masked = vbsl ltMask (vneg TYPE(16) a) a
      in vbicv masked zeroMask)"

definition mm_sign_pi16 :: "m64 \<Rightarrow> m64 \<Rightarrow> m64" where
  "mm_sign_pi16 a b =
     (let ltMask = vshr_s TYPE(16) b 15;
          zeroMask = vceq TYPE(16) b (vdup (0 :: u16));
          masked = vbsl ltMask (vneg TYPE(16) a) a
      in vbicv masked zeroMask)"

definition mm_sign_epi32 :: "m128 \<Rightarrow> m128 \<Rightarrow> m128" where
  "mm_sign_epi32 a b =
     (let ltMask = vshr_s TYPE(32) b 31;
          zeroMask = vceq TYPE(32) b (vdup (0 :: u32));
          masked = vbsl ltMask (vneg TYPE(32) a) a
      in vbicv masked zeroMask)"

definition mm_sign_pi32 :: "m64 \<Rightarrow> m64 \<Rightarrow> m64" where
  "mm_sign_pi32 a b =
     (let ltMask = vshr_s TYPE(32) b 31;
          zeroMask = vceq TYPE(32) b (vdup (0 :: u32));
          masked = vbsl ltMask (vneg TYPE(32) a) a
      in vbicv masked zeroMask)"

definition mm_avg_pu16 :: "m64 \<Rightarrow> m64 \<Rightarrow> m64" where
  "mm_avg_pu16 a b = vrhadd_u TYPE(16) a b"

definition mm_avg_pu8 :: "m64 \<Rightarrow> m64 \<Rightarrow> m64" where
  "mm_avg_pu8 a b = vrhadd_u TYPE(8) a b"

definition mm_avg_epu8 :: "m128 \<Rightarrow> m128 \<Rightarrow> m128" where
  "mm_avg_epu8 a b = vrhadd_u TYPE(8) a b"

definition mm_avg_epu16 :: "m128 \<Rightarrow> m128 \<Rightarrow> m128" where
  "mm_avg_epu16 a b = vrhadd_u TYPE(16) a b"

section \<open>Products\<close>

definition mm_mullo_epi16 :: "m128 \<Rightarrow> m128 \<Rightarrow> m128" where
  "mm_mullo_epi16 a b = vmul TYPE(16) a b"

definition mm_mullo_epi32 :: "m128 \<Rightarrow> m128 \<Rightarrow> m128" where
  "mm_mullo_epi32 a b = vmul TYPE(32) a b"

definition mm_mul_epu32 :: "m128 \<Rightarrow> m128 \<Rightarrow> m128" where
  "mm_mul_epu32 a b =
     (let a_lo = (vmovn TYPE(64) TYPE(32) a :: m64);
          b_lo = vmovn TYPE(64) TYPE(32) b
      in vmull_u TYPE(32) TYPE(64) a_lo b_lo)"

definition mm_mul_epi32 :: "m128 \<Rightarrow> m128 \<Rightarrow> m128" where
  "mm_mul_epi32 a b =
     (let a_lo = (vmovn TYPE(64) TYPE(32) a :: m64);
          b_lo = vmovn TYPE(64) TYPE(32) b
      in vmull_s TYPE(32) TYPE(64) a_lo b_lo)"

definition mm_mul_su32 :: "m64 \<Rightarrow> m64 \<Rightarrow> m64" where
  "mm_mul_su32 a b = vget_low (vmull_u TYPE(32) TYPE(64) a b :: m128)"

definition mm_madd_epi16 :: "m128 \<Rightarrow> m128 \<Rightarrow> m128" where
  "mm_madd_epi16 a b =
     (let low = (vmull_s TYPE(16) TYPE(32) (vget_low a :: m64) (vget_low b) :: m128);
          high = (vmull_s TYPE(16) TYPE(32) (vget_high a :: m64) (vget_high b) :: m128);
          low_sum = vpadd TYPE(32) (vget_low low :: m64) (vget_high low);
          high_sum = vpadd TYPE(32) (vget_low high :: m64) (vget_high high)
      in vcombine low_sum high_sum)"

definition mm_mulhrs_epi16 :: "m128 \<Rightarrow> m128 \<Rightarrow> m128" where
  "mm_mulhrs_epi16 a b =
     (let mul_lo = (vmull_s TYPE(16) TYPE(32) (vget_low a :: m64) (vget_low b) :: m128);
          mul_hi = (vmull_s TYPE(16) TYPE(32) (vget_high a :: m64) (vget_high b) :: m128);
          narrow_lo = (vrshrn_n_s TYPE(32) TYPE(16) mul_lo 15 :: m64);
          narrow_hi = vrshrn_n_s TYPE(32) TYPE(16) mul_hi 15
      in vcombine narrow_lo narrow_hi)"

definition mm_maddubs_epi16 :: "m128 \<Rightarrow> m128 \<Rightarrow> m128" where
  "mm_maddubs_epi16 a b =
     (let tl = vmul TYPE(16) (vmovl_u TYPE(8) TYPE(16) (vget_low a :: m64) :: m128)
                 (vmovl_s TYPE(8) TYPE(16) (vget_low b :: m64));
          th = vmul TYPE(16) (vmovl_u TYPE(8) TYPE(16) (vget_high a :: m64) :: m128)
                 (vmovl_s TYPE(8) TYPE(16) (vget_high b :: m64))
      in vqadd_s TYPE(16) (vuzp1 TYPE(16) tl th) (vuzp2 TYPE(16) tl th))"

definition mm_maddubs_epi16_v7 :: "m128 \<Rightarrow> m128 \<Rightarrow> m128" where
  "mm_maddubs_epi16_v7 a b =
     (let a_odd = vshr_u TYPE(16) a 8;
          a_even = vbicv a (vdup (0xff00 :: u16));
          b_even = vshr_s TYPE(16) (vshl_n TYPE(16) b 8) 8;
          b_odd = vshr_s TYPE(16) b 8;
          prod1 = vmul TYPE(16) a_even b_even;
          prod2 = vmul TYPE(16) a_odd b_odd
      in vqadd_s TYPE(16) prod1 prod2)"

definition mm_mulhi_pu16 :: "m64 \<Rightarrow> m64 \<Rightarrow> m64" where
  "mm_mulhi_pu16 a b = vshrn_n TYPE(32) TYPE(16) (vmull_u TYPE(16) TYPE(32) a b :: m128) 16"

definition mm_mulhi_epi16 :: "m128 \<Rightarrow> m128 \<Rightarrow> m128" where
  "mm_mulhi_epi16 a b =
     (let a3210 = (vget_low a :: m64);
          b3210 = vget_low b;
          ab3210 = (vmull_s TYPE(16) TYPE(32) a3210 b3210 :: m128);
          a7654 = (vget_high a :: m64);
          b7654 = vget_high b;
          ab7654 = vmull_s TYPE(16) TYPE(32) a7654 b7654
      in vuzp2 TYPE(16) ab3210 ab7654)"

definition mm_mulhi_epu16 :: "m128 \<Rightarrow> m128 \<Rightarrow> m128" where
  "mm_mulhi_epu16 a b =
     (let a3210 = (vget_low a :: m64);
          b3210 = vget_low b;
          ab3210 = (vmull_u TYPE(16) TYPE(32) a3210 b3210 :: m128);
          a7654 = (vget_high a :: m64);
          b7654 = vget_high b;
          ab7654 = vmull_u TYPE(16) TYPE(32) a7654 b7654
      in vuzp2 TYPE(16) ab3210 ab7654)"

text \<open>Sums of absolute differences: the lanes are added as \<open>int\<close> and cut to 16 bits.\<close>

definition sum4 :: "u16 list \<Rightarrow> nat \<Rightarrow> u16" where
  "sum4 t i = ucast (ucast (t ! i) + ucast (t ! (i + 1)) + ucast (t ! (i + 2)) + ucast (t ! (i + 3)) :: u32)"

definition mm_sad_epu8 :: "m128 \<Rightarrow> m128 \<Rightarrow> m128" where
  "mm_sad_epu8 a b =
     (let t = lanes (vpaddl_u TYPE(8) TYPE(16) (vabd_u TYPE(8) a b)) :: u16 list;
          r0 = sum4 t 0;
          r4 = sum4 t 4;
          r = vset_lane r0 (vdup (0 :: u16)) 0
      in vset_lane r4 r 4)"

definition mm_sad_pu8 :: "m64 \<Rightarrow> m64 \<Rightarrow> m64" where
  "mm_sad_pu8 a b =
     (let t = lanes (vpaddl_u TYPE(8) TYPE(16) (vabd_u TYPE(8) a b)) :: u16 list;
          r0 = sum4 t 0
      in vset_lane r0 (vdup (0 :: u16)) 0)"

section \<open>Maximum and minimum\<close>

definition mm_max_pi16 :: "m64 \<Rightarrow> m64 \<Rightarrow> m64" where
  "mm_max_pi16 a b = vmax_s TYPE(16) a b"

definition mm_max_pu8 :: "m64 \<Rightarrow> m64 \<Rightarrow> m64" where
  "mm_max_pu8 a b = vmax_u TYPE(8) a b"

definition mm_max_epi8 :: "m128 \<Rightarrow> m128 \<Rightarrow> m128" where
  "mm_max_epi8 a b = vmax_s TYPE(8) a b"

definition mm_max_epu8 :: "m128 \<Rightarrow> m128 \<Rightarrow> m128" where
  "mm_max_epu8 a b = vmax_u TYPE(8) a b"

definition mm_max_epi16 :: "m128 \<Rightarrow> m128 \<Rightarrow> m128" where
  "mm_max_epi16 a b = vmax_s TYPE(16) a b"

definition mm_max_epu16 :: "m128 \<Rightarrow> m128 \<Rightarrow> m128" where
  "mm_max_epu16 a b = vmax_u TYPE(16) a b"

definition mm_max_epi32 :: "m128 \<Rightarrow> m128 \<Rightarrow> m128" where
  "mm_max_epi32 a b = vmax_s TYPE(32) a b"

definition mm_max_epu32 :: "m128 \<Rightarrow> m128 \<Rightarrow> m128" where
  "mm_max_epu32 a b = vmax_u TYPE(32) a b"

definition mm_min_pi16 :: "m64 \<Rightarrow> m64 \<Rightarrow> m64" where
  "mm_min_pi16 a b = vmin_s TYPE(16) a b"

definition mm_min_pu8 :: "m64 \<Rightarrow> m64 \<Rightarrow> m64" where
  "mm_min_pu8 a b = vmin_u TYPE(8) a b"

definition mm_min_epi8 :: "m128 \<Rightarrow> m128 \<Rightarrow> m128" where
  "mm_min_epi8 a b = vmin_s TYPE(8) a b"

definition mm_min_epu8 :: "m128 \<Rightarrow> m128 \<Rightarrow> m128" where
  "mm_min_epu8 a b = vmin_u TYPE(8) a b"

definition mm_min_epi16 :: "m128 \<Rightarrow> m128 \<Rightarrow> m128" where
  "mm_min_epi16 a b = vmin_s TYPE(16) a b"

definition mm_min_epu16 :: "m128 \<Rightarrow> m128 \<Rightarrow> m128" where
  "mm_min_epu16 a b = vmin_u TYPE(16) a b"

definition mm_min_epi32 :: "m128 \<Rightarrow> m128 \<Rightarrow> m128" where
  "mm_min_epi32 a b = vmin_s TYPE(32) a b"

definition mm_min_epu32 :: "m128 \<Rightarrow> m128 \<Rightarrow> m128" where
  "mm_min_epu32 a b = vmin_u TYPE(32) a b"

section \<open>Horizontal sums and differences\<close>

definition mm_hadd_epi16 :: "m128 \<Rightarrow> m128 \<Rightarrow> m128" where
  "mm_hadd_epi16 a b = vpadd TYPE(16) a b"

definition mm_hadd_epi16_v7 :: "m128 \<Rightarrow> m128 \<Rightarrow> m128" where
  "mm_hadd_epi16_v7 a b =
     vcombine (vpadd TYPE(16) (vget_low a :: m64) (vget_high a)) (vpadd TYPE(16) (vget_low b :: m64) (vget_high b))"

definition mm_hadd_pi16 :: "m64 \<Rightarrow> m64 \<Rightarrow> m64" where
  "mm_hadd_pi16 a b = vpadd TYPE(16) a b"

definition mm_hadd_pi32 :: "m64 \<Rightarrow> m64 \<Rightarrow> m64" where
  "mm_hadd_pi32 a b = vpadd TYPE(32) a b"

definition mm_hsub_epi16 :: "m128 \<Rightarrow> m128 \<Rightarrow> m128" where
  "mm_hsub_epi16 a b =
     (let ab0246 = vcombine (vmovn TYPE(32) TYPE(16) a :: m64) (vmovn TYPE(32) TYPE(16) b);
          ab1357 = vcombine (vshrn_n TYPE(32) TYPE(16) a 16 :: m64) (vshrn_n TYPE(32) TYPE(16) b 16)
      in vsub TYPE(16) ab0246 ab1357)"

definition mm_hadds_epi16 :: "m128 \<Rightarrow> m128 \<Rightarrow> m128" where
  "mm_hadds_epi16 a b = vqadd_s TYPE(16) (vuzp1 TYPE(16) a b) (vuzp2 TYPE(16) a b)"

definition mm_hadds_epi16_v7 :: "m128 \<Rightarrow> m128 \<Rightarrow> m128" where
  "mm_hadds_epi16_v7 a b =
     (let ab0246 = vcombine (vmovn TYPE(32) TYPE(16) a :: m64) (vmovn TYPE(32) TYPE(16) b);
          ab1357 = vcombine (vshrn_n TYPE(32) TYPE(16) a 16 :: m64) (vshrn_n TYPE(32) TYPE(16) b 16)
      in vqadd_s TYPE(16) ab0246 ab1357)"

definition mm_hsubs_epi16 :: "m128 \<Rightarrow> m128 \<Rightarrow> m128" where
  "mm_hsubs_epi16 a b = vqsub_s TYPE(16) (vuzp1 TYPE(16) a b) (vuzp2 TYPE(16) a b)"

definition mm_hsubs_epi16_v7 :: "m128 \<Rightarrow> m128 \<Rightarrow> m128" where
  "mm_hsubs_epi16_v7 a b =
     (let ab0246 = vcombine (vmovn TYPE(32) TYPE(16) a :: m64) (vmovn TYPE(32) TYPE(16) b);
          ab1357 = vcombine (vshrn_n TYPE(32) TYPE(16) a 16 :: m64) (vshrn_n TYPE(32) TYPE(16) b 16)
      in vqsub_s TYPE(16) ab0246 ab1357)"

definition mm_hadd_epi32 :: "m128 \<Rightarrow> m128 \<Rightarrow> m128" where
  "mm_hadd_epi32 a b =
     vcombine (vpadd TYPE(32) (vget_low a :: m64) (vget_high a)) (vpadd TYPE(32) (vget_low b :: m64) (vget_high b))"

definition mm_hsub_epi32 :: "m128 \<Rightarrow> m128 \<Rightarrow> m128" where
  "mm_hsub_epi32 a b =
     (let ab02 = vcombine (vmovn TYPE(64) TYPE(32) a :: m64) (vmovn TYPE(64) TYPE(32) b);
          ab13 = vcombine (vshrn_n TYPE(64) TYPE(32) a 32 :: m64) (vshrn_n TYPE(64) TYPE(32) b 32)
      in vsub TYPE(32) ab02 ab13)"

section \<open>Comparisons\<close>

definition mm_cmpeq_epi8 :: "m128 \<Rightarrow> m128 \<Rightarrow> m128" where
  "mm_cmpeq_epi8 a b = vceq TYPE(8) a b"

definition mm_cmpeq_epi16 :: "m128 \<Rightarrow> m128 \<Rightarrow> m128" where
  "mm_cmpeq_epi16 a b = vceq TYPE(16) a b"

definition mm_cmpeq_epi32 :: "m128 \<Rightarrow> m128 \<Rightarrow> m128" where
  "mm_cmpeq_epi32 a b = vceq TYPE(32) a b"

definition mm_cmpeq_epi64 :: "m128 \<Rightarrow> m128 \<Rightarrow> m128" where
  "mm_cmpeq_epi64 a b = vceq TYPE(64) a b"

definition mm_cmpeq_epi64_v7 :: "m128 \<Rightarrow> m128 \<Rightarrow> m128" where
  "mm_cmpeq_epi64_v7 a b =
     (let cmp = vceq TYPE(32) a b; swapped = vrev TYPE(32) TYPE(64) cmp in cmp AND swapped)"

definition mm_cmplt_epi8 :: "m128 \<Rightarrow> m128 \<Rightarrow> m128" where
  "mm_cmplt_epi8 a b = vclt_s TYPE(8) a b"

definition mm_cmpgt_epi8 :: "m128 \<Rightarrow> m128 \<Rightarrow> m128" where
  "mm_cmpgt_epi8 a b = vcgt_s TYPE(8) a b"

definition mm_cmplt_epi16 :: "m128 \<Rightarrow> m128 \<Rightarrow> m128" where
  "mm_cmplt_epi16 a b = vclt_s TYPE(16) a b"

definition mm_cmpgt_epi16 :: "m128 \<Rightarrow> m128 \<Rightarrow> m128" where
  "mm_cmpgt_epi16 a b = vcgt_s TYPE(16) a b"

definition mm_cmplt_epi32 :: "m128 \<Rightarrow> m128 \<Rightarrow> m128" where
  "mm_cmplt_epi32 a b = vclt_s TYPE(32) a b"

definition mm_cmpgt_epi32 :: "m128 \<Rightarrow> m128 \<Rightarrow> m128" where
  "mm_cmpgt_epi32 a b = vcgt_s TYPE(32) a b"

definition mm_cmpgt_epi64 :: "m128 \<Rightarrow> m128 \<Rightarrow> m128" where
  "mm_cmpgt_epi64 a b = vcgt_s TYPE(64) a b"

definition mm_cmpgt_epi64_v7 :: "m128 \<Rightarrow> m128 \<Rightarrow> m128" where
  "mm_cmpgt_epi64_v7 a b = vshr_s TYPE(64) (vqsub_s TYPE(64) b a) 63"

text \<open>The register shifts; the count is a signed 64-bit integer.\<close>

definition mm_sra_epi16 :: "m128 \<Rightarrow> m128 \<Rightarrow> m128" where
  "mm_sra_epi16 a count =
     (let c = (vget_lane count 0 :: u64)
      in if sint c > 15 then mm_cmplt_epi16 a mm_setzero_si128 else vshl_s TYPE(16) a (vdup (- ucast c :: u16)))"

definition mm_sra_epi32 :: "m128 \<Rightarrow> m128 \<Rightarrow> m128" where
  "mm_sra_epi32 a count =
     (let c = (vget_lane count 0 :: u64)
      in if sint c > 31 then mm_cmplt_epi32 a mm_setzero_si128 else vshl_s TYPE(32) a (vdup (- ucast c :: u32)))"

section \<open>Facts\<close>

text \<open>The ARMv7 texts split the lanes into even and odd ones by narrowing; that is unzipping.\<close>

lemma vmovn_is_vuzp1:
  fixes a b :: m128
  shows "vcombine (vmovn TYPE(32) TYPE(16) a :: m64) (vmovn TYPE(32) TYPE(16) b) = vuzp1 TYPE(16) a b"
    and "vcombine (vmovn TYPE(64) TYPE(32) a :: m64) (vmovn TYPE(64) TYPE(32) b) = vuzp1 TYPE(32) a b"
  by (rule lanes_eqI [where 'a = 16],
      simp_all add: lane_simps by_pairs_append by_pairs_lanes [where 'a = 16 and 'b = 32])
     (rule lanes_eqI [where 'a = 32],
      simp_all add: lane_simps by_pairs_append by_pairs_lanes [where 'a = 32 and 'b = 64])

lemma vshrn_is_vuzp2:
  fixes a b :: m128
  shows "vcombine (vshrn_n TYPE(32) TYPE(16) a 16 :: m64) (vshrn_n TYPE(32) TYPE(16) b 16) = vuzp2 TYPE(16) a b"
    and "vcombine (vshrn_n TYPE(64) TYPE(32) a 32 :: m64) (vshrn_n TYPE(64) TYPE(32) b 32) = vuzp2 TYPE(32) a b"
  by (rule lanes_eqI [where 'a = 16],
      simp_all add: lane_simps by_pairs_append by_pairs_lanes [where 'a = 16 and 'b = 32])
     (rule lanes_eqI [where 'a = 32],
      simp_all add: lane_simps by_pairs_append by_pairs_lanes [where 'a = 32 and 'b = 64])

text \<open>The horizontal operations combine neighbouring lanes of the first and then of the second
  operand, saturating or wrapping, and the AArch64 and ARMv7 texts of each agree.\<close>

theorem horizontal_pairs:
  fixes a b :: m128
  shows "(lanes (mm_hadds_epi16 a b) :: u16 list) = by_pairs (\<lambda>x y. sat_s (sint x + sint y)) (lanes a @ (lanes b :: u16 list))
    \<and> (lanes (mm_hsubs_epi16 a b) :: u16 list) = by_pairs (\<lambda>x y. sat_s (sint x - sint y)) (lanes a @ (lanes b :: u16 list))
    \<and> (lanes (mm_hadd_epi16 a b) :: u16 list) = by_pairs (+) (lanes a @ (lanes b :: u16 list))
    \<and> (lanes (mm_hsub_epi16 a b) :: u16 list) = by_pairs (-) (lanes a @ (lanes b :: u16 list))
    \<and> (lanes (mm_hadd_epi32 a b) :: u32 list) = by_pairs (+) (lanes a @ (lanes b :: u32 list))
    \<and> (lanes (mm_hsub_epi32 a b) :: u32 list) = by_pairs (-) (lanes a @ (lanes b :: u32 list))
    \<and> mm_hadds_epi16_v7 a b = mm_hadds_epi16 a b
    \<and> mm_hsubs_epi16_v7 a b = mm_hsubs_epi16 a b
    \<and> mm_hadd_epi16_v7 a b = mm_hadd_epi16 a b"
proof -
  have halves: "take 4 (lanes v) @ drop 4 (lanes v) = (lanes v :: u16 list)" for v :: m128 by simp
  have "mm_hadd_epi16_v7 a b = mm_hadd_epi16 a b"
    by (rule lanes_eqI [where 'a = 16])
       (simp_all add: mm_hadd_epi16_v7_def mm_hadd_epi16_def lane_simps by_pairs_append)
  moreover have "(lanes (mm_hadd_epi32 a b) :: u32 list) = by_pairs (+) (lanes a @ (lanes b :: u32 list))"
    by (simp add: mm_hadd_epi32_def lane_simps by_pairs_append)
  ultimately show ?thesis
    by (simp add: mm_hadds_epi16_def mm_hsubs_epi16_def mm_hadds_epi16_v7_def mm_hsubs_epi16_v7_def
        mm_hadd_epi16_def mm_hsub_epi16_def mm_hsub_epi32_def vmovn_is_vuzp1 vshrn_is_vuzp2 lane_simps map2_by_pairs)
qed

text \<open>Products of lanes that fit their wider lane.\<close>

lemma sint_bounds:
  "- 128 \<le> sint (x :: u8) \<and> sint x < 128"
  "- 32768 \<le> sint (y :: u16) \<and> sint y < 32768"
  using sint_range [of x] sint_range [of y] by simp_all

lemma uint_bounds: "0 \<le> uint (x :: u8) \<and> uint x < 256" "0 \<le> uint (y :: u16) \<and> uint y < 65536"
  using unsigned_less [of x, where 'a = int] unsigned_less [of y, where 'a = int] by simp_all

lemma mult_le_bounds:
  fixes x y :: int
  assumes "\<bar>x\<bar> \<le> m" "\<bar>y\<bar> \<le> n"
  shows "\<bar>x * y\<bar> \<le> m * n"
  using assms by (simp add: abs_mult mult_mono)

lemma sint_word_of_int_small:
  "- (2 ^ (LENGTH('a) - 1)) \<le> i \<Longrightarrow> i < 2 ^ (LENGTH('a) - 1) \<Longrightarrow> sint (word_of_int i :: 'a::len word) = i"
  by (simp add: signed_of_int signed_take_bit_int_eq_self)

lemma sint_maddubs: "sint (ucast (x :: u8) * scast (y :: u8) :: u16) = uint x * sint y"
proof -
  have "(ucast x * scast y :: u16) = word_of_int (uint x * sint y)"
    by (simp add: of_int_uint of_int_sint)
  moreover have "\<bar>uint x * sint y\<bar> \<le> 255 * 128"
    using uint_bounds(1) [of x] sint_bounds(1) [of y] by (intro mult_le_bounds) auto
  ultimately show ?thesis by (simp only:) (rule sint_word_of_int_small; simp add: abs_le_iff)
qed

lemma sint_mull16: "sint (scast (x :: u16) * scast (y :: u16) :: u32) = sint x * sint y"
proof -
  have "(scast x * scast y :: u32) = word_of_int (sint x * sint y)"
    by (simp add: of_int_sint)
  moreover have "\<bar>sint x * sint y\<bar> \<le> 32768 * 32768"
    using sint_bounds(2) [of x] sint_bounds(2) [of y] by (intro mult_le_bounds) auto
  ultimately show ?thesis by (simp only:) (rule sint_word_of_int_small; simp add: abs_le_iff)
qed

text \<open>The ARMv7 text of \<open>maddubs\<close> works on 16-bit lanes, each holding two bytes.\<close>

lemma maddubs_even: "(w AND NOT 0xff00 :: u16) = ucast (ucast w :: u8)"
proof (rule bit_word_eqI)
  fix n assume "n < LENGTH(16)"
  then have "n < 16" by simp
  then have "bit (0xff00 :: u16) n \<longleftrightarrow> 8 \<le> n"
    by (auto simp: less_Suc_eq numeral_eq_Suc)
  then show "bit (w AND NOT 0xff00) n = bit (ucast (ucast w :: u8) :: u16) n"
    using \<open>n < 16\<close> by (auto simp: bit_simps)
qed

lemma sign_extend_byte: "signed_drop_bit 8 (push_bit 8 w :: u16) = scast (ucast w :: u8)"
proof (rule bit_word_eqI)
  fix n assume n: "n < LENGTH(16)"
  show "bit (signed_drop_bit 8 (push_bit 8 w)) n = bit (scast (ucast w :: u8) :: u16) n"
  proof (cases "8 \<le> n")
    case False
    then have "min n 7 = n" by simp
    with False n show ?thesis by (simp add: bit_simps bit_signed_drop_bit_iff)
  qed (use n in \<open>simp add: bit_simps bit_signed_drop_bit_iff\<close>)
qed

lemma sign_extend_high: "signed_drop_bit 8 (w :: u16) = scast (ucast (drop_bit 8 w) :: u8)"
proof (rule bit_word_eqI)
  fix n assume n: "n < LENGTH(16)"
  show "bit (signed_drop_bit 8 w) n = bit (scast (ucast (drop_bit 8 w) :: u8) :: u16) n"
  proof (cases "8 \<le> n")
    case False
    then have "min n 7 = n" by simp
    with False n show ?thesis by (simp add: bit_simps bit_signed_drop_bit_iff)
  qed (use n in \<open>simp add: bit_simps bit_signed_drop_bit_iff\<close>)
qed

lemma maddubs_odd:
  "drop_bit 8 (v :: u16) * signed_drop_bit 8 w = ucast (ucast (drop_bit 8 v) :: u8) * scast (ucast (drop_bit 8 w) :: u8)"
proof -
  have "drop_bit 8 v = ucast (ucast (drop_bit 8 v) :: u8)"
    by (rule bit_word_eqI) (auto simp: bit_simps dest: bit_imp_le_length)
  then show ?thesis by (simp only: sign_extend_high)
qed

text \<open>\<open>maddubs\<close> multiplies the unsigned bytes of the first operand with the signed bytes of the
  second and adds neighbouring products with signed saturation. No product overflows its 16 bits,
  and the AArch64 and the ARMv7 text agree.\<close>

theorem maddubs_saturated_pairs:
  fixes a b :: m128
  shows "(lanes (mm_maddubs_epi16 a b) :: u16 list) =
      by_pairs (\<lambda>p q. sat_s (p + q)) (map2 (\<lambda>x y. uint x * sint y) (lanes a :: u8 list) (lanes b :: u8 list))
    \<and> mm_maddubs_epi16_v7 a b = mm_maddubs_epi16 a b"
proof -
  let ?p = "map2 (\<lambda>x y. ucast x * scast y :: u16) (lanes a :: u8 list) (lanes b :: u8 list)"
  have l: "(lanes (mm_maddubs_epi16 a b) :: u16 list) = by_pairs (\<lambda>p q. sat_s (sint p + sint q)) ?p"
    by (simp add: mm_maddubs_epi16_def Let_def lane_simps map2_maps map2_take_drop map2_by_pairs)
  also have "\<dots> = by_pairs (\<lambda>p q. sat_s (p + q)) (map2 (\<lambda>x y. uint x * sint y) (lanes a :: u8 list) (lanes b :: u8 list))"
    by (simp add: by_pairs_map2_lanes [where 'a = 8 and 'b = 16] sint_maddubs)
  finally have spec: "(lanes (mm_maddubs_epi16 a b) :: u16 list) =
    by_pairs (\<lambda>p q. sat_s (p + q)) (map2 (\<lambda>x y. uint x * sint y) (lanes a :: u8 list) (lanes b :: u8 list))" .
  have v7: "(lanes (mm_maddubs_epi16_v7 a b) :: u16 list) = by_pairs (\<lambda>p q. sat_s (sint p + sint q)) ?p"
    by (simp add: mm_maddubs_epi16_v7_def Let_def lane_simps map2_replicate map2_maps maddubs_even [simplified] sign_extend_byte maddubs_odd
        by_pairs_map2_lanes [where 'a = 8 and 'b = 16] vbicv_def) (simp add: zip_same_conv_map case_prod_unfold)
  have "mm_maddubs_epi16_v7 a b = mm_maddubs_epi16 a b"
    by (rule lanes_eqI [where 'a = 16]) (simp_all only: l v7, simp)
  with spec show ?thesis by simp
qed

lemma ucast_drop_word_of_int:
  "m + LENGTH('a) \<le> LENGTH('b) \<Longrightarrow> ucast (drop_bit m (word_of_int p :: 'b::len word)) = (word_of_int (p div 2 ^ m) :: 'a::len word)"
  by (intro bit_word_eqI) (simp add: bit_simps flip: drop_bit_eq_div)

lemma high_half:
  "ucast (drop_bit 16 (scast x * scast y :: u32)) = (word_of_int (sint (x :: u16) * sint (y :: u16) div 65536) :: u16)"
  "ucast (drop_bit 16 (ucast x * ucast y :: u32)) = (word_of_int (uint (x :: u16) * uint (y :: u16) div 65536) :: u16)"
proof -
  have s: "(scast x * scast y :: u32) = word_of_int (sint x * sint y)"
    and u: "(ucast x * ucast y :: u32) = word_of_int (uint x * uint y)"
    by (simp_all add: of_int_sint of_int_uint)
  show "ucast (drop_bit 16 (scast x * scast y :: u32)) = (word_of_int (sint x * sint y div 65536) :: u16)"
    unfolding s using ucast_drop_word_of_int [of 16, where 'a = 16 and 'b = 32 and p = "sint x * sint y"] by simp
  show "ucast (drop_bit 16 (ucast x * ucast y :: u32)) = (word_of_int (uint x * uint y div 65536) :: u16)"
    unfolding u using ucast_drop_word_of_int [of 16, where 'a = 16 and 'b = 32 and p = "uint x * uint y"] by simp
qed

lemma round_half: "(p + 16384) div 32768 = (p div 16384 + 1) div (2 :: int)"
  using zdiv_zmult2_eq [of 2 "p + 16384" 16384] by simp

text \<open>The high halves and the rounded products: \<open>mulhi\<close> keeps bits 16 to 31 of the exact product,
  \<open>mulhrs\<close> drops 14 bits, rounds and drops one more, as 16 bits (so the product of two least
  values wraps to the least value), \<open>madd\<close> adds neighbouring exact products.\<close>

theorem multiply_lanes:
  fixes a b :: m128
  shows "(lanes (mm_mulhi_epi16 a b) :: u16 list) =
      map2 (\<lambda>x y. word_of_int (sint x * sint y div 2 ^ 16)) (lanes a :: u16 list) (lanes b :: u16 list)
    \<and> (lanes (mm_mulhi_epu16 a b) :: u16 list) =
      map2 (\<lambda>x y. word_of_int (uint x * uint y div 2 ^ 16)) (lanes a :: u16 list) (lanes b :: u16 list)
    \<and> (lanes (mm_mulhrs_epi16 a b) :: u16 list) =
      map2 (\<lambda>x y. word_of_int ((sint x * sint y div 2 ^ 14 + 1) div 2)) (lanes a :: u16 list) (lanes b :: u16 list)
    \<and> (lanes (mm_madd_epi16 a b) :: u32 list) =
      by_pairs (\<lambda>p q. word_of_int (p + q)) (map2 (\<lambda>x y. sint x * sint y) (lanes a :: u16 list) (lanes b :: u16 list))"
proof (intro conjI)
  show "(lanes (mm_mulhi_epi16 a b) :: u16 list) =
      map2 (\<lambda>x y. word_of_int (sint x * sint y div 2 ^ 16)) (lanes a :: u16 list) (lanes b :: u16 list)"
    by (simp add: mm_mulhi_epi16_def Let_def lane_simps by_pairs_append by_pairs_lanes [where 'a = 16 and 'b = 32]
        map2_take_drop comp_case_prod high_half)
  show "(lanes (mm_mulhi_epu16 a b) :: u16 list) =
      map2 (\<lambda>x y. word_of_int (uint x * uint y div 2 ^ 16)) (lanes a :: u16 list) (lanes b :: u16 list)"
    by (simp add: mm_mulhi_epu16_def Let_def lane_simps by_pairs_append by_pairs_lanes [where 'a = 16 and 'b = 32]
        map2_take_drop comp_case_prod high_half)
  show "(lanes (mm_mulhrs_epi16 a b) :: u16 list) =
      map2 (\<lambda>x y. word_of_int ((sint x * sint y div 2 ^ 14 + 1) div 2)) (lanes a :: u16 list) (lanes b :: u16 list)"
    by (simp add: mm_mulhrs_epi16_def Let_def lane_simps map2_take_drop comp_case_prod sint_mull16 round_half)
  let ?q = "map2 (\<lambda>x y. sint x * sint y) (lanes a :: u16 list) (lanes b :: u16 list)"
  have "(lanes (mm_madd_epi16 a b) :: u32 list) =
      by_pairs (+) (map2 (\<lambda>x y. scast x * scast y) (lanes a :: u16 list) (lanes b :: u16 list))"
    by (simp add: mm_madd_epi16_def Let_def lane_simps map2_take_drop flip: by_pairs_append)
  also have "\<dots> = by_pairs (+) (map word_of_int ?q)"
    by (simp add: comp_case_prod)
  also have "\<dots> = by_pairs (\<lambda>p q. word_of_int (p + q)) ?q"
    by (subst by_pairs_map) simp
  finally show "(lanes (mm_madd_epi16 a b) :: u32 list) = by_pairs (\<lambda>p q. word_of_int (p + q)) ?q" .
qed

text \<open>Equality of 64-bit lanes from equality of their halves.\<close>

lemma eq_halves: "(x :: u64) = y \<longleftrightarrow> (ucast x :: u32) = ucast y \<and> (ucast (drop_bit 32 x) :: u32) = ucast (drop_bit 32 y)"
proof -
  have "(lanes x :: u32 list) = lanes y \<longleftrightarrow> x = y" by (rule lanes_inject) simp
  then show ?thesis by (simp add: lanes_halves [where 'a = 32 and 'b = 64])
qed

lemma swapped_pairs:
  fixes v :: m128
  shows "(lanes (vrev TYPE(32) TYPE(64) v) :: u32 list) = concat (by_pairs (\<lambda>x y. [y, x]) (lanes v :: u32 list))"
  by (simp add: lanes_vrev lanes_halves [where 'a = 32 and 'b = 64] by_pairs_lanes [where 'a = 32 and 'b = 64])

lemma both_halves_equal:
  assumes "length ws = length vs"
    and "C = map2 (\<lambda>x y. if x = y then NOT 0 else 0 :: u32)
      (concat (map (\<lambda>w. [ucast w, ucast (drop_bit 32 w) :: u32]) ws)) (concat (map (\<lambda>w. [ucast w, ucast (drop_bit 32 w)]) vs))"
  shows "map2 (AND) C (concat (by_pairs (\<lambda>x y. [y, x]) C)) =
    concat (map2 (\<lambda>(w :: u64) v. lanes (if w = v then NOT 0 else 0 :: u64)) ws vs)"
  using assms
proof (induction ws vs arbitrary: C rule: list_induct2)
  case (Cons w ws v vs)
  have l: "lanes (NOT 0 :: u64) = [NOT 0, NOT 0 :: u32]" "lanes (0 :: u64) = [0, 0 :: u32]"
    by (simp_all add: lanes_halves [where 'a = 32 and 'b = 64] mask_eq_exp_minus_1)
       (simp add: bit_eq_iff bit_simps)
  then show ?case using Cons by (simp add: eq_halves [of w v])
qed simp

text \<open>The 64-bit comparisons: the ARMv7 texts, which combine two 32-bit comparisons and read the
  sign of a saturated difference, agree with the AArch64 instructions on all inputs.\<close>

theorem compare64_builds_agree:
  fixes a b :: m128
  shows "mm_cmpeq_epi64_v7 a b = mm_cmpeq_epi64 a b \<and> mm_cmpgt_epi64_v7 a b = mm_cmpgt_epi64 a b"
proof
  show "mm_cmpgt_epi64_v7 a b = mm_cmpgt_epi64 a b"
  proof (rule lanes_eqI [where 'a = 64])
    have "signed_drop_bit 63 (sat_s (sint y - sint x) :: u64) = (if sint y < sint x then NOT 0 else 0)" for x y :: u64
      using signed_drop_bit_mask [of "sat_s (sint y - sint x) :: u64"] by (simp add: sint_sat_s min_def split: if_splits)
    then have "map (signed_drop_bit 63) (map2 (\<lambda>x y. sat_s (sint x - sint y)) ys xs) =
        map2 (\<lambda>x y. if sint y < sint x then NOT 0 else 0 :: u64) xs ys" for xs ys :: "u64 list"
      by (intro nth_equalityI) simp_all
    then show "(lanes (mm_cmpgt_epi64_v7 a b) :: u64 list) = lanes (mm_cmpgt_epi64 a b)"
      by (simp only: mm_cmpgt_epi64_v7_def mm_cmpgt_epi64_def lane_simps) (simp add: lane_simps)
  qed simp
  show "mm_cmpeq_epi64_v7 a b = mm_cmpeq_epi64 a b"
  proof (rule lanes_eqI [where 'a = 32])
    have p: "(lanes v :: u32 list) = concat (map (\<lambda>w. [ucast w, ucast (drop_bit 32 w)]) (lanes v :: u64 list))" for v :: m128
      using lanes_pairs [where 'a = 32 and 'b = 64 and v = v] by simp
    have "(lanes (mm_cmpeq_epi64 a b) :: u32 list) = concat (map lanes (lanes (mm_cmpeq_epi64 a b) :: u64 list))"
      by (rule lanes_concat) simp_all
    also have "\<dots> = concat (map2 (\<lambda>(w :: u64) v. lanes (if w = v then NOT 0 else 0 :: u64)) (lanes a) (lanes b))"
      by (simp add: mm_cmpeq_epi64_def lane_simps comp_case_prod)
    also have "\<dots> = (let C = lanes (vceq TYPE(32) a b) :: u32 list in map2 (AND) C (concat (by_pairs (\<lambda>x y. [y, x]) C)))"
      unfolding Let_def by (rule both_halves_equal [symmetric]) (simp, subst lanes_vceq, simp, simp only: p)
    also have "\<dots> = lanes (mm_cmpeq_epi64_v7 a b)"
      by (simp add: mm_cmpeq_epi64_v7_def Let_def lanes_and swapped_pairs)
    finally show "(lanes (mm_cmpeq_epi64_v7 a b) :: u32 list) = lanes (mm_cmpeq_epi64 a b)" by simp
  qed simp
qed

definition absdiff :: "u8 \<Rightarrow> u8 \<Rightarrow> nat" where
  "absdiff x y = (if unat x < unat y then unat y - unat x else unat x - unat y)"

lemma unat_abd: "unat (if x < y then y - x else x - y) = absdiff x y"
  by (auto simp: absdiff_def word_less_nat_alt word_le_nat_alt unat_sub)

lemma absdiff_le: "absdiff x y \<le> 255"
  using unsigned_less [of x, where 'a = nat] unsigned_less [of y, where 'a = nat] unfolding absdiff_def
  by (cases "unat x < unat y") (simp_all only: if_True if_False, simp_all)

lemma abd_pair: "ucast (if x < y then y - x else x - y) = (of_nat (absdiff x y) :: u16)"
  by (metis of_nat_unat unat_abd)

lemma ucast_down_add:
  "LENGTH('b) \<le> LENGTH('a) \<Longrightarrow> (ucast (x + y :: 'a::len word) :: 'b::len word) = ucast x + ucast y"
  by transfer (metis take_bit_add take_bit_take_bit min.absorb1)

lemma sum4_eq: "sum4 t i = t ! i + t ! (i + 1) + t ! (i + 2) + t ! (i + 3)"
proof -
  have "ucast (ucast x :: u32) = x" for x :: u16
    by (rule bit_word_eqI) (simp add: bit_simps)
  then show ?thesis by (simp add: sum4_def ucast_down_add)
qed

lemma sum_list_le: "(\<And>x. x \<in> set xs \<Longrightarrow> x \<le> (n :: nat)) \<Longrightarrow> sum_list xs \<le> length xs * n"
  using sum_list_mono [of xs "\<lambda>x. x" "\<lambda>x. n"] by (simp add: sum_list_triv)

text \<open>\<open>sad\<close> puts into the low 16 bits of each half the sum of the eight absolute differences of its
  bytes, at most 2040, and clears the other lanes: neither the 16-bit pair sums nor the cut of the
  \<open>int\<close> sum to 16 bits loses a carry.\<close>

theorem sad_sums:
  fixes a b :: m128
  shows "(lanes (mm_sad_epu8 a b) :: u16 list) =
      [of_nat (sum_list (take 8 (map2 absdiff (lanes a) (lanes b)))), 0, 0, 0,
       of_nat (sum_list (drop 8 (map2 absdiff (lanes a) (lanes b)))), 0, 0, 0]
    \<and> sum_list (take 8 (map2 absdiff (lanes a) (lanes b))) \<le> 2040
    \<and> sum_list (drop 8 (map2 absdiff (lanes a) (lanes b))) \<le> 2040"
proof (intro conjI)
  let ?d = "map2 absdiff (lanes a) (lanes b)"
  have le: "x \<le> 255" if "x \<in> set ?d" for x
    using that by (auto simp: absdiff_le)
  show "sum_list (take 8 ?d) \<le> 2040"
    using sum_list_le [of "take 8 ?d" 255] le by (force dest: in_set_takeD)
  show "sum_list (drop 8 ?d) \<le> 2040"
    using sum_list_le [of "drop 8 ?d" 255] le by (force dest: in_set_dropD)
  have t: "(lanes (vpaddl_u TYPE(8) TYPE(16) (vabd_u TYPE(8) a b)) :: u16 list) = by_pairs (\<lambda>m n. of_nat m + of_nat n) ?d"
  proof -
    let ?e = "map2 (\<lambda>x y. if x < y then y - x else x - y) (lanes a :: u8 list) (lanes b)"
    have e: "map ucast ?e = (map of_nat ?d :: u16 list)" by (simp add: comp_case_prod abd_pair)
    have "(lanes (vpaddl_u TYPE(8) TYPE(16) (vabd_u TYPE(8) a b)) :: u16 list) = by_pairs (\<lambda>x y. ucast x + ucast y) ?e"
      by (simp add: lane_simps)
    also have "\<dots> = by_pairs (+) (map ucast ?e)" by (simp only: by_pairs_map)
    also have "\<dots> = by_pairs (\<lambda>m n. of_nat m + of_nat n) ?d" by (simp only: e by_pairs_map)
    finally show ?thesis .
  qed
  obtain d where d: "?d = d" "length d = 16" by simp
  show "(lanes (mm_sad_epu8 a b) :: u16 list) =
      [of_nat (sum_list (take 8 ?d)), 0, 0, 0, of_nat (sum_list (drop 8 ?d)), 0, 0, 0]"
    unfolding mm_sad_epu8_def Let_def t d(1)
    by (subst (1 2 3 4) list_16 [OF d(2)])
       (simp add: lane_simps sum4_eq replicate_numeral add.assoc)
qed

text \<open>The select of \<open>sign\<close>: the mask lanes are all ones or zero, so the bitwise choice is a choice of lanes.\<close>

definition sign_lane :: "'a::len word \<Rightarrow> 'a word \<Rightarrow> 'a word" where
  "sign_lane x y = (if sint y < 0 then - x else if y = 0 then 0 else x)"

lemma sign_select:
  fixes a b :: "'v::len word"
  assumes "LENGTH('a::len) dvd LENGTH('v)"
  shows "(lanes (vbicv (vbsl (vshr_s TYPE('a) b (LENGTH('a) - 1)) (vneg TYPE('a) a) a)
      (vceq TYPE('a) b (vdup (0 :: 'a word)))) :: 'a word list) = map2 sign_lane (lanes a) (lanes b)"
  using assms
  by (intro nth_equalityI)
     (auto simp: lane_simps lanes_vbsl signed_drop_bit_mask [unfolded One_nat_def] sign_lane_def vbicv_def)

text \<open>\<open>sign\<close> negates, clears or keeps each lane by the sign of the other operand's lane.\<close>

theorem sign_lanes:
  fixes a b :: m128 and x y :: m64
  shows "(lanes (mm_sign_epi8 a b) :: u8 list) = map2 sign_lane (lanes a) (lanes b)
    \<and> (lanes (mm_sign_epi16 a b) :: u16 list) = map2 sign_lane (lanes a) (lanes b)
    \<and> (lanes (mm_sign_epi32 a b) :: u32 list) = map2 sign_lane (lanes a) (lanes b)
    \<and> (lanes (mm_sign_pi8 x y) :: u8 list) = map2 sign_lane (lanes x) (lanes y)
    \<and> (lanes (mm_sign_pi16 x y) :: u16 list) = map2 sign_lane (lanes x) (lanes y)
    \<and> (lanes (mm_sign_pi32 x y) :: u32 list) = map2 sign_lane (lanes x) (lanes y)"
  using sign_select [where 'a = 8 and a = a and b = b] sign_select [where 'a = 16 and a = a and b = b]
    sign_select [where 'a = 32 and a = a and b = b]
    sign_select [where 'a = 8 and a = x and b = y] sign_select [where 'a = 16 and a = x and b = y]
    sign_select [where 'a = 32 and a = x and b = y]
  by (simp add: mm_sign_epi8_def mm_sign_epi16_def mm_sign_epi32_def mm_sign_pi8_def mm_sign_pi16_def
      mm_sign_pi32_def Let_def)

lemma sint_nonneg: "0 \<le> sint x \<Longrightarrow> sint x = int (unat x)" for x :: u64
proof -
  assume "0 \<le> sint x"
  moreover have "sint x < 2 ^ 64" using sint_range(2) [of x] by simp
  ultimately have "take_bit 64 (sint x) = sint x" by (rule take_bit_int_eq_self)
  moreover have "uint x = take_bit 64 (sint x)" using uint_sint [of x] by simp
  ultimately show ?thesis by simp
qed

text \<open>The count of a register shift to the right is negated and read back from its low byte.\<close>

lemma shl_lane_right:
  "k \<le> 15 \<Longrightarrow> shl_lane_s (x :: u16) (- of_nat k) = signed_drop_bit k x"
proof -
  assume "k \<le> 15"
  then have "k \<in> set [0..<16]" by simp
  then have "k \<in> {0, 1, 2, 3, 4, 5, 6, 7, 8, 9, 10, 11, 12, 13, 14, 15}"
    by (simp add: upt_rec numeral_eq_Suc)
  moreover have "(ucast (- 1 :: u16) :: u8) = - 1" by (rule bit_word_eqI) (simp add: bit_simps)
  ultimately show ?thesis by (auto simp: shl_lane_s_def)
qed

text \<open>The register form of the arithmetic shift agrees with the instruction it stands for (every
  count above 15 fills the lanes with the sign) when the count is below \<open>2 ^ 63\<close>. The code reads
  the count as a signed number: a count of \<open>2 ^ 64 - 1\<close> shifts every lane one bit to the left.\<close>

theorem sra_epi16_counts:
  fixes a count :: m128
  defines "c \<equiv> (vget_lane count 0 :: u64)"
  shows "(0 \<le> sint c \<longrightarrow> (lanes (mm_sra_epi16 a count) :: u16 list) = map (signed_drop_bit (min (unat c) 15)) (lanes a))
    \<and> (c = NOT 0 \<longrightarrow> (lanes (mm_sra_epi16 a count) :: u16 list) = map (push_bit 1) (lanes a))"
proof (intro conjI impI)
  have z: "mm_setzero_si128 = 0" by (simp add: mm_setzero_si128_def vdup_def)
  assume c: "0 \<le> sint c"
  then have u: "sint c = int (unat c)" by (rule sint_nonneg)
  show "(lanes (mm_sra_epi16 a count) :: u16 list) = map (signed_drop_bit (min (unat c) 15)) (lanes a)"
  proof (cases "15 < sint c")
    case True
    then have "15 < unat c" using u by linarith
    then have "min (unat c) 15 = LENGTH(16) - 1" by simp
    then show ?thesis
      using True
      by (simp add: mm_sra_epi16_def mm_cmplt_epi16_def z lane_simps map2_replicate signed_drop_bit_mask [where 'a = 16, simplified]
          flip: c_def)
  next
    case False
    then have le: "unat c \<le> 15" using u by linarith
    have "(ucast c :: u16) = of_nat (unat c)" by simp
    then have "shl_lane_s x (- ucast c) = signed_drop_bit (unat c) x" for x :: u16
      using shl_lane_right [OF le, of x] by simp
    with False le show ?thesis
      by (simp add: mm_sra_epi16_def vshl_s_def lane_simps map2_replicate Let_def flip: c_def)
  qed
next
  assume c: "c = NOT 0"
  have "(ucast (- 1 :: u64) :: u16) = - 1" by (rule bit_word_eqI) (simp add: bit_simps)
  then have "shl_lane_s x (- ucast c) = push_bit 1 x" for x :: u16
    by (simp add: c shl_lane_s_def)
  then show "(lanes (mm_sra_epi16 a count) :: u16 list) = map (push_bit 1) (lanes a)"
    by (simp add: mm_sra_epi16_def vshl_s_def lane_simps map2_replicate Let_def flip: c_def) (simp add: c)
qed

lemma vget_lane_0: "LENGTH('a) \<le> LENGTH('v) \<Longrightarrow> (vget_lane (v :: 'v::len word) 0 :: 'a::len word) = ucast v"
  by (intro bit_word_eqI) (auto simp: vget_lane_def bit_nth_lanes bit_simps div_greater_zero_iff)

theorem sra_epi16_counts_witness:
  "(lanes (mm_sra_epi16 (vdup (0x8001 :: u16)) 20) :: u16 list) = replicate 8 0xFFFF
   \<and> (lanes (mm_sra_epi16 (vdup (0x8001 :: u16)) (NOT 0)) :: u16 list) = replicate 8 2"
proof
  have "(vget_lane (20 :: m128) 0 :: u64) = 20" by (simp add: vget_lane_0)
  moreover have "signed_drop_bit 15 (0x8001 :: u16) = 0xFFFF"
    using signed_drop_bit_mask [of "0x8001 :: u16"] by simp
  ultimately show "(lanes (mm_sra_epi16 (vdup (0x8001 :: u16)) 20) :: u16 list) = replicate 8 0xFFFF"
    using conjunct1 [OF sra_epi16_counts, of 20 "vdup (0x8001 :: u16)"] by (simp add: lane_simps)
  have "(vget_lane (NOT 0 :: m128) 0 :: u64) = NOT 0"
    by (rule bit_word_eqI) (simp add: vget_lane_0 bit_simps)
  then show "(lanes (mm_sra_epi16 (vdup (0x8001 :: u16)) (NOT 0)) :: u16 list) = replicate 8 2"
    using conjunct2 [OF sra_epi16_counts, of "NOT 0" "vdup (0x8001 :: u16)"] by (simp add: lane_simps)
qed

end
