(* ===== verification/Sse_Pack.thy ===== *)
theory Sse_Pack
  imports Sse_Arith
begin

text \<open>
  \<open>psetggm/sse2neon.h\<close>: intrinsics that convert, pack, interleave, blend and pick lanes. A
  \<open>float\<close> or \<open>double\<close> lane that is only moved is its bit pattern. The arguments of the macros
  are compile-time constants; a lane number out of range is rejected by the compiler and is
  unspecified here.
\<close>

section \<open>Widening conversions\<close>

definition mm_cvtepu8_epi16 :: "m128 \<Rightarrow> m128" where
  "mm_cvtepu8_epi16 a = vmovl_u TYPE(8) TYPE(16) (vget_low a :: m64)"

definition mm_cvtepu8_epi32 :: "m128 \<Rightarrow> m128" where
  "mm_cvtepu8_epi32 a =
     (let u16x8 = (vmovl_u TYPE(8) TYPE(16) (vget_low a :: m64) :: m128);
          u32x4 = (vmovl_u TYPE(16) TYPE(32) (vget_low u16x8 :: m64) :: m128)
      in u32x4)"

definition mm_cvtepu8_epi64 :: "m128 \<Rightarrow> m128" where
  "mm_cvtepu8_epi64 a =
     (let u16x8 = (vmovl_u TYPE(8) TYPE(16) (vget_low a :: m64) :: m128);
          u32x4 = (vmovl_u TYPE(16) TYPE(32) (vget_low u16x8 :: m64) :: m128);
          u64x2 = (vmovl_u TYPE(32) TYPE(64) (vget_low u32x4 :: m64) :: m128)
      in u64x2)"

definition mm_cvtepu16_epi32 :: "m128 \<Rightarrow> m128" where
  "mm_cvtepu16_epi32 a = vmovl_u TYPE(16) TYPE(32) (vget_low a :: m64)"

definition mm_cvtepu16_epi64 :: "m128 \<Rightarrow> m128" where
  "mm_cvtepu16_epi64 a =
     (let u32x4 = (vmovl_u TYPE(16) TYPE(32) (vget_low a :: m64) :: m128);
          u64x2 = (vmovl_u TYPE(32) TYPE(64) (vget_low u32x4 :: m64) :: m128)
      in u64x2)"

definition mm_cvtepu32_epi64 :: "m128 \<Rightarrow> m128" where
  "mm_cvtepu32_epi64 a = vmovl_u TYPE(32) TYPE(64) (vget_low a :: m64)"

definition mm_cvtepi8_epi16 :: "m128 \<Rightarrow> m128" where
  "mm_cvtepi8_epi16 a = vmovl_s TYPE(8) TYPE(16) (vget_low a :: m64)"

definition mm_cvtepi8_epi32 :: "m128 \<Rightarrow> m128" where
  "mm_cvtepi8_epi32 a =
     (let s16x8 = (vmovl_s TYPE(8) TYPE(16) (vget_low a :: m64) :: m128);
          s32x4 = (vmovl_s TYPE(16) TYPE(32) (vget_low s16x8 :: m64) :: m128)
      in s32x4)"

definition mm_cvtepi8_epi64 :: "m128 \<Rightarrow> m128" where
  "mm_cvtepi8_epi64 a =
     (let s16x8 = (vmovl_s TYPE(8) TYPE(16) (vget_low a :: m64) :: m128);
          s32x4 = (vmovl_s TYPE(16) TYPE(32) (vget_low s16x8 :: m64) :: m128);
          s64x2 = (vmovl_s TYPE(32) TYPE(64) (vget_low s32x4 :: m64) :: m128)
      in s64x2)"

definition mm_cvtepi16_epi32 :: "m128 \<Rightarrow> m128" where
  "mm_cvtepi16_epi32 a = vmovl_s TYPE(16) TYPE(32) (vget_low a :: m64)"

definition mm_cvtepi16_epi64 :: "m128 \<Rightarrow> m128" where
  "mm_cvtepi16_epi64 a =
     (let s32x4 = (vmovl_s TYPE(16) TYPE(32) (vget_low a :: m64) :: m128);
          s64x2 = (vmovl_s TYPE(32) TYPE(64) (vget_low s32x4 :: m64) :: m128)
      in s64x2)"

definition mm_cvtepi32_epi64 :: "m128 \<Rightarrow> m128" where
  "mm_cvtepi32_epi64 a = vmovl_s TYPE(32) TYPE(64) (vget_low a :: m64)"

section \<open>Narrowing with saturation\<close>

definition mm_packs_epi16 :: "m128 \<Rightarrow> m128 \<Rightarrow> m128" where
  "mm_packs_epi16 a b =
     vcombine (vqmovn_s TYPE(16) TYPE(8) a :: m64) (vqmovn_s TYPE(16) TYPE(8) b)"

definition mm_packus_epi16 :: "m128 \<Rightarrow> m128 \<Rightarrow> m128" where
  "mm_packus_epi16 a b =
     vcombine (vqmovun TYPE(16) TYPE(8) a :: m64) (vqmovun TYPE(16) TYPE(8) b)"

definition mm_packs_epi32 :: "m128 \<Rightarrow> m128 \<Rightarrow> m128" where
  "mm_packs_epi32 a b =
     vcombine (vqmovn_s TYPE(32) TYPE(16) a :: m64) (vqmovn_s TYPE(32) TYPE(16) b)"

definition mm_packus_epi32 :: "m128 \<Rightarrow> m128 \<Rightarrow> m128" where
  "mm_packus_epi32 a b =
     vcombine (vqmovun TYPE(32) TYPE(16) a :: m64) (vqmovun TYPE(32) TYPE(16) b)"

section \<open>Interleaving\<close>

text \<open>\<open>vzip\<close> of two 64-bit registers gives two: \<open>vzip1\<close> and \<open>vzip2\<close> of them.\<close>

definition mm_unpacklo_epi8 :: "m128 \<Rightarrow> m128 \<Rightarrow> m128" where
  "mm_unpacklo_epi8 a b = vzip1 TYPE(8) a b"

definition mm_unpacklo_epi8_v7 :: "m128 \<Rightarrow> m128 \<Rightarrow> m128" where
  "mm_unpacklo_epi8_v7 a b =
     (let a1 = (vget_low a :: m64);
          b1 = vget_low b
      in vcombine (vzip1 TYPE(8) a1 b1) (vzip2 TYPE(8) a1 b1))"

definition mm_unpacklo_epi16 :: "m128 \<Rightarrow> m128 \<Rightarrow> m128" where
  "mm_unpacklo_epi16 a b = vzip1 TYPE(16) a b"

definition mm_unpacklo_epi16_v7 :: "m128 \<Rightarrow> m128 \<Rightarrow> m128" where
  "mm_unpacklo_epi16_v7 a b =
     (let a1 = (vget_low a :: m64);
          b1 = vget_low b
      in vcombine (vzip1 TYPE(16) a1 b1) (vzip2 TYPE(16) a1 b1))"

definition mm_unpacklo_epi32 :: "m128 \<Rightarrow> m128 \<Rightarrow> m128" where
  "mm_unpacklo_epi32 a b = vzip1 TYPE(32) a b"

definition mm_unpacklo_epi32_v7 :: "m128 \<Rightarrow> m128 \<Rightarrow> m128" where
  "mm_unpacklo_epi32_v7 a b =
     (let a1 = (vget_low a :: m64);
          b1 = vget_low b
      in vcombine (vzip1 TYPE(32) a1 b1) (vzip2 TYPE(32) a1 b1))"

definition mm_unpacklo_ps :: "m128 \<Rightarrow> m128 \<Rightarrow> m128" where
  "mm_unpacklo_ps a b = vzip1 TYPE(32) a b"

definition mm_unpacklo_ps_v7 :: "m128 \<Rightarrow> m128 \<Rightarrow> m128" where
  "mm_unpacklo_ps_v7 a b =
     (let a1 = (vget_low a :: m64);
          b1 = vget_low b
      in vcombine (vzip1 TYPE(32) a1 b1) (vzip2 TYPE(32) a1 b1))"

definition mm_unpacklo_epi64 :: "m128 \<Rightarrow> m128 \<Rightarrow> m128" where
  "mm_unpacklo_epi64 a b =
     (let a_l = (vget_low a :: m64); b_l = vget_low b in vcombine a_l b_l)"

definition mm_unpacklo_pd :: "m128 \<Rightarrow> m128 \<Rightarrow> m128" where
  "mm_unpacklo_pd a b = vzip1 TYPE(64) a b"

definition mm_unpacklo_pd_v7 :: "m128 \<Rightarrow> m128 \<Rightarrow> m128" where
  "mm_unpacklo_pd_v7 a b = vcombine (vget_low a :: m64) (vget_low b)"

definition mm_unpackhi_epi8 :: "m128 \<Rightarrow> m128 \<Rightarrow> m128" where
  "mm_unpackhi_epi8 a b = vzip2 TYPE(8) a b"

definition mm_unpackhi_epi8_v7 :: "m128 \<Rightarrow> m128 \<Rightarrow> m128" where
  "mm_unpackhi_epi8_v7 a b =
     (let a1 = (vget_high a :: m64);
          b1 = vget_high b
      in vcombine (vzip1 TYPE(8) a1 b1) (vzip2 TYPE(8) a1 b1))"

definition mm_unpackhi_epi16 :: "m128 \<Rightarrow> m128 \<Rightarrow> m128" where
  "mm_unpackhi_epi16 a b = vzip2 TYPE(16) a b"

definition mm_unpackhi_epi16_v7 :: "m128 \<Rightarrow> m128 \<Rightarrow> m128" where
  "mm_unpackhi_epi16_v7 a b =
     (let a1 = (vget_high a :: m64);
          b1 = vget_high b
      in vcombine (vzip1 TYPE(16) a1 b1) (vzip2 TYPE(16) a1 b1))"

definition mm_unpackhi_epi32 :: "m128 \<Rightarrow> m128 \<Rightarrow> m128" where
  "mm_unpackhi_epi32 a b = vzip2 TYPE(32) a b"

definition mm_unpackhi_epi32_v7 :: "m128 \<Rightarrow> m128 \<Rightarrow> m128" where
  "mm_unpackhi_epi32_v7 a b =
     (let a1 = (vget_high a :: m64);
          b1 = vget_high b
      in vcombine (vzip1 TYPE(32) a1 b1) (vzip2 TYPE(32) a1 b1))"

definition mm_unpackhi_ps :: "m128 \<Rightarrow> m128 \<Rightarrow> m128" where
  "mm_unpackhi_ps a b = vzip2 TYPE(32) a b"

definition mm_unpackhi_ps_v7 :: "m128 \<Rightarrow> m128 \<Rightarrow> m128" where
  "mm_unpackhi_ps_v7 a b =
     (let a1 = (vget_high a :: m64);
          b1 = vget_high b
      in vcombine (vzip1 TYPE(32) a1 b1) (vzip2 TYPE(32) a1 b1))"

definition mm_unpackhi_epi64 :: "m128 \<Rightarrow> m128 \<Rightarrow> m128" where
  "mm_unpackhi_epi64 a b =
     (let a_h = (vget_high a :: m64); b_h = vget_high b in vcombine a_h b_h)"

definition mm_unpackhi_pd :: "m128 \<Rightarrow> m128 \<Rightarrow> m128" where
  "mm_unpackhi_pd a b = vzip2 TYPE(64) a b"

definition mm_unpackhi_pd_v7 :: "m128 \<Rightarrow> m128 \<Rightarrow> m128" where
  "mm_unpackhi_pd_v7 a b = vcombine (vget_high a :: m64) (vget_high b)"

section \<open>Blends\<close>

definition mm_blendv_epi8 :: "m128 \<Rightarrow> m128 \<Rightarrow> m128 \<Rightarrow> m128" where
  "mm_blendv_epi8 a b msk = (let mask = vshr_s TYPE(8) msk 7 in vbsl mask b a)"

definition mm_blendv_ps :: "m128 \<Rightarrow> m128 \<Rightarrow> m128 \<Rightarrow> m128" where
  "mm_blendv_ps a b msk = (let mask = vshr_s TYPE(32) msk 31 in vbsl mask b a)"

definition mm_blendv_pd :: "m128 \<Rightarrow> m128 \<Rightarrow> m128 \<Rightarrow> m128" where
  "mm_blendv_pd a b msk = (let mask = vshr_s TYPE(64) msk 63 in vbsl mask b a)"

text \<open>The lane mask of an immediate: lane \<open>i\<close> is all ones when bit \<open>i\<close> is set.\<close>

definition mm_blend_epi16 :: "m128 \<Rightarrow> m128 \<Rightarrow> u32 \<Rightarrow> m128" where
  "mm_blend_epi16 a b imm =
     (let mask_vec = vld1 (map (\<lambda>i. if bit imm i then NOT 0 else 0 :: u16) [0..<8])
      in vbsl mask_vec b a)"

definition mm_blend_ps :: "m128 \<Rightarrow> m128 \<Rightarrow> u32 \<Rightarrow> m128" where
  "mm_blend_ps a b imm =
     (let mask_vec = vld1 (map (\<lambda>i. if bit imm i then NOT 0 else 0 :: u32) [0..<4])
      in vbsl mask_vec b a)"

definition mm_blend_pd :: "m128 \<Rightarrow> m128 \<Rightarrow> u32 \<Rightarrow> m128" where
  "mm_blend_pd a b imm =
     (let mask_vec = vld1 (map (\<lambda>i. if bit imm i then NOT 0 else 0 :: u64) [0..<2])
      in vbsl mask_vec b a)"

section \<open>Bytes across two registers\<close>

definition mm_alignr_epi8 :: "m128 \<Rightarrow> m128 \<Rightarrow> nat \<Rightarrow> m128" where
  "mm_alignr_epi8 a b imm =
     (if imm \<ge> 32 then mm_setzero_si128
      else if imm \<ge> 16 then vext TYPE(8) a (vdup (0 :: u8)) (imm - 16)
      else vext TYPE(8) b a imm)"

definition mm_alignr_pi8 :: "m64 \<Rightarrow> m64 \<Rightarrow> nat \<Rightarrow> m64" where
  "mm_alignr_pi8 a b imm =
     (if imm \<ge> 16 then vdup (0 :: u8)
      else if imm \<ge> 8 then vext TYPE(8) a (vdup (0 :: u8)) (imm - 8)
      else vext TYPE(8) b a imm)"

section \<open>Single lanes\<close>

text \<open>The results of \<open>extract\<close> are widened to \<open>int\<close> by the caller: zero-extended for 8 and 16 bits.\<close>

definition mm_extract_epi8 :: "m128 \<Rightarrow> nat \<Rightarrow> u8" where
  "mm_extract_epi8 a imm = vget_lane a imm"

definition mm_extract_epi16 :: "m128 \<Rightarrow> nat \<Rightarrow> u16" where
  "mm_extract_epi16 a imm = vget_lane a imm"

definition mm_extract_pi16 :: "m64 \<Rightarrow> nat \<Rightarrow> u32" where
  "mm_extract_pi16 a imm = ucast (vget_lane a imm :: u16)"

definition mm_extract_epi32 :: "m128 \<Rightarrow> nat \<Rightarrow> u32" where
  "mm_extract_epi32 a imm = vget_lane a imm"

definition mm_extract_ps :: "m128 \<Rightarrow> nat \<Rightarrow> u32" where
  "mm_extract_ps a imm = vget_lane a imm"

definition mm_extract_epi64 :: "m128 \<Rightarrow> nat \<Rightarrow> u64" where
  "mm_extract_epi64 a imm = vget_lane a imm"

definition mm_insert_epi8 :: "m128 \<Rightarrow> u32 \<Rightarrow> nat \<Rightarrow> m128" where
  "mm_insert_epi8 a b imm = vset_lane (ucast b :: u8) a imm"

definition mm_insert_epi16 :: "m128 \<Rightarrow> u32 \<Rightarrow> nat \<Rightarrow> m128" where
  "mm_insert_epi16 a b imm = vset_lane (ucast b :: u16) a imm"

definition mm_insert_pi16 :: "m64 \<Rightarrow> u32 \<Rightarrow> nat \<Rightarrow> m64" where
  "mm_insert_pi16 a b imm = vset_lane (ucast b :: u16) a imm"

definition mm_insert_epi32 :: "m128 \<Rightarrow> u32 \<Rightarrow> nat \<Rightarrow> m128" where
  "mm_insert_epi32 a b imm = vset_lane b a imm"

definition mm_insert_epi64 :: "m128 \<Rightarrow> u64 \<Rightarrow> nat \<Rightarrow> m128" where
  "mm_insert_epi64 a b imm = vset_lane b a imm"

text \<open>
  The macro \<open>_mm_insert_ps(a, b, imm8)\<close> reads an identifier \<open>imm\<close> that is not one of its
  parameters for the two lane numbers, and \<open>imm8\<close> for the mask: \<open>imm\<close> is whatever the calling
  code has under that name.
\<close>

definition mm_insert_ps :: "m128 \<Rightarrow> m128 \<Rightarrow> u32 \<Rightarrow> u32 \<Rightarrow> m128" where
  "mm_insert_ps a b imm8 imm =
     (let tmp1 = vset_lane (vget_lane b (unat (drop_bit 6 imm AND 3)) :: u32) a 0;
          tmp2 = vset_lane (vget_lane tmp1 0 :: u32) a (unat (drop_bit 4 imm AND 3));
          mask = vld1 (map (\<lambda>i. if bit imm8 i then NOT 0 else 0 :: u32) [0..<4]);
          all_zeros = vdup (0 :: u32)
      in vbsl mask all_zeros tmp2)"

section \<open>Shuffles of two registers\<close>

definition mm_shuffle_ps_1032 :: "m128 \<Rightarrow> m128 \<Rightarrow> m128" where
  "mm_shuffle_ps_1032 a b =
     (let a32 = (vget_high a :: m64);
          b10 = (vget_low b :: m64)
      in vcombine a32 b10)"

definition mm_shuffle_ps_2301 :: "m128 \<Rightarrow> m128 \<Rightarrow> m128" where
  "mm_shuffle_ps_2301 a b =
     (let a01 = vrev TYPE(32) TYPE(64) (vget_low a :: m64);
          b23 = vrev TYPE(32) TYPE(64) (vget_high b :: m64)
      in vcombine a01 b23)"

definition mm_shuffle_ps_0321 :: "m128 \<Rightarrow> m128 \<Rightarrow> m128" where
  "mm_shuffle_ps_0321 a b =
     (let a21 = (vget_high (vext TYPE(32) a a 3) :: m64);
          b03 = (vget_low (vext TYPE(32) b b 3) :: m64)
      in vcombine a21 b03)"

definition mm_shuffle_ps_2103 :: "m128 \<Rightarrow> m128 \<Rightarrow> m128" where
  "mm_shuffle_ps_2103 a b =
     (let a03 = (vget_low (vext TYPE(32) a a 3) :: m64);
          b21 = (vget_high (vext TYPE(32) b b 3) :: m64)
      in vcombine a03 b21)"

definition mm_shuffle_ps_1010 :: "m128 \<Rightarrow> m128 \<Rightarrow> m128" where
  "mm_shuffle_ps_1010 a b =
     (let a10 = (vget_low a :: m64);
          b10 = (vget_low b :: m64)
      in vcombine a10 b10)"

definition mm_shuffle_ps_1001 :: "m128 \<Rightarrow> m128 \<Rightarrow> m128" where
  "mm_shuffle_ps_1001 a b =
     (let a01 = vrev TYPE(32) TYPE(64) (vget_low a :: m64);
          b10 = (vget_low b :: m64)
      in vcombine a01 b10)"

definition mm_shuffle_ps_0101 :: "m128 \<Rightarrow> m128 \<Rightarrow> m128" where
  "mm_shuffle_ps_0101 a b =
     (let a01 = vrev TYPE(32) TYPE(64) (vget_low a :: m64);
          b01 = vrev TYPE(32) TYPE(64) (vget_low b :: m64)
      in vcombine a01 b01)"

definition mm_shuffle_ps_3210 :: "m128 \<Rightarrow> m128 \<Rightarrow> m128" where
  "mm_shuffle_ps_3210 a b =
     (let a10 = (vget_low a :: m64);
          b32 = (vget_high b :: m64)
      in vcombine a10 b32)"

definition mm_shuffle_ps_0011 :: "m128 \<Rightarrow> m128 \<Rightarrow> m128" where
  "mm_shuffle_ps_0011 a b =
     (let a11 = (vdup (vget_lane (vget_low a :: m64) 1 :: u32) :: m64);
          b00 = (vdup (vget_lane (vget_low b :: m64) 0 :: u32) :: m64)
      in vcombine a11 b00)"

definition mm_shuffle_ps_0022 :: "m128 \<Rightarrow> m128 \<Rightarrow> m128" where
  "mm_shuffle_ps_0022 a b =
     (let a22 = (vdup (vget_lane (vget_high a :: m64) 0 :: u32) :: m64);
          b00 = (vdup (vget_lane (vget_low b :: m64) 0 :: u32) :: m64)
      in vcombine a22 b00)"

definition mm_shuffle_ps_2200 :: "m128 \<Rightarrow> m128 \<Rightarrow> m128" where
  "mm_shuffle_ps_2200 a b =
     (let a00 = (vdup (vget_lane (vget_low a :: m64) 0 :: u32) :: m64);
          b22 = (vdup (vget_lane (vget_high b :: m64) 0 :: u32) :: m64)
      in vcombine a00 b22)"

definition mm_shuffle_ps_3202 :: "m128 \<Rightarrow> m128 \<Rightarrow> m128" where
  "mm_shuffle_ps_3202 a b =
     (let a0 = (vget_lane a 0 :: u32);
          a22 = (vdup (vget_lane (vget_high a :: m64) 0 :: u32) :: m64);
          a02 = vset_lane a0 a22 1;
          b32 = (vget_high b :: m64)
      in vcombine a02 b32)"

definition mm_shuffle_ps_1133 :: "m128 \<Rightarrow> m128 \<Rightarrow> m128" where
  "mm_shuffle_ps_1133 a b =
     (let a33 = (vdup (vget_lane (vget_high a :: m64) 1 :: u32) :: m64);
          b11 = (vdup (vget_lane (vget_low b :: m64) 1 :: u32) :: m64)
      in vcombine a33 b11)"

definition mm_shuffle_ps_2010 :: "m128 \<Rightarrow> m128 \<Rightarrow> m128" where
  "mm_shuffle_ps_2010 a b =
     (let a10 = (vget_low a :: m64);
          b2 = (vget_lane b 2 :: u32);
          b00 = (vdup (vget_lane (vget_low b :: m64) 0 :: u32) :: m64);
          b20 = vset_lane b2 b00 1
      in vcombine a10 b20)"

definition mm_shuffle_ps_2001 :: "m128 \<Rightarrow> m128 \<Rightarrow> m128" where
  "mm_shuffle_ps_2001 a b =
     (let a01 = vrev TYPE(32) TYPE(64) (vget_low a :: m64);
          b2 = (vget_lane b 2 :: u32);
          b00 = (vdup (vget_lane (vget_low b :: m64) 0 :: u32) :: m64);
          b20 = vset_lane b2 b00 1
      in vcombine a01 b20)"

definition mm_shuffle_ps_2032 :: "m128 \<Rightarrow> m128 \<Rightarrow> m128" where
  "mm_shuffle_ps_2032 a b =
     (let a32 = (vget_high a :: m64);
          b2 = (vget_lane b 2 :: u32);
          b00 = (vdup (vget_lane (vget_low b :: m64) 0 :: u32) :: m64);
          b20 = vset_lane b2 b00 1
      in vcombine a32 b20)"

definition mm_shuffle_ps_default :: "m128 \<Rightarrow> m128 \<Rightarrow> nat \<Rightarrow> m128" where
  "mm_shuffle_ps_default a b imm =
     (let ret = vdup (vget_lane a (imm mod 4) :: u32);
          ret = vset_lane (vget_lane a (imm div 4 mod 4) :: u32) ret 1;
          ret = vset_lane (vget_lane b (imm div 16 mod 4) :: u32) ret 2
      in vset_lane (vget_lane b (imm div 64 mod 4) :: u32) ret 3)"

definition mm_shuffle_ps_clang :: "m128 \<Rightarrow> m128 \<Rightarrow> nat \<Rightarrow> m128" where
  "mm_shuffle_ps_clang a b imm =
     shufflevector TYPE(32) a b [imm mod 4, imm div 4 mod 4,
       imm div 16 mod 4 + 4, imm div 64 mod 4 + 4]"

definition mm_shuffle_ps :: "m128 \<Rightarrow> m128 \<Rightarrow> nat \<Rightarrow> m128" where
  "mm_shuffle_ps a b imm =
     (if imm = MM_SHUFFLE 1 0 3 2 then mm_shuffle_ps_1032 a b
      else if imm = MM_SHUFFLE 2 3 0 1 then mm_shuffle_ps_2301 a b
      else if imm = MM_SHUFFLE 0 3 2 1 then mm_shuffle_ps_0321 a b
      else if imm = MM_SHUFFLE 2 1 0 3 then mm_shuffle_ps_2103 a b
      else if imm = MM_SHUFFLE 1 0 1 0 then mm_movelh_ps a b
      else if imm = MM_SHUFFLE 1 0 0 1 then mm_shuffle_ps_1001 a b
      else if imm = MM_SHUFFLE 0 1 0 1 then mm_shuffle_ps_0101 a b
      else if imm = MM_SHUFFLE 3 2 1 0 then mm_shuffle_ps_3210 a b
      else if imm = MM_SHUFFLE 0 0 1 1 then mm_shuffle_ps_0011 a b
      else if imm = MM_SHUFFLE 0 0 2 2 then mm_shuffle_ps_0022 a b
      else if imm = MM_SHUFFLE 2 2 0 0 then mm_shuffle_ps_2200 a b
      else if imm = MM_SHUFFLE 3 2 0 2 then mm_shuffle_ps_3202 a b
      else if imm = MM_SHUFFLE 3 2 3 2 then mm_movehl_ps b a
      else if imm = MM_SHUFFLE 1 1 3 3 then mm_shuffle_ps_1133 a b
      else if imm = MM_SHUFFLE 2 0 1 0 then mm_shuffle_ps_2010 a b
      else if imm = MM_SHUFFLE 2 0 0 1 then mm_shuffle_ps_2001 a b
      else if imm = MM_SHUFFLE 2 0 3 2 then mm_shuffle_ps_2032 a b
      else mm_shuffle_ps_default a b imm)"

text \<open>The transposition of a 4 by 4 matrix of 32-bit lanes; \<open>vtrn\<close> exchanges lanes in pairs.\<close>

definition vtrn1 :: "m128 \<Rightarrow> m128 \<Rightarrow> m128" where
  "vtrn1 a b = (let x = lanes a :: u32 list; y = lanes b in of_lanes [x ! 0, y ! 0, x ! 2, y ! 2])"

definition vtrn2 :: "m128 \<Rightarrow> m128 \<Rightarrow> m128" where
  "vtrn2 a b = (let x = lanes a :: u32 list; y = lanes b in of_lanes [x ! 1, y ! 1, x ! 3, y ! 3])"

definition MM_TRANSPOSE4_PS :: "m128 \<Rightarrow> m128 \<Rightarrow> m128 \<Rightarrow> m128 \<Rightarrow> m128 \<times> m128 \<times> m128 \<times> m128" where
  "MM_TRANSPOSE4_PS row0 row1 row2 row3 =
     (let ROW01_0 = vtrn1 row0 row1; ROW01_1 = vtrn2 row0 row1;
          ROW23_0 = vtrn1 row2 row3; ROW23_1 = vtrn2 row2 row3
      in (vcombine (vget_low ROW01_0 :: m64) (vget_low ROW23_0),
          vcombine (vget_low ROW01_1 :: m64) (vget_low ROW23_1),
          vcombine (vget_high ROW01_0 :: m64) (vget_high ROW23_0),
          vcombine (vget_high ROW01_1 :: m64) (vget_high ROW23_1)))"

section \<open>Facts\<close>

text \<open>The selection that an immediate asks for: two lanes of each register.\<close>

definition select4 :: "u32 list \<Rightarrow> u32 list \<Rightarrow> nat \<Rightarrow> u32 list" where
  "select4 x y imm = [x ! (imm mod 4), x ! (imm div 4 mod 4), y ! (imm div 16 mod 4), y ! (imm div 64 mod 4)]"

lemma lanes_shuffle_ps_clang:
  "(lanes (mm_shuffle_ps_clang a b imm) :: u32 list) =
   select4 (lanes a) (lanes b) imm"
  by (simp add: mm_shuffle_ps_clang_def shufflevector_def select4_def nth_append)

lemma lanes_shuffle_ps_default:
  "(lanes (mm_shuffle_ps_default a b imm) :: u32 list) =
   select4 (lanes a) (lanes b) imm"
  by (simp add: select4_def mm_shuffle_ps_default_def vget_lane_def Let_def lane_simps replicate_numeral)

lemma lanes_vrev_pair: "(lanes (vrev TYPE(32) TYPE(64) v) :: u32 list) = rev (lanes (v :: m64))"
  by (simp add: lanes_vrev)

lemma MM_SHUFFLE_numeral:
  "MM_SHUFFLE 1 0 3 2 = 78" "MM_SHUFFLE 2 3 0 1 = 177" "MM_SHUFFLE 0 3 2 1 = 57" "MM_SHUFFLE 2 1 0 3 = 147"
  "MM_SHUFFLE 1 0 1 0 = 68" "MM_SHUFFLE 1 0 0 1 = 65" "MM_SHUFFLE 0 1 0 1 = 17" "MM_SHUFFLE 3 2 1 0 = 228"
  "MM_SHUFFLE 0 0 1 1 = 5" "MM_SHUFFLE 0 0 2 2 = 10" "MM_SHUFFLE 2 2 0 0 = 160" "MM_SHUFFLE 3 2 0 2 = 226"
  "MM_SHUFFLE 3 2 3 2 = 238" "MM_SHUFFLE 1 1 3 3 = 95" "MM_SHUFFLE 2 0 1 0 = 132" "MM_SHUFFLE 2 0 0 1 = 129"
  "MM_SHUFFLE 2 0 3 2 = 142" "MM_SHUFFLE 2 2 1 1 = 165" "MM_SHUFFLE 0 1 2 2 = 26" "MM_SHUFFLE 3 3 3 2 = 254"
  "MM_SHUFFLE 0 0 0 0 = 0" "MM_SHUFFLE 1 1 1 1 = 85" "MM_SHUFFLE 2 2 2 2 = 170" "MM_SHUFFLE 3 3 3 3 = 255"
  by (simp_all add: MM_SHUFFLE_def)

lemmas shuffle_ps_cases = mm_shuffle_ps_1032_def mm_shuffle_ps_2301_def mm_shuffle_ps_0321_def mm_shuffle_ps_2103_def
  mm_movelh_ps_def mm_shuffle_ps_1001_def mm_shuffle_ps_0101_def mm_shuffle_ps_3210_def mm_shuffle_ps_0011_def
  mm_shuffle_ps_0022_def mm_shuffle_ps_2200_def mm_shuffle_ps_3202_def mm_movehl_ps_def mm_shuffle_ps_1133_def
  mm_shuffle_ps_2010_def mm_shuffle_ps_2001_def mm_shuffle_ps_2032_def

lemma lanes_shuffle_ps: "(lanes (mm_shuffle_ps a b imm) :: u32 list) = select4 (lanes a) (lanes b) imm"
proof -
  obtain x0 x1 x2 x3 where a: "(lanes a :: u32 list) = [x0, x1, x2, x3]"
    using list_4 [of "lanes a :: u32 list"] by simp
  obtain y0 y1 y2 y3 where b: "(lanes b :: u32 list) = [y0, y1, y2, y3]"
    using list_4 [of "lanes b :: u32 list"] by simp
  show ?thesis
    unfolding mm_shuffle_ps_def MM_SHUFFLE_numeral
    by (auto simp: lanes_shuffle_ps_default shuffle_ps_cases Let_def lane_simps lanes_vrev_pair vget_lane_def a b
        select4_def replicate_numeral)
qed

lemmas shuffle_epi_cases = mm_shuffle_epi_1032_def mm_shuffle_epi_2301_def mm_shuffle_epi_0321_def mm_shuffle_epi_2103_def
  mm_shuffle_epi_1010_def mm_shuffle_epi_1001_def mm_shuffle_epi_0101_def mm_shuffle_epi_2211_def mm_shuffle_epi_0122_def
  mm_shuffle_epi_3332_def mm_shuffle_epi32_splat_def mm_shuffle_epi32_default_def

lemma lanes_shuffle_epi32_generic: "(lanes (mm_shuffle_epi32_generic a imm) :: u32 list) = select4 (lanes a) (lanes a) imm"
proof -
  obtain x0 x1 x2 x3 where a: "(lanes a :: u32 list) = [x0, x1, x2, x3]"
    using list_4 [of "lanes a :: u32 list"] by simp
  show ?thesis
    unfolding mm_shuffle_epi32_generic_def MM_SHUFFLE_numeral
    by (auto simp: shuffle_epi_cases Let_def lane_simps lanes_vrev_pair vget_lane_def a select4_def replicate_numeral)
qed

text \<open>The shuffles by an immediate: the special cases of the generic texts, seventeen of them for
  two registers and fourteen for one, and the general fall-back all give the lanes that the
  immediate selects, as does the text for compilers with a shuffle builtin.\<close>

theorem shuffles_agree:
  fixes a b :: m128
  shows "(lanes (mm_shuffle_ps a b imm) :: u32 list) = select4 (lanes a) (lanes b) imm
    \<and> (lanes (mm_shuffle_epi32_generic a imm) :: u32 list) = select4 (lanes a) (lanes a) imm
    \<and> mm_shuffle_ps_default a b imm = mm_shuffle_ps a b imm
    \<and> mm_shuffle_ps_clang a b imm = mm_shuffle_ps a b imm
    \<and> mm_shuffle_epi32 a imm = mm_shuffle_epi32_generic a imm"
proof -
  have "(lanes (mm_shuffle_epi32 a imm) :: u32 list) = select4 (lanes a) (lanes a) imm"
    by (simp add: lanes_shuffle_epi32 select4_def)
  then show ?thesis
    by (simp add: lanes_shuffle_ps lanes_shuffle_epi32_generic lanes_shuffle_ps_default lanes_shuffle_ps_clang
        lanes_inject [where 'a = 32, symmetric])
qed

text \<open>Unpacking: the lanes of the low or high halves in turn.\<close>

lemma unpack_halves:
  fixes a b :: m128
  assumes "LENGTH('a::len) dvd 64"
  shows "vcombine (vzip1 TYPE('a) (vget_low a :: m64) (vget_low b)) (vzip2 TYPE('a) (vget_low a) (vget_low b)) = vzip1 TYPE('a) a b"
    and "vcombine (vzip1 TYPE('a) (vget_high a :: m64) (vget_high b)) (vzip2 TYPE('a) (vget_high a) (vget_high b)) = vzip2 TYPE('a) a b"
proof -
  obtain k where k: "64 = LENGTH('a) * k" using assms by (elim dvdE)
  then have k2: "128 = LENGTH('a) * (2 * k)" by (metis mult.left_commute mult_2 numeral_Bit0)
  then have d: "LENGTH('a) dvd 128" by (metis dvd_triv_left)
  have km: "k * LENGTH('a) = 64" by (metis k mult.commute)
  have h: "64 div LENGTH('a) = k" "128 div LENGTH('a) = 2 * k"
    using k k2 by (metis len_not_eq_0 nonzero_mult_div_cancel_left)+
  show "vcombine (vzip1 TYPE('a) (vget_low a :: m64) (vget_low b)) (vzip2 TYPE('a) (vget_low a) (vget_low b)) = vzip1 TYPE('a) a b"
    using assms d h km by (intro lanes_eqI [where 'a = 'a]) (simp_all add: lane_simps take_interleave)
  show "vcombine (vzip1 TYPE('a) (vget_high a :: m64) (vget_high b)) (vzip2 TYPE('a) (vget_high a) (vget_high b)) = vzip2 TYPE('a) a b"
    using assms d h km by (intro lanes_eqI [where 'a = 'a]) (simp_all add: lane_simps drop_interleave)
qed

text \<open>Unpacking interleaves the lanes of the low or of the high halves of two registers, and the AArch64
  text (one instruction) agrees with the ARMv7 text (zipping the halves) at every lane width.\<close>

theorem unpack_builds_agree:
  fixes a b :: m128
  shows "(lanes (mm_unpacklo_epi8 a b) :: u8 list) = interleave (take 8 (lanes a)) (take 8 (lanes b))
    \<and> (lanes (mm_unpackhi_epi8 a b) :: u8 list) = interleave (drop 8 (lanes a)) (drop 8 (lanes b))
    \<and> mm_unpacklo_epi8_v7 a b = mm_unpacklo_epi8 a b \<and> mm_unpackhi_epi8_v7 a b = mm_unpackhi_epi8 a b
    \<and> mm_unpacklo_epi16_v7 a b = mm_unpacklo_epi16 a b \<and> mm_unpackhi_epi16_v7 a b = mm_unpackhi_epi16 a b
    \<and> mm_unpacklo_epi32_v7 a b = mm_unpacklo_epi32 a b \<and> mm_unpackhi_epi32_v7 a b = mm_unpackhi_epi32 a b
    \<and> mm_unpacklo_ps_v7 a b = mm_unpacklo_ps a b \<and> mm_unpackhi_ps_v7 a b = mm_unpackhi_ps a b
    \<and> mm_unpacklo_pd_v7 a b = mm_unpacklo_pd a b \<and> mm_unpackhi_pd_v7 a b = mm_unpackhi_pd a b"
proof -
  have "(lanes (mm_unpacklo_epi8 a b) :: u8 list) = interleave (take 8 (lanes a)) (take 8 (lanes b))"
    using take_interleave [of "lanes a :: u8 list" "lanes b" 8] by (simp add: mm_unpacklo_epi8_def lane_simps)
  moreover have "(lanes (mm_unpackhi_epi8 a b) :: u8 list) = interleave (drop 8 (lanes a)) (drop 8 (lanes b))"
    using drop_interleave [of "lanes a :: u8 list" "lanes b" 8] by (simp add: mm_unpackhi_epi8_def lane_simps)
  moreover have one: "vzip1 TYPE(64) x y = x" "vzip2 TYPE(64) x y = y" for x y :: m64
    by (simp_all add: vzip1_def vzip2_def of_lanes_lanes_ucast [where 'a = 64 and 'g = 64, simplified])
  ultimately show ?thesis
    using unpack_halves [where 'a = 64 and a = a and b = b]
    by (simp add: mm_unpacklo_epi8_v7_def mm_unpackhi_epi8_v7_def mm_unpacklo_epi16_v7_def mm_unpackhi_epi16_v7_def
        mm_unpacklo_epi32_v7_def mm_unpackhi_epi32_v7_def mm_unpacklo_ps_v7_def mm_unpackhi_ps_v7_def
        mm_unpacklo_pd_v7_def mm_unpackhi_pd_v7_def mm_unpacklo_epi8_def mm_unpackhi_epi8_def mm_unpacklo_epi16_def
        mm_unpackhi_epi16_def mm_unpacklo_epi32_def mm_unpackhi_epi32_def mm_unpacklo_ps_def mm_unpackhi_ps_def
        mm_unpacklo_pd_def mm_unpackhi_pd_def Let_def unpack_halves)
qed

text \<open>Wide lanes from pairs of narrow ones.\<close>

lemma lanes_wide:
  fixes v :: "'v::len word"
  assumes "LENGTH('b::len) = 2 * LENGTH('a::len)" "LENGTH('b) dvd LENGTH('v)"
  shows "(lanes v :: 'b word list) = by_pairs (\<lambda>x y. of_lanes [x, y]) (lanes v :: 'a word list)"
proof -
  have "of_lanes [ucast w :: 'a word, ucast (drop_bit LENGTH('a) w)] = w" for w :: "'b word"
    using assms(1) by (simp flip: lanes_halves [OF assms(1)])
  then show ?thesis by (simp add: by_pairs_lanes [OF assms])
qed

lemma zip_with_zero:
  "(of_lanes [x :: 'a::len word, 0] :: 'b::len word) = ucast x"
  by (simp add: of_lanes_Cons)

lemma by_pairs_zero:
  "length xs = n \<Longrightarrow> by_pairs f (interleave xs (replicate n c)) = map (\<lambda>x. f x c) xs"
  by (simp add: by_pairs_interleave map2_replicate)

lemma lanes_unpack_zero:
  fixes a :: m128
  assumes "LENGTH('b::len) = 2 * LENGTH('a::len)" "LENGTH('b) dvd 64"
  shows "(lanes (vzip1 TYPE('a) a 0) :: 'b word list) = map ucast (take (64 div LENGTH('a)) (lanes a :: 'a word list))"
    and "(lanes (vzip2 TYPE('a) a 0) :: 'b word list) = map ucast (drop (64 div LENGTH('a)) (lanes a :: 'a word list))"
proof -
  obtain k where k: "64 = LENGTH('b) * k" using assms(2) by (elim dvdE)
  have l1: "64 = LENGTH('a) * (2 * k)" using k assms(1) by (metis mult.assoc mult.commute)
  have l: "64 = LENGTH('a) * (2 * k)" "128 = LENGTH('a) * (2 * (2 * k))" "128 = LENGTH('b) * (2 * k)"
    using l1 k by (metis mult.left_commute mult_2 numeral_Bit0)+
  then have d: "LENGTH('a) dvd 128" "LENGTH('b) dvd 128" by (metis dvd_triv_left)+
  obtain j where j: "2 * k = j" by simp
  have h: "64 div LENGTH('a) = j" "128 div LENGTH('a) = 2 * j"
    using l(1,2) unfolding j by (metis len_not_eq_0 nonzero_mult_div_cancel_left)+
  show "(lanes (vzip1 TYPE('a) a 0) :: 'b word list) = map ucast (take (64 div LENGTH('a)) (lanes a :: 'a word list))"
    using d h by (subst lanes_wide [OF assms(1)])
      (simp_all add: lane_simps take_interleave by_pairs_zero zip_with_zero)
  show "(lanes (vzip2 TYPE('a) a 0) :: 'b word list) = map ucast (drop (64 div LENGTH('a)) (lanes a :: 'a word list))"
    using d h by (subst lanes_wide [OF assms(1)])
      (simp_all add: lane_simps drop_interleave by_pairs_zero zip_with_zero)
qed

text \<open>A narrow lane survives extension and saturated narrowing.\<close>

lemma narrow_extended:
  assumes "LENGTH('a::len) < LENGTH('b::len)"
  shows "sat_u (sint (ucast (x :: 'a word) :: 'b word)) = x" and "sat_s (sint (scast (x :: 'a word) :: 'b word)) = x"
proof -
  have "sint (ucast x :: 'b word) = uint x"
  proof -
    have "uint x < 2 ^ LENGTH('a)" by (rule uint_lt2p)
    also have "(2 :: int) ^ LENGTH('a) \<le> 2 ^ (LENGTH('b) - 1)" using assms by (intro power_increasing) simp_all
    finally have "uint x < 2 ^ (LENGTH('b) - Suc 0)" by simp
    moreover have "- (2 ^ (LENGTH('b) - Suc 0)) \<le> uint x" by (rule order_trans [of _ 0]) simp_all
    ultimately show ?thesis by (simp only: signed_ucast_eq signed_take_bit_int_eq_self)
  qed
  moreover have "max 0 (min (2 ^ LENGTH('a) - 1) (uint x)) = uint x"
    using uint_lt2p [of x] uint_ge_0 [of x] by linarith
  ultimately show "sat_u (sint (ucast x :: 'b word)) = x" by (simp add: sat_u_def)
  have "sint (scast x :: 'b word) = sint x"
    using assms by (intro sint_up_scast) (simp add: is_up)
  then show "sat_s (sint (scast x :: 'b word)) = x" by simp
qed

text \<open>Packing undoes unpacking: a register zero-extended by interleaving with zero, or sign-extended by
  the conversions, comes back from the saturating packs, and the conversions are the unpackings with zero.\<close>

theorem pack_unpack:
  fixes a :: m128
  shows "mm_packus_epi16 (mm_unpacklo_epi8 a 0) (mm_unpackhi_epi8 a 0) = a
    \<and> mm_packus_epi32 (mm_unpacklo_epi16 a 0) (mm_unpackhi_epi16 a 0) = a
    \<and> mm_packs_epi16 (mm_cvtepi8_epi16 a) (mm_cvtepi8_epi16 (mm_srli_si128 a 8)) = a
    \<and> mm_packs_epi32 (mm_cvtepi16_epi32 a) (mm_cvtepi16_epi32 (mm_srli_si128 a 8)) = a
    \<and> mm_cvtepu8_epi16 a = mm_unpacklo_epi8 a 0
    \<and> mm_cvtepu16_epi32 a = mm_unpacklo_epi16 a 0"
proof (intro conjI)
  show "mm_packus_epi16 (mm_unpacklo_epi8 a 0) (mm_unpackhi_epi8 a 0) = a"
    by (rule lanes_eqI [where 'a = 8])
       (simp_all add: mm_packus_epi16_def mm_unpacklo_epi8_def mm_unpackhi_epi8_def lane_simps
          lanes_unpack_zero [where 'a = 8 and 'b = 16] narrow_extended o_def)
  show "mm_packus_epi32 (mm_unpacklo_epi16 a 0) (mm_unpackhi_epi16 a 0) = a"
    by (rule lanes_eqI [where 'a = 16])
       (simp_all add: mm_packus_epi32_def mm_unpacklo_epi16_def mm_unpackhi_epi16_def lane_simps
          lanes_unpack_zero [where 'a = 16 and 'b = 32] narrow_extended o_def)
  show "mm_packs_epi16 (mm_cvtepi8_epi16 a) (mm_cvtepi8_epi16 (mm_srli_si128 a 8)) = a"
    by (rule lanes_eqI [where 'a = 8])
       (simp_all add: mm_packs_epi16_def mm_cvtepi8_epi16_def mm_srli_si128_def lane_simps narrow_extended o_def)
  show "mm_packs_epi32 (mm_cvtepi16_epi32 a) (mm_cvtepi16_epi32 (mm_srli_si128 a 8)) = a"
  proof (rule lanes_eqI [where 'a = 16])
    have "vext TYPE(8) a (vdup (0 :: u8)) 8 = vcombine (vget_high a :: m64) 0"
      by (rule lanes_eqI [where 'a = 8]) (simp_all add: lane_simps)
    then show "(lanes (mm_packs_epi32 (mm_cvtepi16_epi32 a) (mm_cvtepi16_epi32 (mm_srli_si128 a 8))) :: u16 list) = lanes a"
       by (simp add: mm_packs_epi32_def mm_cvtepi16_epi32_def mm_srli_si128_def lane_simps narrow_extended o_def)
  qed simp
  show "mm_cvtepu8_epi16 a = mm_unpacklo_epi8 a 0"
    by (rule lanes_eqI [where 'a = 16])
       (simp_all add: mm_cvtepu8_epi16_def mm_unpacklo_epi8_def lane_simps lanes_unpack_zero [where 'a = 8 and 'b = 16])
  show "mm_cvtepu16_epi32 a = mm_unpacklo_epi16 a 0"
    by (rule lanes_eqI [where 'a = 32])
       (simp_all add: mm_cvtepu16_epi32_def mm_unpacklo_epi16_def lane_simps lanes_unpack_zero [where 'a = 16 and 'b = 32])
qed

end
