(* ===== verification/Sse_Misc.thy ===== *)
theory Sse_Misc
  imports Sse_Pack
begin

text \<open>
  \<open>psetggm/sse2neon.h\<close>: masked and streaming moves, the horizontal minimum, population counts
  and CRC-32C. Where the code stores a vector into a variable through its address, the variable is
  a buffer of its size.
\<close>

section \<open>Loads and stores\<close>

definition mm_loadu_si128 :: "u8 list \<Rightarrow> nat \<Rightarrow> m128 option" where
  "mm_loadu_si128 m p = loadv m p"

definition mm_loadu_si32 :: "u8 list \<Rightarrow> nat \<Rightarrow> m128 option" where
  "mm_loadu_si32 m p =
     do { x :: u32 \<leftarrow> loadv m p; Some (vset_lane x (vdup (0 :: u32)) 0) }"

definition mm_load1_pd :: "u8 list \<Rightarrow> nat \<Rightarrow> m128 option" where
  "mm_load1_pd m p = do { x :: u64 \<leftarrow> loadv m p; Some (vdup x) }"

definition mm_loadh_pd :: "m128 \<Rightarrow> u8 list \<Rightarrow> nat \<Rightarrow> m128 option" where
  "mm_loadh_pd a m p = do { x :: m64 \<leftarrow> loadv m p; Some (vcombine (vget_low a) x) }"

definition mm_castpd_si128 :: "m128 \<Rightarrow> m128" where "mm_castpd_si128 a = a"
definition mm_castpd_ps :: "m128 \<Rightarrow> m128" where "mm_castpd_ps a = a"

text \<open>The non-temporal forms only hint at caching.\<close>

definition mm_stream_pi :: "u8 list \<Rightarrow> nat \<Rightarrow> m64 \<Rightarrow> u8 list option" where
  "mm_stream_pi m p a = storev m p a"

definition mm_stream_ps :: "u8 list \<Rightarrow> nat \<Rightarrow> m128 \<Rightarrow> u8 list option" where
  "mm_stream_ps m p a = storev m p a"

definition mm_stream_pd :: "u8 list \<Rightarrow> nat \<Rightarrow> m128 \<Rightarrow> u8 list option" where
  "mm_stream_pd m p a = storev m p a"

definition mm_stream_si128 :: "u8 list \<Rightarrow> nat \<Rightarrow> m128 \<Rightarrow> u8 list option" where
  "mm_stream_si128 m p a = storev m p a"

definition mm_stream_si32 :: "u8 list \<Rightarrow> nat \<Rightarrow> u32 \<Rightarrow> u8 list option" where
  "mm_stream_si32 m p a = storev m p (vget_lane (vdup a :: m128) 0 :: u32)"

definition mm_stream_load_si128 :: "u8 list \<Rightarrow> nat \<Rightarrow> m128 option" where
  "mm_stream_load_si128 m p = loadv m p"

definition mm_maskmoveu_si128 :: "m128 \<Rightarrow> m128 \<Rightarrow> u8 list \<Rightarrow> nat \<Rightarrow> u8 list option" where
  "mm_maskmoveu_si128 a msk m mem_addr =
     do {
       let shr_mask = vshr_s TYPE(8) msk 7;
       b \<leftarrow> mm_load_ps m mem_addr;
       let masked = vbsl shr_mask a b;
       storev m mem_addr masked
     }"

definition mm_maskmove_si64 :: "m64 \<Rightarrow> m64 \<Rightarrow> u8 list \<Rightarrow> nat \<Rightarrow> u8 list option" where
  "mm_maskmove_si64 a msk m mem_addr =
     do {
       let shr_mask = vshr_s TYPE(8) msk 7;
       b \<leftarrow> mm_load_ps m mem_addr;
       let masked = vbsl shr_mask a (vget_low b);
       storev m mem_addr masked
     }"

section \<open>Horizontal minimum\<close>

text \<open>The search for the index shifts the register down by one lane per step and stops at the first match.\<close>

primrec minpos_idx :: "nat list \<Rightarrow> u16 \<Rightarrow> m128 \<Rightarrow> u16" where
  "minpos_idx [] min_v a = 0"
| "minpos_idx (i # is) min_v a =
     (if min_v = vget_lane a 0 then of_nat i else minpos_idx is min_v (mm_srli_si128 a 2))"

definition minpos_result :: "u16 \<Rightarrow> m128 \<Rightarrow> m128" where
  "minpos_result min_v a =
     (let idx = minpos_idx [0..<8] min_v a;
          dst = mm_setzero_si128;
          dst = vset_lane min_v dst 0
      in vset_lane idx dst 1)"

definition mm_minpos_epu16 :: "m128 \<Rightarrow> m128" where
  "mm_minpos_epu16 a = minpos_result (vminv_u TYPE(16) a) a"

definition mm_minpos_epu16_v7 :: "m128 \<Rightarrow> m128" where
  "mm_minpos_epu16_v7 a =
     (let tmp = vmin_u TYPE(16) (vget_low a :: m64) (vget_high a);
          tmp = vpmin_u TYPE(16) tmp tmp;
          tmp = vpmin_u TYPE(16) tmp tmp
      in minpos_result (vget_lane tmp 0) a)"

section \<open>Population count\<close>

text \<open>
  The text for compilers with the builtin (\<open>pop\<close> is its documented meaning), the one for other
  AArch64 compilers, and the ARMv7 one, which moves eight bytes between a vector register and the
  memory of the argument and of the result.
\<close>

definition mm_popcnt_u32 :: "u32 \<Rightarrow> u32" where
  "mm_popcnt_u32 a = of_nat (pop a)"

definition mm_popcnt_u32_vcnt :: "u32 \<Rightarrow> u32" where
  "mm_popcnt_u32_vcnt a = ucast (vaddlv_u8 (vcnt (ucast a)))"

definition mm_popcnt_u32_v7 :: "u32 \<Rightarrow> u32 option" where
  "mm_popcnt_u32_v7 a =
     do {
       let count = (lanes (0 :: u32) :: u8 list);
       input_val :: m64 \<leftarrow> loadv (lanes a) 0;
       let count8x8_val = vcnt input_val;
       let count16x4_val = vpaddl_u TYPE(8) TYPE(16) count8x8_val;
       let count32x2_val = vpaddl_u TYPE(16) TYPE(32) count16x4_val;
       count \<leftarrow> storev count 0 count32x2_val;
       loadv count 0
     }"

definition mm_popcnt_u64 :: "u64 \<Rightarrow> u64" where
  "mm_popcnt_u64 a = of_nat (pop a)"

definition mm_popcnt_u64_vcnt :: "u64 \<Rightarrow> u64" where
  "mm_popcnt_u64_vcnt a = ucast (vaddlv_u8 (vcnt a))"

definition mm_popcnt_u64_v7 :: "u64 \<Rightarrow> u64 option" where
  "mm_popcnt_u64_v7 a =
     do {
       let count = (lanes (0 :: u64) :: u8 list);
       input_val :: m64 \<leftarrow> loadv (lanes a) 0;
       let count8x8_val = vcnt input_val;
       let count16x4_val = vpaddl_u TYPE(8) TYPE(16) count8x8_val;
       let count32x2_val = vpaddl_u TYPE(16) TYPE(32) count16x4_val;
       let count64x1_val = vpaddl_u TYPE(32) TYPE(64) count32x2_val;
       count \<leftarrow> storev count 0 count64x1_val;
       loadv count 0
     }"

section \<open>CRC-32C\<close>

text \<open>The software texts; with \<open>__ARM_FEATURE_CRC32\<close> the header is an instruction in assembly.\<close>

definition crc32_bit :: "u32 \<Rightarrow> u32" where
  "crc32_bit crc = (if crc AND 1 \<noteq> 0 then drop_bit 1 crc XOR 0x82f63b78 else drop_bit 1 crc)"

definition mm_crc32_u8 :: "u32 \<Rightarrow> u8 \<Rightarrow> u32" where
  "mm_crc32_u8 crc v = foldl (\<lambda>crc b. crc32_bit crc) (crc XOR ucast v) [0..<8]"

definition mm_crc32_u16 :: "u32 \<Rightarrow> u16 \<Rightarrow> u32" where
  "mm_crc32_u16 crc v =
     (let crc = mm_crc32_u8 crc (ucast (v AND 0xff))
      in mm_crc32_u8 crc (ucast (drop_bit 8 v AND 0xff)))"

definition mm_crc32_u32 :: "u32 \<Rightarrow> u32 \<Rightarrow> u32" where
  "mm_crc32_u32 crc v =
     (let crc = mm_crc32_u16 crc (ucast (v AND 0xffff))
      in mm_crc32_u16 crc (ucast (drop_bit 16 v AND 0xffff)))"

definition mm_crc32_u64 :: "u64 \<Rightarrow> u64 \<Rightarrow> u64" where
  "mm_crc32_u64 crc v =
     (let crc = ucast (mm_crc32_u32 (ucast crc) (ucast (v AND 0xffffffff))) :: u64
      in ucast (mm_crc32_u32 (ucast crc) (ucast (drop_bit 32 v AND 0xffffffff))))"

section \<open>Facts\<close>

text \<open>A wider word is the sequence of its bytes, least significant first.\<close>

lemma and_mask: "(v AND 0xff :: u16) = take_bit 8 v" "(w AND 0xffff :: u32) = take_bit 16 w" "(z AND 0xffffffff :: u64) = take_bit 32 z"
  by (simp_all add: take_bit_eq_mask mask_eq_exp_minus_1)

lemma ucast_take_bit: "LENGTH('b) \<le> k \<Longrightarrow> (ucast (take_bit k v :: 'a::len word) :: 'b::len word) = ucast v"
  by (intro bit_word_eqI) (auto simp: bit_simps)

lemma lanes_of_halves:
  fixes w :: "'b::len word"
  assumes "LENGTH('b) = 2 * LENGTH('a::len)" "LENGTH('c::len) dvd LENGTH('a)"
  shows "(lanes w :: 'c word list) = lanes (ucast w :: 'a word) @ lanes (ucast (drop_bit LENGTH('a) w) :: 'a word)"
  using assms by (subst lanes_concat [where 'g = 'a]) (simp_all add: lanes_halves [where 'a = 'a])

lemma crc32_u16_bytes: "mm_crc32_u16 crc v = foldl mm_crc32_u8 crc (lanes v)"
  by (simp add: mm_crc32_u16_def and_mask ucast_take_bit lanes_halves [where 'a = 8 and 'b = 16])

lemma crc32_u32_bytes: "mm_crc32_u32 crc v = foldl mm_crc32_u8 crc (lanes v)"
  by (simp add: mm_crc32_u32_def and_mask ucast_take_bit crc32_u16_bytes lanes_of_halves [where 'a = 16 and 'b = 32 and 'c = 8])

lemma crc32_u64_bytes: "mm_crc32_u64 crc v = ucast (foldl mm_crc32_u8 (ucast crc) (lanes v))"
proof -
  have "ucast (ucast x :: u64) = x" for x :: u32 by (rule bit_word_eqI) (simp add: bit_simps)
  then show ?thesis
    by (simp add: mm_crc32_u64_def and_mask ucast_take_bit crc32_u32_bytes lanes_of_halves [where 'a = 32 and 'b = 64 and 'c = 8])
qed

text \<open>The bit-reversed register is a polynomial over the field of two elements, of degree below 32,
  and a step multiplies it by \<open>x\<close> modulo the Castagnoli polynomial \<open>x ^ 32 + \<dots>\<close>.\<close>

definition castagnoli :: u32 where "castagnoli = 0x1EDC6F41"

definition times_x :: "u32 \<Rightarrow> u32" where
  "times_x r = (if bit r 31 then push_bit 1 r XOR castagnoli else push_bit 1 r)"

lemma word_reverse_xor: "word_reverse (x XOR y) = word_reverse x XOR word_reverse y" for x y :: "'a::len word"
  by (rule bit_word_eqI) (simp add: bit_simps)

lemma word_reverse_drop: "word_reverse (drop_bit k x) = push_bit k (word_reverse x)" for x :: "'a::len word"
proof (rule bit_word_eqI)
  fix n assume n: "n < LENGTH('a)"
  show "bit (word_reverse (drop_bit k x)) n = bit (push_bit k (word_reverse x)) n"
  proof (cases "k \<le> n")
    case True
    then have "LENGTH('a) - Suc (n - k) = k + (LENGTH('a) - Suc n)" using n by simp
    moreover have "n - k < LENGTH('a)" using n by simp
    ultimately show ?thesis using True n by (simp only: bit_simps) simp
  next
    case False
    then have "\<not> bit x (k + (LENGTH('a) - Suc n))" using n by (auto dest: bit_imp_le_length)
    with False n show ?thesis by (simp only: bit_simps) simp
  qed
qed

lemma reverse_polynomial: "word_reverse (0x82f63b78 :: u32) = castagnoli"
  by (simp add: word_reverse_def castagnoli_def upt_rec numeral_eq_Suc horner_sum_simps)

lemma crc32_bit_times_x: "word_reverse (crc32_bit c) = times_x (word_reverse c)"
proof -
  have "c AND 1 \<noteq> 0 \<longleftrightarrow> bit (word_reverse c) 31"
    by (simp add: bit_word_reverse_iff and_one_eq odd_iff_mod_2_eq_one bit_0)
  then show ?thesis
    unfolding crc32_bit_def times_x_def
    by (simp only: word_reverse_xor word_reverse_drop reverse_polynomial if_distrib [of word_reverse])
qed

lemma foldl_funpow: "foldl (\<lambda>s i. f s) s xs = (f ^^ length xs) s"
  by (induction xs arbitrary: s) (simp_all add: funpow_swap1)

lemma reverse_crc32_u8: "word_reverse (mm_crc32_u8 crc v) = (times_x ^^ 8) (word_reverse crc XOR word_reverse (ucast v))"
proof -
  have "word_reverse ((crc32_bit ^^ n) c) = (times_x ^^ n) (word_reverse c)" for n c
    by (induction n) (simp_all add: crc32_bit_times_x)
  then show ?thesis by (simp only: mm_crc32_u8_def foldl_funpow length_upt diff_zero word_reverse_xor)
qed

lemma times_x_xor: "times_x (x XOR y) = times_x x XOR times_x y"
  by (auto simp: times_x_def bit_simps push_bit_xor ac_simps)

lemma crc32_bit_xor: "crc32_bit (x XOR y) = crc32_bit x XOR crc32_bit y"
proof -
  have rev: "word_reverse (word_reverse w) = w" for w :: u32 by (rule bit_word_eqI) (simp add: bit_simps)
  have "word_reverse (crc32_bit (x XOR y)) = word_reverse (crc32_bit x XOR crc32_bit y)"
    by (simp only: crc32_bit_times_x word_reverse_xor times_x_xor)
  then show ?thesis by (metis rev)
qed

lemma crc32_u8_xor: "mm_crc32_u8 (c XOR d) (v XOR w) = mm_crc32_u8 c v XOR mm_crc32_u8 d w"
proof -
  have "(crc32_bit ^^ n) (x XOR y) = (crc32_bit ^^ n) x XOR (crc32_bit ^^ n) y" for n x y
    by (induction n) (simp_all add: crc32_bit_xor)
  moreover have "(ucast (v XOR w) :: u32) = ucast v XOR ucast w" by (rule bit_word_eqI) (auto simp: bit_simps)
  ultimately show ?thesis
    by (simp only: mm_crc32_u8_def foldl_funpow xor.assoc xor.commute xor.left_commute)
qed

lemma reverse_byte: "word_reverse (ucast (v :: u8) :: u32) = push_bit 24 (ucast (word_reverse v))"
proof (rule bit_word_eqI)
  fix n assume n: "n < LENGTH(32)"
  show "bit (word_reverse (ucast v :: u32)) n = bit (push_bit 24 (ucast (word_reverse v)) :: u32) n"
  proof (cases "24 \<le> n")
    case True
    then have "8 - Suc (n - 24) = 31 - n" using n by simp
    with True n show ?thesis by (auto simp: bit_simps)
  next
    case False
    then have "\<not> bit v (31 - n)" by (auto dest: bit_imp_le_length)
    with False n show ?thesis by (auto simp: bit_simps)
  qed
qed

text \<open>C35: The CRC instructions: with bits reversed, absorbing a byte is multiplication of the register by
  \<open>x ^ 8\<close> modulo the Castagnoli polynomial after the byte was added to its top; wider operands are
  absorbed bytewise; the checksum is linear; and the check value of CRC-32C is obtained.\<close>

theorem crc32_castagnoli:
  "word_reverse (mm_crc32_u8 c v) = (times_x ^^ 8) (word_reverse c XOR push_bit 24 (ucast (word_reverse v)))
   \<and> mm_crc32_u16 c v2 = foldl mm_crc32_u8 c (lanes v2)
   \<and> mm_crc32_u32 c v4 = foldl mm_crc32_u8 c (lanes v4)
   \<and> mm_crc32_u64 c8 v8 = ucast (foldl mm_crc32_u8 (ucast c8) (lanes v8))
   \<and> mm_crc32_u8 (c XOR d) (v XOR w) = mm_crc32_u8 c v XOR mm_crc32_u8 d w
   \<and> foldl mm_crc32_u8 (NOT 0) (map of_nat [49..<58]) XOR NOT 0 = 0xE3069283"
proof -
  have upt: "[49..<58] = [49, 50, 51, 52, 53, 54, 55, 56, 57 :: nat]" by (simp add: upt_rec)
  have "foldl mm_crc32_u8 (NOT 0) (map of_nat [49..<58]) XOR NOT 0 = 0xE3069283"
    unfolding upt by (simp add: mm_crc32_u8_def crc32_bit_def upt_rec)
  then show ?thesis
    by (simp only: reverse_crc32_u8 reverse_byte crc32_u16_bytes crc32_u32_bytes crc32_u64_bytes crc32_u8_xor simp_thms)
qed

text \<open>Counting bits by counting them in the bytes.\<close>

lemma pop_split:
  fixes w :: "'b::len word"
  assumes "LENGTH('b) = 2 * LENGTH('a::len)"
  shows "pop w = pop (ucast w :: 'a word) + pop (ucast (drop_bit LENGTH('a) w) :: 'a word)"
proof -
  let ?n = "LENGTH('a)"
  have u: "[0..<2 * ?n] = [0..<?n] @ map (\<lambda>i. i + ?n) [0..<?n]"
    by (simp add: mult_2 upt_add_eq_append map_add_upt [symmetric])
  have lo: "filter (bit w) [0..<?n] = filter (bit (ucast w :: 'a word)) [0..<?n]"
    by (rule filter_cong) (auto simp: bit_simps)
  have hi: "filter (bit w \<circ> (\<lambda>i. i + ?n)) [0..<?n] = filter (bit (ucast (drop_bit ?n w) :: 'a word)) [0..<?n]"
    by (rule filter_cong) (auto simp: bit_simps add.commute)
  show ?thesis by (simp add: pop_def assms u lo hi filter_map)
qed

lemma pop_le: "pop (x :: 'a::len word) \<le> LENGTH('a)"
  by (simp add: pop_def) (metis diff_zero length_filter_le length_upt)

lemma pop_u32: "pop (a :: u32) = sum_list (map pop (lanes a :: u8 list))"
  by (simp add: lanes_of_halves [where 'a = 16 and 'c = 8] lanes_halves [where 'a = 8]
      pop_split [where 'a = 16 and 'b = 32] pop_split [where 'a = 8 and 'b = 16])

lemma pop_u64: "pop (a :: u64) = sum_list (map pop (lanes a :: u8 list))"
  by (simp add: lanes_of_halves [where 'a = 32 and 'c = 8] pop_split [where 'a = 32 and 'b = 64] pop_u32)

lemma ucast_of_nat_small: "n < 2 ^ LENGTH('a) \<Longrightarrow> (ucast (of_nat n :: 'a::len word) :: 'b::len word) = of_nat n"
  by (metis of_nat_unat unat_of_nat_small)

lemma paddl_nats:
  "\<forall>n \<in> set ns. n < 2 ^ LENGTH('a) \<Longrightarrow>
   by_pairs (\<lambda>x y. ucast x + ucast y :: 'b::len word) (map of_nat ns :: 'a::len word list) = map of_nat (by_pairs (+) ns)"
  by (induction "(+) :: nat \<Rightarrow> nat \<Rightarrow> nat" ns rule: by_pairs.induct) (simp_all add: ucast_of_nat_small)

lemma by_pairs_le: "\<forall>n \<in> set ns. n \<le> k \<Longrightarrow> \<forall>n \<in> set (by_pairs (+) ns). n \<le> 2 * (k :: nat)"
  by (induction "(+) :: nat \<Rightarrow> nat \<Rightarrow> nat" ns rule: by_pairs.induct) auto

lemma sum_by_pairs: "even (length ns) \<Longrightarrow> sum_list (by_pairs (+) ns) = sum_list (ns :: nat list)"
  by (induction "(+) :: nat \<Rightarrow> nat \<Rightarrow> nat" ns rule: by_pairs.induct) auto

lemma of_lanes_single: "(of_lanes [x] :: 'v::len word) = ucast (x :: 'a::len word)"
  by (simp add: of_lanes_Cons)

lemma lanes_vcnt_nats: "(lanes (vcnt (a :: m64)) :: u8 list) = map of_nat (map pop (lanes a :: u8 list))"
  by (simp add: lane_simps)

lemma vaddlv_vcnt: "vaddlv_u8 (vcnt a) = of_nat (pop a)"
proof -
  have "ucast (of_nat (pop x) :: u8) = (of_nat (pop x) :: u16)" for x :: u8
    using pop_le [of x] by (intro ucast_of_nat_small) simp
  then have "map ucast (map of_nat (map pop xs) :: u8 list) = (map of_nat (map pop xs) :: u16 list)" for xs :: "u8 list"
    by simp
  moreover have "sum_list (map of_nat ns) = (of_nat (sum_list ns) :: u16)" for ns by (induction ns) simp_all
  ultimately show ?thesis by (simp only: vaddlv_u8_def lanes_vcnt_nats pop_u64)
qed

lemma lanes_vpaddl_nats:
  fixes v :: m64
  assumes "(lanes v :: 'a::len word list) = map of_nat ns" "\<forall>n \<in> set ns. n < 2 ^ LENGTH('a)"
    and "LENGTH('a) dvd 64" "64 div LENGTH('a) div 2 * LENGTH('b::len) = 64"
  shows "(lanes (vpaddl_u TYPE('a) TYPE('b) v) :: 'b word list) = map of_nat (by_pairs (+) ns)"
  using assms by (simp add: lanes_vpaddl_u paddl_nats)

lemma vcnt_vpaddl:
  "vpaddl_u TYPE(32) TYPE(64) (vpaddl_u TYPE(16) TYPE(32) (vpaddl_u TYPE(8) TYPE(16) (vcnt (b :: m64)))) = of_nat (pop b)"
proof -
  let ?n = "map pop (lanes b :: u8 list)"
  have b8: "\<forall>n \<in> set ?n. n \<le> 8" using pop_le [where 'a = 8] by auto
  have b16: "\<forall>n \<in> set (by_pairs (+) ?n). n \<le> 16" using by_pairs_le [OF b8] by simp
  have b32: "\<forall>n \<in> set (by_pairs (+) (by_pairs (+) ?n)). n \<le> 32" using by_pairs_le [OF b16] by simp
  have l16: "(lanes (vpaddl_u TYPE(8) TYPE(16) (vcnt b)) :: u16 list) = map of_nat (by_pairs (+) ?n)"
    by (rule lanes_vpaddl_nats [OF lanes_vcnt_nats]) (use b8 in force)+
  have l32: "(lanes (vpaddl_u TYPE(16) TYPE(32) (vpaddl_u TYPE(8) TYPE(16) (vcnt b))) :: u32 list) =
      map of_nat (by_pairs (+) (by_pairs (+) ?n))"
    by (rule lanes_vpaddl_nats [OF l16]) (use b16 in force)+
  have l64: "(lanes (vpaddl_u TYPE(32) TYPE(64) (vpaddl_u TYPE(16) TYPE(32) (vpaddl_u TYPE(8) TYPE(16) (vcnt b)))) :: u64 list) =
      map of_nat (by_pairs (+) (by_pairs (+) (by_pairs (+) ?n)))"
    by (rule lanes_vpaddl_nats [OF l32]) (use b32 in force)+
  have "length (by_pairs (+) (by_pairs (+) (by_pairs (+) ?n))) = 1" by simp
  then obtain s where s: "by_pairs (+) (by_pairs (+) (by_pairs (+) ?n)) = [s]"
    by (metis One_nat_def length_0_conv length_Suc_conv)
  have "sum_list (by_pairs (+) (by_pairs (+) (by_pairs (+) ?n))) = sum_list ?n" by (simp add: sum_by_pairs)
  then have "s = pop b" unfolding s by (simp add: pop_u64)
  with l64 show ?thesis unfolding s by simp
qed

text \<open>The population counts: all texts but one give the number of set bits. The ARMv7 text of the
  32-bit count reads eight bytes at the four of its argument and writes eight at the four of its
  result, so it is undefined on every input.\<close>

theorem popcnt_counts:
  fixes a :: u32 and b :: u64
  shows "unat (mm_popcnt_u32 a) = pop a \<and> mm_popcnt_u32_vcnt a = mm_popcnt_u32 a
    \<and> unat (mm_popcnt_u64 b) = pop b \<and> mm_popcnt_u64_vcnt b = mm_popcnt_u64 b
    \<and> mm_popcnt_u64_v7 b = Some (mm_popcnt_u64 b)
    \<and> mm_popcnt_u32_v7 a = None"
proof (intro conjI)
  show "unat (mm_popcnt_u32 a) = pop a" "unat (mm_popcnt_u64 b) = pop b"
    using pop_le [of a] pop_le [of b] by (simp_all add: mm_popcnt_u32_def mm_popcnt_u64_def unat_of_nat_small)
  have "pop (ucast a :: u64) = pop a"
  proof -
    have "ucast (ucast a :: u64) = a" "ucast (drop_bit 32 (ucast a :: u64)) = (0 :: u32)"
      by (rule bit_word_eqI, simp add: bit_simps)+ (auto simp: bit_simps dest: bit_imp_le_length)
    moreover have "pop (0 :: u32) = 0" by (simp add: pop_def)
    ultimately show ?thesis by (simp add: pop_split [where 'a = 32 and 'b = 64])
  qed
  then show "mm_popcnt_u32_vcnt a = mm_popcnt_u32 a"
    using pop_le [of a] by (simp add: mm_popcnt_u32_vcnt_def mm_popcnt_u32_def vaddlv_vcnt ucast_of_nat_small)
  show "mm_popcnt_u64_vcnt b = mm_popcnt_u64 b"
    using pop_le [of b] by (simp add: mm_popcnt_u64_vcnt_def mm_popcnt_u64_def vaddlv_vcnt ucast_of_nat_small)
  show "mm_popcnt_u32_v7 a = None"
    by (simp add: mm_popcnt_u32_v7_def loadv_def)
  show "mm_popcnt_u64_v7 b = Some (mm_popcnt_u64 b)"
    by (simp add: mm_popcnt_u64_v7_def mm_popcnt_u64_def mem_simps vcnt_vpaddl)
qed

text \<open>The search of \<open>minpos\<close>: after \<open>k\<close> shifts lane 0 holds lane \<open>k\<close> of the argument.\<close>

lemma list_8: "length xs = 8 \<Longrightarrow> xs = [xs ! 0, xs ! 1, xs ! 2, xs ! 3, xs ! 4, xs ! 5, xs ! 6, xs ! 7]"
  by (subst map_nth [symmetric]) (simp add: numeral_eq_Suc upt_rec)

lemma by_pairs_drop2: "by_pairs f (drop 2 xs) = tl (by_pairs f xs)"
  by (cases "(f, xs)" rule: by_pairs.cases) simp_all

lemma length_lanes_16: "length (lanes (a :: m128) :: u16 list) = Suc 7"
  by simp

lemma lanes_srli_2: "(lanes (mm_srli_si128 a 2) :: u16 list) = tl (lanes a) @ [0]"
proof -
  have "(lanes (mm_srli_si128 a 2) :: u8 list) = drop 2 (lanes a) @ [0, 0]"
    by (simp add: mm_srli_si128_def lane_simps replicate_numeral)
  then have "(lanes (mm_srli_si128 a 2) :: u16 list) = by_pairs (\<lambda>x y. of_lanes [x, y]) (drop 2 (lanes a :: u8 list)) @ [0]"
    by (simp add: lanes_wide [where 'a = 8 and 'b = 16] by_pairs_append of_lanes_Cons)
  then show ?thesis
    by (simp add: by_pairs_drop2 flip: lanes_wide [where 'a = 8 and 'b = 16])
qed

lemma minpos_idx_first:
  assumes "k \<le> 8" "length xs = 8" "take (8 - k) (lanes a) = drop k xs" "v \<in> set (drop k xs)"
  shows "\<exists>i < 8. minpos_idx [k..<8] v a = of_nat i \<and> xs ! i = v \<and> (\<forall>j. k \<le> j \<and> j < i \<longrightarrow> xs ! j \<noteq> v)"
  using assms
proof (induction "8 - k" arbitrary: k a)
  case 0
  then show ?case by simp
next
  case (Suc n)
  then have k: "k < 8" by simp
  then have up: "[k..<8] = k # [Suc k..<8]" by (simp add: upt_rec)
  have d: "drop k xs = xs ! k # drop (Suc k) xs" using k Suc.prems(2) by (simp add: Cons_nth_drop_Suc)
  have "take (8 - k) (lanes a :: u16 list) ! 0 = xs ! k" using Suc.prems(3) d by simp
  then have h: "(lanes a :: u16 list) ! 0 = xs ! k" using k by simp
  show ?case
  proof (cases "xs ! k = v")
    case True
    then show ?thesis using k h unfolding up by (intro exI [of _ k]) (auto simp: vget_lane_def)
  next
    case False
    have "take (8 - Suc k) (tl (lanes a :: u16 list) @ [0]) = drop (Suc k) xs"
    proof -
      obtain y ys where y: "(lanes a :: u16 list) = y # ys" "length ys = 7"
        by (metis length_Suc_conv length_lanes_16)
      have "take (8 - k) (y # ys) = y # take (7 - k) ys" using k by (simp add: take_Cons')
      then have "take (7 - k) ys = drop (Suc k) xs" using Suc.prems(3) y d by simp
      then show ?thesis using y by simp
    qed
    moreover have "v \<in> set (drop (Suc k) xs)" using Suc.prems(4) d False by simp
    moreover have n: "n = 8 - Suc k" using Suc.hyps(2) by simp
    ultimately obtain i where i: "i < 8" "minpos_idx [Suc k..<8] v (mm_srli_si128 a 2) = of_nat i" "xs ! i = v"
        "\<forall>j. Suc k \<le> j \<and> j < i \<longrightarrow> xs ! j \<noteq> v"
      using Suc.hyps(1) [of "Suc k" "mm_srli_si128 a 2"] n Suc.prems(2) k by (auto simp: lanes_srli_2)
    have "\<forall>j. k \<le> j \<and> j < i \<longrightarrow> xs ! j \<noteq> v"
      using i(4) False by (metis Suc_leI le_neq_implies_less)
    then show ?thesis
      using i(1,2,3) False h unfolding up by (intro exI [of _ i]) (auto simp: vget_lane_def)
  qed
qed

lemma foldl_min_le: "foldl min (x :: 'a::linorder) xs \<in> set (x # xs) \<and> (\<forall>y \<in> set (x # xs). foldl min x xs \<le> y)"
  by (induction xs arbitrary: x) (fastforce simp: min_def)+

lemma setzero: "mm_setzero_si128 = 0"
  by (simp add: mm_setzero_si128_def vdup_def)

lemma minpos_lanes:
  fixes a :: m128
  shows "mm_minpos_epu16_v7 a = mm_minpos_epu16 a
    \<and> (\<exists>i < 8. (lanes (mm_minpos_epu16 a) :: u16 list) = [lanes a ! i, of_nat i, 0, 0, 0, 0, 0, 0]
        \<and> (\<forall>j < 8. (lanes a :: u16 list) ! i \<le> lanes a ! j \<and> (j < i \<longrightarrow> (lanes a :: u16 list) ! j \<noteq> lanes a ! i)))"
proof
  obtain x0 x1 x2 x3 x4 x5 x6 x7 where x: "(lanes a :: u16 list) = [x0, x1, x2, x3, x4, x5, x6, x7]"
    using list_8 [of "lanes a :: u16 list"] by simp
  let ?m = "vminv_u TYPE(16) a"
  have m0: "?m = foldl min x0 [x1, x2, x3, x4, x5, x6, x7]"
    by (simp only: vminv_u_def Let_def x list.sel)
  show "mm_minpos_epu16_v7 a = mm_minpos_epu16 a"
  proof -
    have p: "(lanes (vpmin_u TYPE(16) v v) :: u16 list) = by_pairs min (lanes v @ lanes v)" for v :: m64
      unfolding vpmin_u_def by (rule lanes_of_lanes) simp
    let ?t = "vmin_u TYPE(16) (vget_low a :: m64) (vget_high a)"
    have t: "(lanes ?t :: u16 list) = [min x0 x4, min x1 x5, min x2 x6, min x3 x7]"
      by (simp add: lane_simps x)
    have "vget_lane (vpmin_u TYPE(16) (vpmin_u TYPE(16) ?t ?t) (vpmin_u TYPE(16) ?t ?t)) 0 =
        min (min (min x0 x4) (min x1 x5)) (min (min x2 x6) (min x3 x7))"
      by (simp add: vget_lane_def p t)
    also have "\<dots> = min (min (min (min (min (min (min x0 x1) x2) x3) x4) x5) x6) x7"
      by (simp only: min.assoc min.commute min.left_commute)
    also have "\<dots> = ?m" by (simp only: m0 foldl.simps)
    finally show ?thesis by (simp add: mm_minpos_epu16_v7_def mm_minpos_epu16_def Let_def)
  qed
  have m: "?m \<in> set (lanes a)" "\<forall>y \<in> set (lanes a). ?m \<le> y"
    using foldl_min_le [of x0 "[x1, x2, x3, x4, x5, x6, x7]"] unfolding m0 x by blast+
  obtain i where i: "i < 8" "minpos_idx [0..<8] ?m a = of_nat i" "(lanes a :: u16 list) ! i = ?m"
      "\<forall>j. j < i \<longrightarrow> (lanes a :: u16 list) ! j \<noteq> ?m"
    using minpos_idx_first [of 0 "lanes a" a ?m] m(1) by auto
  have "(lanes (mm_minpos_epu16 a) :: u16 list) = [?m, of_nat i, 0, 0, 0, 0, 0, 0]"
    by (simp add: mm_minpos_epu16_def minpos_result_def i(2) setzero lane_simps replicate_numeral)
  moreover have "\<forall>j < 8. ?m \<le> (lanes a :: u16 list) ! j" using m(2) by simp
  ultimately show "\<exists>i < 8. (lanes (mm_minpos_epu16 a) :: u16 list) = [lanes a ! i, of_nat i, 0, 0, 0, 0, 0, 0]
        \<and> (\<forall>j < 8. (lanes a :: u16 list) ! i \<le> lanes a ! j \<and> (j < i \<longrightarrow> (lanes a :: u16 list) ! j \<noteq> lanes a ! i))"
    using i by (intro exI [of _ i]) simp
qed

text \<open>\<open>minpos\<close> gives the least lane and the first position that holds it, and the AArch64 reduction
  agrees with the ARMv7 tournament of pairwise minima.\<close>

theorem minpos_least:
  fixes a :: m128
  shows "mm_minpos_epu16_v7 a = mm_minpos_epu16 a
    \<and> (\<exists>i < 8. (lanes (mm_minpos_epu16 a) :: u16 list) = [lanes a ! i, of_nat i, 0, 0, 0, 0, 0, 0]
        \<and> list_all (\<lambda>x. (lanes a :: u16 list) ! i \<le> x) (lanes a) \<and> (lanes a :: u16 list) ! i \<notin> set (take i (lanes a)))"
proof -
  obtain i where i: "i < 8" "(lanes (mm_minpos_epu16 a) :: u16 list) = [lanes a ! i, of_nat i, 0, 0, 0, 0, 0, 0]"
      "\<forall>j < 8. (lanes a :: u16 list) ! i \<le> lanes a ! j \<and> (j < i \<longrightarrow> (lanes a :: u16 list) ! j \<noteq> lanes a ! i)"
    using minpos_lanes [of a] by blast
  then have "list_all (\<lambda>x. (lanes a :: u16 list) ! i \<le> x) (lanes a)"
    "(lanes a :: u16 list) ! i \<notin> set (take i (lanes a))"
    by (auto simp: list_all_length in_set_conv_nth)
  with i(1,2) show ?thesis using minpos_lanes [of a] by blast
qed

text \<open>The selection by sign bits that the masked stores and \<open>blendv\<close> use.\<close>

definition select_bytes :: "u8 list \<Rightarrow> u8 list \<Rightarrow> u8 list \<Rightarrow> u8 list" where
  "select_bytes msk xs ys = map (\<lambda>(m, x, y). if bit m 7 then x else y) (zip msk (zip xs ys))"

lemma sign_mask_byte: "signed_drop_bit 7 (m :: u8) = (if bit m 7 then NOT 0 else 0)"
  using signed_drop_bit_mask [of m] bit_last_iff [of m] by (simp add: sint_uint)

lemma lanes_select:
  fixes a b msk :: "'v::len word"
  assumes "8 dvd LENGTH('v)"
  shows "(lanes (vbsl (vshr_s TYPE(8) msk 7) a b) :: u8 list) = select_bytes (lanes msk) (lanes a) (lanes b)"
  using assms by (intro nth_equalityI) (simp_all add: lanes_vbsl lane_simps select_bytes_def sign_mask_byte)

text \<open>The masked stores write the bytes whose mask byte has its sign bit set and leave the others. The
  64-bit form, which touches eight bytes of memory on the original machine, loads sixteen: it is
  undefined when its eight bytes are the last of the buffer.\<close>

theorem maskmove_bytes:
  fixes a msk :: m128 and a8 msk8 :: m64
  shows "(p + 16 \<le> length m \<longrightarrow>
      mm_maskmoveu_si128 a msk m p = Some (take p m @ select_bytes (lanes msk) (lanes a) (take 16 (drop p m)) @ drop (p + 16) m)
    \<and> mm_maskmove_si64 a8 msk8 m p = Some (take p m @ select_bytes (lanes msk8) (lanes a8) (take 8 (drop p m)) @ drop (p + 8) m))
    \<and> (length m < p + 16 \<longrightarrow> mm_maskmove_si64 a8 msk8 m p = None)"
proof (intro conjI impI)
  assume p: "p + 16 \<le> length m"
  let ?b = "of_lanes (take 16 (drop p m)) :: m128"
  have b: "(lanes ?b :: u8 list) = take 16 (drop p m)" using p by (intro lanes_of_lanes) simp
  show "mm_maskmoveu_si128 a msk m p =
      Some (take p m @ select_bytes (lanes msk) (lanes a) (take 16 (drop p m)) @ drop (p + 16) m)"
    using p by (simp add: mm_maskmoveu_si128_def mm_load_ps_def mem_simps Let_def lanes_select b)
  show "mm_maskmove_si64 a8 msk8 m p =
      Some (take p m @ select_bytes (lanes msk8) (lanes a8) (take 8 (drop p m)) @ drop (p + 8) m)"
    using p by (simp add: mm_maskmove_si64_def mm_load_ps_def mem_simps Let_def lanes_select b lanes_vget_low min_def)
next
  assume "length m < p + 16"
  then show "mm_maskmove_si64 a8 msk8 m p = None"
    by (simp add: mm_maskmove_si64_def mm_load_ps_def loadv_def)
qed

theorem maskmove_bytes_witness:
  "mm_maskmove_si64 0 (NOT 0) (replicate 8 7) 0 = None
   \<and> mm_maskmove_si64 0 (NOT 0) (replicate 16 7) 0 = Some (replicate 8 0 @ replicate 8 7)"
proof
  show "mm_maskmove_si64 0 (NOT 0) (replicate 8 7) 0 = None"
    using conjunct2 [OF maskmove_bytes, of "replicate 8 7" 0 0 "NOT 0"] by simp
  have "(lanes (NOT 0 :: m64) :: u8 list) = replicate 8 (NOT 0)"
    using lanes_not [of "0 :: m64", where 'a = 8] by (simp add: lanes_0)
  then show "mm_maskmove_si64 0 (NOT 0) (replicate 16 7) 0 = Some (replicate 8 0 @ replicate 8 7)"
    using conjunct1 [OF maskmove_bytes, of 0 "replicate 16 7" 0 0 0 "NOT 0"]
    by (simp add: lane_simps select_bytes_def replicate_numeral)
qed

end
