(* ===== verification/Sse_Clmul.thy ===== *)
theory Sse_Clmul
  imports Sse_Misc
begin

text \<open>
  \<open>psetggm/sse2neon.h\<close>: the carry-less multiplication of 64-bit polynomials, built from the
  8-bit polynomial multiplication of NEON where the crypto extension is missing, and the
  \<open>_mm_clmulepi64_si128\<close> on top of it.
\<close>

section \<open>Polynomial products\<close>

text \<open>The exclusive or of \<open>f 0, \<dots>, f (n - 1)\<close>, and the product of two polynomials over the field
  of two elements whose coefficients are the bits of two words.\<close>

primrec xsum :: "(nat \<Rightarrow> 'a::len word) \<Rightarrow> nat \<Rightarrow> 'a word" where
  "xsum f 0 = 0"
| "xsum f (Suc n) = xsum f n XOR f n"

definition clmul :: "'a::len word \<Rightarrow> 'b::len word \<Rightarrow> 'c::len word" where
  "clmul a b = xsum (\<lambda>i. if bit b i then push_bit i (ucast a) else 0) LENGTH('b)"

text \<open>The NEON instructions: eight products of bytes, one product of 64-bit polynomials.\<close>

definition vmull_p8 :: "m64 \<Rightarrow> m64 \<Rightarrow> m128" where
  "vmull_p8 a b = vmap2 (clmul :: u8 \<Rightarrow> u8 \<Rightarrow> u16) a b"

definition vmull_p64 :: "m64 \<Rightarrow> m64 \<Rightarrow> m128" where
  "vmull_p64 a b = clmul a b"

section \<open>Translated code\<close>

definition sse2neon_vmull_p64_crypto :: "m64 \<Rightarrow> m64 \<Rightarrow> m128" where
  "sse2neon_vmull_p64_crypto a b = vmull_p64 a b"

definition sse2neon_vmull_p64 :: "m64 \<Rightarrow> m64 \<Rightarrow> m128" where
  "sse2neon_vmull_p64 a b =
     (let k48_32 = vcombine (0x0000ffffffffffff :: m64) 0x00000000ffffffff;
          k16_00 = vcombine (0x000000000000ffff :: m64) 0x0000000000000000;
          d = vmull_p8 a b;
          e = vmull_p8 a (vext TYPE(8) b b 1);
          f = vmull_p8 (vext TYPE(8) a a 1) b;
          g = vmull_p8 a (vext TYPE(8) b b 2);
          h = vmull_p8 (vext TYPE(8) a a 2) b;
          i = vmull_p8 a (vext TYPE(8) b b 3);
          j = vmull_p8 (vext TYPE(8) a a 3) b;
          k = vmull_p8 a (vext TYPE(8) b b 4);
          l = e XOR f;
          m = g XOR h;
          n = i XOR j;
          lm_p0 = vzip1 TYPE(64) l m;
          lm_p1 = vzip2 TYPE(64) l m;
          nk_p0 = vzip1 TYPE(64) n k;
          nk_p1 = vzip2 TYPE(64) n k;
          t0t1_tmp = lm_p0 XOR lm_p1;
          t0t1_h = lm_p1 AND k48_32;
          t0t1_l = t0t1_tmp XOR t0t1_h;
          t2t3_tmp = nk_p0 XOR nk_p1;
          t2t3_h = nk_p1 AND k16_00;
          t2t3_l = t2t3_tmp XOR t2t3_h;
          t0 = vuzp1 TYPE(64) t0t1_l t0t1_h;
          t1 = vuzp2 TYPE(64) t0t1_l t0t1_h;
          t2 = vuzp1 TYPE(64) t2t3_l t2t3_h;
          t3 = vuzp2 TYPE(64) t2t3_l t2t3_h;
          t0_shift = vext TYPE(8) t0 t0 15;
          t1_shift = vext TYPE(8) t1 t1 14;
          t2_shift = vext TYPE(8) t2 t2 13;
          t3_shift = vext TYPE(8) t3 t3 12;
          cross1 = t0_shift XOR t1_shift;
          cross2 = t2_shift XOR t3_shift;
          mix = d XOR cross1;
          r = mix XOR cross2
      in r)"

definition sse2neon_vmull_p64_v7 :: "m64 \<Rightarrow> m64 \<Rightarrow> m128" where
  "sse2neon_vmull_p64_v7 a b =
     (let k48_32 = vcombine (0x0000ffffffffffff :: m64) 0x00000000ffffffff;
          k16_00 = vcombine (0x000000000000ffff :: m64) 0x0000000000000000;
          d = vmull_p8 a b;
          e = vmull_p8 a (vext TYPE(8) b b 1);
          f = vmull_p8 (vext TYPE(8) a a 1) b;
          g = vmull_p8 a (vext TYPE(8) b b 2);
          h = vmull_p8 (vext TYPE(8) a a 2) b;
          i = vmull_p8 a (vext TYPE(8) b b 3);
          j = vmull_p8 (vext TYPE(8) a a 3) b;
          k = vmull_p8 a (vext TYPE(8) b b 4);
          l = e XOR f;
          m = g XOR h;
          n = i XOR j;
          lm_p0 = (vcombine (vget_low l :: m64) (vget_low m) :: m128);
          lm_p1 = vcombine (vget_high l :: m64) (vget_high m);
          nk_p0 = (vcombine (vget_low n :: m64) (vget_low k) :: m128);
          nk_p1 = vcombine (vget_high n :: m64) (vget_high k);
          t0t1_tmp = lm_p0 XOR lm_p1;
          t0t1_h = lm_p1 AND k48_32;
          t0t1_l = t0t1_tmp XOR t0t1_h;
          t2t3_tmp = nk_p0 XOR nk_p1;
          t2t3_h = nk_p1 AND k16_00;
          t2t3_l = t2t3_tmp XOR t2t3_h;
          t1 = vcombine (vget_high t0t1_l :: m64) (vget_high t0t1_h);
          t0 = vcombine (vget_low t0t1_l :: m64) (vget_low t0t1_h);
          t3 = vcombine (vget_high t2t3_l :: m64) (vget_high t2t3_h);
          t2 = vcombine (vget_low t2t3_l :: m64) (vget_low t2t3_h);
          t0_shift = vext TYPE(8) t0 t0 15;
          t1_shift = vext TYPE(8) t1 t1 14;
          t2_shift = vext TYPE(8) t2 t2 13;
          t3_shift = vext TYPE(8) t3 t3 12;
          cross1 = t0_shift XOR t1_shift;
          cross2 = t2_shift XOR t3_shift;
          mix = d XOR cross1;
          r = mix XOR cross2
      in r)"

text \<open>\<open>imm & 0x11\<close> is one of the four cases; the default branch calls \<open>abort\<close>.\<close>

definition mm_clmulepi64_si128 :: "m128 \<Rightarrow> m128 \<Rightarrow> u32 \<Rightarrow> m128 option" where
  "mm_clmulepi64_si128 a b imm =
     (let sel = imm AND 0x11
      in if sel = 0x00 then Some (sse2neon_vmull_p64 (vget_low a) (vget_low b))
         else if sel = 0x01 then Some (sse2neon_vmull_p64 (vget_high a) (vget_low b))
         else if sel = 0x10 then Some (sse2neon_vmull_p64 (vget_low a) (vget_high b))
         else if sel = 0x11 then Some (sse2neon_vmull_p64 (vget_high a) (vget_high b))
         else None)"

section \<open>Facts\<close>

text \<open>The product is bilinear, so it is the sum of the products of the bytes.\<close>

lemma xsum_xor: "xsum (\<lambda>i. f i XOR g i) n = xsum f n XOR xsum g n"
  by (induction n) (simp_all add: ac_simps)

lemma xsum_0: "xsum (\<lambda>i. 0) n = 0"
  by (induction n) simp_all

lemma xsum_cong: "(\<And>i. i < n \<Longrightarrow> f i = g i) \<Longrightarrow> xsum f n = xsum g n"
  by (induction n) simp_all

lemma xsum_add: "xsum f (m + n) = xsum f m XOR xsum (\<lambda>i. f (m + i)) n"
  by (induction n) (simp_all add: ac_simps)

lemma xsum_blocks: "xsum f (k * m) = xsum (\<lambda>j. xsum (\<lambda>i. f (k * j + i)) k) m"
proof (induction m)
  case (Suc m)
  have "xsum f (k * Suc m) = xsum f (k * m + k)" by (simp add: add.commute)
  then show ?case by (simp only: xsum_add Suc.IH xsum.simps)
qed simp

lemma push_bit_xsum: "push_bit k (xsum f n) = xsum (\<lambda>i. push_bit k (f i)) n"
  by (induction n) (simp_all add: push_bit_xor)

lemma ucast_xor: "(ucast (x XOR y :: 'a::len word) :: 'b::len word) = ucast x XOR ucast y"
  by (rule bit_word_eqI) (auto simp: bit_simps)

lemma ucast_xsum: "(ucast (xsum f n :: 'a::len word) :: 'b::len word) = xsum (\<lambda>i. ucast (f i)) n"
  by (induction n) (simp_all add: ucast_xor)

lemma clmul_xor_left: "clmul (x XOR y) b = clmul x b XOR clmul y b"
  unfolding clmul_def by (subst xsum_xor [symmetric]) (rule xsum_cong, simp add: ucast_xor push_bit_xor)

lemma clmul_0_left: "clmul 0 b = 0"
  unfolding clmul_def by (subst xsum_0 [symmetric]) (rule xsum_cong, simp)

lemma clmul_xsum_left: "clmul (xsum f n) b = xsum (\<lambda>i. clmul (f i) b) n"
  by (induction n) (simp_all add: clmul_xor_left clmul_0_left)

lemma of_lanes_xsum: "(of_lanes xs :: 'v::len word) = xsum (\<lambda>i. push_bit (LENGTH('a) * i) (ucast (xs ! i))) (length (xs :: 'a::len word list))"
proof (induction xs)
  case (Cons x xs)
  have "(of_lanes (x # xs) :: 'v word) = ucast x XOR push_bit LENGTH('a) (of_lanes xs)"
    by (rule bit_word_eqI) (auto simp: of_lanes_Cons bit_simps dest: bit_imp_le_length)
  also have "\<dots> = xsum (\<lambda>i. push_bit (LENGTH('a) * i) (ucast ((x # xs) ! i))) (1 + length xs)"
    unfolding xsum_add by (simp add: Cons.IH push_bit_xsum push_bit_push_bit)
  finally show ?case by simp
qed simp

lemma clmul_bytes_right:
  fixes a :: "'a::len word" and b :: m64
  shows "(clmul a b :: m128) = xsum (\<lambda>j. push_bit (8 * j) (clmul a ((lanes b :: u8 list) ! j))) 8"
proof -
  have "(clmul a b :: m128) = xsum (\<lambda>j. xsum (\<lambda>i. if bit b (8 * j + i) then push_bit (8 * j + i) (ucast a) else 0) 8) 8"
    using xsum_blocks [of "\<lambda>i. if bit b i then push_bit i (ucast a :: m128) else 0" 8 8] by (simp add: clmul_def)
  also have "\<dots> = xsum (\<lambda>j. push_bit (8 * j) (clmul a ((lanes b :: u8 list) ! j))) 8"
  proof (rule xsum_cong)
    fix j :: nat assume j: "j < 8"
    show "xsum (\<lambda>i. if bit b (8 * j + i) then push_bit (8 * j + i) (ucast a) else 0) 8 =
        (push_bit (8 * j) (clmul a ((lanes b :: u8 list) ! j)) :: m128)"
      using j by (simp add: clmul_def push_bit_xsum) (rule xsum_cong, simp add: bit_nth_lanes push_bit_push_bit)
  qed
  finally show ?thesis .
qed

text \<open>A shifted byte of the left factor shifts the product, and a product of bytes fits 16 bits.\<close>

lemma clmul_byte_left:
  fixes x y :: u8
  assumes "i < 8"
  shows "(clmul (push_bit (8 * i) (ucast x) :: m64) y :: m128) = push_bit (8 * i) (ucast (clmul x y :: u16))"
proof -
  have "push_bit k (ucast (push_bit (8 * i) (ucast x) :: m64) :: m128) = push_bit (8 * i) (ucast (push_bit k (ucast x) :: u16))"
    if "k < 8" for k
    using assms that by (intro bit_word_eqI) (auto simp: bit_simps add.commute dest: bit_imp_le_length)
  then show ?thesis
    by (simp add: clmul_def push_bit_xsum ucast_xsum) (rule xsum_cong, simp)
qed

lemma clmul_bytes:
  fixes a b :: m64
  shows "(clmul a b :: m128) = xsum (\<lambda>j. xsum (\<lambda>i. push_bit (8 * (j + i)) (ucast (clmul ((lanes a :: u8 list) ! i) ((lanes b :: u8 list) ! j) :: u16))) 8) 8"
proof -
  have a: "a = xsum (\<lambda>i. push_bit (8 * i) (ucast ((lanes a :: u8 list) ! i))) 8"
    using of_lanes_xsum [of "lanes a :: u8 list", where 'v = 64] by simp
  have "(clmul a y :: m128) = xsum (\<lambda>i. push_bit (8 * i) (ucast (clmul ((lanes a :: u8 list) ! i) y :: u16))) 8" for y :: u8
    by (subst a, subst clmul_xsum_left, rule xsum_cong) (rule clmul_byte_left)
  then show ?thesis
    by (simp add: clmul_bytes_right push_bit_xsum push_bit_push_bit distrib_left)
qed

text \<open>The bytes of a shifted 16-bit product.\<close>

lemma lanes_shifted:
  assumes "k \<le> 14"
  shows "(lanes (push_bit (8 * k) (ucast (w :: u16)) :: m128) :: u8 list) = replicate k 0 @ lanes w @ replicate (14 - k) 0"
proof -
  have "(of_lanes (replicate k (0 :: u8) @ lanes w @ replicate (14 - k) 0) :: m128) = push_bit (8 * k) (ucast w)"
    unfolding of_lanes_append by (simp add: of_lanes_lanes_ucast mult.commute)
  moreover have "lanes (of_lanes (replicate k (0 :: u8) @ lanes w @ replicate (14 - k) 0) :: m128) =
      replicate k (0 :: u8) @ lanes w @ replicate (14 - k) 0"
    using assms by (intro lanes_of_lanes) simp
  ultimately show ?thesis by simp
qed

lemmas lanes_shifts = lanes_shifted [of 0, simplified]
  lanes_shifted [of 1, simplified]
  lanes_shifted [of 2, simplified]
  lanes_shifted [of 3, simplified]
  lanes_shifted [of 4, simplified]
  lanes_shifted [of 5, simplified]
  lanes_shifted [of 6, simplified]
  lanes_shifted [of 7, simplified]
  lanes_shifted [of 8, simplified]
  lanes_shifted [of 9, simplified]
  lanes_shifted [of 10, simplified]
  lanes_shifted [of 11, simplified]
  lanes_shifted [of 12, simplified]
  lanes_shifted [of 13, simplified]
  lanes_shifted [of 14, simplified]

text \<open>Zipping and unzipping 64-bit lanes combines halves, so the two builds are the same function.\<close>

lemma zip64:
  fixes x y :: m128
  shows "vzip1 TYPE(64) x y = vcombine (vget_low x :: m64) (vget_low y)"
    and "vzip2 TYPE(64) x y = vcombine (vget_high x :: m64) (vget_high y)"
    and "vuzp1 TYPE(64) x y = vcombine (vget_low x :: m64) (vget_low y)"
    and "vuzp2 TYPE(64) x y = vcombine (vget_high x :: m64) (vget_high y)"
proof -
  obtain x0 x1 y0 y1 where xy: "(lanes x :: u64 list) = [x0, x1]" "(lanes y :: u64 list) = [y0, y1]"
    using list_2 [of "lanes x :: u64 list"] list_2 [of "lanes y :: u64 list"] by simp
  have h: "(vget_low x :: m64) = x0" "(vget_high x :: m64) = x1" "(vget_low y :: m64) = y0" "(vget_high y :: m64) = y1"
    using lanes_vget_low [of x, where 'a = 64 and 'h = 64] lanes_vget_high [of x, where 'a = 64 and 'h = 64]
      lanes_vget_low [of y, where 'a = 64 and 'h = 64] lanes_vget_high [of y, where 'a = 64 and 'h = 64]
    by (simp_all add: xy)
  have eq: "(lanes v :: u64 list) = lanes w \<Longrightarrow> v = w" for v w :: m128 by (rule lanes_eqI [where 'a = 64]) simp_all
  show "vzip1 TYPE(64) x y = vcombine (vget_low x :: m64) (vget_low y)"
    "vzip2 TYPE(64) x y = vcombine (vget_high x :: m64) (vget_high y)"
    "vuzp1 TYPE(64) x y = vcombine (vget_low x :: m64) (vget_low y)"
    "vuzp2 TYPE(64) x y = vcombine (vget_high x :: m64) (vget_high y)"
    by (rule eq, simp add: lane_simps xy h)+
qed

lemma vmull_p64_builds: "sse2neon_vmull_p64_v7 a b = sse2neon_vmull_p64 a b"
  unfolding sse2neon_vmull_p64_v7_def sse2neon_vmull_p64_def zip64 Let_def by (rule refl)

text \<open>Bytes of the eight products and of the two masks.\<close>

lemma lanes_vmull_p8:
  "(lanes (vmull_p8 a b) :: u8 list) = concat (map2 (\<lambda>x y. lanes (clmul x y :: u16)) (lanes a :: u8 list) (lanes b :: u8 list))"
  by (subst lanes_concat [where 'g = 16]) (simp_all add: vmull_p8_def lanes_vmap2 comp_case_prod)

lemma lanes_masks:
  "(lanes (0x0000ffffffffffff :: m64) :: u8 list) = [- 1, - 1, - 1, - 1, - 1, - 1, 0, 0]"
  "(lanes (0x00000000ffffffff :: m64) :: u8 list) = [- 1, - 1, - 1, - 1, 0, 0, 0, 0]"
  "(lanes (0x000000000000ffff :: m64) :: u8 list) = [- 1, - 1, 0, 0, 0, 0, 0, 0]"
  by (simp_all add: lanes_def upt_rec)

lemma xsum_8: "xsum f 8 = ((((((f 0 XOR f 1) XOR f 2) XOR f 3) XOR f 4) XOR f 5) XOR f 6) XOR f 7"
  by (simp add: numeral_eq_Suc)

lemma vmull_p64_bytes:
  "(lanes (sse2neon_vmull_p64_v7 a b) :: u8 list) = lanes (clmul a b :: m128)"
proof -
  obtain x0 x1 x2 x3 x4 x5 x6 x7 where x: "(lanes a :: u8 list) = [x0, x1, x2, x3, x4, x5, x6, x7]"
    using list_8 [of "lanes a :: u8 list"] by simp
  obtain y0 y1 y2 y3 y4 y5 y6 y7 where y: "(lanes b :: u8 list) = [y0, y1, y2, y3, y4, y5, y6, y7]"
    using list_8 [of "lanes b :: u8 list"] by simp
  define L H where "L u v = (lanes (clmul u v :: u16) :: u8 list) ! 0" and "H u v = (lanes (clmul u v :: u16) :: u8 list) ! 1" for u v :: u8
  have p: "(lanes (clmul u v :: u16) :: u8 list) = [L u v, H u v]" for u v :: u8
    unfolding L_def H_def by (rule list_2) simp
  show ?thesis
    unfolding clmul_bytes xsum_8 x y sse2neon_vmull_p64_v7_def Let_def
    by (simp add: lane_simps lanes_shifts lanes_vmull_p8 p x y lanes_masks replicate_numeral)
       (simp only: xor.assoc xor.commute xor.left_commute bit.xor_left_self bit.xor_self xor.right_neutral xor.left_neutral simp_thms)
qed

lemma and_exp: "(w AND 2 ^ k :: 'a::len word) = (if bit w k then 2 ^ k else 0)"
  by (rule bit_word_eqI) (auto simp: bit_simps)

lemma select_imm: "(imm AND 0x11 :: u32) = (if bit imm 0 then 1 else 0) OR (if bit imm 4 then 0x10 else 0)"
proof -
  have "(0x11 :: u32) = 2 ^ 0 OR 2 ^ 4" by simp
  then have "imm AND 0x11 = (imm AND 2 ^ 0) OR (imm AND 2 ^ 4)"
    by (simp only: bit.conj_disj_distrib)
  then show ?thesis unfolding and_exp by simp
qed

text \<open>C34: \<open>clmulepi64\<close> returns, for every immediate, the 128-bit carry-less product of the halves that
  bits 0 and 4 of the immediate select, and never aborts; the multiplication assembled from byte
  products is the polynomial product, in both builds, as the instruction of the crypto extension.\<close>

theorem clmulepi64_carryless:
  fixes a b :: m128 and x y :: m64
  shows "mm_clmulepi64_si128 a b imm =
      Some (clmul (if bit imm 0 then vget_high a else vget_low a :: m64) (if bit imm 4 then vget_high b else vget_low b :: m64))
    \<and> sse2neon_vmull_p64 x y = clmul x y
    \<and> sse2neon_vmull_p64_v7 x y = sse2neon_vmull_p64 x y
    \<and> sse2neon_vmull_p64_crypto x y = sse2neon_vmull_p64 x y"
proof -
  have v: "sse2neon_vmull_p64 x y = clmul x y" for x y
    unfolding vmull_p64_builds [symmetric] by (rule lanes_eqI [OF _ vmull_p64_bytes]) simp
  then show ?thesis
    by (simp add: mm_clmulepi64_si128_def select_imm vmull_p64_builds sse2neon_vmull_p64_crypto_def vmull_p64_def)
qed

end
