(* ===== verification/Neon_Float.thy ===== *)
theory Neon_Float
  imports Neon_Arith
begin

text \<open>
  Floating-point numbers as bit patterns, as far as comparing them goes: the binary32 and binary64
  formats of IEEE 754 on words of 32 and 64 bits, and the comparison, maximum and minimum
  instructions of NEON (with AArch64's default control word: subnormals are kept, a NaN operand is
  propagated). No rounding occurs in any of them, so numbers are compared exactly, as integers
  in units of the least positive subnormal.
\<close>

section \<open>Formats\<close>

definition frac_width :: "'a::len itself \<Rightarrow> nat" where
  "frac_width t = (if LENGTH('a) = 64 then 52 else 23)"

definition exp_top :: "'a::len itself \<Rightarrow> nat" where
  "exp_top t = 2 ^ (LENGTH('a) - 1 - frac_width t) - 1"

definition f_sign :: "'a::len word \<Rightarrow> bool" where
  "f_sign x = bit x (LENGTH('a) - 1)"

definition f_exp :: "'a::len word \<Rightarrow> nat" where
  "f_exp x = unat x div 2 ^ frac_width TYPE('a) mod 2 ^ (LENGTH('a) - 1 - frac_width TYPE('a))"

definition f_frac :: "'a::len word \<Rightarrow> nat" where
  "f_frac x = unat x mod 2 ^ frac_width TYPE('a)"

definition f_nan :: "'a::len word \<Rightarrow> bool" where
  "f_nan x \<longleftrightarrow> f_exp x = exp_top TYPE('a) \<and> f_frac x \<noteq> 0"

text \<open>The magnitude: a subnormal has no leading one, infinity is above all finite numbers.\<close>

definition f_mag :: "'a::len word \<Rightarrow> nat" where
  "f_mag x = (if f_exp x = 0 then f_frac x else (2 ^ frac_width TYPE('a) + f_frac x) * 2 ^ (f_exp x - 1))"

definition f_num :: "'a::len word \<Rightarrow> int" where
  "f_num x = (if f_sign x then - int (f_mag x) else int (f_mag x))"

definition f_lt :: "'a::len word \<Rightarrow> 'a word \<Rightarrow> bool" where
  "f_lt x y \<longleftrightarrow> \<not> f_nan x \<and> \<not> f_nan y \<and> f_num x < f_num y"

definition f_le :: "'a::len word \<Rightarrow> 'a word \<Rightarrow> bool" where
  "f_le x y \<longleftrightarrow> \<not> f_nan x \<and> \<not> f_nan y \<and> f_num x \<le> f_num y"

definition f_eq :: "'a::len word \<Rightarrow> 'a word \<Rightarrow> bool" where
  "f_eq x y \<longleftrightarrow> \<not> f_nan x \<and> \<not> f_nan y \<and> f_num x = f_num y"

section \<open>Instructions\<close>

text \<open>Comparisons give all ones or zero; one with a NaN operand gives zero.\<close>

definition vceq_f :: "'a::len itself \<Rightarrow> 'v::len word \<Rightarrow> 'v word \<Rightarrow> 'v word" where
  "vceq_f t a b = vmap2 (\<lambda>x y :: 'a word. if f_eq x y then NOT 0 else 0 :: 'a word) a b"

definition vclt_f :: "'a::len itself \<Rightarrow> 'v::len word \<Rightarrow> 'v word \<Rightarrow> 'v word" where
  "vclt_f t a b = vmap2 (\<lambda>x y :: 'a word. if f_lt x y then NOT 0 else 0 :: 'a word) a b"

definition vcle_f :: "'a::len itself \<Rightarrow> 'v::len word \<Rightarrow> 'v word \<Rightarrow> 'v word" where
  "vcle_f t a b = vmap2 (\<lambda>x y :: 'a word. if f_le x y then NOT 0 else 0 :: 'a word) a b"

definition vcgt_f :: "'a::len itself \<Rightarrow> 'v::len word \<Rightarrow> 'v word \<Rightarrow> 'v word" where
  "vcgt_f t a b = vmap2 (\<lambda>x y :: 'a word. if f_lt y x then NOT 0 else 0 :: 'a word) a b"

definition vcge_f :: "'a::len itself \<Rightarrow> 'v::len word \<Rightarrow> 'v word \<Rightarrow> 'v word" where
  "vcge_f t a b = vmap2 (\<lambda>x y :: 'a word. if f_le y x then NOT 0 else 0 :: 'a word) a b"

text \<open>
  A NaN result is the first signalling operand made quiet, or else the first quiet one. The maximum
  and the minimum order the two zeros by their signs.
\<close>

definition quiet :: "'a::len word \<Rightarrow> 'a word" where
  "quiet x = x OR push_bit (frac_width TYPE('a) - 1) 1"

definition f_process_nans :: "'a::len word \<Rightarrow> 'a word \<Rightarrow> 'a word" where
  "f_process_nans x y =
     (if f_nan x \<and> quiet x \<noteq> x then quiet x else if f_nan y \<and> quiet y \<noteq> y then quiet y
      else if f_nan x then x else y)"

definition f_max :: "'a::len word \<Rightarrow> 'a word \<Rightarrow> 'a word" where
  "f_max x y =
     (if f_nan x \<or> f_nan y then f_process_nans x y
      else if f_num x = 0 \<and> f_num y = 0 then x AND y
      else if f_lt y x then x else y)"

definition f_min :: "'a::len word \<Rightarrow> 'a word \<Rightarrow> 'a word" where
  "f_min x y =
     (if f_nan x \<or> f_nan y then f_process_nans x y
      else if f_num x = 0 \<and> f_num y = 0 then x OR y
      else if f_lt x y then x else y)"

definition vmax_f :: "'a::len itself \<Rightarrow> 'v::len word \<Rightarrow> 'v word \<Rightarrow> 'v word" where
  "vmax_f t a b = vmap2 (f_max :: 'a word \<Rightarrow> 'a word \<Rightarrow> 'a word) a b"

definition vmin_f :: "'a::len itself \<Rightarrow> 'v::len word \<Rightarrow> 'v word \<Rightarrow> 'v word" where
  "vmin_f t a b = vmap2 (f_min :: 'a word \<Rightarrow> 'a word \<Rightarrow> 'a word) a b"

section \<open>Lanes\<close>

lemma lanes_vceq_f [lane_simps]:
  "LENGTH('a) dvd LENGTH('v) \<Longrightarrow> (lanes (vceq_f TYPE('a::len) a (b :: 'v::len word)) :: 'a word list) =
    map2 (\<lambda>x y. if f_eq x y then NOT 0 else 0) (lanes a :: 'a word list) (lanes b :: 'a word list)"
  by (simp add: vceq_f_def lanes_vmap2)

lemma lanes_vclt_f [lane_simps]:
  "LENGTH('a) dvd LENGTH('v) \<Longrightarrow> (lanes (vclt_f TYPE('a::len) a (b :: 'v::len word)) :: 'a word list) =
    map2 (\<lambda>x y. if f_lt x y then NOT 0 else 0) (lanes a :: 'a word list) (lanes b :: 'a word list)"
  by (simp add: vclt_f_def lanes_vmap2)

lemma lanes_vcle_f [lane_simps]:
  "LENGTH('a) dvd LENGTH('v) \<Longrightarrow> (lanes (vcle_f TYPE('a::len) a (b :: 'v::len word)) :: 'a word list) =
    map2 (\<lambda>x y. if f_le x y then NOT 0 else 0) (lanes a :: 'a word list) (lanes b :: 'a word list)"
  by (simp add: vcle_f_def lanes_vmap2)

lemma lanes_vcgt_f [lane_simps]:
  "LENGTH('a) dvd LENGTH('v) \<Longrightarrow> (lanes (vcgt_f TYPE('a::len) a (b :: 'v::len word)) :: 'a word list) =
    map2 (\<lambda>x y. if f_lt y x then NOT 0 else 0) (lanes a :: 'a word list) (lanes b :: 'a word list)"
  by (simp add: vcgt_f_def lanes_vmap2)

lemma lanes_vcge_f [lane_simps]:
  "LENGTH('a) dvd LENGTH('v) \<Longrightarrow> (lanes (vcge_f TYPE('a::len) a (b :: 'v::len word)) :: 'a word list) =
    map2 (\<lambda>x y. if f_le y x then NOT 0 else 0) (lanes a :: 'a word list) (lanes b :: 'a word list)"
  by (simp add: vcge_f_def lanes_vmap2)

lemma lanes_vmax_f [lane_simps]:
  "LENGTH('a) dvd LENGTH('v) \<Longrightarrow> (lanes (vmax_f TYPE('a::len) a (b :: 'v::len word)) :: 'a word list) =
    map2 f_max (lanes a :: 'a word list) (lanes b :: 'a word list)"
  by (simp add: vmax_f_def lanes_vmap2)

lemma lanes_vmin_f [lane_simps]:
  "LENGTH('a) dvd LENGTH('v) \<Longrightarrow> (lanes (vmin_f TYPE('a::len) a (b :: 'v::len word)) :: 'a word list) =
    map2 f_min (lanes a :: 'a word list) (lanes b :: 'a word list)"
  by (simp add: vmin_f_def lanes_vmap2)

section \<open>The order\<close>

lemma f_eq_refl: "f_eq x x \<longleftrightarrow> \<not> f_nan x"
  by (simp add: f_eq_def)

lemma f_not_lt: "\<not> f_nan x \<Longrightarrow> \<not> f_nan y \<Longrightarrow> (\<not> f_lt x y) = f_le y x"
  by (auto simp: f_lt_def f_le_def)

lemma f_le_iff: "f_le x y \<longleftrightarrow> f_lt x y \<or> f_eq x y"
  by (auto simp: f_lt_def f_le_def f_eq_def)

lemma f_nan_unordered: "f_nan x \<or> f_nan y \<Longrightarrow> \<not> f_lt x y \<and> \<not> f_le x y \<and> \<not> f_eq x y"
  by (auto simp: f_lt_def f_le_def f_eq_def)

text \<open>A bit pattern is its sign, exponent and fraction; the magnitude determines the last two.\<close>

lemma f_frac_less: "f_frac x < 2 ^ frac_width TYPE('a)" for x :: "'a::len word"
  by (simp add: f_frac_def)

lemma scaled_less:
  fixes f f' :: nat
  assumes "f < 2 ^ k" "e < e'"
  shows "(2 ^ k + f) * 2 ^ e < (2 ^ k + f') * 2 ^ e'"
proof -
  have "(2 ^ k + f) * 2 ^ e < 2 ^ Suc k * 2 ^ e" using assms(1) by simp
  also have "\<dots> = 2 ^ k * 2 ^ Suc e" by simp
  also have "\<dots> \<le> 2 ^ k * 2 ^ e'" using assms(2) by (intro mult_le_mono2 power_increasing) simp_all
  also have "\<dots> \<le> (2 ^ k + f') * 2 ^ e'" by simp
  finally show ?thesis .
qed

lemma f_mag_less:
  fixes x y :: "'a::len word"
  assumes "f_exp x < f_exp y"
  shows "f_mag x < f_mag y"
proof (cases "f_exp x = 0")
  case True
  have "f_frac x < 2 ^ frac_width TYPE('a)" by (rule f_frac_less)
  also have "\<dots> \<le> (2 ^ frac_width TYPE('a) + f_frac y) * 2 ^ (f_exp y - 1)"
    by (rule order_trans [OF _ mult_le_mono2 [of 1]]) simp_all
  finally show ?thesis using True assms by (simp add: f_mag_def)
next
  case False
  then have "f_exp x - 1 < f_exp y - 1" using assms by simp
  from scaled_less [OF f_frac_less this, of x] show ?thesis using False assms by (simp add: f_mag_def)
qed

lemma f_mag_inject:
  fixes x y :: "'a::len word"
  shows "f_mag x = f_mag y \<longleftrightarrow> f_exp x = f_exp y \<and> f_frac x = f_frac y"
proof
  assume eq: "f_mag x = f_mag y"
  then have e: "f_exp x = f_exp y" using f_mag_less [of x y] f_mag_less [of y x] by (cases rule: linorder_cases) auto
  with eq show "f_exp x = f_exp y \<and> f_frac x = f_frac y" by (simp add: f_mag_def split: if_splits)
qed (simp add: f_mag_def)

lemma f_parts:
  fixes x y :: "'a::len word"
  assumes "frac_width TYPE('a) < LENGTH('a)" "f_sign x = f_sign y" "f_exp x = f_exp y" "f_frac x = f_frac y"
  shows "x = y"
proof (rule bit_word_eqI)
  let ?k = "frac_width TYPE('a)"
  have b: "bit (z :: 'a word) i = (if i < ?k then bit (f_frac z) i else if i < LENGTH('a) - 1 then bit (f_exp z) (i - ?k) else f_sign z)"
    if "i < LENGTH('a)" for z i
  proof -
    have "f_frac z = take_bit ?k (unat z)" "f_exp z = take_bit (LENGTH('a) - 1 - ?k) (drop_bit ?k (unat z))"
      by (simp_all add: f_frac_def f_exp_def take_bit_eq_mod drop_bit_eq_div)
    moreover have "i = LENGTH('a) - 1" if "\<not> i < LENGTH('a) - 1" using that \<open>i < LENGTH('a)\<close> by simp
    ultimately show ?thesis by (auto simp: bit_simps f_sign_def bit_unsigned_iff)
  qed
  fix i assume "i < LENGTH('a)"
  then show "bit x i = bit y i" by (simp add: b assms)
qed

lemma f_num_inject:
  fixes x y :: "'a::len word"
  assumes "frac_width TYPE('a) < LENGTH('a)"
  shows "f_num x = f_num y \<longleftrightarrow> x = y \<or> (f_num x = 0 \<and> f_num y = 0)"
proof
  assume eq: "f_num x = f_num y"
  show "x = y \<or> (f_num x = 0 \<and> f_num y = 0)"
  proof (cases "f_num x = 0")
    case False
    with eq have "f_sign x = f_sign y" "f_mag x = f_mag y" by (auto simp: f_num_def split: if_splits)
    then show ?thesis using f_parts [OF assms] by (simp add: f_mag_inject)
  qed (simp add: eq)
qed auto

text \<open>Comparing bits decides equality except for a NaN and for the two zeros.\<close>

lemma f_eq_iff_same:
  fixes x y :: "'a::len word"
  assumes "frac_width TYPE('a) < LENGTH('a)"
  shows "f_eq x y = (x = y) \<longleftrightarrow> \<not> (x = y \<and> f_nan x) \<and> \<not> (x \<noteq> y \<and> f_num x = 0 \<and> f_num y = 0)"
proof -
  have "\<not> f_nan z" if "f_num z = 0" for z :: "'a word"
  proof
    assume "f_nan z"
    then have "f_exp z \<noteq> 0 \<or> f_frac z \<noteq> 0" by (simp add: f_nan_def)
    then have "f_mag z \<noteq> 0" by (auto simp: f_mag_def)
    with that show False by (simp add: f_num_def split: if_splits)
  qed
  then show ?thesis using f_num_inject [OF assms, of x y] by (auto simp: f_eq_def)
qed

end
