(* ===== verification/Neon_Fpu.thy ===== *)
theory Neon_Fpu
  imports Neon_Float "HOL-Library.Log_Nat"
begin

text \<open>
  Arithmetic on binary32 and binary64 numbers as bit patterns, in the default mode of the ARM units:
  round to nearest, ties to even, subnormals kept, the first NaN operand propagated. Exact results
  are fractions \<open>n / d\<close> of the least positive subnormal, and \<open>f_round\<close> is the only place where a
  result is rounded. The C operators on \<open>float\<close> and \<open>double\<close> and the NEON instructions are the same
  operations. (The vector unit of ARMv7 would also flush subnormals to zero; that is left out.)
\<close>

section \<open>Rounding\<close>

definition f_half :: "'a::len itself \<Rightarrow> nat" where
  "f_half t = 2 ^ (LENGTH('a) - 1)"

text \<open>1.0 is \<open>2 ^ f_unit\<close> of the least subnormals.\<close>

definition f_unit :: "'a::len itself \<Rightarrow> nat" where
  "f_unit t = exp_top TYPE('a) div 2 - 1 + frac_width TYPE('a)"

definition f_bits :: "bool \<Rightarrow> nat \<Rightarrow> 'a::len word" where
  "f_bits s m = of_nat (m + (if s then f_half TYPE('a) else 0))"

definition f_inf_bits :: "'a::len itself \<Rightarrow> nat" where
  "f_inf_bits t = exp_top TYPE('a) * 2 ^ frac_width TYPE('a)"

text \<open>The quotient rounded to an integer, ties to even.\<close>

definition rne :: "nat \<Rightarrow> nat \<Rightarrow> nat" where
  "rne n d = (let q = n div d; r = n mod d in if d < 2 * r \<or> (2 * r = d \<and> odd q) then q + 1 else q)"

text \<open>
  The exponent makes the mantissa fit \<open>frac_width + 1\<close> bits; a mantissa that rounding carries to the next
  power of two is encoded as the next exponent by the addition, and too large a number as infinity.
\<close>

definition f_scale :: "'a::len itself \<Rightarrow> nat \<Rightarrow> nat \<Rightarrow> nat" where
  "f_scale t n d = floorlog 2 (n div d) - Suc (frac_width TYPE('a))"

definition f_round :: "bool \<Rightarrow> nat \<Rightarrow> nat \<Rightarrow> 'a::len word" where
  "f_round s n d =
     (let e = f_scale TYPE('a) n d;
          m = rne n (d * 2 ^ e) + e * 2 ^ frac_width TYPE('a)
      in f_bits s (min m (f_inf_bits TYPE('a))))"

section \<open>Operations\<close>

definition f_zero :: "'a::len word \<Rightarrow> bool" where
  "f_zero x \<longleftrightarrow> f_mag x = 0"

definition f_inf :: "'a::len word \<Rightarrow> bool" where
  "f_inf x \<longleftrightarrow> f_exp x = exp_top TYPE('a) \<and> f_frac x = 0"

definition f_default_nan :: "'a::len word" where
  "f_default_nan = f_bits False (f_inf_bits TYPE('a) + 2 ^ (frac_width TYPE('a) - 1))"

definition f_neg :: "'a::len word \<Rightarrow> 'a word" where
  "f_neg x = x XOR push_bit (LENGTH('a) - 1) 1"

text \<open>An integer number of units; an exact zero is given the sign \<open>z\<close>.\<close>

definition f_of_units :: "bool \<Rightarrow> int \<Rightarrow> nat \<Rightarrow> 'a::len word" where
  "f_of_units z v d = (if v = 0 then f_bits z 0 else f_round (v < 0) (nat \<bar>v\<bar>) d)"

definition f_add_numbers :: "'a::len word \<Rightarrow> 'a word \<Rightarrow> 'a word" where
  "f_add_numbers x y =
     (if f_inf x \<and> f_inf y \<and> f_sign x \<noteq> f_sign y then f_default_nan
      else if f_inf x then x
      else if f_inf y then y
      else f_of_units (f_sign x \<and> f_sign y) (f_num x + f_num y) 1)"

definition f_add :: "'a::len word \<Rightarrow> 'a word \<Rightarrow> 'a word" where
  "f_add x y = (if f_nan x \<or> f_nan y then f_process_nans x y else f_add_numbers x y)"

definition f_sub :: "'a::len word \<Rightarrow> 'a word \<Rightarrow> 'a word" where
  "f_sub x y = (if f_nan x \<or> f_nan y then f_process_nans x y else f_add_numbers x (f_neg y))"

definition f_mul :: "'a::len word \<Rightarrow> 'a word \<Rightarrow> 'a word" where
  "f_mul x y =
     (let s = (f_sign x \<noteq> f_sign y) in
      if f_nan x \<or> f_nan y then f_process_nans x y
      else if f_inf x \<and> f_zero y \<or> f_zero x \<and> f_inf y then f_default_nan
      else if f_inf x \<or> f_inf y then f_bits s (f_inf_bits TYPE('a))
      else f_round s (f_mag x * f_mag y) (2 ^ f_unit TYPE('a)))"

definition f_div :: "'a::len word \<Rightarrow> 'a word \<Rightarrow> 'a word" where
  "f_div x y =
     (let s = (f_sign x \<noteq> f_sign y) in
      if f_nan x \<or> f_nan y then f_process_nans x y
      else if f_inf x \<and> f_inf y \<or> f_zero x \<and> f_zero y then f_default_nan
      else if f_inf x \<or> f_zero y then f_bits s (f_inf_bits TYPE('a))
      else if f_inf y then f_bits s 0
      else f_round s (f_mag x * 2 ^ f_unit TYPE('a)) (f_mag y))"

text \<open>
  The integer square root, and the square root of a number: with twice the digits that the result keeps,
  one bit for a nonzero rest is enough to round.
\<close>

fun isqrt :: "nat \<Rightarrow> nat" where
  "isqrt n = (if n = 0 then 0 else let r = 2 * isqrt (n div 4) in if (r + 1) * (r + 1) \<le> n then r + 1 else r)"

declare isqrt.simps [simp del]

definition f_sqrt :: "'a::len word \<Rightarrow> 'a word" where
  "f_sqrt x =
     (if f_nan x then quiet x
      else if f_zero x then x
      else if f_sign x then f_default_nan
      else if f_inf x then x
      else let n = f_mag x * 2 ^ f_unit TYPE('a); r = isqrt n
           in f_round False (2 * r + (if r * r = n then 0 else 1)) 2)"

text \<open>\<open>c + a * b\<close> with one rounding.\<close>

definition f_process_nans3 :: "'a::len word \<Rightarrow> 'a word \<Rightarrow> 'a word \<Rightarrow> 'a word" where
  "f_process_nans3 x y z =
     (if f_nan x \<and> quiet x \<noteq> x then quiet x else if f_nan y \<and> quiet y \<noteq> y then quiet y
      else if f_nan z \<and> quiet z \<noteq> z then quiet z
      else if f_nan x then x else if f_nan y then y else z)"

definition f_fma :: "'a::len word \<Rightarrow> 'a word \<Rightarrow> 'a word \<Rightarrow> 'a word" where
  "f_fma c a b =
     (let s = (f_sign a \<noteq> f_sign b);
          undefined_product = (f_inf a \<and> f_zero b \<or> f_zero a \<and> f_inf b)
      in if f_nan c \<and> quiet c = c \<and> undefined_product then f_default_nan
         else if f_nan c \<or> f_nan a \<or> f_nan b then f_process_nans3 c a b
         else if undefined_product then f_default_nan
         else if f_inf a \<or> f_inf b then
           (if f_inf c \<and> f_sign c \<noteq> s then f_default_nan else f_bits s (f_inf_bits TYPE('a)))
         else if f_inf c then c
         else f_of_units (f_sign c \<and> s) (f_num c * 2 ^ f_unit TYPE('a) + f_num a * f_num b) (2 ^ f_unit TYPE('a)))"

section \<open>Conversions\<close>

definition f_of_int :: "int \<Rightarrow> 'a::len word" where
  "f_of_int i = f_of_units False (i * 2 ^ f_unit TYPE('a)) 1"

text \<open>Rounding to an integer: to nearest even, down, up, towards zero.\<close>

definition r_nearest :: "'a::len word \<Rightarrow> int" where
  "r_nearest x = (let m = int (rne (f_mag x) (2 ^ f_unit TYPE('a))) in if f_sign x then - m else m)"

definition r_down :: "'a::len word \<Rightarrow> int" where
  "r_down x = f_num x div 2 ^ f_unit TYPE('a)"

definition r_up :: "'a::len word \<Rightarrow> int" where
  "r_up x = - (- f_num x div 2 ^ f_unit TYPE('a))"

definition r_zero :: "'a::len word \<Rightarrow> int" where
  "r_zero x = (let m = int (f_mag x div 2 ^ f_unit TYPE('a)) in if f_sign x then - m else m)"

text \<open>To half the distance away from zero, which is \<open>roundf\<close> of C.\<close>

definition r_away :: "'a::len word \<Rightarrow> int" where
  "r_away x = (let m = int ((2 * f_mag x + 2 ^ f_unit TYPE('a)) div (2 * 2 ^ f_unit TYPE('a))) in if f_sign x then - m else m)"

text \<open>To an integer lane the instructions saturate, a NaN becomes 0.\<close>

definition f_to_int :: "('a::len word \<Rightarrow> int) \<Rightarrow> 'a word \<Rightarrow> 'b::len word" where
  "f_to_int r x = (if f_nan x then 0 else sat_s (r x))"

text \<open>To an integral number of the same format; a zero keeps the sign of the operand.\<close>

definition f_rint :: "('a::len word \<Rightarrow> int) \<Rightarrow> 'a word \<Rightarrow> 'a word" where
  "f_rint r x =
     (if f_nan x then quiet x else if f_inf x then x
      else f_of_units (f_sign x) (r x * 2 ^ f_unit TYPE('a)) 1)"

text \<open>Between the two formats; a NaN keeps its sign and the leading bits of its fraction.\<close>

definition f_widen :: "u32 \<Rightarrow> u64" where
  "f_widen x =
     (if f_nan x then quiet (f_bits (f_sign x) (f_inf_bits TYPE(64) + f_frac x * 2 ^ 29))
      else if f_inf x then f_bits (f_sign x) (f_inf_bits TYPE(64))
      else f_round (f_sign x) (f_mag x * 2 ^ (f_unit TYPE(64) - f_unit TYPE(32))) 1)"

definition f_narrow :: "u64 \<Rightarrow> u32" where
  "f_narrow x =
     (if f_nan x then quiet (f_bits (f_sign x) (f_inf_bits TYPE(32) + f_frac x div 2 ^ 29))
      else if f_inf x then f_bits (f_sign x) (f_inf_bits TYPE(32))
      else f_round (f_sign x) (f_mag x) (2 ^ (f_unit TYPE(64) - f_unit TYPE(32))))"

section \<open>Bit patterns and their numbers\<close>

text \<open>What the two formats have in common.\<close>

definition is_format :: "'a::len itself \<Rightarrow> bool" where
  "is_format t \<longleftrightarrow> frac_width TYPE('a) + 2 < LENGTH('a) \<and> 0 < frac_width TYPE('a) \<and> 2 \<le> exp_top TYPE('a) \<and>
     exp_top TYPE('a) div 2 + frac_width TYPE('a) + 1 \<le> exp_top TYPE('a)"

lemma is_format_32 [simp]: "is_format TYPE(32)" and is_format_64 [simp]: "is_format TYPE(64)"
  by (simp_all add: is_format_def frac_width_def exp_top_def)

lemma exp_top_pos: "is_format TYPE('a::len) \<Longrightarrow> 0 < exp_top TYPE('a)"
  unfolding is_format_def by linarith

lemma f_half_parts:
  assumes "is_format TYPE('a::len)"
  shows "f_half TYPE('a) = 2 ^ frac_width TYPE('a) * 2 ^ (LENGTH('a) - 1 - frac_width TYPE('a))"
  using assms by (simp add: f_half_def is_format_def power_add [symmetric])

lemma f_inf_bits_less:
  assumes "is_format TYPE('a::len)"
  shows "f_inf_bits TYPE('a) + 2 ^ frac_width TYPE('a) = f_half TYPE('a)"
  by (simp add: f_inf_bits_def exp_top_def f_half_parts [OF assms] diff_mult_distrib)

lemma f_sign_odd: "f_sign (x :: 'a::len word) \<longleftrightarrow> odd (unat x div f_half TYPE('a))"
  by (simp add: f_sign_def bit_unat_odd f_half_def)

lemma unat_parts:
  fixes x :: "'a::len word"
  assumes "is_format TYPE('a)"
  shows "unat x = f_exp x * 2 ^ frac_width TYPE('a) + f_frac x + (if f_sign x then f_half TYPE('a) else 0)"
proof -
  let ?p = "frac_width TYPE('a)" and ?h = "f_half TYPE('a)"
  have "unat x < 2 * ?h" using unsigned_less [of x, where ?'a = nat] by (simp add: f_half_def flip: power_Suc)
  then have "unat x div ?h < 2" by (simp add: less_mult_imp_div_less)
  moreover have "f_sign x \<longleftrightarrow> odd (unat x div ?h)" by (rule f_sign_odd)
  ultimately have "unat x div ?h = (if f_sign x then 1 else 0)" by (auto simp: less_2_cases_iff)
  moreover have "unat x mod ?h = f_exp x * 2 ^ ?p + f_frac x"
    unfolding f_half_parts [OF assms] mod_mult2_eq by (simp add: f_exp_def f_frac_def)
  ultimately show ?thesis using div_mult_mod_eq [of "unat x" ?h] by (simp split: if_splits)
qed

lemma f_bits_parts:
  fixes x :: "'a::len word"
  assumes "is_format TYPE('a)"
  shows "f_bits (f_sign x) (f_exp x * 2 ^ frac_width TYPE('a) + f_frac x) = x"
  unfolding f_bits_def unat_parts [OF assms, symmetric] by simp

lemma parts_of_bits:
  assumes "is_format TYPE('a::len)" "m < f_half TYPE('a)"
  shows "f_sign (f_bits s m :: 'a word) = s"
    and "f_exp (f_bits s m :: 'a word) = m div 2 ^ frac_width TYPE('a)"
    and "f_frac (f_bits s m :: 'a word) = m mod 2 ^ frac_width TYPE('a)"
proof -
  let ?p = "frac_width TYPE('a)" and ?h = "f_half TYPE('a)" and ?x = "f_bits s m :: 'a word"
  let ?c = "2 ^ (LENGTH('a) - 1 - ?p) :: nat"
  have "m + ?h < 2 ^ LENGTH('a)" using assms(2) by (simp add: f_half_def) (metis One_nat_def Suc_pred len_gt_0 add_less_cancel_right mult_2 power_Suc)
  then have u: "unat ?x = m + (if s then ?h else 0)"
    unfolding f_bits_def by (subst unat_of_nat_small) simp_all
  have h: "?h = 2 ^ ?p * ?c" by (rule f_half_parts [OF assms(1)])
  have c: "m div 2 ^ ?p < ?c" using assms(2) by (simp add: h less_mult_imp_div_less mult.commute)
  have "(m + ?h) div ?h = 1" using assms(2) by (simp add: f_half_def)
  then show "f_sign ?x = s" using assms(2) by (simp add: f_sign_odd u)
  show "f_exp ?x = m div 2 ^ ?p" using c by (simp add: f_exp_def u h)
  show "f_frac ?x = m mod 2 ^ ?p" by (simp add: f_frac_def u h)
qed

text \<open>A normalised mantissa and its exponent.\<close>

definition normal :: "'a::len itself \<Rightarrow> nat \<Rightarrow> nat \<Rightarrow> bool" where
  "normal t m e \<longleftrightarrow> m < 2 ^ Suc (frac_width TYPE('a)) \<and> (e = 0 \<or> 2 ^ frac_width TYPE('a) \<le> m)"

lemma f_mag_bits:
  assumes "is_format TYPE('a::len)" "normal TYPE('a) m e" "m + e * 2 ^ frac_width TYPE('a) < f_half TYPE('a)"
  shows "f_mag (f_bits s (m + e * 2 ^ frac_width TYPE('a)) :: 'a word) = m * 2 ^ e"
proof (cases "m < 2 ^ frac_width TYPE('a)")
  case True
  with assms show ?thesis by (auto simp: f_mag_def parts_of_bits normal_def)
next
  case False
  then obtain f where m: "m = 2 ^ frac_width TYPE('a) + f" by (metis add_diff_inverse_nat)
  with assms(2) have "f < 2 ^ frac_width TYPE('a)" by (simp add: normal_def)
  then show ?thesis using parts_of_bits [OF assms(1,3), of s] by (simp add: f_mag_def m)
qed

lemma floorlog_bounds_eq: "2 ^ k \<le> n \<Longrightarrow> n < 2 ^ Suc k \<Longrightarrow> floorlog 2 n = Suc k"
  using floorlog_ge_SucI [of 2 k n] floorlog_leI [of n 2 "Suc k"] by simp

lemma rne_exact: "0 < d \<Longrightarrow> rne (q * d) d = q"
  by (simp add: rne_def)

text \<open>A number of the format is rounded to itself.\<close>

lemma f_round_normal:
  assumes "normal TYPE('a::len) m e" "0 < d"
  shows "(f_round s (m * 2 ^ e * d) d :: 'a word) =
    f_bits s (min (m + e * 2 ^ frac_width TYPE('a)) (f_inf_bits TYPE('a)))"
proof -
  let ?p = "frac_width TYPE('a)"
  have "f_scale TYPE('a) (m * 2 ^ e * d) d = e"
  proof (cases "e = 0")
    case True
    then show ?thesis using assms by (simp add: f_scale_def normal_def floorlog_leI)
  next
    case False
    then have "2 ^ (?p + e) \<le> m * 2 ^ e" "m * 2 ^ e < 2 ^ Suc (?p + e)"
      using assms(1) by (simp_all add: normal_def power_add)
    then have "floorlog 2 (m * 2 ^ e) = Suc (?p + e)" by (rule floorlog_bounds_eq)
    then show ?thesis using assms(2) by (simp add: f_scale_def)
  qed
  moreover have "rne (m * 2 ^ e * d) (d * 2 ^ e) = m"
    using rne_exact [of "d * 2 ^ e" m] assms(2) by (simp add: mult.commute mult.left_commute)
  ultimately show ?thesis by (simp add: f_round_def)
qed

lemma f_round_mag:
  fixes x :: "'a::len word"
  assumes "is_format TYPE('a)" "\<not> f_nan x" "\<not> f_inf x" "0 < d"
  shows "(f_round s (f_mag x * d) d :: 'a word) = f_bits s (f_exp x * 2 ^ frac_width TYPE('a) + f_frac x)"
proof -
  let ?p = "frac_width TYPE('a)"
  have top: "f_exp x * 2 ^ ?p + f_frac x < f_inf_bits TYPE('a)"
  proof -
    have "f_exp x < 2 ^ (LENGTH('a) - 1 - ?p)" by (simp add: f_exp_def)
    then have "Suc (f_exp x) \<le> exp_top TYPE('a)" using assms(2,3) by (auto simp: f_nan_def f_inf_def exp_top_def)
    then have "Suc (f_exp x) * 2 ^ ?p \<le> f_inf_bits TYPE('a)" unfolding f_inf_bits_def by (rule mult_le_mono1)
    then show ?thesis using f_frac_less [of x] by simp
  qed
  obtain m e where me: "normal TYPE('a) m e" "f_mag x = m * 2 ^ e" "m + e * 2 ^ ?p = f_exp x * 2 ^ ?p + f_frac x"
  proof (cases "f_exp x = 0")
    case True
    then show ?thesis using f_frac_less [of x] by (intro that [of "f_frac x" 0]) (simp_all add: normal_def f_mag_def)
  next
    case False
    then obtain e where "f_exp x = Suc e" by (cases "f_exp x") simp_all
    then show ?thesis using f_frac_less [of x] by (intro that [of "2 ^ ?p + f_frac x" e]) (simp_all add: normal_def f_mag_def)
  qed
  show ?thesis using top f_round_normal [OF me(1) assms(4), of s] by (simp add: me(2,3))
qed

lemma rne_scale: "0 < k \<Longrightarrow> rne (n * k) (d * k) = rne n d"
  by (simp add: rne_def Let_def mult_mod_left [symmetric] flip: mult.assoc)

lemma f_round_scale:
  assumes "0 < k"
  shows "(f_round s (n * k) (d * k) :: 'a::len word) = f_round s n d"
proof -
  have "rne (n * k) (d * k * 2 ^ e) = rne n (d * 2 ^ e)" for e
    using rne_scale [OF assms, of n "d * 2 ^ e"] by (simp only: mult.assoc mult.commute [of k])
  then show ?thesis using assms by (simp add: f_round_def f_scale_def)
qed

section \<open>Sign changes and products by one\<close>

lemma f_neg_bits:
  fixes x :: "'a::len word"
  assumes "is_format TYPE('a)"
  shows "f_neg x = f_bits (\<not> f_sign x) (f_exp x * 2 ^ frac_width TYPE('a) + f_frac x)"
    and "f_sign (f_neg x) = (\<not> f_sign x)" and "f_exp (f_neg x) = f_exp x" and "f_frac (f_neg x) = f_frac x"
proof -
  let ?k = "frac_width TYPE('a)"
  have w: "?k < LENGTH('a) - 1" using assms by (simp add: is_format_def less_diff_conv)
  have b: "bit (f_neg x) i = (if i = LENGTH('a) - 1 then \<not> bit x i else bit x i)" if "i < LENGTH('a)" for i
    using that by (simp add: f_neg_def bit_simps)
  show s: "f_sign (f_neg x) = (\<not> f_sign x)" by (simp add: f_sign_def b)
  have low: "take_bit (LENGTH('a) - 1) (f_neg x) = take_bit (LENGTH('a) - 1) x"
    by (rule bit_word_eqI) (auto simp: bit_simps b)
  have "unat (take_bit (LENGTH('a) - 1) y) = unat y mod f_half TYPE('a)" for y :: "'a word"
    by (simp only: unsigned_take_bit_eq) (simp add: take_bit_eq_mod f_half_def)
  then have "unat (f_neg x) mod f_half TYPE('a) = unat x mod f_half TYPE('a)" by (metis low)
  then have low': "unat (f_neg x) mod (2 ^ ?k * 2 ^ (LENGTH('a) - 1 - ?k)) = unat x mod (2 ^ ?k * 2 ^ (LENGTH('a) - 1 - ?k))"
    by (simp only: f_half_parts [OF assms])
  have parts: "f_frac y = unat y mod (2 ^ ?k * 2 ^ (LENGTH('a) - 1 - ?k)) mod 2 ^ ?k"
    "f_exp y = unat y mod (2 ^ ?k * 2 ^ (LENGTH('a) - 1 - ?k)) div 2 ^ ?k" for y :: "'a word"
    by (simp_all add: f_frac_def f_exp_def mod_mult2_eq)
  show e: "f_exp (f_neg x) = f_exp x" and f: "f_frac (f_neg x) = f_frac x" by (simp_all only: parts low')
  show "f_neg x = f_bits (\<not> f_sign x) (f_exp x * 2 ^ ?k + f_frac x)"
    using f_bits_parts [OF assms, of "f_neg x"] by (simp add: s e f)
qed

lemma f_neg_props:
  fixes x :: "'a::len word"
  assumes "is_format TYPE('a)"
  shows "f_nan (f_neg x) = f_nan x" "f_inf (f_neg x) = f_inf x" "f_zero (f_neg x) = f_zero x"
    "f_mag (f_neg x) = f_mag x" "f_num (f_neg x) = - f_num x"
  by (simp_all add: f_nan_def f_inf_def f_zero_def f_mag_def f_num_def f_neg_bits(2-4) [OF assms])

lemma f_inf_bits_eq:
  fixes x :: "'a::len word"
  assumes "is_format TYPE('a)" "f_inf x"
  shows "x = f_bits (f_sign x) (f_inf_bits TYPE('a))"
  using assms(2) f_bits_parts [OF assms(1), of x] by (simp add: f_inf_def f_inf_bits_def)

lemma f_of_units_scale:
  "0 < k \<Longrightarrow> f_of_units z (v * int k) (d * k) = (f_of_units z v d :: 'a::len word)"
  using f_round_scale [of k _ "nat \<bar>v\<bar>" d, where 'a = 'a]
  by (auto simp: f_of_units_def abs_mult nat_mult_distrib mult_less_0_iff)

lemma quiet_quiet [simp]: "quiet (quiet x) = quiet x"
  by (simp add: quiet_def or.assoc)

lemma nan_quiet:
  fixes x :: "'a::len word"
  assumes "is_format TYPE('a)" "f_nan x"
  shows "f_nan (quiet x)"
proof -
  let ?p = "frac_width TYPE('a)"
  have p: "0 < ?p" "?p < LENGTH('a)" using assms(1) by (simp_all add: is_format_def)
  have b: "bit (quiet x) i \<longleftrightarrow> bit x i \<or> i = ?p - 1" for i
    using p by (auto simp: quiet_def bit_simps)
  have parts: "f_exp z = take_bit (LENGTH('a) - 1 - ?p) (drop_bit ?p (unat z))" "f_frac z = take_bit ?p (unat z)" for z :: "'a word"
    by (simp_all add: f_frac_def f_exp_def take_bit_eq_mod drop_bit_eq_div)
  have "f_exp (quiet x) = f_exp x"
    unfolding parts by (rule bit_eqI) (use p in \<open>auto simp: bit_simps bit_unsigned_iff b\<close>)
  moreover have "bit (f_frac (quiet x)) (?p - 1)"
    unfolding parts using p by (simp add: bit_simps bit_unsigned_iff b)
  then have "f_frac (quiet x) \<noteq> 0" by (metis bit_0_eq bot_apply bot_bool_def)
  ultimately show ?thesis using assms(2) by (simp add: f_nan_def)
qed

lemma process_nans_one: "f_nan x \<Longrightarrow> \<not> f_nan y \<Longrightarrow> f_process_nans x y = quiet x \<and> f_process_nans y x = quiet x"
  by (auto simp: f_process_nans_def)

text \<open>One: a number of magnitude 1, of either sign.\<close>

definition f_one :: "'a::len word \<Rightarrow> bool" where
  "f_one x \<longleftrightarrow> \<not> f_nan x \<and> \<not> f_inf x \<and> f_mag x = 2 ^ f_unit TYPE('a)"

lemma f_one_num: "f_one x \<Longrightarrow> f_num x = (if f_sign x then - (2 ^ f_unit TYPE('a)) else 2 ^ f_unit TYPE('a))"
  for x :: "'a::len word"
  by (simp add: f_one_def f_num_def)

lemma f_add_numbers_inf_sign:
  fixes x y :: "'a::len word"
  assumes "is_format TYPE('a)" "f_inf y"
  shows "f_add_numbers x y = (if f_inf x \<and> f_sign x \<noteq> f_sign y then f_default_nan else f_bits (f_sign y) (f_inf_bits TYPE('a)))"
  using assms(2) f_inf_bits_eq [OF assms(1), of x] f_inf_bits_eq [OF assms(1), of y] by (auto simp: f_add_numbers_def)

lemma f_fma_one:
  fixes a c u :: "'a::len word"
  assumes F: "is_format TYPE('a)" and u: "f_one u"
  shows "f_fma c a u = (if f_sign u then f_sub c a else f_add c a)"
    and "f_fma c u a = (if f_sign u then f_sub c a else f_add c a)"
proof -
  define a' where "a' = (if f_sign u then f_neg a else a)"
  have a': "f_nan a' = f_nan a" "f_inf a' = f_inf a" "f_sign a' = (f_sign a \<noteq> f_sign u)"
    "f_num a' = (if f_sign u then - f_num a else f_num a)"
    by (auto simp: a'_def f_neg_props [OF F] f_neg_bits(2-4) [OF F])
  have rhs: "(if f_sign u then f_sub c a else f_add c a) =
      (if f_nan c \<or> f_nan a then f_process_nans c a else f_add_numbers c a')"
    by (simp add: a'_def f_add_def f_sub_def)
  have no: "\<not> f_inf u" "\<not> f_zero u" "\<not> f_nan u" using u by (simp_all add: f_one_def f_zero_def)
  have nans: "f_process_nans3 c a u = f_process_nans c a" "f_process_nans3 c u a = f_process_nans c a" if "f_nan c \<or> f_nan a"
    using that no(3) by (auto simp: f_process_nans3_def f_process_nans_def)
  have prod: "f_num a * f_num u = f_num a' * int (2 ^ f_unit TYPE('a))" by (simp add: f_one_num [OF u] a')
  have sum: "f_of_units z (f_num c * 2 ^ f_unit TYPE('a) + f_num a * f_num u) (2 ^ f_unit TYPE('a)) =
      (f_of_units z (f_num c + f_num a') 1 :: 'a word)" for z
    using f_of_units_scale [of "2 ^ f_unit TYPE('a)" z "f_num c + f_num a'" 1, where 'a = 'a] prod
    by (simp add: distrib_right)
  have one: "f_fma c a u = (if f_nan c \<or> f_nan a then f_process_nans c a else f_add_numbers c a') \<and>
      f_fma c u a = (if f_nan c \<or> f_nan a then f_process_nans c a else f_add_numbers c a')"
  proof (cases "f_inf a")
    case True
    then show ?thesis
      using no nans f_add_numbers_inf_sign [OF F, of a' c] by (auto simp: f_fma_def Let_def a')
  next
    case False
    then show ?thesis
      using no nans sum by (auto simp: f_fma_def Let_def f_add_numbers_def a' mult.commute [of "f_num u"])
  qed
  then show "f_fma c a u = (if f_sign u then f_sub c a else f_add c a)" "f_fma c u a = (if f_sign u then f_sub c a else f_add c a)"
    by (simp_all only: rhs)
qed

lemma f_mul_one:
  fixes x u :: "'a::len word"
  assumes F: "is_format TYPE('a)" and u: "f_one u"
  shows "f_mul x u = (if f_nan x then quiet x else if f_sign u then f_neg x else x)"
proof -
  have no: "\<not> f_inf u" "\<not> f_zero u" "\<not> f_nan u" using u by (simp_all add: f_one_def f_zero_def)
  let ?s = "f_sign x \<noteq> f_sign u"
  have id: "f_bits ?s (f_exp x * 2 ^ frac_width TYPE('a) + f_frac x) = (if f_sign u then f_neg x else x)"
    by (simp add: f_neg_bits(1) [OF F] f_bits_parts [OF F])
  show ?thesis
  proof (cases "f_nan x")
    case True
    then show ?thesis using no by (simp add: f_mul_def process_nans_one)
  next
    case nan: False
    show ?thesis
    proof (cases "f_inf x")
      case True
      then have "f_inf_bits TYPE('a) = f_exp x * 2 ^ frac_width TYPE('a) + f_frac x" by (simp add: f_inf_def f_inf_bits_def)
      with True nan no show ?thesis unfolding id [symmetric] by (simp add: f_mul_def)
    next
      case False
      have "f_mag u = 2 ^ f_unit TYPE('a)" using u by (simp add: f_one_def)
      with False nan no f_round_mag [OF F nan False, of "2 ^ f_unit TYPE('a)" ?s]
      show ?thesis unfolding id [symmetric] by (simp add: f_mul_def)
    qed
  qed
qed

lemma f_add_numbers_commute:
  fixes x y :: "'a::len word"
  assumes "is_format TYPE('a)"
  shows "f_add_numbers x y = f_add_numbers y x"
  using f_inf_bits_eq [OF assms, of x] f_inf_bits_eq [OF assms, of y]
  by (auto simp: f_add_numbers_def add.commute conj_commute)

lemma f_num_zero [simp]: "f_num (0 :: 'a::len word) = 0"
  by (simp add: f_num_def f_mag_def f_exp_def f_frac_def)

lemma f_of_units_num:
  fixes x :: "'a::len word"
  assumes "is_format TYPE('a)" "\<not> f_nan x" "\<not> f_inf x" "f_num x \<noteq> 0"
  shows "f_of_units z (f_num x) 1 = x"
proof -
  have "(f_num x < 0) = f_sign x" "nat \<bar>f_num x\<bar> = f_mag x" using assms(4) by (auto simp: f_num_def split: if_splits)
  then show ?thesis
    using assms(4) f_round_mag [OF assms(1-3), of 1 "f_sign x"] by (simp add: f_of_units_def f_bits_parts [OF assms(1)])
qed

text \<open>Adding positive zero keeps all numbers but negative zero.\<close>

lemma f_add_zero:
  fixes x :: "'a::len word"
  assumes "is_format TYPE('a)"
  shows "f_add x 0 = (if f_nan x then quiet x else if f_num x = 0 then 0 else x)"
proof -
  have z: "\<not> f_nan (0 :: 'a word)" "\<not> f_inf (0 :: 'a word)" "\<not> f_sign (0 :: 'a word)"
    using exp_top_pos [OF assms] by (simp_all add: f_nan_def f_inf_def f_sign_def f_exp_def f_frac_def)
  have "f_num x \<noteq> 0" if "f_inf x"
    using that exp_top_pos [OF assms] by (simp add: f_num_def f_mag_def f_inf_def)
  then show ?thesis
    using z process_nans_one [of x 0] f_of_units_num [OF assms, of x False]
    by (auto simp: f_add_def f_add_numbers_def f_of_units_def f_bits_def)
qed

text \<open>An integer of at most \<open>frac_width + 1\<close> bits is a number of the format, and rounding it gives it back.\<close>

definition small_int :: "'a::len itself \<Rightarrow> int \<Rightarrow> bool" where
  "small_int t i \<longleftrightarrow> \<bar>i\<bar> < 2 ^ Suc (frac_width TYPE('a))"

lemma f_of_int_small:
  fixes i :: int
  assumes F: "is_format TYPE('a::len)" and i: "small_int TYPE('a) i"
  shows "f_mag (f_of_int i :: 'a word) = nat \<bar>i\<bar> * 2 ^ f_unit TYPE('a)"
    and "f_num (f_of_int i :: 'a word) = i * 2 ^ f_unit TYPE('a)"
    and "f_sign (f_of_int i :: 'a word) = (i < 0)"
    and "\<not> f_nan (f_of_int i :: 'a word)" and "\<not> f_inf (f_of_int i :: 'a word)"
proof -
  let ?p = "frac_width TYPE('a)" and ?u = "f_unit TYPE('a)" and ?x = "f_of_int i :: 'a word"
  have top: "f_exp y < exp_top TYPE('a)" if "y = (f_bits s m :: 'a word)" "m < f_inf_bits TYPE('a)" for y s m
    using that f_inf_bits_less [OF F] parts_of_bits(2) [OF F, of m s] by (simp add: f_inf_bits_def less_mult_imp_div_less)
  have "\<exists>m. ?x = f_bits (i < 0) m \<and> m < f_inf_bits TYPE('a) \<and> f_mag ?x = nat \<bar>i\<bar> * 2 ^ ?u"
  proof (cases "i = 0")
    case True
    then show ?thesis using exp_top_pos [OF F]
      by (intro exI [of _ 0]) (simp add: f_of_int_def f_of_units_def f_bits_def f_inf_bits_def f_mag_def f_exp_def f_frac_def)
  next
    case False
    define n where "n = nat \<bar>i\<bar>"
    define L where "L = floorlog 2 n - 1"
    have n: "0 < n" "n < 2 ^ Suc ?p" using False i by (auto simp: n_def small_int_def nat_less_iff)
    have "n < 2 ^ floorlog 2 n" "2 ^ (floorlog 2 n - 1) \<le> n" using floorlog_bounds [of n 2] n(1) by simp_all
    moreover have "0 < floorlog 2 n" using n(1) by (simp add: floorlog_def)
    ultimately have L: "2 ^ L \<le> n" "n < 2 ^ Suc L" by (simp_all add: L_def)
    have Lp: "L \<le> ?p" using L(1) n(2) by (metis le_less_trans less_Suc_eq_le power_less_imp_less_exp one_less_numeral_iff semiring_norm(76))
    have pu: "?p \<le> ?u" by (simp add: f_unit_def)
    define m where "m = n * 2 ^ (?p - L)"
    define e where "e = ?u + L - ?p"
    have "2 ^ L * 2 ^ (?p - L) \<le> m" "m < 2 ^ Suc L * 2 ^ (?p - L)" unfolding m_def using L by simp_all
    moreover have "2 ^ L * 2 ^ (?p - L) = (2 ^ ?p :: nat)" using Lp by (simp flip: power_add)
    ultimately have m: "2 ^ ?p \<le> m" "m < 2 ^ Suc ?p" by simp_all
    have "m * 2 ^ e = n * 2 ^ ((?p - L) + e)" by (simp add: m_def power_add)
    also have "(?p - L) + e = ?u" using Lp pu by (simp add: e_def)
    finally have me: "m * 2 ^ e = n * 2 ^ ?u" .
    have "e + 2 \<le> exp_top TYPE('a)" using F Lp unfolding e_def f_unit_def is_format_def by linarith
    then have "(e + 2) * 2 ^ ?p \<le> f_inf_bits TYPE('a)" unfolding f_inf_bits_def by (rule mult_le_mono1)
    then have lt: "m + e * 2 ^ ?p < f_inf_bits TYPE('a)" using m(2) by simp
    have norm: "normal TYPE('a) m e" using m by (simp add: normal_def)
    have "?x = f_round (i < 0) (m * 2 ^ e * 1) 1"
      using False by (simp add: f_of_int_def f_of_units_def me n_def mult_less_0_iff abs_mult nat_mult_distrib nat_power_eq)
    also have "\<dots> = f_bits (i < 0) (m + e * 2 ^ ?p)" using f_round_normal [OF norm, of 1] lt by simp
    finally have x: "?x = f_bits (i < 0) (m + e * 2 ^ ?p)" .
    moreover have "f_mag ?x = nat \<bar>i\<bar> * 2 ^ ?u"
      using f_mag_bits [OF F norm] lt f_inf_bits_less [OF F] by (simp add: x me n_def)
    ultimately show ?thesis using lt by blast
  qed
  then obtain m where x: "?x = f_bits (i < 0) m" "m < f_inf_bits TYPE('a)" and mag: "f_mag ?x = nat \<bar>i\<bar> * 2 ^ ?u" by blast
  show "f_mag ?x = nat \<bar>i\<bar> * 2 ^ ?u" by (rule mag)
  show s: "f_sign ?x = (i < 0)" using x f_inf_bits_less [OF F] by (simp add: parts_of_bits(1) [OF F])
  show "f_num ?x = i * 2 ^ ?u" by (simp add: f_num_def s mag)
  show "\<not> f_nan ?x" "\<not> f_inf ?x" using top [OF x] by (simp_all add: f_nan_def f_inf_def)
qed

lemma r_zero_int:
  fixes x :: "'a::len word"
  assumes "f_num x = i * 2 ^ f_unit TYPE('a)"
  shows "r_zero x = i"
proof -
  have "f_mag x = nat \<bar>i\<bar> * 2 ^ f_unit TYPE('a)" "i \<noteq> 0 \<longrightarrow> f_sign x = (i < 0)"
  proof -
    have "int (f_mag x) = \<bar>f_num x\<bar>" by (simp add: f_num_def)
    also have "\<dots> = int (nat \<bar>i\<bar> * 2 ^ f_unit TYPE('a))" by (simp add: assms abs_mult)
    finally show "f_mag x = nat \<bar>i\<bar> * 2 ^ f_unit TYPE('a)" by (simp only: of_nat_eq_iff)
    have "f_sign x \<Longrightarrow> i * 2 ^ f_unit TYPE('a) \<le> 0" "\<not> f_sign x \<Longrightarrow> 0 \<le> i * 2 ^ f_unit TYPE('a)"
      unfolding assms [symmetric] by (simp_all add: f_num_def)
    then have "f_sign x \<Longrightarrow> i \<le> 0" "\<not> f_sign x \<Longrightarrow> 0 \<le> i" by (simp_all add: mult_le_0_iff zero_le_mult_iff)
    then show "i \<noteq> 0 \<longrightarrow> f_sign x = (i < 0)" by (cases "f_sign x") auto
  qed
  then show ?thesis by (cases "i = 0") (simp_all add: r_zero_def Let_def)
qed

section \<open>Rounding is to the nearest\<close>

lemma rne_nearest:
  assumes "0 < D"
  shows "\<bar>int (rne n D * D) - int n\<bar> \<le> \<bar>int (k * D) - int n\<bar>"
proof -
  define q where "q = int (n div D)"
  define r where "r = int (n mod D)"
  have n: "int n = q * int D + r" using div_mult_mod_eq [of n D] unfolding q_def r_def
    by (metis of_nat_add of_nat_mult)
  have r: "0 \<le> r" "r < int D" using assms by (simp_all add: r_def)
  have m: "int (rne n D * D) - int n = - r \<and> 2 * r \<le> int D \<or> int (rne n D * D) - int n = int D - r \<and> int D \<le> 2 * r"
    unfolding n by (auto simp: rne_def Let_def q_def r_def distrib_right)
  have k: "int (k * D) - int n = (int k - q) * int D - r" by (simp add: n left_diff_distrib)
  show ?thesis
  proof (cases "int k \<le> q")
    case True
    then have "(int k - q) * int D \<le> 0" by (simp add: mult_le_0_iff)
    with r m show ?thesis unfolding k by linarith
  next
    case False
    then have "int D \<le> (int k - q) * int D" using mult_right_mono [of 1 "int k - q" "int D"] by simp
    with r m show ?thesis unfolding k by linarith
  qed
qed

lemma f_mag_normal:
  fixes x :: "'a::len word"
  obtains m e where "normal TYPE('a) m e" "f_mag x = m * 2 ^ e"
proof (cases "f_exp x = 0")
  case True
  then show ?thesis using f_frac_less [of x] by (intro that [of "f_frac x" 0]) (simp_all add: normal_def f_mag_def)
next
  case False
  then show ?thesis using f_frac_less [of x]
    by (intro that [of "2 ^ frac_width TYPE('a) + f_frac x" "f_exp x - 1"]) (simp_all add: normal_def f_mag_def)
qed

lemma rne_le: "0 < D \<Longrightarrow> n < k * D \<Longrightarrow> rne n D \<le> k"
  using less_mult_imp_div_less [of n k D] by (auto simp: rne_def Let_def)

text \<open>The magnitude of a rounded quotient that does not overflow.\<close>

lemma f_mag_round:
  assumes F: "is_format TYPE('a::len)" and d: "0 < d" and e: "e = f_scale TYPE('a) n d"
    and fin: "rne n (d * 2 ^ e) + e * 2 ^ frac_width TYPE('a) < f_inf_bits TYPE('a)"
  shows "f_mag (f_round s n d :: 'a word) = rne n (d * 2 ^ e) * 2 ^ e"
    and "0 < e \<Longrightarrow> 2 ^ frac_width TYPE('a) * 2 ^ e * d \<le> n"
proof -
  let ?p = "frac_width TYPE('a)" and ?m = "rne n (d * 2 ^ e)"
  have up: "n div d < 2 ^ (Suc ?p + e)" 
    by (rule floorlog_leD) (simp_all add: e f_scale_def)
  then have "n < 2 ^ (Suc ?p + e) * d" using d by (simp add: div_less_iff_less_mult)
  then have "n < 2 ^ Suc ?p * (d * 2 ^ e)" by (simp add: power_add mult.commute mult.left_commute)
  then have m: "?m \<le> 2 ^ Suc ?p" using d by (intro rne_le) simp_all
  have lo: "2 ^ ?p * 2 ^ e \<le> n div d" if "0 < e"
  proof -
    have "floorlog 2 (n div d) = Suc ?p + e" using that by (simp add: e f_scale_def)
    then have "2 ^ (Suc ?p + e - 1) \<le> n div d" using floorlog_geD [of "Suc ?p + e" 2 "n div d"] by simp
    then show ?thesis by (simp add: power_add)
  qed
  then show lo': "2 ^ ?p * 2 ^ e * d \<le> n" if "0 < e" using that d by (simp add: less_eq_div_iff_mult_less_eq)
  have b: "(f_round s n d :: 'a word) = f_bits s (?m + e * 2 ^ ?p)" using fin by (simp add: f_round_def flip: e)
  have half: "?m + e * 2 ^ ?p < f_half TYPE('a)" using fin f_inf_bits_less [OF F] by simp
  show "f_mag (f_round s n d :: 'a word) = ?m * 2 ^ e"
  proof (cases "?m = 2 ^ Suc ?p")
    case True
    then have c: "?m + e * 2 ^ ?p = 2 ^ ?p + Suc e * 2 ^ ?p" by simp
    show ?thesis unfolding b c
      using f_mag_bits [OF F, of "2 ^ ?p" "Suc e" s] half True by (simp add: normal_def)
  next
    case False
    have "2 ^ ?p \<le> ?m" if "0 < e"
    proof -
      have "2 ^ ?p \<le> n div (d * 2 ^ e)" using lo' [OF that] d by (simp add: less_eq_div_iff_mult_less_eq mult.commute mult.left_commute)
      then show ?thesis by (auto simp: rne_def Let_def)
    qed
    with m False have "normal TYPE('a) ?m e" by (auto simp: normal_def)
    then show ?thesis unfolding b using half by (rule f_mag_bits [OF F])
  qed
qed

theorem f_round_nearest:
  fixes y :: "'a::len word"
  assumes F: "is_format TYPE('a)" and d: "0 < d"
    and fin: "rne n (d * 2 ^ f_scale TYPE('a) n d) + f_scale TYPE('a) n d * 2 ^ frac_width TYPE('a) < f_inf_bits TYPE('a)"
  shows "\<bar>int (f_mag (f_round s n d :: 'a word) * d) - int n\<bar> \<le> \<bar>int (f_mag y * d) - int n\<bar>"
proof -
  define e where "e = f_scale TYPE('a) n d"
  let ?p = "frac_width TYPE('a)" and ?D = "d * 2 ^ e"
  note mag = f_mag_round [OF F d e_def fin [folded e_def]]
  have near: "\<bar>int (f_mag (f_round s n d :: 'a word) * d) - int n\<bar> \<le> \<bar>int (k * ?D) - int n\<bar>" for k
    using rne_nearest [of ?D n k] d by (simp add: mag(1) mult.commute mult.left_commute)
  obtain m' e' where y: "normal TYPE('a) m' e'" "f_mag y = m' * 2 ^ e'" by (rule f_mag_normal)
  show ?thesis
  proof (cases "e \<le> e'")
    case True
    then have "f_mag y * d = (m' * 2 ^ (e' - e)) * ?D" by (simp add: y(2) flip: power_add)
    then show ?thesis using near by metis
  next
    case False
    then have lo: "2 ^ ?p * 2 ^ e * d \<le> n" using mag(2) by simp
    have "m' * 2 ^ e' \<le> 2 ^ Suc ?p * 2 ^ (e - 1)"
      using y(1) False by (intro mult_le_mono power_increasing) (simp_all add: normal_def)
    also have "\<dots> = 2 ^ ?p * 2 ^ e" using False by (cases e) simp_all
    finally have "f_mag y * d \<le> 2 ^ ?p * ?D" by (simp add: y(2) mult.commute mult.left_commute)
    moreover have "2 ^ ?p * ?D \<le> n" using lo by (simp add: mult.commute mult.left_commute)
    ultimately have "\<bar>int (2 ^ ?p * ?D) - int n\<bar> \<le> \<bar>int (f_mag y * d) - int n\<bar>" by linarith
    with near [of "2 ^ ?p"] show ?thesis by linarith
  qed
qed

end
