(* ===== verification/Sse_Compare.thy ===== *)
theory Sse_Compare
  imports Neon_Float Sse_Arith Sse_Move
begin

text \<open>
  \<open>psetggm/sse2neon.h\<close>: comparison, maximum and minimum of floating-point numbers. The compiler's
  operators \<open>==\<close>, \<open><\<close>, \<open><=\<close> on \<open>double\<close> are \<open>f_eq\<close>, \<open>f_lt\<close>, \<open>f_le\<close>. A name ending in \<open>_v7\<close> is the ARMv7
  text of an intrinsic that has two, one ending in \<open>_precise\<close> the text under
  \<open>SSE2NEON_PRECISE_MINMAX\<close>.
\<close>

section \<open>Four single-precision lanes\<close>

definition mm_cmplt_ps :: "m128 \<Rightarrow> m128 \<Rightarrow> m128" where
  "mm_cmplt_ps a b = vclt_f TYPE(32) a b"

definition mm_cmplt_ss :: "m128 \<Rightarrow> m128 \<Rightarrow> m128" where
  "mm_cmplt_ss a b = mm_move_ss a (mm_cmplt_ps a b)"

definition mm_cmpgt_ps :: "m128 \<Rightarrow> m128 \<Rightarrow> m128" where
  "mm_cmpgt_ps a b = vcgt_f TYPE(32) a b"

definition mm_cmpgt_ss :: "m128 \<Rightarrow> m128 \<Rightarrow> m128" where
  "mm_cmpgt_ss a b = mm_move_ss a (mm_cmpgt_ps a b)"

definition mm_cmpge_ps :: "m128 \<Rightarrow> m128 \<Rightarrow> m128" where
  "mm_cmpge_ps a b = vcge_f TYPE(32) a b"

definition mm_cmpge_ss :: "m128 \<Rightarrow> m128 \<Rightarrow> m128" where
  "mm_cmpge_ss a b = mm_move_ss a (mm_cmpge_ps a b)"

definition mm_cmple_ps :: "m128 \<Rightarrow> m128 \<Rightarrow> m128" where
  "mm_cmple_ps a b = vcle_f TYPE(32) a b"

definition mm_cmple_ss :: "m128 \<Rightarrow> m128 \<Rightarrow> m128" where
  "mm_cmple_ss a b = mm_move_ss a (mm_cmple_ps a b)"

definition mm_cmpeq_ps :: "m128 \<Rightarrow> m128 \<Rightarrow> m128" where
  "mm_cmpeq_ps a b = vceq_f TYPE(32) a b"

definition mm_cmpeq_ss :: "m128 \<Rightarrow> m128 \<Rightarrow> m128" where
  "mm_cmpeq_ss a b = mm_move_ss a (mm_cmpeq_ps a b)"

definition mm_cmpneq_ps :: "m128 \<Rightarrow> m128 \<Rightarrow> m128" where
  "mm_cmpneq_ps a b = NOT (vceq_f TYPE(32) a b)"

definition mm_cmpneq_ss :: "m128 \<Rightarrow> m128 \<Rightarrow> m128" where
  "mm_cmpneq_ss a b = mm_move_ss a (mm_cmpneq_ps a b)"

definition mm_cmpnge_ps :: "m128 \<Rightarrow> m128 \<Rightarrow> m128" where
  "mm_cmpnge_ps a b = mm_cmplt_ps a b"

definition mm_cmpnge_ss :: "m128 \<Rightarrow> m128 \<Rightarrow> m128" where
  "mm_cmpnge_ss a b = mm_cmplt_ss a b"

definition mm_cmpngt_ps :: "m128 \<Rightarrow> m128 \<Rightarrow> m128" where
  "mm_cmpngt_ps a b = mm_cmple_ps a b"

definition mm_cmpngt_ss :: "m128 \<Rightarrow> m128 \<Rightarrow> m128" where
  "mm_cmpngt_ss a b = mm_cmple_ss a b"

definition mm_cmpnle_ps :: "m128 \<Rightarrow> m128 \<Rightarrow> m128" where
  "mm_cmpnle_ps a b = mm_cmpgt_ps a b"

definition mm_cmpnle_ss :: "m128 \<Rightarrow> m128 \<Rightarrow> m128" where
  "mm_cmpnle_ss a b = mm_cmpgt_ss a b"

definition mm_cmpnlt_ps :: "m128 \<Rightarrow> m128 \<Rightarrow> m128" where
  "mm_cmpnlt_ps a b = mm_cmpge_ps a b"

definition mm_cmpnlt_ss :: "m128 \<Rightarrow> m128 \<Rightarrow> m128" where
  "mm_cmpnlt_ss a b = mm_cmpge_ss a b"

definition mm_cmpord_ps :: "m128 \<Rightarrow> m128 \<Rightarrow> m128" where
  "mm_cmpord_ps a b =
     (let ceqaa = vceq_f TYPE(32) a a; ceqbb = vceq_f TYPE(32) b b in ceqaa AND ceqbb)"

definition mm_cmpord_ss :: "m128 \<Rightarrow> m128 \<Rightarrow> m128" where
  "mm_cmpord_ss a b = mm_move_ss a (mm_cmpord_ps a b)"

definition mm_cmpunord_ps :: "m128 \<Rightarrow> m128 \<Rightarrow> m128" where
  "mm_cmpunord_ps a b =
     (let f32a = vceq_f TYPE(32) a a; f32b = vceq_f TYPE(32) b b in NOT (f32a AND f32b))"

definition mm_cmpunord_ss :: "m128 \<Rightarrow> m128 \<Rightarrow> m128" where
  "mm_cmpunord_ss a b = mm_move_ss a (mm_cmpunord_ps a b)"

section \<open>Two double-precision lanes\<close>

definition mm_cmpeq_pd :: "m128 \<Rightarrow> m128 \<Rightarrow> m128" where
  "mm_cmpeq_pd a b = vceq_f TYPE(64) a b"

definition mm_cmpeq_pd_v7 :: "m128 \<Rightarrow> m128 \<Rightarrow> m128" where
  "mm_cmpeq_pd_v7 a b =
     (let cmp = vceq TYPE(32) a b; swapped = vrev TYPE(32) TYPE(64) cmp in cmp AND swapped)"

definition mm_cmpeq_sd :: "m128 \<Rightarrow> m128 \<Rightarrow> m128" where
  "mm_cmpeq_sd a b = mm_move_sd a (mm_cmpeq_pd a b)"

definition mm_cmpneq_pd :: "m128 \<Rightarrow> m128 \<Rightarrow> m128" where
  "mm_cmpneq_pd a b = NOT (vceq_f TYPE(64) a b)"

definition mm_cmpneq_pd_v7 :: "m128 \<Rightarrow> m128 \<Rightarrow> m128" where
  "mm_cmpneq_pd_v7 a b =
     (let cmp = vceq TYPE(32) a b; swapped = vrev TYPE(32) TYPE(64) cmp in NOT (cmp AND swapped))"

definition mm_cmpneq_sd :: "m128 \<Rightarrow> m128 \<Rightarrow> m128" where
  "mm_cmpneq_sd a b = mm_move_sd a (mm_cmpneq_pd a b)"

definition mm_cmpge_pd :: "m128 \<Rightarrow> m128 \<Rightarrow> m128" where
  "mm_cmpge_pd a b = vcge_f TYPE(64) a b"

definition mm_cmpge_pd_v7 :: "m128 \<Rightarrow> m128 \<Rightarrow> m128" where
  "mm_cmpge_pd_v7 a b =
     (let a0 = vget_low a :: u64; a1 = vget_high a :: u64;
          b0 = vget_low b :: u64; b1 = vget_high b :: u64;
          d0 = if f_le b0 a0 then NOT 0 else 0;
          d1 = if f_le b1 a1 then NOT 0 else 0
      in vld1 [d0, d1 :: u64])"

definition mm_cmpge_sd :: "m128 \<Rightarrow> m128 \<Rightarrow> m128" where
  "mm_cmpge_sd a b = mm_move_sd a (mm_cmpge_pd a b)"

definition mm_cmpge_sd_v7 :: "m128 \<Rightarrow> m128 \<Rightarrow> m128" where
  "mm_cmpge_sd_v7 a b =
     (let a0 = vget_low a :: u64; a1 = vget_high a :: u64; b0 = vget_low b :: u64;
          d0 = if f_le b0 a0 then NOT 0 else 0;
          d1 = a1
      in vld1 [d0, d1 :: u64])"

definition mm_cmpgt_pd :: "m128 \<Rightarrow> m128 \<Rightarrow> m128" where
  "mm_cmpgt_pd a b = vcgt_f TYPE(64) a b"

definition mm_cmpgt_pd_v7 :: "m128 \<Rightarrow> m128 \<Rightarrow> m128" where
  "mm_cmpgt_pd_v7 a b =
     (let a0 = vget_low a :: u64; a1 = vget_high a :: u64;
          b0 = vget_low b :: u64; b1 = vget_high b :: u64;
          d0 = if f_lt b0 a0 then NOT 0 else 0;
          d1 = if f_lt b1 a1 then NOT 0 else 0
      in vld1 [d0, d1 :: u64])"

definition mm_cmpgt_sd :: "m128 \<Rightarrow> m128 \<Rightarrow> m128" where
  "mm_cmpgt_sd a b = mm_move_sd a (mm_cmpgt_pd a b)"

definition mm_cmpgt_sd_v7 :: "m128 \<Rightarrow> m128 \<Rightarrow> m128" where
  "mm_cmpgt_sd_v7 a b =
     (let a0 = vget_low a :: u64; a1 = vget_high a :: u64; b0 = vget_low b :: u64;
          d0 = if f_lt b0 a0 then NOT 0 else 0;
          d1 = a1
      in vld1 [d0, d1 :: u64])"

definition mm_cmplt_pd :: "m128 \<Rightarrow> m128 \<Rightarrow> m128" where
  "mm_cmplt_pd a b = vclt_f TYPE(64) a b"

definition mm_cmplt_pd_v7 :: "m128 \<Rightarrow> m128 \<Rightarrow> m128" where
  "mm_cmplt_pd_v7 a b =
     (let a0 = vget_low a :: u64; a1 = vget_high a :: u64;
          b0 = vget_low b :: u64; b1 = vget_high b :: u64;
          d0 = if f_lt a0 b0 then NOT 0 else 0;
          d1 = if f_lt a1 b1 then NOT 0 else 0
      in vld1 [d0, d1 :: u64])"

definition mm_cmplt_sd :: "m128 \<Rightarrow> m128 \<Rightarrow> m128" where
  "mm_cmplt_sd a b = mm_move_sd a (mm_cmplt_pd a b)"

definition mm_cmplt_sd_v7 :: "m128 \<Rightarrow> m128 \<Rightarrow> m128" where
  "mm_cmplt_sd_v7 a b =
     (let a0 = vget_low a :: u64; a1 = vget_high a :: u64; b0 = vget_low b :: u64;
          d0 = if f_lt a0 b0 then NOT 0 else 0;
          d1 = a1
      in vld1 [d0, d1 :: u64])"

definition mm_cmple_pd :: "m128 \<Rightarrow> m128 \<Rightarrow> m128" where
  "mm_cmple_pd a b = vcle_f TYPE(64) a b"

definition mm_cmple_pd_v7 :: "m128 \<Rightarrow> m128 \<Rightarrow> m128" where
  "mm_cmple_pd_v7 a b =
     (let a0 = vget_low a :: u64; a1 = vget_high a :: u64;
          b0 = vget_low b :: u64; b1 = vget_high b :: u64;
          d0 = if f_le a0 b0 then NOT 0 else 0;
          d1 = if f_le a1 b1 then NOT 0 else 0
      in vld1 [d0, d1 :: u64])"

definition mm_cmple_sd :: "m128 \<Rightarrow> m128 \<Rightarrow> m128" where
  "mm_cmple_sd a b = mm_move_sd a (mm_cmple_pd a b)"

definition mm_cmple_sd_v7 :: "m128 \<Rightarrow> m128 \<Rightarrow> m128" where
  "mm_cmple_sd_v7 a b =
     (let a0 = vget_low a :: u64; a1 = vget_high a :: u64; b0 = vget_low b :: u64;
          d0 = if f_le a0 b0 then NOT 0 else 0;
          d1 = a1
      in vld1 [d0, d1 :: u64])"

definition mm_cmpnge_pd :: "m128 \<Rightarrow> m128 \<Rightarrow> m128" where
  "mm_cmpnge_pd a b = mm_cmplt_pd a b"

definition mm_cmpnge_sd :: "m128 \<Rightarrow> m128 \<Rightarrow> m128" where
  "mm_cmpnge_sd a b = mm_cmplt_sd a b"

definition mm_cmpngt_pd :: "m128 \<Rightarrow> m128 \<Rightarrow> m128" where
  "mm_cmpngt_pd a b = mm_cmple_pd a b"

definition mm_cmpngt_sd :: "m128 \<Rightarrow> m128 \<Rightarrow> m128" where
  "mm_cmpngt_sd a b = mm_cmple_sd a b"

section \<open>Comparisons of the lowest lane, to an \<open>int\<close>\<close>

definition mm_comilt_ss :: "m128 \<Rightarrow> m128 \<Rightarrow> u32" where
  "mm_comilt_ss a b =
     (let a_not_nan = vceq_f TYPE(32) a a;
          b_not_nan = vceq_f TYPE(32) b b;
          a_and_b_not_nan = a_not_nan AND b_not_nan;
          a_lt_b = vclt_f TYPE(32) a b
      in if (vget_lane (a_and_b_not_nan AND a_lt_b) 0 :: u32) \<noteq> 0 then 1 else 0)"

definition mm_comigt_ss :: "m128 \<Rightarrow> m128 \<Rightarrow> u32" where
  "mm_comigt_ss a b =
     (let a_not_nan = vceq_f TYPE(32) a a;
          b_not_nan = vceq_f TYPE(32) b b;
          a_and_b_not_nan = a_not_nan AND b_not_nan;
          a_gt_b = vcgt_f TYPE(32) a b
      in if (vget_lane (a_and_b_not_nan AND a_gt_b) 0 :: u32) \<noteq> 0 then 1 else 0)"

definition mm_comile_ss :: "m128 \<Rightarrow> m128 \<Rightarrow> u32" where
  "mm_comile_ss a b =
     (let a_not_nan = vceq_f TYPE(32) a a;
          b_not_nan = vceq_f TYPE(32) b b;
          a_and_b_not_nan = a_not_nan AND b_not_nan;
          a_le_b = vcle_f TYPE(32) a b
      in if (vget_lane (a_and_b_not_nan AND a_le_b) 0 :: u32) \<noteq> 0 then 1 else 0)"

definition mm_comige_ss :: "m128 \<Rightarrow> m128 \<Rightarrow> u32" where
  "mm_comige_ss a b =
     (let a_not_nan = vceq_f TYPE(32) a a;
          b_not_nan = vceq_f TYPE(32) b b;
          a_and_b_not_nan = a_not_nan AND b_not_nan;
          a_ge_b = vcge_f TYPE(32) a b
      in if (vget_lane (a_and_b_not_nan AND a_ge_b) 0 :: u32) \<noteq> 0 then 1 else 0)"

definition mm_comieq_ss :: "m128 \<Rightarrow> m128 \<Rightarrow> u32" where
  "mm_comieq_ss a b =
     (let a_not_nan = vceq_f TYPE(32) a a;
          b_not_nan = vceq_f TYPE(32) b b;
          a_and_b_not_nan = a_not_nan AND b_not_nan;
          a_eq_b = vceq_f TYPE(32) a b
      in if (vget_lane (a_and_b_not_nan AND a_eq_b) 0 :: u32) \<noteq> 0 then 1 else 0)"

definition mm_comineq_ss :: "m128 \<Rightarrow> m128 \<Rightarrow> u32" where
  "mm_comineq_ss a b =
     (let a_not_nan = vceq_f TYPE(32) a a;
          b_not_nan = vceq_f TYPE(32) b b;
          a_or_b_nan = NOT (a_not_nan AND b_not_nan);
          a_neq_b = NOT (vceq_f TYPE(32) a b)
      in if (vget_lane (a_or_b_nan OR a_neq_b) 0 :: u32) \<noteq> 0 then 1 else 0)"

definition mm_comieq_sd :: "m128 \<Rightarrow> m128 \<Rightarrow> u32" where
  "mm_comieq_sd a b = (if (vget_lane (vceq_f TYPE(64) a b) 0 :: u64) \<noteq> 0 then 1 else 0)"

definition mm_comieq_sd_v7 :: "m128 \<Rightarrow> m128 \<Rightarrow> u32" where
  "mm_comieq_sd_v7 a b =
     (let a_not_nan = vceq TYPE(32) a a;
          b_not_nan = vceq TYPE(32) b b;
          a_and_b_not_nan = a_not_nan AND b_not_nan;
          a_eq_b = vceq TYPE(32) a b;
          and_results = a_and_b_not_nan AND a_eq_b
      in if (vget_lane and_results 0 :: u64) \<noteq> 0 then 1 else 0)"

section \<open>Maximum and minimum\<close>

definition mm_max_ps :: "m128 \<Rightarrow> m128 \<Rightarrow> m128" where
  "mm_max_ps a b = vmax_f TYPE(32) a b"

definition mm_max_ps_precise :: "m128 \<Rightarrow> m128 \<Rightarrow> m128" where
  "mm_max_ps_precise a b = vbsl (vclt_f TYPE(32) b a) a b"

definition mm_max_ss :: "m128 \<Rightarrow> m128 \<Rightarrow> m128" where
  "mm_max_ss a b = (let value = vget_lane (mm_max_ps a b) 0 :: u32 in vset_lane value a 0)"

definition mm_max_ss_precise :: "m128 \<Rightarrow> m128 \<Rightarrow> m128" where
  "mm_max_ss_precise a b = (let value = vget_lane (mm_max_ps_precise a b) 0 :: u32 in vset_lane value a 0)"

definition mm_max_pd :: "m128 \<Rightarrow> m128 \<Rightarrow> m128" where
  "mm_max_pd a b = vmax_f TYPE(64) a b"

definition mm_max_pd_v7 :: "m128 \<Rightarrow> m128 \<Rightarrow> m128" where
  "mm_max_pd_v7 a b =
     (let a0 = vget_low a :: u64; a1 = vget_high a :: u64;
          b0 = vget_low b :: u64; b1 = vget_high b :: u64;
          d0 = if f_lt b0 a0 then a0 else b0;
          d1 = if f_lt b1 a1 then a1 else b1
      in vld1 [d0, d1])"

definition mm_max_sd :: "m128 \<Rightarrow> m128 \<Rightarrow> m128" where
  "mm_max_sd a b = mm_move_sd a (mm_max_pd a b)"

definition mm_min_ps :: "m128 \<Rightarrow> m128 \<Rightarrow> m128" where
  "mm_min_ps a b = vmin_f TYPE(32) a b"

definition mm_min_ps_precise :: "m128 \<Rightarrow> m128 \<Rightarrow> m128" where
  "mm_min_ps_precise a b = vbsl (vclt_f TYPE(32) a b) a b"

definition mm_min_ss :: "m128 \<Rightarrow> m128 \<Rightarrow> m128" where
  "mm_min_ss a b = (let value = vget_lane (mm_min_ps a b) 0 :: u32 in vset_lane value a 0)"

definition mm_min_ss_precise :: "m128 \<Rightarrow> m128 \<Rightarrow> m128" where
  "mm_min_ss_precise a b = (let value = vget_lane (mm_min_ps_precise a b) 0 :: u32 in vset_lane value a 0)"

definition mm_min_pd :: "m128 \<Rightarrow> m128 \<Rightarrow> m128" where
  "mm_min_pd a b = vmin_f TYPE(64) a b"

definition mm_min_pd_v7 :: "m128 \<Rightarrow> m128 \<Rightarrow> m128" where
  "mm_min_pd_v7 a b =
     (let a0 = vget_low a :: u64; a1 = vget_high a :: u64;
          b0 = vget_low b :: u64; b1 = vget_high b :: u64;
          d0 = if f_lt a0 b0 then a0 else b0;
          d1 = if f_lt a1 b1 then a1 else b1
      in vld1 [d0, d1])"

definition mm_min_sd :: "m128 \<Rightarrow> m128 \<Rightarrow> m128" where
  "mm_min_sd a b = mm_move_sd a (mm_min_pd a b)"

section \<open>Theorems\<close>

lemma lanes_two: "(lanes (v :: m128) :: u64 list) = [vget_low v, vget_high v]"
  by (simp add: lanes_halves [where 'a = 64 and 'b = 128] vget_low_def vget_high_def)

lemma lanes_move_sd: "(lanes (mm_move_sd a b) :: u64 list) = [vget_low b, vget_high a]"
  by (simp add: mm_move_sd_def lanes_vcombine)

lemma halves_vmap2:
  fixes a b :: m128 and f :: "u64 \<Rightarrow> u64 \<Rightarrow> u64"
  shows "(vget_low (vmap2 f a b :: m128) :: u64) = f (vget_low a) (vget_low b)"
    and "(vget_high (vmap2 f a b :: m128) :: u64) = f (vget_high a) (vget_high b)"
proof -
  have "(lanes (vmap2 f a b :: m128) :: u64 list) = [f (vget_low a) (vget_low b), f (vget_high a) (vget_high b)]"
    by (subst lanes_vmap2) (simp_all add: lanes_two)
  then show "(vget_low (vmap2 f a b :: m128) :: u64) = f (vget_low a) (vget_low b)"
    "(vget_high (vmap2 f a b :: m128) :: u64) = f (vget_high a) (vget_high b)" by (simp_all add: lanes_two)
qed

lemma two_lanes_eqI:
  "vget_low v = (vget_low w :: u64) \<Longrightarrow> vget_high v = (vget_high w :: u64) \<Longrightarrow> (v :: m128) = w"
  by (intro lanes_eqI [where 'a = 64]) (simp_all add: lanes_two)

lemma halves_vld1:
  "(vget_low (vld1 [x, y :: u64] :: m128) :: u64) = x" "(vget_high (vld1 [x, y :: u64] :: m128) :: u64) = y"
  using lanes_two [of "vld1 [x, y]"] by (simp_all add: lanes_vld1)

lemma halves_move_sd:
  "(vget_low (mm_move_sd a b) :: u64) = vget_low b" "(vget_high (mm_move_sd a b) :: u64) = vget_high a"
  using lanes_two [of "mm_move_sd a b"] by (simp_all add: lanes_move_sd)

lemmas halves = halves_vmap2 halves_vld1 halves_move_sd

lemmas pd_defs = mm_cmpge_pd_def mm_cmpgt_pd_def mm_cmplt_pd_def mm_cmple_pd_def mm_cmpeq_pd_def mm_cmpneq_pd_def
  mm_cmpge_sd_def mm_cmpgt_sd_def mm_cmplt_sd_def mm_cmple_sd_def
lemmas pd_v7_defs = mm_cmpge_pd_v7_def mm_cmpgt_pd_v7_def mm_cmplt_pd_v7_def mm_cmple_pd_v7_def
  mm_cmpge_sd_v7_def mm_cmpgt_sd_v7_def mm_cmplt_sd_v7_def mm_cmple_sd_v7_def

text \<open>The ARMv7 texts of the ordered double comparisons, which compare the two halves in turn, agree
  with the AArch64 instructions on all inputs, NaN and the two zeros included.\<close>

lemma compare_pd_builds_agree:
  fixes a b :: m128
  shows "mm_cmpge_pd_v7 a b = mm_cmpge_pd a b \<and> mm_cmpge_sd_v7 a b = mm_cmpge_sd a b \<and>
    mm_cmpgt_pd_v7 a b = mm_cmpgt_pd a b \<and> mm_cmpgt_sd_v7 a b = mm_cmpgt_sd a b \<and>
    mm_cmplt_pd_v7 a b = mm_cmplt_pd a b \<and> mm_cmplt_sd_v7 a b = mm_cmplt_sd a b \<and>
    mm_cmple_pd_v7 a b = mm_cmple_pd a b \<and> mm_cmple_sd_v7 a b = mm_cmple_sd a b"
  by (intro conjI two_lanes_eqI)
    (simp_all only: pd_defs pd_v7_defs Let_def vcge_f_def vcgt_f_def vclt_f_def vcle_f_def halves)

text \<open>\<open>_mm_cmpeq_pd\<close> and \<open>_mm_cmpneq_pd\<close> compare bits on ARMv7: the two builds agree exactly when
  no lane holds the same NaN in both operands, nor zeros of opposite signs.\<close>

theorem cmpeq_pd_builds:
  fixes a b :: m128
  shows "(mm_cmpeq_pd_v7 a b = mm_cmpeq_pd a b \<longleftrightarrow>
      list_all2 (\<lambda>x y :: u64. \<not> (x = y \<and> f_nan x) \<and> \<not> (x \<noteq> y \<and> f_num x = 0 \<and> f_num y = 0)) (lanes a) (lanes b)) \<and>
    mm_cmpneq_pd_v7 a b = NOT (mm_cmpeq_pd_v7 a b) \<and> mm_cmpneq_pd a b = NOT (mm_cmpeq_pd a b)"
proof (intro conjI)
  have same: "mm_cmpeq_pd_v7 a b = mm_cmpeq_epi64 a b"
    using compare64_builds_agree [of a b] by (simp add: mm_cmpeq_pd_v7_def mm_cmpeq_epi64_v7_def)
  show "mm_cmpeq_pd_v7 a b = mm_cmpeq_pd a b \<longleftrightarrow>
      list_all2 (\<lambda>x y :: u64. \<not> (x = y \<and> f_nan x) \<and> \<not> (x \<noteq> y \<and> f_num x = 0 \<and> f_num y = 0)) (lanes a) (lanes b)"
  proof -
    have one: "(if x = y then NOT 0 else 0 :: u64) = (if f_eq x y then NOT 0 else 0) \<longleftrightarrow>
        \<not> (x = y \<and> f_nan x) \<and> \<not> (x \<noteq> y \<and> f_num x = 0 \<and> f_num y = 0)" for x y :: u64
      using f_eq_iff_same [of x y] by (auto simp: frac_width_def)
    have "mm_cmpeq_epi64 a b = mm_cmpeq_pd a b \<longleftrightarrow>
        (vget_low (mm_cmpeq_epi64 a b) :: u64) = vget_low (mm_cmpeq_pd a b) \<and>
        (vget_high (mm_cmpeq_epi64 a b) :: u64) = vget_high (mm_cmpeq_pd a b)"
      by (auto intro: two_lanes_eqI)
    then show ?thesis
      by (simp only: same mm_cmpeq_epi64_def mm_cmpeq_pd_def vceq_def vceq_f_def halves one lanes_two
        list_all2_Cons list.rel_inject list_all2_Nil simp_thms)
  qed
qed (simp_all add: mm_cmpneq_pd_v7_def mm_cmpneq_pd_def mm_cmpeq_pd_v7_def mm_cmpeq_pd_def Let_def)

text \<open>Two lane-wise operations agree when they do on every pair of lanes.\<close>

lemma vmap2_eq_iff:
  fixes f g :: "'a::len word \<Rightarrow> 'a word \<Rightarrow> 'a word" and a b :: "'v::len word"
  assumes "LENGTH('a) dvd LENGTH('v)"
  shows "(vmap2 f a b :: 'v word) = vmap2 g a b \<longleftrightarrow> list_all2 (\<lambda>x y. f x y = g x y) (lanes a) (lanes b)"
proof -
  have "map2 f xs ys = map2 g xs ys \<longleftrightarrow> list_all2 (\<lambda>x y. f x y = g x y) xs ys" if "length xs = length ys" for xs ys
    using that by (induction xs ys rule: list_induct2) simp_all
  then show ?thesis
    using assms by (simp add: lanes_inject [OF assms, symmetric] lanes_vmap2)
qed

lemma not_vmap2:
  fixes f :: "'a::len word \<Rightarrow> 'a word \<Rightarrow> 'a word" and a b :: "'v::len word"
  assumes "LENGTH('a) dvd LENGTH('v)"
  shows "NOT (vmap2 f a b :: 'v word) = vmap2 (\<lambda>x y. NOT (f x y)) a b"
  using assms by (intro lanes_eqI [OF assms]) (simp add: lanes_not lanes_vmap2 comp_case_prod)

lemma not_mask: "NOT (if c then NOT 0 else 0 :: 'a::len word) = (if \<not> c then NOT 0 else 0)"
  by simp

lemma mask_eq: "(if c then NOT 0 else 0 :: 'a::len word) = (if d then NOT 0 else 0) \<longleftrightarrow> c = d"
  by simp

lemma not_lt_le: "f_le y x = (\<not> f_lt x y) \<longleftrightarrow> \<not> f_nan x \<and> \<not> f_nan y"
  and not_le_lt: "f_lt y x = (\<not> f_le x y) \<longleftrightarrow> \<not> f_nan x \<and> \<not> f_nan y"
  using f_not_lt [of x y] f_not_lt [of y x] f_nan_unordered [of x y] f_nan_unordered [of y x] by blast+

lemmas vc_defs = vceq_f_def vclt_f_def vcle_f_def vcgt_f_def vcge_f_def

lemma dvd_32_128: "LENGTH(32) dvd LENGTH(128)"
  by simp

lemmas ps_lanes = not_vmap2 [OF dvd_32_128] vmap2_eq_iff [OF dvd_32_128]

definition ordered_ps :: "m128 \<Rightarrow> m128 \<Rightarrow> bool" where
  "ordered_ps a b = list_all2 (\<lambda>x y. \<not> f_nan x \<and> \<not> f_nan y) (lanes a :: u32 list) (lanes b :: u32 list)"

lemma ordered_ps_flip: "list_all2 (\<lambda>x y. \<not> f_nan y \<and> \<not> f_nan x) (lanes a :: u32 list) (lanes b :: u32 list) = ordered_ps a b"
  by (simp only: ordered_ps_def conj_commute)

text \<open>The negated comparisons (\<open>_mm_cmpnlt_ps\<close> and the like) are the converse comparisons, not the
  complements: they complement the comparison they are named after exactly when no lane of either
  operand is a NaN. The instructions of SSE are the complements on all inputs.\<close>

theorem negated_comparisons:
  fixes a b :: m128
  shows "(mm_cmpnlt_ps a b = NOT (mm_cmplt_ps a b) \<longleftrightarrow> ordered_ps a b) \<and>
    (mm_cmpnle_ps a b = NOT (mm_cmple_ps a b) \<longleftrightarrow> ordered_ps a b) \<and>
    (mm_cmpngt_ps a b = NOT (mm_cmpgt_ps a b) \<longleftrightarrow> ordered_ps a b) \<and>
    (mm_cmpnge_ps a b = NOT (mm_cmpge_ps a b) \<longleftrightarrow> ordered_ps a b)"
  by (simp_all only: mm_cmpnlt_ps_def mm_cmpnle_ps_def mm_cmpngt_ps_def mm_cmpnge_ps_def
      mm_cmplt_ps_def mm_cmple_ps_def mm_cmpgt_ps_def mm_cmpge_ps_def vc_defs ps_lanes
      not_mask mask_eq not_lt_le not_le_lt ordered_ps_flip ordered_ps_def [symmetric] simp_thms)

text \<open>The lowest lane.\<close>

lemma vget_lane_0_bitwise:
  fixes a b :: "'v::len word"
  assumes "LENGTH('a::len) \<le> LENGTH('v)"
  shows "(vget_lane (a AND b) 0 :: 'a word) = vget_lane a 0 AND vget_lane b 0"
    and "(vget_lane (a OR b) 0 :: 'a word) = vget_lane a 0 OR vget_lane b 0"
    and "(vget_lane (NOT a) 0 :: 'a word) = NOT (vget_lane a 0)"
  using assms by (simp_all add: vget_lane_0) (auto intro!: bit_word_eqI simp: bit_simps)

lemma vget_lane_0_vmap2:
  fixes f :: "'a::len word \<Rightarrow> 'a word \<Rightarrow> 'a word" and a b :: "'v::len word"
  assumes "LENGTH('a) dvd LENGTH('v)"
  shows "vget_lane (vmap2 f a b :: 'v word) 0 = f (vget_lane a 0) (vget_lane b 0)"
proof -
  have "0 < LENGTH('v) div LENGTH('a)"
    using dvd_imp_le [OF assms] by (simp add: div_greater_zero_iff)
  then show ?thesis using assms by (simp add: vget_lane_def lanes_vmap2)
qed

lemmas low_lane = vget_lane_0_bitwise vget_lane_0_vmap2

text \<open>The scalar comparisons give 1 or 0 by the order of the lowest lanes, which holds for no NaN;
  only inequality is true for a NaN.\<close>

lemma comi_ss_scalar:
  fixes a b :: m128
  shows "mm_comilt_ss a b = (if f_lt (vget_lane a 0 :: u32) (vget_lane b 0) then 1 else 0)"
    and "mm_comigt_ss a b = (if f_lt (vget_lane b 0 :: u32) (vget_lane a 0) then 1 else 0)"
    and "mm_comile_ss a b = (if f_le (vget_lane a 0 :: u32) (vget_lane b 0) then 1 else 0)"
    and "mm_comige_ss a b = (if f_le (vget_lane b 0 :: u32) (vget_lane a 0) then 1 else 0)"
    and "mm_comieq_ss a b = (if f_eq (vget_lane a 0 :: u32) (vget_lane b 0) then 1 else 0)"
    and "mm_comineq_ss a b = (if f_eq (vget_lane a 0 :: u32) (vget_lane b 0) then 0 else 1)"
  by (simp_all add: mm_comilt_ss_def mm_comigt_ss_def mm_comile_ss_def mm_comige_ss_def mm_comieq_ss_def mm_comineq_ss_def
      Let_def vc_defs low_lane f_eq_refl)
    (auto simp: f_lt_def f_le_def f_eq_def)

lemma low_64_zero:
  fixes v :: m128
  shows "(vget_lane v 0 :: u64) = 0 \<longleftrightarrow> (vget_lane v 0 :: u32) = 0 \<and> (vget_lane v 1 :: u32) = 0"
proof -
  have "(ucast (ucast v :: u64) :: u32) = vget_lane v 0" "(ucast (drop_bit 32 (ucast v :: u64)) :: u32) = vget_lane v 1"
    by (auto intro!: bit_word_eqI simp: vget_lane_def nth_lanes bit_simps)
  then show ?thesis using eq_halves [of "ucast v" 0] by (simp add: vget_lane_0)
qed

lemma vceq_self: "vceq TYPE(32) a a = (NOT 0 :: m128)"
proof (rule lanes_eqI [where 'a = 32])
  show "(lanes (vceq TYPE(32) a a) :: u32 list) = lanes (NOT 0 :: m128)"
    by (simp only: lanes_vceq lanes_not [OF dvd_32_128] lanes_0 dvd_32_128)
      (simp add: zip_same_conv_map lane_simps o_def map_replicate_const)
qed simp

text \<open>Evaluation on numerals.\<close>

lemmas f_eval = f_lt_def f_le_def f_eq_def f_nan_def f_num_def f_mag_def f_exp_def f_frac_def frac_width_def exp_top_def

text \<open>The scalar double equality of the AArch64 build is the equality of the lowest lanes; the ARMv7
  text ends in a test of 64 bits against 0 and so holds as soon as one of the two halves of the
  lane has equal bits, as those of 1.0 and 2.0 have.\<close>

theorem comieq_sd_builds:
  fixes a b :: m128
  shows "mm_comieq_sd a b = (if f_eq (vget_lane a 0 :: u64) (vget_lane b 0) then 1 else 0) \<and>
    mm_comieq_sd_v7 a b =
      (if (vget_lane a 0 :: u32) = vget_lane b 0 \<or> (vget_lane a 1 :: u32) = vget_lane b 1 then 1 else 0) \<and>
    mm_comieq_sd 0x3FF0000000000000 0x4000000000000000 = 0 \<and>
    mm_comieq_sd_v7 0x3FF0000000000000 0x4000000000000000 = 1"
proof (intro conjI)
  have l: "(vget_lane (vceq TYPE(32) a b) i :: u32) = (if (vget_lane a i :: u32) = vget_lane b i then NOT 0 else 0)" if "i < 4" for a b :: m128 and i
    unfolding vget_lane_def using that by (subst lanes_vceq) simp_all
  show aarch64: "mm_comieq_sd a b = (if f_eq (vget_lane a 0 :: u64) (vget_lane b 0) then 1 else 0)" for a b
    by (simp add: mm_comieq_sd_def vc_defs low_lane)
  show v7: "mm_comieq_sd_v7 a b =
      (if (vget_lane a 0 :: u32) = vget_lane b 0 \<or> (vget_lane a 1 :: u32) = vget_lane b 1 then 1 else 0)" for a b
    by (simp add: mm_comieq_sd_v7_def Let_def vceq_self low_64_zero l)
  show "mm_comieq_sd 0x3FF0000000000000 0x4000000000000000 = 0" 
    unfolding aarch64 by (simp add: f_eval f_sign_def vget_lane_def nth_lanes)
  show "mm_comieq_sd_v7 0x3FF0000000000000 0x4000000000000000 = 1" 
    unfolding v7 by (simp add: vget_lane_def nth_lanes)
qed

text \<open>Where the operands are no NaN and no zeros of opposite signs, every reading of the maximum and
  the minimum is the same.\<close>

definition plain :: "'a::len word \<Rightarrow> 'a word \<Rightarrow> bool" where
  "plain x y \<longleftrightarrow> \<not> f_nan x \<and> \<not> f_nan y \<and> (f_num x = 0 \<and> f_num y = 0 \<longrightarrow> x = y)"

lemma f_max_plain: "plain x y \<Longrightarrow> f_max x y = (if f_lt y x then x else y)"
  and f_min_plain: "plain x y \<Longrightarrow> f_min x y = (if f_lt x y then x else y)"
  by (auto simp: plain_def f_max_def f_min_def f_lt_def)

lemma vbsl_mask:
  fixes a b :: "'v::len word" and P :: "'a::len word \<Rightarrow> 'a word \<Rightarrow> bool"
  assumes "LENGTH('a) dvd LENGTH('v)"
  shows "vbsl (vmap2 (\<lambda>x y. if P x y then NOT 0 else 0 :: 'a word) a b) a b = vmap2 (\<lambda>x y. if P x y then x else y) a b"
proof (rule lanes_eqI [OF assms])
  have "map2 (OR) (map2 (AND) (map2 (\<lambda>x y. if P x y then NOT 0 else 0) xs ys) xs)
      (map2 (AND) (map NOT (map2 (\<lambda>x y. if P x y then NOT 0 else 0) xs ys)) ys) =
      map2 (\<lambda>x y. if P x y then x else y) xs ys" if "length xs = length ys" for xs ys :: "'a word list"
    using that by (induction xs ys rule: list_induct2) simp_all
  from this [of "lanes a" "lanes b"] show "(lanes (vbsl (vmap2 (\<lambda>x y. if P x y then NOT 0 else 0 :: 'a word) a b) a b) :: 'a word list) =
      lanes (vmap2 (\<lambda>x y. if P x y then x else y) a b :: 'v word)"
    using assms by (simp only: lanes_vbsl [OF assms]) (simp only: lanes_vmap2 length_lanes dvd_div_mult_self)
qed

lemma vmap2_flip: "vmap2 f b a = vmap2 (\<lambda>x y. f y x) a b"
  by (simp add: vmap2_def) (subst zip_commute, simp add: comp_case_prod)

text \<open>The two texts of the single-precision maximum and minimum agree when no lane pairs a NaN or
  zeros of opposite signs, and the precise text is the SSE instruction on all inputs: the first
  operand where it is strictly greater (less), else the second.\<close>

lemma minmax_texts:
  fixes a b :: m128
  shows "mm_max_ps_precise a b = vmap2 (\<lambda>x y :: u32. if f_lt y x then x else y) a b"
    and "mm_min_ps_precise a b = vmap2 (\<lambda>x y :: u32. if f_lt x y then x else y) a b"
    and "list_all2 plain (lanes a :: u32 list) (lanes b) \<Longrightarrow>
      mm_max_ps a b = mm_max_ps_precise a b \<and> mm_min_ps a b = mm_min_ps_precise a b"
    and "list_all2 plain (lanes a :: u64 list) (lanes b) \<Longrightarrow>
      mm_max_pd a b = mm_max_pd_v7 a b \<and> mm_min_pd a b = mm_min_pd_v7 a b"
proof -
  show M: "mm_max_ps_precise a b = vmap2 (\<lambda>x y :: u32. if f_lt y x then x else y) a b"
    by (simp only: mm_max_ps_precise_def vclt_f_def vmap2_flip [where a = a and b = b] vbsl_mask [OF dvd_32_128])
  show m: "mm_min_ps_precise a b = vmap2 (\<lambda>x y :: u32. if f_lt x y then x else y) a b"
    by (simp only: mm_min_ps_precise_def vclt_f_def vbsl_mask [OF dvd_32_128])
  show "mm_max_ps a b = mm_max_ps_precise a b \<and> mm_min_ps a b = mm_min_ps_precise a b"
    if "list_all2 plain (lanes a :: u32 list) (lanes b)"
    unfolding M m mm_max_ps_def mm_min_ps_def vmax_f_def vmin_f_def ps_lanes
    using that by (auto elim!: list_all2_mono simp: f_max_plain f_min_plain)
  show "mm_max_pd a b = mm_max_pd_v7 a b \<and> mm_min_pd a b = mm_min_pd_v7 a b"
    if "list_all2 plain (lanes a :: u64 list) (lanes b)"
    using that by (intro conjI two_lanes_eqI)
      (simp_all add: lanes_two mm_max_pd_def mm_max_pd_v7_def mm_min_pd_def mm_min_pd_v7_def Let_def vmax_f_def vmin_f_def
        halves f_max_plain f_min_plain)
qed

end
