(* ===== verification/Sse_Float.thy ===== *)
theory Sse_Float
  imports Neon_Fpu Sse_Compare Sse_Pack
begin

text \<open>
  \<open>psetggm/sse2neon.h\<close>: arithmetic of floating-point numbers and their conversions. The operators of C
  on \<open>float\<close> and \<open>double\<close> are the operations of theory \<open>Neon_Fpu\<close>; a cast of a number that the integer
  type does not hold is undefined, which is \<open>None\<close>. A name ending in \<open>_v7\<close> is the ARMv7 text. The
  texts built on the reciprocal estimates of the hardware are left out.
\<close>

section \<open>Instructions\<close>

definition vadd_f :: "'a::len itself \<Rightarrow> 'v::len word \<Rightarrow> 'v word \<Rightarrow> 'v word" where
  "vadd_f t a b = vmap2 (f_add :: 'a word \<Rightarrow> 'a word \<Rightarrow> 'a word) a b"

definition vsub_f :: "'a::len itself \<Rightarrow> 'v::len word \<Rightarrow> 'v word \<Rightarrow> 'v word" where
  "vsub_f t a b = vmap2 (f_sub :: 'a word \<Rightarrow> 'a word \<Rightarrow> 'a word) a b"

definition vmul_f :: "'a::len itself \<Rightarrow> 'v::len word \<Rightarrow> 'v word \<Rightarrow> 'v word" where
  "vmul_f t a b = vmap2 (f_mul :: 'a word \<Rightarrow> 'a word \<Rightarrow> 'a word) a b"

definition vdiv_f :: "'a::len itself \<Rightarrow> 'v::len word \<Rightarrow> 'v word \<Rightarrow> 'v word" where
  "vdiv_f t a b = vmap2 (f_div :: 'a word \<Rightarrow> 'a word \<Rightarrow> 'a word) a b"

definition vsqrt_f :: "'a::len itself \<Rightarrow> 'v::len word \<Rightarrow> 'v word" where
  "vsqrt_f t a = vmap (f_sqrt :: 'a word \<Rightarrow> 'a word) a"

text \<open>\<open>vfma c a b\<close> is \<open>c + a * b\<close>, lane by lane.\<close>

definition vfma_f :: "'a::len itself \<Rightarrow> 'v::len word \<Rightarrow> 'v word \<Rightarrow> 'v word \<Rightarrow> 'v word" where
  "vfma_f t c a b = of_lanes (map2 (\<lambda>z (x, y). f_fma z x y) (lanes c :: 'a word list) (zip (lanes a) (lanes b)))"

definition vpadd_f :: "'a::len itself \<Rightarrow> 'v::len word \<Rightarrow> 'v word \<Rightarrow> 'v word" where
  "vpadd_f t a b = of_lanes (by_pairs f_add (lanes a @ (lanes b :: 'a word list)))"

definition vaddv_f :: "m128 \<Rightarrow> u32" where
  "vaddv_f a = f_add (f_add (vget_lane a 0) (vget_lane a 1)) (f_add (vget_lane a 2) (vget_lane a 3))"

definition vcvt_of_s :: "'a::len itself \<Rightarrow> 'v::len word \<Rightarrow> 'v word" where
  "vcvt_of_s t a = vmap (\<lambda>x :: 'a word. f_of_int (sint x) :: 'a word) a"

definition vcvt_of_u :: "'a::len itself \<Rightarrow> 'v::len word \<Rightarrow> 'v word" where
  "vcvt_of_u t a = vmap (\<lambda>x :: 'a word. f_of_int (uint x) :: 'a word) a"

definition vcvt_to_s :: "'a::len itself \<Rightarrow> 'v::len word \<Rightarrow> 'v word" where
  "vcvt_to_s t a = vmap (f_to_int r_zero :: 'a word \<Rightarrow> 'a word) a"

definition vcvtn_to_s :: "'a::len itself \<Rightarrow> 'v::len word \<Rightarrow> 'v word" where
  "vcvtn_to_s t a = vmap (f_to_int r_nearest :: 'a word \<Rightarrow> 'a word) a"

definition vrnd :: "(u32 \<Rightarrow> int) \<Rightarrow> m128 \<Rightarrow> m128" where
  "vrnd r a = vmap (f_rint r) a"

text \<open>The cast of C to a signed integer type, and the constants of the code.\<close>

definition c_cast :: "'a::len word \<Rightarrow> 'b::len word option" where
  "c_cast x =
     (if f_nan x \<or> r_zero x < - (2 ^ (LENGTH('b) - 1)) \<or> 2 ^ (LENGTH('b) - 1) \<le> r_zero x then None
      else Some (word_of_int (r_zero x)))"

definition one_f32 :: u32 where "one_f32 = 0x3F800000"
definition minus_one_f32 :: u32 where "minus_one_f32 = 0xBF800000"
definition half_f32 :: u32 where "half_f32 = 0x3F000000"
definition half_f64 :: u64 where "half_f64 = 0x3FE0000000000000"
definition one_f64 :: u64 where "one_f64 = 0x3FF0000000000000"
definition minus_one_f64 :: u64 where "minus_one_f64 = 0xBFF0000000000000"

section \<open>Sums, products, quotients, roots\<close>

definition mm_add_ps :: "m128 \<Rightarrow> m128 \<Rightarrow> m128" where
  "mm_add_ps a b = vadd_f TYPE(32) a b"

definition mm_add_ss :: "m128 \<Rightarrow> m128 \<Rightarrow> m128" where
  "mm_add_ss a b =
     (let b0 = vget_lane b 0 :: u32;
          value = vset_lane b0 (vdup (0 :: u32)) 0
      in vadd_f TYPE(32) a value)"

definition mm_add_pd :: "m128 \<Rightarrow> m128 \<Rightarrow> m128" where
  "mm_add_pd a b = vadd_f TYPE(64) a b"

definition mm_add_pd_v7 :: "m128 \<Rightarrow> m128 \<Rightarrow> m128" where
  "mm_add_pd_v7 a b =
     (let da = lanes a :: u64 list; db = lanes b :: u64 list;
          c0 = f_add (da ! 0) (db ! 0);
          c1 = f_add (da ! 1) (db ! 1)
      in vld1 [c0, c1])"

definition mm_add_sd :: "m128 \<Rightarrow> m128 \<Rightarrow> m128" where
  "mm_add_sd a b = mm_move_sd a (mm_add_pd a b)"

definition mm_add_sd_v7 :: "m128 \<Rightarrow> m128 \<Rightarrow> m128" where
  "mm_add_sd_v7 a b =
     (let da = lanes a :: u64 list; db = lanes b :: u64 list;
          c0 = f_add (da ! 0) (db ! 0);
          c1 = da ! 1
      in vld1 [c0, c1])"

definition mm_sub_ps :: "m128 \<Rightarrow> m128 \<Rightarrow> m128" where
  "mm_sub_ps a b = vsub_f TYPE(32) a b"

definition mm_sub_ss :: "m128 \<Rightarrow> m128 \<Rightarrow> m128" where
  "mm_sub_ss a b = mm_move_ss a (mm_sub_ps a b)"

definition mm_sub_pd :: "m128 \<Rightarrow> m128 \<Rightarrow> m128" where
  "mm_sub_pd a b = vsub_f TYPE(64) a b"

definition mm_sub_pd_v7 :: "m128 \<Rightarrow> m128 \<Rightarrow> m128" where
  "mm_sub_pd_v7 a b =
     (let da = lanes a :: u64 list; db = lanes b :: u64 list;
          c0 = f_sub (da ! 0) (db ! 0);
          c1 = f_sub (da ! 1) (db ! 1)
      in vld1 [c0, c1])"

definition mm_sub_sd :: "m128 \<Rightarrow> m128 \<Rightarrow> m128" where
  "mm_sub_sd a b = mm_move_sd a (mm_sub_pd a b)"

definition mm_mul_ps :: "m128 \<Rightarrow> m128 \<Rightarrow> m128" where
  "mm_mul_ps a b = vmul_f TYPE(32) a b"

definition mm_mul_ss :: "m128 \<Rightarrow> m128 \<Rightarrow> m128" where
  "mm_mul_ss a b = mm_move_ss a (mm_mul_ps a b)"

definition mm_mul_pd :: "m128 \<Rightarrow> m128 \<Rightarrow> m128" where
  "mm_mul_pd a b = vmul_f TYPE(64) a b"

definition mm_mul_pd_v7 :: "m128 \<Rightarrow> m128 \<Rightarrow> m128" where
  "mm_mul_pd_v7 a b =
     (let da = lanes a :: u64 list; db = lanes b :: u64 list;
          c0 = f_mul (da ! 0) (db ! 0);
          c1 = f_mul (da ! 1) (db ! 1)
      in vld1 [c0, c1])"

definition mm_mul_sd :: "m128 \<Rightarrow> m128 \<Rightarrow> m128" where
  "mm_mul_sd a b = mm_move_sd a (mm_mul_pd a b)"

definition mm_div_ps :: "m128 \<Rightarrow> m128 \<Rightarrow> m128" where
  "mm_div_ps a b = vdiv_f TYPE(32) a b"

definition mm_div_ss :: "m128 \<Rightarrow> m128 \<Rightarrow> m128" where
  "mm_div_ss a b = (let value = vget_lane (mm_div_ps a b) 0 :: u32 in vset_lane value a 0)"

definition mm_div_pd :: "m128 \<Rightarrow> m128 \<Rightarrow> m128" where
  "mm_div_pd a b = vdiv_f TYPE(64) a b"

definition mm_div_pd_v7 :: "m128 \<Rightarrow> m128 \<Rightarrow> m128" where
  "mm_div_pd_v7 a b =
     (let da = lanes a :: u64 list; db = lanes b :: u64 list;
          c0 = f_div (da ! 0) (db ! 0);
          c1 = f_div (da ! 1) (db ! 1)
      in vld1 [c0, c1])"

definition mm_div_sd :: "m128 \<Rightarrow> m128 \<Rightarrow> m128" where
  "mm_div_sd a b =
     (let tmp = vdiv_f TYPE(64) a b in vset_lane (vget_lane a 1 :: u64) tmp 1)"

definition mm_div_sd_v7 :: "m128 \<Rightarrow> m128 \<Rightarrow> m128" where
  "mm_div_sd_v7 a b = mm_move_sd a (mm_div_pd_v7 a b)"

definition mm_sqrt_ps :: "m128 \<Rightarrow> m128" where
  "mm_sqrt_ps a = vsqrt_f TYPE(32) a"

definition mm_sqrt_ss :: "m128 \<Rightarrow> m128" where
  "mm_sqrt_ss a = (let value = vget_lane (mm_sqrt_ps a) 0 :: u32 in vset_lane value a 0)"

definition mm_sqrt_pd :: "m128 \<Rightarrow> m128" where
  "mm_sqrt_pd a = vsqrt_f TYPE(64) a"

definition mm_sqrt_pd_v7 :: "m128 \<Rightarrow> m128" where
  "mm_sqrt_pd_v7 a =
     (let a0 = f_sqrt ((lanes a :: u64 list) ! 0); a1 = f_sqrt ((lanes a :: u64 list) ! 1)
      in mm_set_pd a1 a0)"

definition mm_sqrt_sd :: "m128 \<Rightarrow> m128 \<Rightarrow> m128" where
  "mm_sqrt_sd a b = mm_move_sd a (mm_sqrt_pd b)"

definition mm_sqrt_sd_v7 :: "m128 \<Rightarrow> m128 \<Rightarrow> m128" where
  "mm_sqrt_sd_v7 a b = mm_set_pd ((lanes a :: u64 list) ! 1) (f_sqrt ((lanes b :: u64 list) ! 0))"

section \<open>Fused, alternating and horizontal forms, the dot product\<close>

definition mm_fmadd_ps :: "m128 \<Rightarrow> m128 \<Rightarrow> m128 \<Rightarrow> m128" where
  "mm_fmadd_ps a b c = vfma_f TYPE(32) c b a"

definition mm_fmadd_ps_v7 :: "m128 \<Rightarrow> m128 \<Rightarrow> m128 \<Rightarrow> m128" where
  "mm_fmadd_ps_v7 a b c = mm_add_ps (mm_mul_ps a b) c"

definition mm_addsub_pd :: "m128 \<Rightarrow> m128 \<Rightarrow> m128" where
  "mm_addsub_pd a b =
     (let mask = mm_set_pd one_f64 minus_one_f64 in vfma_f TYPE(64) a b mask)"

definition mm_addsub_pd_v7 :: "m128 \<Rightarrow> m128 \<Rightarrow> m128" where
  "mm_addsub_pd_v7 a b =
     (let mask = mm_set_pd one_f64 minus_one_f64 in mm_add_pd_v7 (mm_mul_pd_v7 b mask) a)"

definition mm_addsub_ps :: "m128 \<Rightarrow> m128 \<Rightarrow> m128" where
  "mm_addsub_ps a b =
     (let mask = vld1 [minus_one_f32, one_f32, minus_one_f32, one_f32] in mm_fmadd_ps b mask a)"

definition mm_hadd_pd :: "m128 \<Rightarrow> m128 \<Rightarrow> m128" where
  "mm_hadd_pd a b = vpadd_f TYPE(64) a b"

definition mm_hadd_pd_v7 :: "m128 \<Rightarrow> m128 \<Rightarrow> m128" where
  "mm_hadd_pd_v7 a b =
     (let da = lanes a :: u64 list; db = lanes b :: u64 list
      in vld1 [f_add (da ! 0) (da ! 1), f_add (db ! 0) (db ! 1)])"

definition mm_hadd_ps :: "m128 \<Rightarrow> m128 \<Rightarrow> m128" where
  "mm_hadd_ps a b = vpadd_f TYPE(32) a b"

definition mm_hadd_ps_v7 :: "m128 \<Rightarrow> m128 \<Rightarrow> m128" where
  "mm_hadd_ps_v7 a b =
     (let a10 = vget_low a :: m64; a32 = vget_high a; b10 = vget_low b; b32 = vget_high b
      in vcombine (vpadd_f TYPE(32) a10 a32) (vpadd_f TYPE(32) b10 b32))"

definition mm_hsub_pd :: "m128 \<Rightarrow> m128 \<Rightarrow> m128" where
  "mm_hsub_pd a b = vsub_f TYPE(64) (vuzp1 TYPE(64) a b) (vuzp2 TYPE(64) a b)"

definition mm_hsub_pd_v7 :: "m128 \<Rightarrow> m128 \<Rightarrow> m128" where
  "mm_hsub_pd_v7 a b =
     (let da = lanes a :: u64 list; db = lanes b :: u64 list
      in vld1 [f_sub (da ! 0) (da ! 1), f_sub (db ! 0) (db ! 1)])"

definition mm_hsub_ps :: "m128 \<Rightarrow> m128 \<Rightarrow> m128" where
  "mm_hsub_ps a b = vsub_f TYPE(32) (vuzp1 TYPE(32) a b) (vuzp2 TYPE(32) a b)"

text \<open>Compensated summation; the state is the sum and the correction.\<close>

definition sse2neon_kadd_f32 :: "u32 \<times> u32 \<Rightarrow> u32 \<Rightarrow> u32 \<times> u32" where
  "sse2neon_kadd_f32 st y0 =
     (let (sum, c) = st;
          y = f_sub y0 c;
          t = f_add sum y;
          c' = f_sub (f_sub t sum) y
      in (t, c'))"

definition dp_sum :: "m128 \<Rightarrow> m128 \<Rightarrow> nat \<Rightarrow> u32" where
  "dp_sum a b imm =
     (let f32a = lanes a :: u32 list; f32b = lanes b :: u32 list;
          add = (\<lambda>st i. if bit imm (4 + i) then sse2neon_kadd_f32 st (f_mul (f32a ! i) (f32b ! i)) else st);
          (s, c) = foldl add (0, 0) [0..<4]
      in f_add s c)"

definition mm_dp_ps_v7 :: "m128 \<Rightarrow> m128 \<Rightarrow> nat \<Rightarrow> m128" where
  "mm_dp_ps_v7 a b imm =
     (let s = dp_sum a b imm
      in vld1 [if bit imm 0 then s else 0, if bit imm 1 then s else 0,
               if bit imm 2 then s else 0, if bit imm 3 then s else 0])"

definition mm_dp_ps :: "m128 \<Rightarrow> m128 \<Rightarrow> nat \<Rightarrow> m128" where
  "mm_dp_ps a b imm =
     (if imm = 0xFF then mm_set1_ps (vaddv_f (mm_mul_ps a b))
      else if imm = 0x7F then mm_set1_ps (vaddv_f (vset_lane (0 :: u32) (mm_mul_ps a b) 3))
      else mm_dp_ps_v7 a b imm)"

section \<open>Conversions of integers\<close>

definition mm_cvt_pi2ps :: "m128 \<Rightarrow> m64 \<Rightarrow> m128" where
  "mm_cvt_pi2ps a b = vcombine (vcvt_of_s TYPE(32) b) (vget_high a)"

definition mm_cvtpi32_ps :: "m128 \<Rightarrow> m64 \<Rightarrow> m128" where
  "mm_cvtpi32_ps a b = vcombine (vcvt_of_s TYPE(32) b) (vget_high a)"

definition mm_cvt_si2ss :: "m128 \<Rightarrow> u32 \<Rightarrow> m128" where
  "mm_cvt_si2ss a b = vset_lane (f_of_int (sint b) :: u32) a 0"

definition mm_cvtsi64_ss :: "m128 \<Rightarrow> u64 \<Rightarrow> m128" where
  "mm_cvtsi64_ss a b = vset_lane (f_of_int (sint b) :: u32) a 0"

definition mm_cvtpi16_ps :: "m64 \<Rightarrow> m128" where
  "mm_cvtpi16_ps a = vcvt_of_s TYPE(32) (vmovl_s TYPE(16) TYPE(32) a)"

definition mm_cvtpi32x2_ps :: "m64 \<Rightarrow> m64 \<Rightarrow> m128" where
  "mm_cvtpi32x2_ps a b = vcvt_of_s TYPE(32) (vcombine a b)"

definition mm_cvtpi8_ps :: "m64 \<Rightarrow> m128" where
  "mm_cvtpi8_ps a = vcvt_of_s TYPE(32) (vmovl_s TYPE(16) TYPE(32) (vget_low (vmovl_s TYPE(8) TYPE(16) a :: m128) :: m64))"

definition mm_cvtpu16_ps :: "m64 \<Rightarrow> m128" where
  "mm_cvtpu16_ps a = vcvt_of_u TYPE(32) (vmovl_u TYPE(16) TYPE(32) a)"

definition mm_cvtpu8_ps :: "m64 \<Rightarrow> m128" where
  "mm_cvtpu8_ps a = vcvt_of_u TYPE(32) (vmovl_u TYPE(16) TYPE(32) (vget_low (vmovl_u TYPE(8) TYPE(16) a :: m128) :: m64))"

definition mm_cvtepi32_ps :: "m128 \<Rightarrow> m128" where
  "mm_cvtepi32_ps a = vcvt_of_s TYPE(32) a"

definition mm_cvtepi32_pd :: "m128 \<Rightarrow> m128" where
  "mm_cvtepi32_pd a = vcvt_of_s TYPE(64) (vmovl_s TYPE(32) TYPE(64) (vget_low a :: m64) :: m128)"

definition mm_cvtepi32_pd_v7 :: "m128 \<Rightarrow> m128" where
  "mm_cvtepi32_pd_v7 a =
     (let a0 = f_of_int (sint (vget_lane a 0 :: u32)); a1 = f_of_int (sint (vget_lane a 1 :: u32))
      in mm_set_pd a1 a0)"

definition mm_cvtpi32_pd :: "m64 \<Rightarrow> m128" where
  "mm_cvtpi32_pd a = vcvt_of_s TYPE(64) (vmovl_s TYPE(32) TYPE(64) a :: m128)"

definition mm_cvtpi32_pd_v7 :: "m64 \<Rightarrow> m128" where
  "mm_cvtpi32_pd_v7 a =
     (let a0 = f_of_int (sint (vget_lane a 0 :: u32)); a1 = f_of_int (sint (vget_lane a 1 :: u32))
      in mm_set_pd a1 a0)"

section \<open>Conversions to integers\<close>

definition mm_cvttps_epi32 :: "m128 \<Rightarrow> m128" where
  "mm_cvttps_epi32 a = vcvt_to_s TYPE(32) a"

definition mm_cvtt_ps2pi :: "m128 \<Rightarrow> m64" where
  "mm_cvtt_ps2pi a = vget_low (vcvt_to_s TYPE(32) a)"

definition mm_cvtt_ss2si :: "m128 \<Rightarrow> u32" where
  "mm_cvtt_ss2si a = vget_lane (vcvt_to_s TYPE(32) a) 0"

definition mm_cvttss_si64 :: "m128 \<Rightarrow> u64" where
  "mm_cvttss_si64 a = vget_lane (vmovl_s TYPE(32) TYPE(64) (vget_low (vcvt_to_s TYPE(32) a) :: m64) :: m128) 0"

definition mm_cvttsd_si64 :: "m128 \<Rightarrow> u64" where
  "mm_cvttsd_si64 a = vget_lane (vcvt_to_s TYPE(64) a) 0"

definition mm_cvttsd_si64_v7 :: "m128 \<Rightarrow> u64 option" where
  "mm_cvttsd_si64_v7 a = (let ret = (lanes a :: u64 list) ! 0 in c_cast ret)"

definition mm_cvt_ss2si :: "m128 \<Rightarrow> u32" where
  "mm_cvt_ss2si a = vget_lane (vcvtn_to_s TYPE(32) a) 0"

text \<open>
  The difference to the floor is computed in \<open>double\<close> and stored as \<open>float\<close>. The cast to the 64-bit
  type is cut down to an \<open>int\<close> by the result type of \<open>_mm_cvtss_si64\<close>.
\<close>

definition floor_diff :: "u32 \<Rightarrow> u32" where
  "floor_diff data = f_narrow (f_sub (f_widen data) (f_rint r_down (f_widen data)))"

definition mm_cvt_ss2si_v7 :: "m128 \<Rightarrow> u32 option" where
  "mm_cvt_ss2si_v7 a =
     (let data = vget_lane a 0 :: u32; diff = f_widen (floor_diff data);
          lo = f_rint r_down (f_widen data); hi = f_rint r_up (f_widen data)
      in if f_lt half_f64 diff then c_cast hi
         else if f_eq diff half_f64 then do {
           f \<leftarrow> c_cast lo :: u32 option;
           c \<leftarrow> c_cast hi;
           Some (if c AND 1 \<noteq> 0 then f else c)
         } else c_cast lo)"

definition mm_cvtss_si64 :: "m128 \<Rightarrow> u32" where
  "mm_cvtss_si64 a = ucast (vget_lane (vcvtn_to_s TYPE(32) a) 0 :: u64)"

definition mm_cvtss_si64_v7 :: "m128 \<Rightarrow> u32 option" where
  "mm_cvtss_si64_v7 a =
     (let data = vget_lane a 0 :: u32; diff = f_widen (floor_diff data);
          lo = f_rint r_down (f_widen data); hi = f_rint r_up (f_widen data)
      in if f_lt half_f64 diff then map_option ucast (c_cast hi :: u64 option)
         else if f_eq diff half_f64 then do {
           f \<leftarrow> c_cast lo :: u64 option;
           c \<leftarrow> c_cast hi;
           Some (ucast (if c AND 1 \<noteq> 0 then f else c))
         } else map_option ucast (c_cast lo :: u64 option))"

definition mm_cvtps_epi32 :: "m128 \<Rightarrow> m128" where
  "mm_cvtps_epi32 a = vcvtn_to_s TYPE(32) a"

definition mm_cvtps_epi32_v7 :: "m128 \<Rightarrow> m128" where
  "mm_cvtps_epi32_v7 a =
     (let signmask = vdup (0x80000000 :: u32);
          half = vbsl signmask a (vdup half_f32);
          r_normal = vcvt_to_s TYPE(32) (vadd_f TYPE(32) a half);
          r_trunc = vcvt_to_s TYPE(32) a;
          plusone = vshr_u TYPE(32) (vneg TYPE(32) r_trunc) 31;
          r_even = vbicv (vadd TYPE(32) r_trunc plusone) (vdup (1 :: u32));
          delta = vsub_f TYPE(32) a (vcvt_of_s TYPE(32) r_trunc);
          is_delta_half = vceq_f TYPE(32) delta half
      in vbsl is_delta_half r_even r_normal)"

definition mm_cvtps_pi16 :: "m128 \<Rightarrow> m64" where
  "mm_cvtps_pi16 a = vmovn TYPE(32) TYPE(16) (mm_cvtps_epi32 a)"

section \<open>Conversions between the formats\<close>

definition mm_cvtss_f32 :: "m128 \<Rightarrow> u32" where
  "mm_cvtss_f32 a = vget_lane a 0"

definition mm_cvtsd_f64 :: "m128 \<Rightarrow> u64" where
  "mm_cvtsd_f64 a = vget_lane a 0"

definition mm_cvtss_sd :: "m128 \<Rightarrow> m128 \<Rightarrow> m128" where
  "mm_cvtss_sd a b = (let d = f_widen (vget_lane b 0) in vset_lane d a 0)"

definition mm_cvtpd_ps :: "m128 \<Rightarrow> m128" where
  "mm_cvtpd_ps a = (let tmp = vmap f_narrow a :: m64 in vcombine tmp (vdup (0 :: u32)))"

definition mm_cvtpd_ps_v7 :: "m128 \<Rightarrow> m128" where
  "mm_cvtpd_ps_v7 a =
     (let a0 = f_narrow ((lanes a :: u64 list) ! 0); a1 = f_narrow ((lanes a :: u64 list) ! 1)
      in mm_set_ps 0 0 a1 a0)"

definition mm_cvtps_pd :: "m128 \<Rightarrow> m128" where
  "mm_cvtps_pd a = vmap f_widen (vget_low a :: m64)"

definition mm_cvtps_pd_v7 :: "m128 \<Rightarrow> m128" where
  "mm_cvtps_pd_v7 a =
     (let a0 = f_widen (vget_lane a 0); a1 = f_widen (vget_lane a 1) in mm_set_pd a1 a0)"

section \<open>Rounding to integral numbers\<close>

definition MM_FROUND_TO_NEAREST_INT :: nat where "MM_FROUND_TO_NEAREST_INT = 0"
definition MM_FROUND_TO_NEG_INF :: nat where "MM_FROUND_TO_NEG_INF = 1"
definition MM_FROUND_TO_POS_INF :: nat where "MM_FROUND_TO_POS_INF = 2"
definition MM_FROUND_TO_ZERO :: nat where "MM_FROUND_TO_ZERO = 3"
definition MM_FROUND_NO_EXC :: nat where "MM_FROUND_NO_EXC = 8"

definition mm_round_ps :: "m128 \<Rightarrow> nat \<Rightarrow> m128" where
  "mm_round_ps a rounding =
     (if rounding = (MM_FROUND_TO_NEAREST_INT OR MM_FROUND_NO_EXC) then vrnd r_nearest a
      else if rounding = (MM_FROUND_TO_NEG_INF OR MM_FROUND_NO_EXC) then vrnd r_down a
      else if rounding = (MM_FROUND_TO_POS_INF OR MM_FROUND_NO_EXC) then vrnd r_up a
      else if rounding = (MM_FROUND_TO_ZERO OR MM_FROUND_NO_EXC) then vrnd r_zero a
      else vrnd r_nearest a)"

definition mm_round_ps_v7 :: "m128 \<Rightarrow> nat \<Rightarrow> m128" where
  "mm_round_ps_v7 a rounding =
     (let v_float = lanes a :: u32 list;
          floorf = f_rint r_down; ceilf = f_rint r_up; roundf = f_rint r_away
      in if rounding = (MM_FROUND_TO_NEAREST_INT OR MM_FROUND_NO_EXC) then mm_cvtepi32_ps (mm_cvtps_epi32_v7 a)
      else if rounding = (MM_FROUND_TO_NEG_INF OR MM_FROUND_NO_EXC) then
        vld1 [floorf (v_float ! 0), floorf (v_float ! 1), floorf (v_float ! 2), floorf (v_float ! 3)]
      else if rounding = (MM_FROUND_TO_POS_INF OR MM_FROUND_NO_EXC) then
        vld1 [ceilf (v_float ! 0), ceilf (v_float ! 1), ceilf (v_float ! 2), ceilf (v_float ! 3)]
      else if rounding = (MM_FROUND_TO_ZERO OR MM_FROUND_NO_EXC) then
        (let zero = mm_set_ps 0 0 0 0;
             neg_inf = mm_set_ps (floorf (v_float ! 0)) (floorf (v_float ! 1)) (floorf (v_float ! 2)) (floorf (v_float ! 3));
             pos_inf = mm_set_ps (ceilf (v_float ! 0)) (ceilf (v_float ! 1)) (ceilf (v_float ! 2)) (ceilf (v_float ! 3))
         in mm_blendv_ps pos_inf neg_inf (mm_cmple_ps a zero))
      else vld1 [roundf (v_float ! 0), roundf (v_float ! 1), roundf (v_float ! 2), roundf (v_float ! 3)])"

definition mm_cvt_ps2pi :: "m128 \<Rightarrow> m64" where
  "mm_cvt_ps2pi a = vget_low (vcvtn_to_s TYPE(32) a)"

definition mm_cvt_ps2pi_v7 :: "m128 \<Rightarrow> m64" where
  "mm_cvt_ps2pi_v7 a =
     vcvt_to_s TYPE(32) (vget_low (mm_round_ps_v7 a (MM_FROUND_TO_NEAREST_INT OR MM_FROUND_NO_EXC)) :: m64)"

definition mm_ceil_ps :: "m128 \<Rightarrow> m128" where
  "mm_ceil_ps a = mm_round_ps a (MM_FROUND_TO_POS_INF OR MM_FROUND_NO_EXC)"

definition mm_ceil_ss :: "m128 \<Rightarrow> m128 \<Rightarrow> m128" where
  "mm_ceil_ss a b = mm_move_ss a (mm_round_ps b (MM_FROUND_TO_POS_INF OR MM_FROUND_NO_EXC))"

definition mm_floor_ps :: "m128 \<Rightarrow> m128" where
  "mm_floor_ps a = mm_round_ps a (MM_FROUND_TO_NEG_INF OR MM_FROUND_NO_EXC)"

definition mm_floor_ss :: "m128 \<Rightarrow> m128 \<Rightarrow> m128" where
  "mm_floor_ss a b = mm_move_ss a (mm_round_ps b (MM_FROUND_TO_NEG_INF OR MM_FROUND_NO_EXC))"

text \<open>The rounding mode in the control register.\<close>

definition MM_ROUND_DOWN :: u32 where "MM_ROUND_DOWN = 0x2000"
definition MM_ROUND_UP :: u32 where "MM_ROUND_UP = 0x4000"
definition MM_ROUND_TOWARD_ZERO :: u32 where "MM_ROUND_TOWARD_ZERO = 0x6000"

definition MM_SET_ROUNDING_MODE :: "u32 \<Rightarrow> u64 \<Rightarrow> u64" where
  "MM_SET_ROUNDING_MODE rounding fpcr =
     (let put = (\<lambda>b22 b23 r. (if b23 then set_bit 23 else unset_bit 23) ((if b22 then set_bit 22 else unset_bit 22) r))
      in if rounding = MM_ROUND_TOWARD_ZERO then put True True fpcr
         else if rounding = MM_ROUND_DOWN then put False True fpcr
         else if rounding = MM_ROUND_UP then put True False fpcr
         else put False False fpcr)"

definition mm_setcsr :: "u32 \<Rightarrow> u64 \<Rightarrow> u64" where
  "mm_setcsr a fpcr = MM_SET_ROUNDING_MODE a fpcr"

section \<open>Theorems\<close>

lemma f_one_consts [simp]: "f_one one_f32" "f_one minus_one_f32" "f_one one_f64" "f_one minus_one_f64"
  by (simp_all add: f_one_def one_f32_def minus_one_f32_def one_f64_def minus_one_f64_def f_nan_def f_inf_def
      f_mag_def f_exp_def f_frac_def frac_width_def exp_top_def f_unit_def)

lemma sign_consts [simp]: "\<not> f_sign one_f32" "f_sign minus_one_f32" "\<not> f_sign one_f64" "f_sign minus_one_f64"
  by (simp_all add: one_f32_def minus_one_f32_def one_f64_def minus_one_f64_def f_sign_odd f_half_def)

lemma lanes_four: "(lanes (v :: m128) :: u32 list) = [vget_lane v 0, vget_lane v 1, vget_lane v 2, vget_lane v 3]"
  using list_4 [of "lanes v :: u32 list"] by (simp add: vget_lane_def)

lemma lanes_vfma_f:
  "LENGTH('a) dvd LENGTH('v) \<Longrightarrow> (lanes (vfma_f TYPE('a::len) c a (b :: 'v::len word)) :: 'a word list) =
    map2 (\<lambda>z (x, y). f_fma z x y) (lanes c :: 'a word list) (zip (lanes a) (lanes b))"
  by (simp add: vfma_f_def)

lemma vget_lane_halves:
  "(vget_lane (v :: m128) 0 :: u64) = vget_low v" "(vget_lane (v :: m128) (Suc 0) :: u64) = vget_high v"
  by (simp_all add: vget_lane_def lanes_two)

lemma lanes_vadd_f_32: "(lanes (vadd_f TYPE(32) a (b :: m128)) :: u32 list) = map2 f_add (lanes a) (lanes b)"
  by (simp add: vadd_f_def lanes_vmap2)

text \<open>Evaluation on numerals.\<close>

lemmas f_arith = f_add_def f_sub_def f_mul_def f_add_numbers_def f_of_units_def f_round_def f_scale_def rne_def compute_floorlog
  f_bits_def f_inf_def f_zero_def f_inf_bits_def f_half_def f_unit_def f_sign_odd f_nan_def f_num_def f_mag_def f_exp_def f_frac_def
  frac_width_def exp_top_def f_of_int_def f_rint_def f_to_int_def r_down_def r_up_def r_zero_def r_nearest_def Let_def

text \<open>The alternating form multiplies by 1 and -1 inside a fused operation, which is the subtraction in the
  even lanes and the addition in the odd lanes on all inputs, infinities, zeros and NaN included; the
  ARMv7 text, which rounds the product first, agrees unless both operands of a lane are NaN.\<close>

theorem addsub_alternates:
  fixes a b :: m128
  shows "(lanes (mm_addsub_ps a b) :: u32 list) =
      [f_sub (vget_lane a 0) (vget_lane b 0), f_add (vget_lane a 1) (vget_lane b 1),
       f_sub (vget_lane a 2) (vget_lane b 2), f_add (vget_lane a 3) (vget_lane b 3)] \<and>
    (lanes (mm_addsub_pd a b) :: u64 list) =
      [f_sub (vget_lane a 0) (vget_lane b 0), f_add (vget_lane a 1) (vget_lane b 1)] \<and>
    (list_all2 (\<lambda>x y. \<not> (f_nan x \<and> f_nan y)) (lanes a :: u64 list) (lanes b :: u64 list) \<longrightarrow>
      mm_addsub_pd_v7 a b = mm_addsub_pd a b)"
proof (intro conjI impI)
  show "(lanes (mm_addsub_ps a b) :: u32 list) =
      [f_sub (vget_lane a 0) (vget_lane b 0), f_add (vget_lane a 1) (vget_lane b 1),
       f_sub (vget_lane a 2) (vget_lane b 2), f_add (vget_lane a 3) (vget_lane b 3)]"
    by (simp add: mm_addsub_ps_def mm_fmadd_ps_def lanes_vfma_f lanes_vld1 f_fma_one)
      (simp add: lanes_four f_fma_one)
  show pd: "(lanes (mm_addsub_pd a b) :: u64 list) =
      [f_sub (vget_lane a 0) (vget_lane b 0), f_add (vget_lane a 1) (vget_lane b 1)]"
    by (simp add: mm_addsub_pd_def Let_def lanes_vfma_f mm_set_pd_def lanes_vld1)
      (simp add: lanes_two vget_lane_halves f_fma_one)
  assume "list_all2 (\<lambda>x y. \<not> (f_nan x \<and> f_nan y)) (lanes a :: u64 list) (lanes b :: u64 list)"
  then have n: "\<not> (f_nan (vget_low a :: u64) \<and> f_nan (vget_low b :: u64))"
    "\<not> (f_nan (vget_high a :: u64) \<and> f_nan (vget_high b :: u64))" by (simp_all add: lanes_two)
  have add: "f_add (f_mul y u) x = (if f_sign u then f_sub x y else f_add x y)"
    if "f_one u" "\<not> (f_nan x \<and> f_nan y)" for x y u :: u64
    using that f_add_numbers_commute [of x y] f_add_numbers_commute [of x "f_neg y"]
    by (auto simp: f_mul_one f_add_def f_sub_def f_neg_props process_nans_one nan_quiet)
  show "mm_addsub_pd_v7 a b = mm_addsub_pd a b"
    by (rule lanes_eqI [where 'a = 64], simp, unfold pd)
      (simp add: mm_addsub_pd_v7_def mm_add_pd_v7_def mm_mul_pd_v7_def mm_set_pd_def Let_def lanes_two halves_vld1 vget_lane_halves add n)
qed

theorem addsub_alternates_witness:
  "mm_addsub_pd_v7 0x3FF0000000000000 0x4000000000000000 = mm_addsub_pd 0x3FF0000000000000 0x4000000000000000"
proof -
  have "\<not> f_nan (0x3FF0000000000000 :: u64)" "\<not> f_nan (0 :: u64)" by (simp_all add: f_arith)
  moreover have "(lanes (0x3FF0000000000000 :: m128) :: u64 list) = [0x3FF0000000000000, 0]"
    "(lanes (0x4000000000000000 :: m128) :: u64 list) = [0x4000000000000000, 0]" by code_simp+
  ultimately have "list_all2 (\<lambda>x y. \<not> (f_nan x \<and> f_nan y)) (lanes (0x3FF0000000000000 :: m128) :: u64 list) (lanes (0x4000000000000000 :: m128) :: u64 list)"
    by simp
  then show ?thesis using addsub_alternates [of "0x3FF0000000000000" "0x4000000000000000"] by blast
qed

lemma f_add_zero_same:
  fixes x :: "'a::len word"
  assumes F: "is_format TYPE('a)"
  shows "f_add x 0 = x \<longleftrightarrow> \<not> (f_sign x \<and> f_num x = 0) \<and> \<not> (f_nan x \<and> quiet x \<noteq> x)"
proof -
  have s0: "\<not> f_sign (0 :: 'a word)" by (simp add: f_sign_def)
  have "x = 0" if "f_num x = 0" "\<not> f_sign x"
  proof (rule f_parts)
    show "frac_width TYPE('a) < LENGTH('a)" using F by (simp add: is_format_def)
    have "f_mag x = f_mag (0 :: 'a word)" using that f_num_zero [where 'a = 'a] by (simp add: f_num_def s0)
    then show "f_exp x = f_exp (0 :: 'a word)" "f_frac x = f_frac (0 :: 'a word)" by (simp_all only: f_mag_inject)
    show "f_sign x = f_sign (0 :: 'a word)" using that s0 by simp
  qed
  moreover have "f_num x \<noteq> 0" if "f_nan x"
    using that by (auto simp: f_nan_def f_num_def f_mag_def)
  ultimately show ?thesis using s0 by (auto simp: f_add_zero [OF F])
qed

text \<open>\<open>_mm_add_ss\<close> adds zero to the upper lanes, which keeps them exactly when none of them is a negative
  zero or a signalling NaN; \<open>_mm_sub_ss\<close> and \<open>_mm_mul_ss\<close> always keep them.\<close>

theorem add_ss_upper:
  fixes a b :: m128
  shows "(tl (lanes (mm_add_ss a b)) = (tl (lanes a) :: u32 list) \<longleftrightarrow>
      list_all (\<lambda>x. \<not> (f_sign x \<and> f_num x = 0) \<and> \<not> (f_nan x \<and> quiet x \<noteq> x)) (tl (lanes a) :: u32 list)) \<and>
    tl (lanes (mm_sub_ss a b)) = (tl (lanes a) :: u32 list) \<and> tl (lanes (mm_mul_ss a b)) = (tl (lanes a) :: u32 list)"
proof (intro conjI)
  have "(lanes (mm_add_ss a b) :: u32 list) = [f_add (vget_lane a 0) (vget_lane b 0), f_add (vget_lane a 1) 0, f_add (vget_lane a 2) 0, f_add (vget_lane a 3) 0]"
  proof -
    have "(lanes (vset_lane (vget_lane b 0 :: u32) (vdup (0 :: u32)) 0 :: m128) :: u32 list) = [vget_lane b 0, 0, 0, 0]"
      by (simp add: lanes_vset_lane lanes_vdup replicate_numeral)
    then show ?thesis
      by (simp only: mm_add_ss_def Let_def lanes_vadd_f_32) (simp add: lanes_four)
  qed
  then show "tl (lanes (mm_add_ss a b)) = (tl (lanes a) :: u32 list) \<longleftrightarrow>
      list_all (\<lambda>x. \<not> (f_sign x \<and> f_num x = 0) \<and> \<not> (f_nan x \<and> quiet x \<noteq> x)) (tl (lanes a) :: u32 list)"
    by (simp add: lanes_four f_add_zero_same)
  show "tl (lanes (mm_sub_ss a b)) = (tl (lanes a) :: u32 list)" "tl (lanes (mm_mul_ss a b)) = (tl (lanes a) :: u32 list)"
    by (simp_all add: mm_sub_ss_def mm_mul_ss_def mm_move_ss_def lanes_vset_lane) (simp_all add: lanes_four)
qed

text \<open>C40: Rounding towards zero: the AArch64 text truncates every lane; the ARMv7 text selects by the sign of the
  operand the wrong one of floor and ceiling, so it rounds away from zero, and it fills the lanes in
  reverse order: the lanes of 1.5 become 2.0 instead of 1.0.\<close>

theorem round_towards_zero:
  fixes a :: m128
  shows "(lanes (mm_round_ps a 11) :: u32 list) = map (f_rint r_zero) (lanes a) \<and>
    (lanes (mm_round_ps_v7 a 11) :: u32 list) =
      map2 (\<lambda>sel x. if f_le sel 0 then f_rint r_down x else f_rint r_up x) (lanes a :: u32 list) (rev (lanes a)) \<and>
    mm_round_ps (vdup (0x3FC00000 :: u32)) 11 = vdup (0x3F800000 :: u32) \<and>
    mm_round_ps_v7 (vdup (0x3FC00000 :: u32)) 11 = vdup (0x40000000 :: u32)"
proof -
  have mode: "(MM_FROUND_TO_NEAREST_INT OR MM_FROUND_NO_EXC) = 8" "(MM_FROUND_TO_NEG_INF OR MM_FROUND_NO_EXC) = 9"
    "(MM_FROUND_TO_POS_INF OR MM_FROUND_NO_EXC) = 10" "(MM_FROUND_TO_ZERO OR MM_FROUND_NO_EXC) = 11"
    by (simp_all add: MM_FROUND_TO_NEAREST_INT_def MM_FROUND_NO_EXC_def MM_FROUND_TO_NEG_INF_def MM_FROUND_TO_POS_INF_def MM_FROUND_TO_ZERO_def)
  have A: "(lanes (mm_round_ps a 11) :: u32 list) = map (f_rint r_zero) (lanes a)" for a
    by (simp add: mm_round_ps_def mode vrnd_def lanes_vmap)
  have sel: "signed_drop_bit 31 (if c then NOT 0 else 0 :: u32) = (if c then NOT 0 else 0)" for c
    by (auto intro!: bit_word_eqI simp: bit_simps)
  have B: "(lanes (mm_round_ps_v7 a 11) :: u32 list) =
      map2 (\<lambda>sel x. if f_le sel 0 then f_rint r_down x else f_rint r_up x) (lanes a :: u32 list) (rev (lanes a))" for a
  proof -
    obtain x0 x1 x2 x3 where a: "(lanes a :: u32 list) = [x0, x1, x2, x3]" using lanes_four by blast
    have "(lanes (mm_cmple_ps a (mm_set_ps 0 0 0 0)) :: u32 list) = map (\<lambda>x :: u32. if f_le x 0 then NOT 0 else 0) [x0, x1, x2, x3]"
      by (simp add: mm_cmple_ps_def lanes_vcle_f mm_set_ps_def lanes_vld1 a)
    then have m: "(lanes (vshr_s TYPE(32) (mm_cmple_ps a (mm_set_ps 0 0 0 0)) 31) :: u32 list) =
        map (\<lambda>x :: u32. if f_le x 0 then NOT 0 else 0) [x0, x1, x2, x3]"
      by (simp only: lanes_vshr_s [OF dvd_32_128]) (simp only: list.map sel)
    have set: "(lanes (mm_set_ps w z y x) :: u32 list) = [x, y, z, w]" for w z y x
      by (simp add: mm_set_ps_def lanes_vld1)
    show ?thesis
      unfolding mm_round_ps_v7_def Let_def mm_blendv_ps_def mode
      by (simp add: lanes_vbsl m set a)
  qed
  have "(lanes (vdup (x :: u32) :: m128) :: u32 list) = [x, x, x, x]" for x
    by (simp add: lanes_vdup replicate_numeral)
  note d = this
  have r: "f_rint r_zero (0x3FC00000 :: u32) = 0x3F800000" "f_rint r_up (0x3FC00000 :: u32) = 0x40000000" "\<not> f_le (0x3FC00000 :: u32) 0"
    by (simp_all add: f_arith f_le_def)
  have "mm_round_ps (vdup (0x3FC00000 :: u32)) 11 = vdup (0x3F800000 :: u32)"
    by (rule lanes_eqI [where 'a = 32], simp) (simp add: A d r)
  moreover have "mm_round_ps_v7 (vdup (0x3FC00000 :: u32)) 11 = vdup (0x40000000 :: u32)"
    by (rule lanes_eqI [where 'a = 32], simp) (simp add: B d r)
  ultimately show ?thesis using A B by blast
qed

lemma word_of_sint: "word_of_int (sint x) = (scast (x :: u32) :: u64)"
  by (rule bit_word_eqI) (simp add: bit_simps bit_signed_iff bit_sint_iff min_def)

lemma sat_sint_up: "(sat_s (sint (x :: u32)) :: u64) = scast x"
proof -
  have "- (2 ^ 63) \<le> sint x" "sint x < 2 ^ 63" using sint_range [of x] by simp_all
  then show ?thesis by (simp add: sat_s_def word_of_sint)
qed

lemma sint_scast_up: "sint (scast (x :: u32) :: u64) = sint x"
proof -
  have "- (2 ^ 63) \<le> sint x" "sint x < 2 ^ 63" using sint_range [of x] by simp_all
  then show ?thesis unfolding sat_sint_up [symmetric] by (simp add: sint_sat_s)
qed

text \<open>Converting two 32-bit integers to double and the lowest back is the identity, in both builds; the
  conversion is exact and the cast of the ARMv7 text is always defined.\<close>

theorem int_double_roundtrip:
  fixes a :: m128
  shows "mm_cvttsd_si64 (mm_cvtepi32_pd a) = scast (vget_lane a 0 :: u32) \<and>
    mm_cvttsd_si64_v7 (mm_cvtepi32_pd_v7 a) = Some (scast (vget_lane a 0 :: u32)) \<and>
    mm_cvtepi32_pd_v7 a = mm_cvtepi32_pd a"
proof -
  let ?f = "\<lambda>x :: u32. f_of_int (sint x) :: u64"
  have s: "small_int TYPE(64) (sint x)" "- (2 ^ 63) \<le> sint x" "sint x < 2 ^ 63" for x :: u32
    using sint_range [of x] by (auto simp: small_int_def frac_width_def abs_less_iff)
  have r: "r_zero (?f x) = sint x" "\<not> f_nan (?f x)" for x :: u32
    using f_of_int_small [OF is_format_64 s(1), of x] by (simp_all add: r_zero_int)
  have l: "(lanes (mm_cvtepi32_pd a) :: u64 list) = [?f (vget_lane a 0), ?f (vget_lane a 1)]"
    "(lanes (mm_cvtepi32_pd_v7 a) :: u64 list) = [?f (vget_lane a 0), ?f (vget_lane a 1)]"
    by (simp_all add: mm_cvtepi32_pd_def mm_cvtepi32_pd_v7_def vcvt_of_s_def lanes_vmap lanes_vmovl_s lanes_vget_low mm_set_pd_def lanes_vld1 Let_def)
      (simp_all add: lanes_four sint_scast_up)
  then have "mm_cvtepi32_pd_v7 a = mm_cvtepi32_pd a" by (intro lanes_eqI [where 'a = 64]) simp_all
  moreover have "mm_cvttsd_si64 (mm_cvtepi32_pd a) = scast (vget_lane a 0 :: u32)"
    by (simp add: mm_cvttsd_si64_def vget_lane_def vcvt_to_s_def lanes_vmap l f_to_int_def r sat_sint_up)
  moreover have "mm_cvttsd_si64_v7 (mm_cvtepi32_pd_v7 a) = Some (scast (vget_lane a 0 :: u32))"
    using s [of "vget_lane a 0"] by (simp add: mm_cvttsd_si64_v7_def l c_cast_def r word_of_sint)
  ultimately show ?thesis by blast
qed

text \<open>
  Two defects on concrete operands. The compensated sum of \<open>_mm_dp_ps\<close> adds the correction at the end, which
  the summation has subtracted: \<open>2 ^ 24 * 1 + 1 * 1\<close> becomes \<open>2 ^ 24 - 1\<close>. The ARMv7 text of \<open>_mm_cvtps_epi32\<close>
  adds a half to the odd integer 8388609, which rounds up to the next even one.
\<close>

theorem dp_correction_sign:
  "mm_dp_ps (vld1 [0x4B800000, one_f32, 0, 0]) (vld1 [one_f32, one_f32, 0, 0]) 0x31 = vld1 [0x4B7FFFFF :: u32, 0, 0, 0]"
proof -
  have m: "f_mul 0x4B800000 one_f32 = 0x4B800000" "f_mul one_f32 one_f32 = one_f32"
    by (simp_all add: f_mul_one) (simp_all add: one_f32_def f_arith)
  have a: "f_sub (0x4B800000 :: u32) 0 = 0x4B800000" "f_add 0 (0x4B800000 :: u32) = 0x4B800000"
    "f_sub (0x4B800000 :: u32) 0x4B800000 = 0" "f_sub one_f32 0 = one_f32" "f_add 0x4B800000 one_f32 = 0x4B800000"
    "f_sub 0 one_f32 = minus_one_f32"
    by (simp_all add: one_f32_def minus_one_f32_def f_arith f_neg_def)
  have k1: "sse2neon_kadd_f32 (0, 0) 0x4B800000 = (0x4B800000, 0)"
    by (simp add: sse2neon_kadd_f32_def Let_def a)
  have k2: "sse2neon_kadd_f32 (0x4B800000, 0) one_f32 = (0x4B800000, minus_one_f32)"
    by (simp add: sse2neon_kadd_f32_def Let_def a)
  have e: "f_add (0x4B800000 :: u32) minus_one_f32 = 0x4B7FFFFF"
    by (simp add: minus_one_f32_def f_arith)
  have b: "bit (49 :: nat) 4" "bit (49 :: nat) 5" "\<not> bit (49 :: nat) 6" "\<not> bit (49 :: nat) 7" "bit (49 :: nat) 0" "\<not> bit (49 :: nat) 1"
    "\<not> bit (49 :: nat) 2" "\<not> bit (49 :: nat) 3"
    by (simp_all add: bit_nat_iff bit_iff_odd)
  have "dp_sum (vld1 [0x4B800000, one_f32, 0, 0]) (vld1 [one_f32, one_f32, 0, 0]) 0x31 = 0x4B7FFFFF"
    by (simp add: dp_sum_def Let_def lanes_vld1 upt_rec b bit_0 m k1 k2 e)
  then show ?thesis by (simp add: mm_dp_ps_def mm_dp_ps_v7_def Let_def b bit_0)
qed

theorem cvtps_epi32_v7_odd:
  "mm_cvtps_epi32 (vdup (0x4B000001 :: u32)) = vdup (8388609 :: u32) \<and>
   mm_cvtps_epi32_v7 (vdup (0x4B000001 :: u32)) = vdup (8388610 :: u32)"
proof
  note d = lanes_vdup replicate_numeral
  show "mm_cvtps_epi32 (vdup (0x4B000001 :: u32)) = vdup (8388609 :: u32)"
    by (rule lanes_eqI [where 'a = 32], simp)
      (simp add: mm_cvtps_epi32_def vcvtn_to_s_def lanes_vmap d, simp add: f_arith sat_s_def)
  let ?a = "vdup (0x4B000001 :: u32) :: m128"
  have r: "f_to_int r_zero (0x4B000001 :: u32) = (8388609 :: u32)" "f_to_int r_zero (0x4B000002 :: u32) = (8388610 :: u32)"
    "f_add (0x4B000001 :: u32) half_f32 = 0x4B000002" "f_of_int 8388609 = (0x4B000001 :: u32)"
    "f_sub (0x4B000001 :: u32) 0x4B000001 = 0" "\<not> f_eq 0 half_f32"
    by (simp_all add: half_f32_def f_arith f_eq_def f_neg_def sat_s_def)
  have half: "(lanes (vbsl (vdup (0x80000000 :: u32)) ?a (vdup half_f32)) :: u32 list) = replicate 4 half_f32"
    by (simp add: lanes_vbsl d) (simp add: half_f32_def)
  have normal: "(lanes (vcvt_to_s TYPE(32) (vadd_f TYPE(32) ?a (vbsl (vdup (0x80000000 :: u32)) ?a (vdup half_f32)))) :: u32 list) = replicate 4 8388610"
    by (simp add: vcvt_to_s_def lanes_vmap lanes_vadd_f_32 half) (simp add: d r)
  have trunc: "(lanes (vcvt_to_s TYPE(32) ?a) :: u32 list) = replicate 4 8388609"
    by (simp add: vcvt_to_s_def lanes_vmap) (simp add: d r)
  have mask: "(lanes (vceq_f TYPE(32) (vsub_f TYPE(32) ?a (vcvt_of_s TYPE(32) (vcvt_to_s TYPE(32) ?a)))
      (vbsl (vdup (0x80000000 :: u32)) ?a (vdup half_f32))) :: u32 list) = replicate 4 0"
    by (simp add: lanes_vceq_f half vsub_f_def vcvt_of_s_def lanes_vmap lanes_vmap2 trunc) (simp add: d r)
  have sel: "(lanes (vbsl M E N) :: u32 list) = replicate 4 x" if "lanes M = replicate 4 (0 :: u32)" "lanes N = replicate 4 x"
    for M E N :: m128 and x
    using that lanes_four [of E] by (simp add: lanes_vbsl) (simp add: replicate_numeral)
  show "mm_cvtps_epi32_v7 ?a = vdup (8388610 :: u32)"
    by (rule lanes_eqI [where 'a = 32], simp)
      (simp only: mm_cvtps_epi32_v7_def Let_def sel [OF mask normal], simp add: d)
qed

text \<open>The other texts written out for ARMv7 are the lane-wise instructions.\<close>

lemma arith_builds_agree:
  fixes a b :: m128
  shows "mm_add_pd_v7 a b = mm_add_pd a b" "mm_sub_pd_v7 a b = mm_sub_pd a b" "mm_mul_pd_v7 a b = mm_mul_pd a b"
    "mm_div_pd_v7 a b = mm_div_pd a b" "mm_add_sd_v7 a b = mm_add_sd a b" "mm_div_sd_v7 a b = mm_div_sd a b"
    "mm_sqrt_pd_v7 a = mm_sqrt_pd a" "mm_sqrt_sd_v7 a b = mm_sqrt_sd a b"
    "mm_hadd_pd_v7 a b = mm_hadd_pd a b" "mm_hsub_pd_v7 a b = mm_hsub_pd a b"
proof -
  have eqI: "v = w" if "(lanes v :: u64 list) = lanes w" for v w :: m128
    using that by (intro lanes_eqI [where 'a = 64]) simp_all
  obtain a0 a1 b0 b1 where l: "(lanes a :: u64 list) = [a0, a1]" "(lanes b :: u64 list) = [b0, b1]" using lanes_two by blast
  then have h: "(vget_low a :: u64) = a0" "(vget_high a :: u64) = a1" "(vget_low b :: u64) = b0" "(vget_high b :: u64) = b1"
    by (simp_all add: lanes_two)
  have lo: "(vget_low v :: u64) = x" if "(lanes v :: u64 list) = [x, y]" for v :: m128 and x y using that by (simp add: lanes_two)
  note simps = l h vadd_f_def vsub_f_def vmul_f_def vdiv_f_def vsqrt_f_def lanes_vmap lanes_vmap2 lanes_vld1 Let_def lanes_move_sd mm_set_pd_def
    halves_vmap2 vpadd_f_def lanes_vuzp1 lanes_vuzp2 lanes_vset_lane
  show "mm_add_pd_v7 a b = mm_add_pd a b" by (rule eqI) (simp add: mm_add_pd_v7_def mm_add_pd_def simps)
  show "mm_sub_pd_v7 a b = mm_sub_pd a b" by (rule eqI) (simp add: mm_sub_pd_v7_def mm_sub_pd_def simps)
  show "mm_mul_pd_v7 a b = mm_mul_pd a b" by (rule eqI) (simp add: mm_mul_pd_v7_def mm_mul_pd_def simps)
  show div: "mm_div_pd_v7 a b = mm_div_pd a b" by (rule eqI) (simp add: mm_div_pd_v7_def mm_div_pd_def simps)
  show "mm_add_sd_v7 a b = mm_add_sd a b" by (rule eqI) (simp add: mm_add_sd_v7_def mm_add_sd_def mm_add_pd_def simps)
  show "mm_div_sd_v7 a b = mm_div_sd a b"
    by (rule eqI) (simp add: mm_div_sd_v7_def mm_div_sd_def div mm_div_pd_def vget_lane_def simps)
  show sqrt: "mm_sqrt_pd_v7 a = mm_sqrt_pd a" by (rule eqI) (simp add: mm_sqrt_pd_v7_def mm_sqrt_pd_def simps)
  have "(lanes (mm_sqrt_pd b) :: u64 list) = [f_sqrt b0, f_sqrt b1]" by (simp add: mm_sqrt_pd_def simps)
  from lo [OF this] show "mm_sqrt_sd_v7 a b = mm_sqrt_sd a b"
    by (intro eqI) (simp add: mm_sqrt_sd_v7_def mm_sqrt_sd_def simps)
  show "mm_hadd_pd_v7 a b = mm_hadd_pd a b" by (rule eqI) (simp add: mm_hadd_pd_v7_def mm_hadd_pd_def simps)
  show "mm_hsub_pd_v7 a b = mm_hsub_pd a b" by (rule eqI) (simp add: mm_hsub_pd_v7_def mm_hsub_pd_def simps)
qed

end
