(* ===== verification/Spec2Isabelle.thy ===== *)
theory Spec2Isabelle
  imports Reader Privacy Sse_Clmul Sse_Float
begin

text \<open>
  SinglePass is a library for private information retrieval: a client reads a row of a public
  database from two servers without telling either of them which row. Its own computation is the C++
  library \<open>psetggm/\<close>; the Go package \<open>pir/\<close> is the protocol around it.

  \<^bold>\<open>The program and the theories.\<close>

  \<^item> \<open>Prelude\<close>: vector registers as words read by \<open>lanes\<close>, array accesses as partial operations
    (\<open>rd\<close>, \<open>wr\<close>, \<open>loadv\<close>, \<open>storev\<close>), counted loops (\<open>for_range\<close>, and \<open>for_int\<close> for a C counter of type
    \<open>int\<close>, which may not pass its maximum) with their two proof rules.
  \<^item> \<open>Neon\<close>, \<open>Neon_Arith\<close>: the ARM vector instructions that \<open>sse2neon.h\<close> is written in, lane by lane;
    \<open>Neon_Float\<close>: binary32 and binary64 numbers as bit patterns, and their comparison;
    \<open>Neon_Fpu\<close>: their arithmetic. One function rounds, to the nearest number (\<open>f_round_nearest\<close>).
  \<^item> \<open>Sse_Move\<close>, \<open>Sse_Bits\<close>, \<open>Sse_Arith\<close>, \<open>Sse_Pack\<close>, \<open>Sse_Misc\<close>, \<open>Sse_Clmul\<close>, \<open>Sse_Aes\<close>: the intrinsics of
    \<open>sse2neon.h\<close> on integers and bit patterns. Where the header has several texts of one intrinsic, each is a
    definition (\<open>_v7\<close> for ARMv7, \<open>_crypto\<close> for the cryptography extension) and the theorems show that they agree.
    \<open>Sse_Compare\<close>, \<open>Sse_Float\<close>: the intrinsics on floating-point numbers.
  \<^item> \<open>Xor\<close>: \<open>xor.cpp\<close>, the kernels that add rows of bytes, in the AVX2 and the 128-bit build. \<open>Kernel\<close> states
    what both builds promise as the locales \<open>xor_kernel\<close> and \<open>gather_kernel\<close> and interprets them on both.
  \<^item> \<open>Aes\<close>: \<open>AES.cpp\<close>, the key schedule and the encryptions, against FIPS-197.
  \<^item> \<open>Ggm\<close>: \<open>pset_ggm.cpp\<close>, pseudorandom sets that can be punctured: the leaves of a binary tree of keys.
  \<^item> \<open>Permute\<close>: \<open>permute.cpp\<close>, random permutations and their inverses.
  \<^item> \<open>Answer\<close>: \<open>answer.cpp\<close>, the two server answers, over any kernel.
  \<^item> \<open>SinglePass\<close>: \<open>pir_single_pass.go\<close> with the glue \<open>pset_ggm_c.go\<close>, the client and the server of the protocol.
    \<open>Protocol\<close> proves the offline phase and the query round for any kernel, \<open>Privacy\<close> what each server can learn.
  \<^item> \<open>Dynamic\<close>: \<open>dynamic_db.go\<close>, \<open>static_db.go\<close> and the client updates; sessions of a client and a server.
  \<^item> \<open>PuncSet\<close>: \<open>pset.go\<close> with its part of the glue, the generator that names pseudorandom sets by keys. What it
    relies on of the sets of trees is the locale \<open>base_generator\<close>, interpreted on the calls into \<open>pset_ggm.cpp\<close>.
  \<^item> \<open>Punc\<close>: \<open>pir_punc.go\<close>, client and server of the puncturable-set protocol. \<open>PuncProtocol\<close> proves its queries and
    sessions, \<open>PuncOffline\<close> its offline phase, for any kernel.
  \<^item> \<open>MatrixPir\<close>: \<open>pir_matrix.go\<close> and \<open>pir_non_private.go\<close>, the protocols that do not use the C library.
  \<^item> \<open>Reader\<close>: \<open>pir_reader.go\<close>, the reader of an application over a client and two servers. The interface \<open>Client\<close> of \<open>pir.go\<close> is a
    record of functions, and what the reader needs of it the locale \<open>pir_client\<close>, interpreted on the four protocols.

  \<^bold>\<open>How they interact.\<close> A hint request makes the server call \<open>answer_single_pass\<close>: it cuts the database into
  \<open>setSize\<close> chunks, draws a permutation of each with \<open>permute\<close>, and lets \<open>xor_single_pass\<close> add every row to the
  parity that its permutation assigns to it. A query sends one index per chunk to each server
  (\<open>Query\<close>), the servers copy the rows (\<open>query_process\<close> by \<open>xor_into\<close>), and the client adds them to its
  parity, keeps the result, and swaps entries of all its permutations (\<open>reconstruct\<close> by \<open>xor_all_rows\<close> and
  \<open>xor_into\<close>). Edits are logged by the server and replayed on the client's parities. In the
  puncturable-set protocol server and client both generate the sets of one key (\<open>sg_Gen\<close> by \<open>pset_ggm_eval\<close>, over
  \<open>encryptECBBlocks\<close>): the server sends the parity of each (\<open>XorBlocks\<close> by \<open>xor_rows\<close>), the client keeps the keys
  and, for every row, a pointer to a set with it. A query looks for such a set (\<open>pc_findIndex\<close>), draws a new set with the
  row from a private generator, and sends one punctured set to each server (\<open>pc_switch\<close>); a server evaluates it
  and adds the rows it stands for (\<open>FastAnswer\<close> by \<open>answer\<close>), and the client combines parity and answers (\<open>pc_reconstruct\<close>).

  \<^bold>\<open>State.\<close> C memory is a list per buffer, with offsets for pointers into it; an access outside it, or
  a misaligned one where the instruction needs alignment, is undefined, which is \<open>None\<close>. Memory that
  the C code has not written is an argument with any contents. Machine integers are words of their
  width. The records \<open>generator\<close>, \<open>AES\<close>, \<open>rng\<close>, \<open>client\<close>, \<open>SetGenerator\<close>, \<open>punc_client\<close>, \<open>static_db\<close>,
  \<open>dynamic_db\<close> are the structures of the sources.
  A panic of Go is \<open>None\<close>, a returned error the left of a sum. The random bytes of OpenSSL (\<open>RAND\<close>), the
  draws of \<open>rand.Intn\<close> (\<open>Intn\<close>) and \<open>Uint64\<close> (\<open>U64\<close>), and the keys read from \<open>rand.Rand\<close> (\<open>ReadKey\<close>) are functions of the number of calls; what is assumed
  of them is \<open>rand_ok\<close> (four bytes are four bytes), \<open>Intn_ok\<close> (a draw is below its bound) and, where the code samples by rejection,
  \<open>Intn_fair\<close> (every value comes up again and again). The AES cipher of the Go library is the \<open>fips197_encrypt\<close> of theory \<open>Aes\<close>.

  \<^bold>\<open>What the groups of lemmas show.\<close>

  \<^item> Kernels: both builds write the sum of the rows, stay inside their buffers, and agree; the exact
    condition under which \<open>xor_rows\<close> does not.
  \<^item> Intrinsics: the builds agree, the AES instructions are the rounds of FIPS-197, CRC-32C and carry-less
    products are the polynomial operations. Floating-point comparisons: where the builds agree and where a NaN,
    the two zeros or the ARMv7 text of the scalar equality make them differ. Floating-point arithmetic: the
    fused and the written-out texts agree, integers survive the conversion to double, and the rounding modes and the
    compensated dot product that are wrong.
  \<^item> AES: single-block and bulk encryption are AES-128, the counter mode counts, and the bulk MMO mode reads the first batch only.
  \<^item> Sets: evaluation writes the leaves, a punctured set evaluates to all other elements, the layout of the work space and its bounds.
  \<^item> Permutations: the result is a permutation for all random bytes, every permutation can come out, inverses invert.
  \<^item> Protocol: the invariant \<open>client_ok\<close> (permutations with their inverses, and parities that they define)
    holds after the offline phase, is kept by every query round, which returns the row asked for, and by
    every update; \<open>session_correct\<close> puts this together for all reachable states.
  \<^item> Privacy, as counting of random choices: the right server of the single-pass protocol receives every sequence of requests for
    the same number of choices of permutations and draws, the left server, which knows the permutations, for exactly one choice of draws,
    whatever rows are asked for; likewise each server of the matrix protocol. What this takes as given is that permutations and draws are
    uniform, which OpenSSL and \<open>rand.Rand\<close> only approximate.
  \<^item> Matrix protocol: the width is the least one, and every query returns its row.
  \<^item> Reader: after any reads, over any of the protocols, it returns the row of every index that the client holds.
  \<^item> Set generator: a key determines its set, puncturing takes out the chosen element and nothing else.
  \<^item> Puncturable-set protocol: the invariant \<open>punc_ok\<close> (hints are the parities of the sets that their keys stand for, pointers
    lead to a set with the index) holds after the offline phase and is kept by every query, which returns the row
    asked for when some set holds it; \<open>punc_session_correct\<close> says so of all reachable states. The rejection sampling ends
    when the set has another member, and never for sets of one member.

  \<^bold>\<open>Bounds and termination.\<close> No definition uses fuel: counted loops are folds, \<open>get_height\<close>, the shuffle and
  \<open>initState\<close> decrease a measure, and the probe loop of \<open>distinct\<close>, which need not end on a full table, is a
  partial function whose end is proved under the condition that holds in the code. So are the two unbounded loops of the Go code: the search
  for a counter with an acceptable set (\<open>sg_gen_loop\<close>), which ends at the first one (\<open>first_id\<close>), and the rejection sampling. The
  puncturable-set theorems take universes of at most \<open>2 ^ 31\<close> rows, above which the 32-bit sum of \<open>pset.go\<close> wraps around, and sets of at most
  \<open>2 ^ 26\<close> elements, which the work space holds; the counters of new sets stay below \<open>2 ^ 32 - 1\<close> (\<open>next_ok\<close>, \<open>enough_ids\<close>). The
  floating-point roots of the Go code are exact roots here, which agree for the sizes that a database can have. Go's
  \<open>int\<close> is unbounded here; the sizes it holds are lengths of slices. \<open>sizes_ok\<close> lists the products that must fit the C types.

  \<^bold>\<open>Not modelled.\<close> The intrinsics of \<open>sse2neon.h\<close> that are built on the reciprocal estimates of the hardware (\<open>rcp\<close>,
  \<open>rsqrt\<close>, division and root on ARMv7) and the ARMv7 texts that call \<open>fmax\<close> and \<open>fmin\<close>; rounding modes other than
  the default and the flushing of subnormals by the ARMv7 vector unit; allocation, prefetching and fences; the vendored headers
  \<open>gsl-lite.hpp\<close> and \<open>flat_hash_map.hpp\<close>; test programs; the protocol over the vendored DPF module and
  the dispatch of \<open>Init\<close> to it, a set generator in Go that no protocol uses, the
  network layer, drivers and commands. Two queries of one client that overlap, and a query between an
  edit and the update that follows it, are outside \<open>session\<close>: the code does not guard against them, and
  the closures of \<open>Query\<close> then work on permutations that have changed. The same holds of overlapping queries of a puncturable-set client.
\<close>

end
